(* ===== verification/Bitle_Prelude.thy ===== *)
theory Bitle_Prelude
  imports Main "HOL-Library.Word"
begin

text \<open>
  The vocabulary shared by every component theory: machine integer types, ESP-IDF result codes,
  big-endian integer fields, slot tables (fixed C arrays searched by a \<open>for\<close> loop) and
  the TLV walks of the wire formats. The firmware is C for a 32-bit target: \<open>uintN_t\<close> is
  an \<open>N word\<close>, a byte buffer together with its length is a byte list, and a fixed array of
  slots is a list whose length never changes.
\<close>

unbundle bit_operations_syntax

section \<open>Machine types and result codes\<close>

type_synonym u8 = "8 word"
type_synonym u16 = "16 word"
type_synonym u32 = "32 word"
type_synonym u64 = "64 word"
type_synonym bytes = "8 word list"

datatype esp_err =
    ESP_OK
  | ESP_FAIL
  | ESP_ERR_NO_MEM
  | ESP_ERR_INVALID_ARG
  | ESP_ERR_INVALID_STATE
  | ESP_ERR_NOT_FOUND
  | ESP_ERR_TIMEOUT

text \<open>
  \<open>be_simps\<close> collects the rewrite rules of big-endian fields, \<open>slot_simps\<close> those of
  slot tables.
\<close>

named_theorems be_simps
named_theorems slot_simps

section \<open>Words\<close>

lemma unat_less_256: "unat (x :: u8) < 256"
  using unsigned_less [of x, where 'a = nat] by simp

lemma unat_less_65536: "unat (x :: u16) < 65536"
  using unsigned_less [of x, where 'a = nat] by simp

lemma unat_ucast_up:
  assumes "LENGTH('b::len) \<le> LENGTH('a::len)"
  shows "unat (ucast (b :: 'b word) :: 'a word) = unat b"
proof -
  have "unat b < 2 ^ LENGTH('a)"
    by (rule less_le_trans [OF unsigned_less]) (simp add: assms)
  then show ?thesis by (simp add: unsigned_ucast_eq take_bit_nat_eq_self)
qed

lemma unat_of_nat_small:
  "n < 2 ^ LENGTH('a::len) \<Longrightarrow> unat (word_of_nat n :: 'a word) = n"
  by (simp add: unat_of_nat take_bit_nat_eq_self)

lemma and_mask_flag: "(if (f :: 'a::len word) AND 2 ^ n \<noteq> 0 then 2 ^ n else 0) = f AND 2 ^ n"
  by (rule bit_eqI) (auto simp: bit_simps bit_exp_iff and_exp_eq_0_iff_not_bit)

section \<open>Big-endian fields\<close>

text \<open>
  The source reads an \<open>n\<close>-byte field as \<open>value = (value << 8) | data[i]\<close>, and writes it
  as \<open>(value >> (i * 8)) & 0xFF\<close> for \<open>i\<close> from \<open>n - 1\<close> down to 0.
\<close>

definition be_val :: "bytes \<Rightarrow> 'a::len word" where
  "be_val bs = foldl (\<lambda>acc b. push_bit 8 acc OR ucast b) 0 bs"

definition be_enc :: "nat \<Rightarrow> 'a::len word \<Rightarrow> bytes" where
  "be_enc n w = map (\<lambda>i. ucast (drop_bit (8 * i) w)) (rev [0..<n])"

lemma be_val_Nil [be_simps]: "be_val [] = 0"
  by (simp add: be_val_def)

lemma be_val_snoc [be_simps]:
  "be_val (bs @ [b]) = (push_bit 8 (be_val bs) OR ucast b :: 'a::len word)"
  by (simp add: be_val_def)

lemma length_be_enc [simp, be_simps]: "length (be_enc n w) = n"
  by (simp add: be_enc_def)

lemma be_enc_0 [be_simps]: "be_enc 0 w = []"
  by (simp add: be_enc_def)

lemma be_enc_Suc [be_simps]: "be_enc (Suc n) w = be_enc n (drop_bit 8 w) @ [ucast w]"
proof -
  have "rev [0..<Suc n] = map Suc (rev [0..<n]) @ [0]"
    by (metis map_Suc_upt rev.simps(2) rev_map upt_conv_Cons zero_less_Suc)
  then show ?thesis by (simp add: be_enc_def ac_simps)
qed

lemma be_val_enc_take: "be_val (be_enc n w) = take_bit (8 * n) (w :: 'a::len word)"
proof (induction n arbitrary: w)
  case 0
  then show ?case by (simp add: be_simps)
next
  case (Suc n)
  show ?case
    by (rule bit_eqI) (auto simp: be_simps Suc bit_simps)
qed

lemma be_val_enc: "LENGTH('a) \<le> 8 * n \<Longrightarrow> be_val (be_enc n w) = (w :: 'a::len word)"
  by (simp add: be_val_enc_take take_bit_word_eq_self)

lemma be_val_enc_fields [simp]:
  "be_val (be_enc 2 (w :: u16)) = w" "be_val (be_enc 4 (v :: u32)) = v"
  "be_val (be_enc 8 (x :: u64)) = x"
  by (simp_all add: be_val_enc)

lemma bit_be_val_high: "8 * length bs \<le> n \<Longrightarrow> \<not> bit (be_val bs :: 'a::len word) n"
proof (induction bs arbitrary: n rule: rev_induct)
  case Nil
  then show ?case by (simp add: be_simps)
next
  case (snoc b bs)
  then show ?case by (auto simp: be_simps bit_simps dest: bit_imp_le_length)
qed

lemma be_enc_val:
  "8 * length bs \<le> LENGTH('a::len) \<Longrightarrow> be_enc (length bs) (be_val bs :: 'a word) = bs"
proof (induction bs rule: rev_induct)
  case Nil
  then show ?case by (simp add: be_simps)
next
  case (snoc b bs)
  let ?w = "be_val (bs @ [b]) :: 'a word"
  have high: "8 + n < LENGTH('a)" if "bit (be_val bs :: 'a word) n" for n
    using snoc.prems that bit_be_val_high [of bs n, where 'a = 'a] by force
  have "drop_bit 8 ?w = be_val bs"
    by (rule bit_eqI) (use high in \<open>auto simp: be_simps bit_simps dest: bit_imp_le_length\<close>)
  moreover have "ucast ?w = b"
    by (rule bit_eqI) (use snoc.prems in \<open>auto simp: be_simps bit_simps dest: bit_imp_le_length\<close>)
  ultimately show ?case using snoc by (simp add: be_simps)
qed

lemma be_enc_val_len:
  "length bs = n \<Longrightarrow> 8 * n \<le> LENGTH('a::len) \<Longrightarrow> be_enc n (be_val bs :: 'a word) = bs"
  using be_enc_val by blast

section \<open>Byte lists\<close>

text \<open>\<open>bslice off n xs\<close> is the \<open>n\<close> bytes at \<open>xs + off\<close>: what \<open>memcpy\<close> copies.\<close>

definition bslice :: "nat \<Rightarrow> nat \<Rightarrow> 'a list \<Rightarrow> 'a list" where
  "bslice off n xs = take n (drop off xs)"

lemma length_bslice [simp]: "length (bslice off n xs) = min n (length xs - off)"
  by (simp add: bslice_def)

lemma bslice_append_exact:
  "length pre = off \<Longrightarrow> length mid = n \<Longrightarrow> bslice off n (pre @ mid @ post) = mid"
  by (simp add: bslice_def)

lemma bslice_0 [simp]: "bslice 0 n xs = take n xs"
  by (simp add: bslice_def)

lemma bslice_empty [simp]: "bslice off 0 xs = []"
  by (simp add: bslice_def)

lemma nth_bslice: "i < n \<Longrightarrow> off + i < length xs \<Longrightarrow> bslice off n xs ! i = xs ! (off + i)"
  by (simp add: bslice_def)

lemma bslice_join: "bslice off m xs @ bslice (off + m) n xs = bslice off (m + n) xs"
  by (simp add: bslice_def take_add add.commute)

lemma take_bslice: "take off xs @ bslice off n xs = take (off + n) xs"
  by (simp add: bslice_def take_add)

lemma bslice_drop: "bslice off n (drop k xs) = bslice (k + off) n xs"
  by (simp add: bslice_def add.commute)

lemma bslice_list_update_other:
  "i < off \<or> off + n \<le> i \<Longrightarrow> bslice off n (xs[i := x]) = bslice off n xs"
  by (rule nth_equalityI) (auto simp: bslice_def nth_list_update)

lemma bslice_1: "i < length xs \<Longrightarrow> bslice i 1 xs = [xs ! i]"
  by (simp add: bslice_def take_Suc_conv_app_nth hd_drop_conv_nth take_Suc)

lemma take_3: "3 \<le> length xs \<Longrightarrow> take 3 xs = [xs ! 0, xs ! 1, xs ! 2]"
  by (rule nth_equalityI) (auto simp: nth_Cons' less_Suc_eq numeral_3_eq_3 numeral_2_eq_2)

section \<open>Slot tables\<close>

text \<open>
  The index a loop \<open>for (i = 0; i < N; ++i) if (P(slot[i])) return &slot[i]\<close> finds.
\<close>

fun find_index :: "('a \<Rightarrow> bool) \<Rightarrow> 'a list \<Rightarrow> nat option" where
  "find_index P [] = None"
| "find_index P (x # xs) = (if P x then Some 0 else map_option Suc (find_index P xs))"

lemma find_index_None [slot_simps]: "find_index P xs = None \<longleftrightarrow> (\<forall>x \<in> set xs. \<not> P x)"
  by (induction xs) auto

lemma find_index_Some:
  "find_index P xs = Some i \<longleftrightarrow> i < length xs \<and> P (xs ! i) \<and> (\<forall>j < i. \<not> P (xs ! j))"
proof (induction xs arbitrary: i)
  case (Cons x xs)
  show ?case using Cons by (cases i) (auto simp: less_Suc_eq_0_disj)
qed simp

lemma find_index_bound: "find_index P xs = Some i \<Longrightarrow> i < length xs"
  by (simp add: find_index_Some)

lemma find_index_sat: "find_index P xs = Some i \<Longrightarrow> P (xs ! i)"
  by (simp add: find_index_Some)

lemma find_index_exists: "x \<in> set xs \<Longrightarrow> P x \<Longrightarrow> \<exists>i. find_index P xs = Some i"
  by (cases "find_index P xs") (simp_all add: find_index_None)

lemma find_index_unique:
  assumes "i < length xs" "P (xs ! i)" "\<And>j. j < length xs \<Longrightarrow> P (xs ! j) \<Longrightarrow> j = i"
  shows "find_index P xs = Some i"
proof -
  have "\<not> P (xs ! j)" if "j < i" for j
    using assms(1) assms(3) [of j] that by auto
  then show ?thesis using assms(1,2) by (simp add: find_index_Some)
qed

lemma find_index_cong:
  assumes "length ys = length xs" "\<And>j. j < length xs \<Longrightarrow> P (ys ! j) = P (xs ! j)"
  shows "find_index P ys = find_index P xs"
  using assms
proof (induction ys xs rule: list_induct2)
  case (Cons y ys x xs)
  have "P y = P x" "\<And>j. j < length xs \<Longrightarrow> P (ys ! j) = P (xs ! j)"
    using Cons.prems [of 0] Cons.prems [of "Suc j" for j] by simp_all
  then show ?case using Cons.IH by simp
qed simp

text \<open>
  Keyed slots: \<open>used\<close> tells whether a slot is occupied, \<open>key\<close> what it holds; the usual
  search is for the slot of a key, or else the first free one.
\<close>

definition slots_uniq :: "('a \<Rightarrow> bool) \<Rightarrow> ('a \<Rightarrow> 'k) \<Rightarrow> 'a list \<Rightarrow> bool" where
  "slots_uniq used key xs \<longleftrightarrow> distinct (map key (filter used xs))"

definition find_slot :: "('a \<Rightarrow> bool) \<Rightarrow> ('a \<Rightarrow> 'k) \<Rightarrow> 'k \<Rightarrow> 'a list \<Rightarrow> nat option" where
  "find_slot used key k xs = find_index (\<lambda>x. used x \<and> key x = k) xs"

definition find_slot_or_free :: "('a \<Rightarrow> bool) \<Rightarrow> ('a \<Rightarrow> 'k) \<Rightarrow> 'k \<Rightarrow> 'a list \<Rightarrow> nat option" where
  "find_slot_or_free used key k xs =
     (case find_slot used key k xs of Some i \<Rightarrow> Some i
      | None \<Rightarrow> find_index (\<lambda>x. \<not> used x) xs)"

lemma nth_upd: "j < length xs \<Longrightarrow> xs[i := v] ! j = (if j = i then v else xs ! j)"
  by auto

lemma slots_uniq_Cons:
  "slots_uniq used key (x # xs) \<longleftrightarrow>
     (used x \<longrightarrow> (\<forall>y \<in> set xs. used y \<longrightarrow> key x \<noteq> key y)) \<and> slots_uniq used key xs"
  by (auto simp: slots_uniq_def)

lemma slots_uniq_nth:
  "slots_uniq used key xs \<longleftrightarrow>
     (\<forall>i < length xs. \<forall>j < length xs. used (xs ! i) \<longrightarrow> used (xs ! j) \<longrightarrow>
        key (xs ! i) = key (xs ! j) \<longrightarrow> i = j)" (is "_ \<longleftrightarrow> ?Q xs")
proof (induction xs)
  case (Cons x xs)
  have "?Q (x # xs) \<longleftrightarrow>
      (\<forall>j < length xs. used x \<longrightarrow> used (xs ! j) \<longrightarrow> key x \<noteq> key (xs ! j)) \<and> ?Q xs"
    unfolding list.size add_Suc_right add_0_right All_less_Suc2 
    by (simp add: all_conj_distrib imp_conjR, intro iffI; elim conjE; intro conjI; (assumption | metis))
  then show ?case unfolding slots_uniq_Cons Cons
    by (simp add: all_set_conv_all_nth, intro iffI; elim conjE; intro conjI; (assumption | metis))
qed (simp add: slots_uniq_def)

lemma find_slot_Some_uniq:
  assumes "slots_uniq used key xs"
  shows "find_slot used key k xs = Some i \<longleftrightarrow> i < length xs \<and> used (xs ! i) \<and> key (xs ! i) = k"
  using assms unfolding find_slot_def find_index_Some slots_uniq_nth
  by (metis dual_order.strict_trans less_irrefl_nat)

lemma find_slot_None: "find_slot used key k xs = None \<longleftrightarrow> (\<forall>x \<in> set xs. used x \<longrightarrow> key x \<noteq> k)"
  by (auto simp: find_slot_def find_index_None)

lemma find_slot_or_free_bound: "find_slot_or_free used key k xs = Some i \<Longrightarrow> i < length xs"
  by (auto simp: find_slot_or_free_def find_slot_def find_index_bound split: option.splits)

lemma find_slot_or_free_other:
  assumes "slots_uniq used key xs" "find_slot_or_free used key k xs = Some i"
    "j < length xs" "j \<noteq> i" "used (xs ! j)"
  shows "key (xs ! j) \<noteq> k"
proof (cases "find_slot used key k xs")
  case None
  then show ?thesis using assms(3,5) by (auto simp: find_slot_None)
next
  case (Some i')
  then show ?thesis using assms
    by (auto simp: find_slot_or_free_def find_slot_Some_uniq slots_uniq_nth)
qed

lemma find_slot_or_free_here:
  assumes "find_slot_or_free used key k xs = Some i" "used (xs ! i)"
  shows "key (xs ! i) = k"
  using assms find_index_sat [of "\<lambda>x. \<not> used x" xs i]
  by (auto simp: find_slot_or_free_def find_slot_def dest: find_index_sat split: option.splits)

lemma slots_uniq_put:
  assumes "slots_uniq used key xs" "find_slot_or_free used key (key v) xs = Some i"
  shows "slots_uniq used key (xs[i := v])"
  using assms find_slot_or_free_other [OF assms]
  by (auto simp: slots_uniq_nth nth_upd) metis+

lemma find_slot_eqI:
  assumes "slots_uniq used key xs" "slots_uniq used key ys" "length xs = length ys"
    "\<And>i. i < length xs \<Longrightarrow> used (xs ! i) \<and> key (xs ! i) = k \<longleftrightarrow> used (ys ! i) \<and> key (ys ! i) = k"
  shows "find_slot used key k xs = find_slot used key k ys"
proof (cases "find_slot used key k ys")
  case None
  then have "find_slot used key k xs = None"
    using assms(3,4) unfolding find_slot_None by (metis in_set_conv_nth)
  with None show ?thesis by simp
next
  case (Some i)
  then have "find_slot used key k xs = Some i"
    using assms(3) assms(4) [of i] by (simp add: find_slot_Some_uniq [OF assms(1)] find_slot_Some_uniq [OF assms(2)])
  with Some show ?thesis by simp
qed

lemma find_slot_put:
  assumes "slots_uniq used key xs" "find_slot_or_free used key (key v) xs = Some i" "used v"
  shows "find_slot used key k (xs[i := v]) = (if k = key v then Some i else find_slot used key k xs)"
proof (cases "k = key v")
  case True
  then show ?thesis
    using assms find_slot_or_free_bound [OF assms(2)]
    by (simp add: find_slot_Some_uniq [OF slots_uniq_put [OF assms(1,2)]])
next
  case False
  have "find_slot used key k (xs[i := v]) = find_slot used key k xs"
    by (rule find_slot_eqI [OF slots_uniq_put [OF assms(1,2)] assms(1)])
       (use False assms(3) find_slot_or_free_here [OF assms(2)] in \<open>auto simp: nth_upd\<close>)
  with False show ?thesis by simp
qed

lemma slots_uniq_clear:
  assumes "slots_uniq used key xs" "\<not> used v"
  shows "slots_uniq used key (xs[i := v])"
  using assms by (auto simp: slots_uniq_nth nth_upd)

lemma find_slot_clear:
  assumes "slots_uniq used key xs" "find_slot used key k xs = Some i" "\<not> used v"
  shows "find_slot used key k' (xs[i := v]) = (if k' = k then None else find_slot used key k' xs)"
proof (cases "k' = k")
  case True
  then show ?thesis using assms
    by (auto simp: find_slot_None find_slot_Some_uniq slots_uniq_nth in_set_conv_nth nth_upd)
       metis
next
  case False
  have "find_slot used key k' (xs[i := v]) = find_slot used key k' xs"
    by (rule find_slot_eqI [OF slots_uniq_clear assms(1)])
       (use False assms in \<open>auto simp: nth_upd find_slot_Some_uniq\<close>)
  with False show ?thesis by simp
qed

lemma find_slot_exists:
  "(\<exists>i. find_slot used key k xs = Some i) \<longleftrightarrow> k \<in> key ` {x \<in> set xs. used x}"
  using find_slot_None [of used key k xs] by (cases "find_slot used key k xs") auto

lemma find_slot_or_free_None:
  assumes "slots_uniq used key xs"
  shows "find_slot_or_free used key k xs = None \<longleftrightarrow>
    find_slot used key k xs = None \<and> card (key ` {x \<in> set xs. used x}) = length xs"
proof -
  have "card (key ` {x \<in> set xs. used x}) = length (filter used xs)"
    using assms distinct_card [of "map key (filter used xs)"] by (simp add: slots_uniq_def)
  moreover have "length (filter used xs) = length xs \<longleftrightarrow> (\<forall>x \<in> set xs. used x)"
    using length_filter_less [of _ xs used] by fastforce
  ultimately show ?thesis
    by (auto simp: find_slot_or_free_def find_index_None split: option.split)
qed

lemma slots_card_le:
  "slots_uniq used key xs \<Longrightarrow> card (key ` {x \<in> set xs. used x}) \<le> length xs"
  using distinct_card [of "map key (filter used xs)"] by (simp add: slots_uniq_def)

definition slot_value :: "('a \<Rightarrow> bool) \<Rightarrow> ('a \<Rightarrow> 'k) \<Rightarrow> 'k \<Rightarrow> 'a list \<Rightarrow> 'a option" where
  "slot_value used key k xs = map_option (\<lambda>i. xs ! i) (find_slot used key k xs)"

lemma slot_value_None: "slot_value used key k xs = None \<longleftrightarrow> find_slot used key k xs = None"
  by (simp add: slot_value_def)

lemma slot_value_Some:
  "slots_uniq used key xs \<Longrightarrow>
   slot_value used key k xs = Some x \<longleftrightarrow> x \<in> set xs \<and> used x \<and> key x = k"
  by (auto simp: slot_value_def find_slot_Some_uniq in_set_conv_nth)

lemma slot_value_put:
  assumes "slots_uniq used key xs" "find_slot_or_free used key (key v) xs = Some i" "used v"
  shows "slot_value used key k (xs[i := v]) = (if k = key v then Some v else slot_value used key k xs)"
proof (cases "k = key v \<or> find_slot used key k xs = None")
  case True
  then show ?thesis
    using find_slot_or_free_bound [OF assms(2)] by (auto simp: slot_value_def find_slot_put [OF assms])
next
  case False
  then obtain j where j: "find_slot used key k xs = Some j" by blast
  then have "j \<noteq> i"
    using False find_slot_or_free_here [OF assms(2)] by (auto simp: find_slot_Some_uniq [OF assms(1)])
  then show ?thesis using False j by (simp add: slot_value_def find_slot_put [OF assms])
qed

lemma slot_value_clear:
  assumes "slots_uniq used key xs" "find_slot used key k xs = Some i" "\<not> used v"
  shows "slot_value used key k' (xs[i := v]) = (if k' = k then None else slot_value used key k' xs)"
proof (cases "k' = k \<or> find_slot used key k' xs = None")
  case True
  then show ?thesis by (auto simp: slot_value_def find_slot_clear [OF assms])
next
  case False
  then obtain j where j: "find_slot used key k' xs = Some j" by blast
  then have "j \<noteq> i" using False assms(2) by (auto simp: find_slot_Some_uniq [OF assms(1)])
  then show ?thesis using False j by (simp add: slot_value_def find_slot_clear [OF assms])
qed

lemma slots_uniq_filter:
  "slots_uniq used key xs \<Longrightarrow> distinct (map key (filter P (filter used xs)))"
  unfolding slots_uniq_def by (rule distinct_map_filter)

lemma list_all_update: "list_all P xs \<Longrightarrow> P v \<Longrightarrow> list_all P (xs[i := v])"
  by (auto simp: list_all_iff dest!: subsetD [OF set_update_subset_insert])

lemma slots_uniq_upd:
  assumes "slots_uniq used key xs"
    "\<And>j. j < length xs \<Longrightarrow> j \<noteq> i \<Longrightarrow> used (xs ! j) \<Longrightarrow> key (xs ! j) \<noteq> key v"
  shows "slots_uniq used key (xs[i := v])"
  using assms by (auto simp: slots_uniq_nth nth_upd) metis+

lemma list_all_replicate [simp]: "list_all P (replicate n x) \<longleftrightarrow> n = 0 \<or> P x"
  by (induction n) auto

lemma map_le_add: "m \<subseteq>\<^sub>m n \<Longrightarrow> m ++ q \<subseteq>\<^sub>m n ++ q"
  by (fastforce simp: map_le_def map_add_def dom_def split: option.splits)

section \<open>Loops that may not return\<close>

text \<open>A loop over a list whose body may never return (\<open>None\<close>).\<close>

fun fold_opt :: "('a \<Rightarrow> 'b \<Rightarrow> 'b option) \<Rightarrow> 'a list \<Rightarrow> 'b \<Rightarrow> 'b option" where
  "fold_opt f [] b = Some b"
| "fold_opt f (x # xs) b = Option.bind (f x b) (fold_opt f xs)"

lemma fold_opt_append: "fold_opt f (xs @ ys) b = Option.bind (fold_opt f xs b) (fold_opt f ys)"
  by (induction xs arbitrary: b) (auto split: bind_split)

lemma fold_opt_inv:
  "(\<And>x b b'. x \<in> set xs \<Longrightarrow> P b \<Longrightarrow> f x b = Some b' \<Longrightarrow> P b') \<Longrightarrow> P b \<Longrightarrow> fold_opt f xs b = Some b' \<Longrightarrow> P b'"
  by (induction xs arbitrary: b) (auto split: bind_splits)

text \<open>The outputs of a machine run on a list of inputs.\<close>

fun run_outs :: "('e \<Rightarrow> 's \<Rightarrow> 's \<times> 'o) \<Rightarrow> 'e list \<Rightarrow> 's \<Rightarrow> 'o list" where
  "run_outs f [] s = []"
| "run_outs f (e # es) s = (case f e s of (s', x) \<Rightarrow> x # run_outs f es s')"

lemma run_outs_cong:
  "(\<And>e s. e \<in> set es \<Longrightarrow> f e s = g (h e) s) \<Longrightarrow> run_outs f es s = run_outs g (map h es) s"
  by (induction es arbitrary: s) (auto split: prod.splits)

text \<open>The bit mask of a reassembly buffer: all of the low bits, and one bit.\<close>

lemma mask_all_bits:
  assumes "n \<le> LENGTH('a::len)"
  shows "(m :: 'a word) AND (2 ^ n - 1) = 2 ^ n - 1 \<longleftrightarrow> (\<forall>j < n. bit m j)"
proof -
  have mask: "2 ^ n - 1 = (mask n :: 'a word)" by (simp add: mask_eq_decr_exp)
  show ?thesis unfolding mask
  proof
    assume e: "m AND mask n = mask n"
    show "\<forall>j < n. bit m j"
    proof (intro allI impI)
      fix j assume "j < n"
      then have "bit (m AND mask n) j" using assms by (simp add: e bit_mask_iff)
      then show "bit m j" by (simp add: bit_and_iff)
    qed
  next
    assume "\<forall>j < n. bit m j"
    then show "m AND mask n = mask n" by (intro bit_eqI) (auto simp: bit_and_iff bit_mask_iff)
  qed
qed

lemma bit_push_one: "bit (2 ^ i :: 'a::len word) j \<longleftrightarrow> i = j \<and> j < LENGTH('a)"
  by (auto simp: bit_exp_iff)

end
