(* ===== verification/Bitle_Hash.thy ===== *)
theory Bitle_Hash
  imports Bitle_Prelude
begin

text \<open>
  The hashing layer of \<open>main/bitle_hash.c\<close>: one-shot and streaming SHA-256 and RFC 2104
  HMAC. The PSA crypto service it calls is not part of the repository, so it is the parameter
  \<open>psa\<close>: the digest of a message, or \<open>None\<close> when any of the PSA calls on that message
  fails or produces a digest whose length is not 32. A streaming context is the message hashed so
  far, \<open>None\<close> once the operation was aborted.
\<close>

type_synonym psa_hash = "bytes \<Rightarrow> bytes option"

definition digest_or_ff :: "bytes option \<Rightarrow> bytes" where
  "digest_or_ff d = (case d of Some out \<Rightarrow> if length out = 32 then out else replicate 32 0xFF
                             | None \<Rightarrow> replicate 32 0xFF)"

definition bitle_sha256 :: "psa_hash \<Rightarrow> bytes \<Rightarrow> bytes" where
  "bitle_sha256 psa data = digest_or_ff (psa data)"

type_synonym sha256_ctx = "bytes option"

definition bitle_sha256_begin :: sha256_ctx where
  "bitle_sha256_begin = Some []"

definition bitle_sha256_update :: "sha256_ctx \<Rightarrow> bytes \<Rightarrow> sha256_ctx" where
  "bitle_sha256_update ctx data = (if data = [] then ctx else map_option (\<lambda>m. m @ data) ctx)"

definition bitle_sha256_finish :: "psa_hash \<Rightarrow> sha256_ctx \<Rightarrow> bytes" where
  "bitle_sha256_finish psa ctx =
     digest_or_ff (case ctx of Some m \<Rightarrow> psa m | None \<Rightarrow> None)"

definition bitle_sha256_abort :: "sha256_ctx \<Rightarrow> sha256_ctx" where
  "bitle_sha256_abort ctx = None"

definition xor_pad :: "u8 \<Rightarrow> bytes \<Rightarrow> bytes" where
  "xor_pad c key = map (\<lambda>i. if i < length key then c XOR key ! i else c) [0..<64]"

definition bitle_hmac_sha256 :: "psa_hash \<Rightarrow> bytes \<Rightarrow> bytes \<Rightarrow> bytes" where
  "bitle_hmac_sha256 psa key msg =
     (if length key > 64 then replicate 32 0xFF
      else
        let ctx = bitle_sha256_begin;
            ctx = bitle_sha256_update ctx (xor_pad 0x36 key);
            ctx = bitle_sha256_update ctx msg;
            inner = bitle_sha256_finish psa ctx;
            ctx = bitle_sha256_begin;
            ctx = bitle_sha256_update ctx (xor_pad 0x5C key);
            ctx = bitle_sha256_update ctx inner
        in bitle_sha256_finish psa ctx)"

section \<open>Start-up\<close>

definition ascii :: "string \<Rightarrow> bytes" where
  "ascii s = map (\<lambda>c. word_of_nat (of_char c)) s"

definition sha_kat :: bytes where
  "sha_kat = [0xba, 0x78, 0x16, 0xbf, 0x8f, 0x01, 0xcf, 0xea, 0x41, 0x41, 0x40, 0xde, 0x5d, 0xae, 0x22, 0x23,
              0xb0, 0x03, 0x61, 0xa3, 0x96, 0x17, 0x7a, 0x9c, 0xb4, 0x10, 0xff, 0x61, 0xf2, 0x00, 0x15, 0xad]"

definition hmac_kat :: bytes where
  "hmac_kat = [0x5b, 0xdc, 0xc1, 0x46, 0xbf, 0x60, 0x75, 0x4e, 0x6a, 0x04, 0x24, 0x26, 0x08, 0x95, 0x75, 0xc7,
               0x5a, 0x00, 0x3f, 0x08, 0x9d, 0x27, 0x39, 0x83, 0x9d, 0xec, 0x58, 0xb9, 0x64, 0xec, 0x38, 0x43]"

text \<open>\<open>psa_ok\<close> is whether \<open>psa_crypto_init\<close> succeeds.\<close>

definition bitle_hash_init :: "bool \<Rightarrow> psa_hash \<Rightarrow> esp_err" where
  "bitle_hash_init psa_ok psa =
     (if \<not> psa_ok then ESP_FAIL
      else if bitle_sha256 psa (ascii ''abc'') \<noteq> sha_kat then ESP_FAIL
      else if bitle_hmac_sha256 psa (ascii ''Jefe'') (ascii ''what do ya want for nothing?'') \<noteq> hmac_kat then ESP_FAIL
      else ESP_OK)"

section \<open>Facts\<close>

lemma length_digest_or_ff [simp]: "length (digest_or_ff d) = 32"
  by (simp add: digest_or_ff_def split: option.split)

lemma length_bitle_sha256 [simp]: "length (bitle_sha256 psa data) = 32"
  by (simp add: bitle_sha256_def)

lemma length_bitle_sha256_finish [simp]: "length (bitle_sha256_finish psa ctx) = 32"
  by (simp add: bitle_sha256_finish_def)

lemma length_xor_pad [simp]: "length (xor_pad c key) = 64"
  by (simp add: xor_pad_def)

lemma length_bitle_hmac_sha256 [simp]: "length (bitle_hmac_sha256 psa key msg) = 32"
  by (simp add: bitle_hmac_sha256_def Let_def)

lemma sha256_update_Some [simp]: "bitle_sha256_update (Some m) d = Some (m @ d)"
  by (simp add: bitle_sha256_update_def)

lemma sha256_begin_Some [simp]: "bitle_sha256_begin = Some []"
  by (simp add: bitle_sha256_begin_def)

lemma sha256_finish_Some [simp]: "bitle_sha256_finish psa (Some m) = bitle_sha256 psa m"
  by (simp add: bitle_sha256_finish_def bitle_sha256_def)

text \<open>The streaming interface computes the one-shot digest of the concatenated chunks.\<close>

lemma sha256_stream_chunks:
  "bitle_sha256_finish psa (foldl bitle_sha256_update bitle_sha256_begin chunks)
     = bitle_sha256 psa (concat chunks)"
proof -
  have "foldl bitle_sha256_update (Some m) chunks = Some (m @ concat chunks)" for m
    by (induction chunks arbitrary: m) simp_all
  then show ?thesis by simp
qed

lemma hmac_rfc2104:
  "length key \<le> 64 \<Longrightarrow>
   bitle_hmac_sha256 psa key msg =
     bitle_sha256 psa (xor_pad 0x5C key @ bitle_sha256 psa (xor_pad 0x36 key @ msg))"
  by (simp add: bitle_hmac_sha256_def)

end
