(* ===== verification/Packet_Codec.thy ===== *)
theory Packet_Codec
  imports Bitle_Hash "HOL-Library.Monad_Syntax"
begin

text \<open>
  The BitChat wire format of \<open>main/packet_codec.c\<close>: decoding (versions 1 and 2), encoding
  (version 1), and the relay fingerprint used for deduplication. The inflate library (miniz) and
  the heap are not part of the repository; they are the two fields of the parameter
  \<open>codec_env\<close>. \<open>tinfl zlib input cap\<close> is what \<open>tinfl_decompress\<close> returns: whether
  the status is DONE, the bytes produced and the number of input bytes consumed.
\<close>

section \<open>Packets\<close>

record packet =
  pk_version :: u8
  pk_type :: u8
  pk_ttl :: u8
  pk_timestamp_ms :: u64
  pk_sender_id :: bytes
  pk_recipient_id :: bytes
  pk_has_recipient :: bool
  pk_is_compressed :: bool
  pk_is_rsr :: bool
  pk_opaque_only :: bool
  pk_payload :: "bytes option"
  pk_payload_len :: u16
  pk_signature :: bytes
  pk_has_signature :: bool

definition zero_packet :: packet where
  "zero_packet = \<lparr> pk_version = 0, pk_type = 0, pk_ttl = 0, pk_timestamp_ms = 0,
     pk_sender_id = replicate 8 0, pk_recipient_id = replicate 8 0, pk_has_recipient = False,
     pk_is_compressed = False, pk_is_rsr = False, pk_opaque_only = False, pk_payload = None,
     pk_payload_len = 0, pk_signature = replicate 64 0, pk_has_signature = False \<rparr>"

definition BITCHAT_MSG_ANNOUNCE :: u8 where "BITCHAT_MSG_ANNOUNCE = 0x01"
definition BITCHAT_MSG_MESSAGE :: u8 where "BITCHAT_MSG_MESSAGE = 0x02"
definition BITCHAT_MSG_LEAVE :: u8 where "BITCHAT_MSG_LEAVE = 0x03"
definition BITCHAT_MSG_COURIER_ENVELOPE :: u8 where "BITCHAT_MSG_COURIER_ENVELOPE = 0x04"
definition BITCHAT_MSG_NOISE_HANDSHAKE :: u8 where "BITCHAT_MSG_NOISE_HANDSHAKE = 0x10"
definition BITCHAT_MSG_NOISE_ENCRYPTED :: u8 where "BITCHAT_MSG_NOISE_ENCRYPTED = 0x11"
definition BITCHAT_MSG_NOISE_IDENTITY_ANNOUNCE :: u8 where
  "BITCHAT_MSG_NOISE_IDENTITY_ANNOUNCE = 0x13"
definition BITCHAT_MSG_FRAGMENT :: u8 where "BITCHAT_MSG_FRAGMENT = 0x20"
definition BITCHAT_MSG_REQUEST_SYNC :: u8 where "BITCHAT_MSG_REQUEST_SYNC = 0x21"
definition BITCHAT_MSG_PREKEY_BUNDLE :: u8 where "BITCHAT_MSG_PREKEY_BUNDLE = 0x24"
definition BITCHAT_MSG_NODE_CAPABILITY :: u8 where "BITCHAT_MSG_NODE_CAPABILITY = 0x25"
definition BITCHAT_MSG_HBT_CAPABILITY :: u8 where "BITCHAT_MSG_HBT_CAPABILITY = 0x2A"
definition BITLE_MSG_OTA_MANIFEST :: u8 where "BITLE_MSG_OTA_MANIFEST = 0xA0"
definition BITLE_MSG_OTA_REQ :: u8 where "BITLE_MSG_OTA_REQ = 0xA1"
definition BITLE_MSG_OTA_CHUNK :: u8 where "BITLE_MSG_OTA_CHUNK = 0xA2"
definition BITLE_MSG_OTA_STATUS :: u8 where "BITLE_MSG_OTA_STATUS = 0xA3"

lemmas msg_type_defs =
  BITCHAT_MSG_ANNOUNCE_def BITCHAT_MSG_MESSAGE_def BITCHAT_MSG_LEAVE_def
  BITCHAT_MSG_COURIER_ENVELOPE_def BITCHAT_MSG_NOISE_HANDSHAKE_def
  BITCHAT_MSG_NOISE_ENCRYPTED_def BITCHAT_MSG_NOISE_IDENTITY_ANNOUNCE_def
  BITCHAT_MSG_FRAGMENT_def BITCHAT_MSG_REQUEST_SYNC_def BITCHAT_MSG_PREKEY_BUNDLE_def
  BITCHAT_MSG_NODE_CAPABILITY_def BITCHAT_MSG_HBT_CAPABILITY_def BITLE_MSG_OTA_MANIFEST_def BITLE_MSG_OTA_REQ_def
  BITLE_MSG_OTA_CHUNK_def BITLE_MSG_OTA_STATUS_def

section \<open>Inflating compressed payloads\<close>

record codec_env =
  tinfl :: "bool \<Rightarrow> bytes \<Rightarrow> nat \<Rightarrow> bool \<times> bytes \<times> nat"
  malloc_ok :: "nat \<Rightarrow> bool"

definition inflate_payload_mode :: "codec_env \<Rightarrow> bytes \<Rightarrow> nat \<Rightarrow> bool \<Rightarrow> bytes option" where
  "inflate_payload_mode env input out_len parse_zlib =
     (if \<not> malloc_ok env out_len then None
      else case tinfl env parse_zlib input out_len of
        (done_status, out, consumed) \<Rightarrow>
          if \<not> done_status \<or> length out \<noteq> out_len \<or> consumed \<noteq> length input then None
          else Some out)"

definition looks_zlib :: "bytes \<Rightarrow> bool" where
  "looks_zlib input \<longleftrightarrow> length input \<ge> 2 \<and> input ! 0 AND 0x0f = 8 \<and>
     (be_val (take 2 input) :: u16) mod 31 = 0"

definition inflate_payload :: "codec_env \<Rightarrow> bytes \<Rightarrow> nat \<Rightarrow> bytes option" where
  "inflate_payload env input out_len =
     (let out = (if looks_zlib input then inflate_payload_mode env input out_len True else None)
      in case out of Some o' \<Rightarrow> Some o'
                   | None \<Rightarrow> inflate_payload_mode env input out_len False)"

section \<open>Reading fields\<close>

text \<open>
  A read returns the value, the new offset and the new \<open>ok\<close> flag; a read past the end
  returns 0, does not advance and clears \<open>ok\<close>.
\<close>

definition read_be :: "nat \<Rightarrow> bytes \<Rightarrow> nat \<Rightarrow> bool \<Rightarrow> 'a::len word \<times> nat \<times> bool" where
  "read_be n data offset ok =
     (if offset + n > length data then (0, offset, False)
      else (be_val (bslice offset n data), offset + n, ok))"

definition read_u8 :: "bytes \<Rightarrow> nat \<Rightarrow> bool \<Rightarrow> u8 \<times> nat \<times> bool" where
  "read_u8 data offset ok =
     (if offset + 1 > length data then (0, offset, False)
      else (data ! offset, offset + 1, ok))"

definition read_u16_be :: "bytes \<Rightarrow> nat \<Rightarrow> bool \<Rightarrow> u16 \<times> nat \<times> bool" where
  "read_u16_be = read_be 2"

definition read_u32_be :: "bytes \<Rightarrow> nat \<Rightarrow> bool \<Rightarrow> u32 \<times> nat \<times> bool" where
  "read_u32_be = read_be 4"

definition read_u64_be :: "bytes \<Rightarrow> nat \<Rightarrow> bool \<Rightarrow> u64 \<times> nat \<times> bool" where
  "read_u64_be = read_be 8"

section \<open>Decoding\<close>

record wire_header =
  wh_version :: u8
  wh_type :: u8
  wh_ttl :: u8
  wh_timestamp_ms :: u64
  wh_flags :: u8
  wh_payload_len :: u32
  wh_sender_id :: bytes

text \<open>The fixed header, up to and including the sender id; also returns the offset after it.\<close>

definition decode_header :: "bytes \<Rightarrow> (wire_header \<times> nat) option" where
  "decode_header data =
     (let (version, off1, ok1) = read_u8 data 0 True;
          (typ, off2, ok2) = read_u8 data off1 ok1;
          (ttl, off3, ok3) = read_u8 data off2 ok2;
          (ts, off4, ok4) = read_u64_be data off3 ok3;
          (flags, off5, ok5) = read_u8 data off4 ok4;
          (payload_len, off6, ok6) =
            (if version = 1 then (case read_u16_be data off5 ok5 of (v, o', k) \<Rightarrow> (ucast v, o', k))
             else if version = 2 then read_u32_be data off5 ok5
             else (0, off5, False))
      in if \<not> ok6 \<or> payload_len > 65535 then None
         else if off6 + 8 > length data then None
         else Some (\<lparr> wh_version = version, wh_type = typ, wh_ttl = ttl, wh_timestamp_ms = ts,
                      wh_flags = flags, wh_payload_len = payload_len,
                      wh_sender_id = bslice off6 8 data \<rparr>, off6 + 8))"

definition decode_recipient :: "bytes \<Rightarrow> u8 \<Rightarrow> nat \<Rightarrow> (bool \<times> bytes \<times> nat) option" where
  "decode_recipient data flags offset =
     (if flags AND 0x01 \<noteq> 0 then
        (if offset + 8 > length data then None
         else Some (True, bslice offset 8 data, offset + 8))
      else Some (False, replicate 8 0, offset))"

definition decode_route :: "bytes \<Rightarrow> u8 \<Rightarrow> u8 \<Rightarrow> nat \<Rightarrow> nat option" where
  "decode_route data version flags offset =
     (if version = 2 \<and> flags AND 0x08 \<noteq> 0 then
        (case read_u8 data offset True of (route_count, off', ok) \<Rightarrow>
           let route_len = unat route_count * 8
           in if \<not> ok \<or> route_len > length data - off' then None else Some (off' + route_len))
      else Some offset)"

text \<open>The payload as carried, then inflated when the compressed flag is set on a v1 packet.\<close>

definition decode_payload ::
  "codec_env \<Rightarrow> bytes \<Rightarrow> u32 \<Rightarrow> nat \<Rightarrow> bytes option option" where
  "decode_payload env data payload_len offset =
     (if offset + unat payload_len > length data then None
      else if payload_len > 0 then
        (if \<not> malloc_ok env (unat payload_len) then None
         else Some (Some (bslice offset (unat payload_len) data)))
      else Some None)"

definition decode_compressed ::
  "codec_env \<Rightarrow> bool \<Rightarrow> bool \<Rightarrow> u32 \<Rightarrow> bytes option \<Rightarrow> (bytes option \<times> u16 \<times> bool) option" where
  "decode_compressed env is_compressed opaque_only payload_len payload =
     (if is_compressed \<and> \<not> opaque_only \<and> payload_len > 2 then
        (let p = the payload;
             original_len = be_val (take 2 p) :: u16
         in if original_len > 0 then
              (case inflate_payload env (drop 2 p) (unat original_len) of
                 Some inflated \<Rightarrow> Some (Some inflated, original_len, False)
               | None \<Rightarrow> None)
            else None)
      else if is_compressed \<and> \<not> opaque_only then None
      else Some (payload, ucast payload_len, is_compressed))"

definition decode_signature :: "bytes \<Rightarrow> u8 \<Rightarrow> nat \<Rightarrow> (bool \<times> bytes \<times> nat) option" where
  "decode_signature data flags offset =
     (if flags AND 0x02 \<noteq> 0 then
        (if offset + 64 > length data then None
         else Some (True, bslice offset 64 data, offset + 64))
      else Some (False, replicate 64 0, offset))"

definition padding_ok :: "bytes \<Rightarrow> nat \<Rightarrow> bool" where
  "padding_ok data offset \<longleftrightarrow>
     (offset < length data \<longrightarrow>
        (let padding_len = length data - offset;
             padding = last data
         in padding \<noteq> 0 \<and> unat padding = padding_len \<and>
            list_all (\<lambda>b. b = padding) (drop offset data)))"

definition bitchat_packet_decode :: "codec_env \<Rightarrow> bytes \<Rightarrow> packet option" where
  "bitchat_packet_decode env data =
     (if data = [] then None else do {
        (h, off1) \<leftarrow> decode_header data;
        let flags = wh_flags h;
        let opaque_only = (wh_version h = 2);
        let compressed = (flags AND 0x04 \<noteq> 0);
        (has_rcpt, rcpt, off2) \<leftarrow> decode_recipient data flags off1;
        off3 \<leftarrow> decode_route data (wh_version h) flags off2;
        carried \<leftarrow> decode_payload env data (wh_payload_len h) off3;
        let off4 = off3 + unat (wh_payload_len h);
        (payload, plen, still_compressed) \<leftarrow>
          decode_compressed env compressed opaque_only (wh_payload_len h) carried;
        (has_sig, sig, off5) \<leftarrow> decode_signature data flags off4;
        if padding_ok data off5 then
          Some \<lparr> pk_version = wh_version h, pk_type = wh_type h, pk_ttl = wh_ttl h,
                 pk_timestamp_ms = wh_timestamp_ms h, pk_sender_id = wh_sender_id h,
                 pk_recipient_id = rcpt, pk_has_recipient = has_rcpt,
                 pk_is_compressed = still_compressed, pk_is_rsr = (flags AND 0x10 \<noteq> 0),
                 pk_opaque_only = opaque_only, pk_payload = payload, pk_payload_len = plen,
                 pk_signature = sig, pk_has_signature = has_sig \<rparr>
        else None
      })"

section \<open>Encoding\<close>

definition encode_flags :: "packet \<Rightarrow> u8" where
  "encode_flags p =
     (if pk_has_recipient p then 0x01 else 0) OR
     (if pk_has_signature p then 0x02 else 0) OR
     (if pk_is_rsr p then 0x10 else 0)"

definition encoded_len :: "packet \<Rightarrow> nat" where
  "encoded_len p = (22 + (if pk_has_recipient p then 8 else 0)) + unat (pk_payload_len p)
     + (if pk_has_signature p then 64 else 0)"

definition bitchat_packet_encode :: "packet \<Rightarrow> nat \<Rightarrow> bytes option" where
  "bitchat_packet_encode p max_len =
     (if pk_version p \<noteq> 1 then None
      else if encoded_len p > max_len then None
      else if pk_payload_len p > 0 \<and> pk_payload p = None then None
      else Some (
        [pk_version p, pk_type p, pk_ttl p] @ be_enc 8 (pk_timestamp_ms p) @ [encode_flags p] @
        be_enc 2 (pk_payload_len p) @ take 8 (pk_sender_id p) @
        (if pk_has_recipient p then take 8 (pk_recipient_id p) else []) @
        (if pk_payload_len p > 0 then take (unat (pk_payload_len p)) (the (pk_payload p)) else []) @
        (if pk_has_signature p then take 64 (pk_signature p) else [])))"

section \<open>Relay fingerprint\<close>

definition relay_header :: "bytes \<Rightarrow> (nat \<times> nat) option" where
  "relay_header data =
     (let version = data ! 0 in
      if version = 1 then Some (22, unat (be_val (bslice 12 2 data) :: u16))
      else if version = 2 \<and> length data \<ge> 24 then Some (24, unat (be_val (bslice 12 4 data) :: u32))
      else None)"

definition relay_route :: "bytes \<Rightarrow> nat \<Rightarrow> nat option" where
  "relay_route data wire_len =
     (if data ! 0 = 2 \<and> data ! 11 AND 0x08 \<noteq> 0 then
        (if wire_len \<ge> length data then None
         else let route_len = 1 + unat (data ! wire_len) * 8
              in if route_len > length data - wire_len then None
                 else Some (wire_len + route_len))
      else Some wire_len)"

definition relay_wire_opt :: "bytes \<Rightarrow> nat option" where
  "relay_wire_opt data =
     (if length data < 22 then None else do {
        (header_len, payload_len) \<leftarrow> relay_header data;
        let flags = data ! 11;
        wire_len \<leftarrow> relay_route data (header_len + (if flags AND 0x01 \<noteq> 0 then 8 else 0));
        let trailer_len = (if flags AND 0x02 \<noteq> 0 then 64 else 0);
        if wire_len > length data then None
        else if payload_len > length data - wire_len \<or>
                trailer_len > length data - wire_len - payload_len then None
        else Some (wire_len + payload_len + trailer_len)
      })"

text \<open>The C function returns 0 where the length cannot be determined.\<close>

definition relay_wire_len :: "bytes \<Rightarrow> nat" where
  "relay_wire_len data = (case relay_wire_opt data of None \<Rightarrow> 0 | Some n \<Rightarrow> n)"

text \<open>The chunks fed to the streaming hash, in order.\<close>

definition relay_chunks :: "bytes \<Rightarrow> nat \<Rightarrow> bytes list" where
  "relay_chunks data canonical_len =
     [take 2 data, [0], bslice 3 8 data, [data ! 11 AND NOT 0x10]] @
     (if canonical_len > 12 then [bslice 12 (canonical_len - 12) data] else [])"

definition bitchat_relay_fingerprint :: "psa_hash \<Rightarrow> bytes \<Rightarrow> bytes option" where
  "bitchat_relay_fingerprint psa data =
     (let canonical_len = relay_wire_len data
      in if canonical_len < 12 then None
         else Some (take 16 (bitle_sha256_finish psa
                (foldl bitle_sha256_update bitle_sha256_begin (relay_chunks data canonical_len)))))"

definition relay_preimage :: "bytes \<Rightarrow> nat \<Rightarrow> bytes" where
  "relay_preimage data canonical_len = concat (relay_chunks data canonical_len)"

lemma relay_preimage_unfold:
  "relay_preimage data canonical_len =
     take 2 data @ [0] @ bslice 3 8 data @ [data ! 11 AND NOT 0x10] @
     (if canonical_len > 12 then bslice 12 (canonical_len - 12) data else [])"
  by (simp add: relay_preimage_def relay_chunks_def)

lemma relay_fingerprint_unfold:
  "bitchat_relay_fingerprint psa data =
     (let canonical_len = relay_wire_len data
      in if canonical_len < 12 then None
         else Some (take 16 (bitle_sha256 psa (relay_preimage data canonical_len))))"
  unfolding bitchat_relay_fingerprint_def sha256_stream_chunks relay_preimage_def ..

section \<open>Well-formed packets and the round trip\<close>

definition pkt_wf :: "packet \<Rightarrow> bool" where
  "pkt_wf p \<longleftrightarrow> length (pk_sender_id p) = 8 \<and> length (pk_recipient_id p) = 8 \<and>
     length (pk_signature p) = 64 \<and>
     (pk_payload p = None \<longleftrightarrow> pk_payload_len p = 0) \<and>
     (\<forall>bs. pk_payload p = Some bs \<longrightarrow> length bs = unat (pk_payload_len p)) \<and>
     (\<not> pk_has_recipient p \<longrightarrow> pk_recipient_id p = replicate 8 0) \<and>
     (\<not> pk_has_signature p \<longrightarrow> pk_signature p = replicate 64 0)"

definition pkt_v1_plain :: "packet \<Rightarrow> bool" where
  "pkt_v1_plain p \<longleftrightarrow> pk_version p = 1 \<and> \<not> pk_is_compressed p \<and> \<not> pk_opaque_only p"

lemma encode_flags_bits:
  "encode_flags p AND 0x01 \<noteq> 0 \<longleftrightarrow> pk_has_recipient p"
  "encode_flags p AND 0x02 \<noteq> 0 \<longleftrightarrow> pk_has_signature p"
  "encode_flags p AND 0x04 = 0"
  "encode_flags p AND 0x08 = 0"
  "encode_flags p AND 0x10 \<noteq> 0 \<longleftrightarrow> pk_is_rsr p"
  by (simp_all add: encode_flags_def)

lemma decode_header_v1:
  assumes "data = [1, t, l] @ be_enc 8 ts @ [fl] @ be_enc 2 plen @ snd' @ rest"
    and "length snd' = 8"
  shows "decode_header data = Some (\<lparr> wh_version = 1, wh_type = t, wh_ttl = l,
     wh_timestamp_ms = ts, wh_flags = fl, wh_payload_len = ucast (plen :: u16),
     wh_sender_id = snd' \<rparr>, 22)"
proof -
  have len: "length data = 22 + length rest" using assms by simp
  have le: "\<not> (ucast plen > (65535 :: u32))"
    using unat_less_65536 [of plen] by (simp add: word_less_nat_alt unat_ucast_up)
  show ?thesis
    using assms(2) le
    by (simp add: assms(1) decode_header_def read_u8_def read_u16_be_def read_u64_be_def
        read_be_def bslice_def nth_append)
qed


lemma padding_ok_replicate:
  assumes "k < 256"
  shows "padding_ok (bs @ replicate k (word_of_nat k)) (length bs)"
  using assms by (auto simp: padding_ok_def Let_def unat_of_nat_small last_replicate list_all_iff
      word_of_nat_eq_0_iff dest: dvd_imp_le)

definition wire_body :: "packet \<Rightarrow> bytes" where
  "wire_body p = (if pk_has_recipient p then pk_recipient_id p else []) @
     (case pk_payload p of None \<Rightarrow> [] | Some bs \<Rightarrow> bs) @
     (if pk_has_signature p then pk_signature p else [])"

lemma encode_layout:
  assumes "pkt_wf p" "bitchat_packet_encode p max_len = Some bs"
  shows "bs = [1, pk_type p, pk_ttl p] @ be_enc 8 (pk_timestamp_ms p) @ [encode_flags p] @
     be_enc 2 (pk_payload_len p) @ pk_sender_id p @ wire_body p"
  using assms
  by (cases "pk_payload p")
     (auto simp: bitchat_packet_encode_def pkt_wf_def wire_body_def word_greater_zero_iff split: if_splits)

lemma length_wire_body:
  "pkt_wf p \<Longrightarrow> 22 + length (wire_body p) = encoded_len p"
  by (cases "pk_payload p") (auto simp: wire_body_def pkt_wf_def encoded_len_def)

lemma length_encode:
  assumes "pkt_wf p" "bitchat_packet_encode p max_len = Some bs"
  shows "length bs = encoded_len p"
proof -
  have "length bs = 22 + length (wire_body p)"
    using assms(1) by (subst encode_layout [OF assms]) (simp add: pkt_wf_def)
  then show ?thesis by (simp add: length_wire_body assms(1))
qed

lemma ucast_u16_pos [simp]: "(0 :: u32) < ucast (w :: u16) \<longleftrightarrow> 0 < w"
  by (simp add: word_less_nat_alt unat_ucast_up)

lemma ucast_u16_eq_0 [simp]: "(ucast (w :: u16) :: u32) = 0 \<longleftrightarrow> w = 0"
  using unat_ucast_up [of w, where 'a = 32] by (auto simp: unsigned_eq_0_iff)

lemma ucast_ucast_u16 [simp]: "ucast (ucast (w :: u16) :: u32) = w"
  by (rule bit_eqI) (auto simp: bit_simps dest: bit_imp_le_length)

lemma encode_decode_padded:
  assumes wf: "pkt_wf p" and v1: "pkt_v1_plain p"
    and enc: "bitchat_packet_encode p max_len = Some bs"
    and mem: "malloc_ok env (unat (pk_payload_len p))"
    and k: "k < 256"
  shows "bitchat_packet_decode env (bs @ replicate k (word_of_nat k)) = Some p"
proof -
  define pad :: bytes where "pad = replicate k (word_of_nat k)"
  define hdr where "hdr = [1, pk_type p, pk_ttl p] @ be_enc 8 (pk_timestamp_ms p) @
     [encode_flags p] @ be_enc 2 (pk_payload_len p) @ pk_sender_id p"
  define rcpt where "rcpt = (if pk_has_recipient p then pk_recipient_id p else [])"
  define body where "body = (case pk_payload p of None \<Rightarrow> [] | Some b \<Rightarrow> b)"
  define sig where "sig = (if pk_has_signature p then pk_signature p else [])"
  have bs: "bs = hdr @ rcpt @ body @ sig"
    using encode_layout [OF wf enc] by (simp add: hdr_def wire_body_def rcpt_def body_def sig_def)
  have l22: "length hdr = 22" using wf by (simp add: hdr_def pkt_wf_def)
  have lbody: "length body = unat (pk_payload_len p)"
    using wf by (cases "pk_payload p") (auto simp: pkt_wf_def body_def)
  have hdr: "decode_header (bs @ pad) = Some (\<lparr> wh_version = 1, wh_type = pk_type p,
     wh_ttl = pk_ttl p, wh_timestamp_ms = pk_timestamp_ms p, wh_flags = encode_flags p,
     wh_payload_len = ucast (pk_payload_len p), wh_sender_id = pk_sender_id p \<rparr>, 22)"
    by (rule decode_header_v1 [where rest = "rcpt @ body @ sig @ pad"])
       (use wf in \<open>simp_all add: pkt_wf_def bs hdr_def\<close>)
  have rc: "decode_recipient (bs @ pad) (encode_flags p) 22 =
      Some (pk_has_recipient p, pk_recipient_id p, 22 + length rcpt)"
    using wf l22 by (simp add: decode_recipient_def encode_flags_bits bs rcpt_def pkt_wf_def bslice_def)
  have "bslice (22 + length rcpt) (unat (pk_payload_len p)) (bs @ pad) = body"
    using bslice_append_exact [of "hdr @ rcpt" "22 + length rcpt" body] l22 lbody by (simp add: bs)
  then have pl: "decode_payload env (bs @ pad) (ucast (pk_payload_len p)) (22 + length rcpt) =
      Some (pk_payload p)"
    using wf l22 mem lbody
    by (cases "pk_payload p")
       (auto simp: decode_payload_def bs pkt_wf_def unat_ucast_up body_def word_greater_zero_iff)
  have "bslice (22 + length rcpt + length body) (length sig) (bs @ pad) = sig"
    using bslice_append_exact [of "hdr @ rcpt @ body" "22 + length rcpt + length body" sig] l22
    by (simp add: bs)
  then have sg: "decode_signature (bs @ pad) (encode_flags p) (22 + length rcpt + length body) =
      Some (pk_has_signature p, pk_signature p, length bs)"
    using wf l22 by (auto simp: decode_signature_def encode_flags_bits bs sig_def pkt_wf_def)
  show ?thesis
    using v1 hdr rc pl sg padding_ok_replicate [OF k, of bs] lbody bs l22 
    by (auto simp: bitchat_packet_decode_def decode_route_def decode_compressed_def
         encode_flags_bits pkt_v1_plain_def unat_ucast_up simp flip: pad_def intro!: packet.equality)
qed

lemma decode_headerE:
  assumes "decode_header data = Some (h, off)"
  shows "off \<le> length data" "wh_version h = data ! 0" "wh_type h = data ! 1" "wh_ttl h = data ! 2"
    "wh_timestamp_ms h = be_val (bslice 3 8 data)" "wh_flags h = data ! 11"
    "wh_sender_id h = bslice (off - 8) 8 data"
    "(data ! 0 = 1 \<and> off = 22 \<and> wh_payload_len h = ucast (be_val (bslice 12 2 data) :: u16)) \<or>
     (data ! 0 = 2 \<and> off = 24 \<and> wh_payload_len h = be_val (bslice 12 4 data))"
    "wh_payload_len h \<le> 65535"
  using assms
  by (auto simp: decode_header_def read_u8_def read_u16_be_def read_u32_be_def read_u64_be_def
      read_be_def Let_def not_less numeral_2_eq_2 numeral_3_eq_3 split: if_splits)

lemma unat_le_65535: "(w :: u32) \<le> 65535 \<Longrightarrow> unat w < 65536"
  by (simp add: word_le_nat_alt)

lemma decode_recipient_off:
  "decode_recipient data flags off = Some (b, r, off') \<Longrightarrow> off \<le> length data \<Longrightarrow>
   off' = off + (if flags AND 1 \<noteq> 0 then 8 else 0) \<and> off' \<le> length data"
  by (auto simp: decode_recipient_def split: if_splits)

lemma decode_route_off:
  "decode_route data v flags off = Some off' \<Longrightarrow> off \<le> length data \<Longrightarrow>
   (if v = 2 \<and> flags AND 8 \<noteq> 0
    then off < length data \<and> off' = off + (1 + unat (data ! off) * 8) else off' = off) \<and>
   off' \<le> length data"
  by (auto simp: decode_route_def read_u8_def Let_def split: if_splits)

lemma decode_payload_off:
  "decode_payload env data n off = Some c \<Longrightarrow> off + unat n \<le> length data"
  by (auto simp: decode_payload_def split: if_splits)

lemma decode_signature_off:
  "decode_signature data flags off = Some (b, s, off') \<Longrightarrow> off \<le> length data \<Longrightarrow>
   off' = off + (if flags AND 2 \<noteq> 0 then 64 else 0) \<and> off' \<le> length data"
  by (auto simp: decode_signature_def split: if_splits)

text \<open>Every decodable packet has a well-defined wire length, and only padding follows it.\<close>

lemma decodeE:
  assumes "bitchat_packet_decode env data = Some p"
  obtains h off1 off2 off3 off4 off5 carried where
    "decode_header data = Some (h, off1)"
    "decode_recipient data (wh_flags h) off1 = Some (pk_has_recipient p, pk_recipient_id p, off2)"
    "decode_route data (wh_version h) (wh_flags h) off2 = Some off3"
    "decode_payload env data (wh_payload_len h) off3 = Some carried"
    "off4 = off3 + unat (wh_payload_len h)"
    "decode_compressed env (wh_flags h AND 4 \<noteq> 0) (wh_version h = 2) (wh_payload_len h) carried
       = Some (pk_payload p, pk_payload_len p, pk_is_compressed p)"
    "decode_signature data (wh_flags h) off4 = Some (pk_has_signature p, pk_signature p, off5)"
    "padding_ok data off5"
    "pk_version p = wh_version h" "pk_type p = wh_type h" "pk_ttl p = wh_ttl h"
    "pk_timestamp_ms p = wh_timestamp_ms h" "pk_sender_id p = wh_sender_id h"
    "pk_is_rsr p \<longleftrightarrow> wh_flags h AND 0x10 \<noteq> 0" "pk_opaque_only p \<longleftrightarrow> wh_version h = 2"
  using assms
  by (auto simp: bitchat_packet_decode_def Let_def bind_eq_Some_conv split: if_split_asm)

lemma relay_wire_optD:
  assumes "relay_wire_opt data = Some n"
  obtains hl pl wl where "22 \<le> length data" "relay_header data = Some (hl, pl)"
    "relay_route data (hl + (if data ! 11 AND 0x01 \<noteq> 0 then 8 else 0)) = Some wl"
    "n = wl + pl + (if data ! 11 AND 0x02 \<noteq> 0 then 64 else 0)" "n \<le> length data"
  using assms
  by (auto simp: relay_wire_opt_def bind_eq_Some_conv Let_def split: if_split_asm)

lemma relay_wire_optI:
  assumes "22 \<le> length data" "relay_header data = Some (hl, pl)"
    "relay_route data (hl + (if data ! 11 AND 0x01 \<noteq> 0 then 8 else 0)) = Some wl"
    "n = wl + pl + (if data ! 11 AND 0x02 \<noteq> 0 then 64 else 0)" "n \<le> length data"
  shows "relay_wire_opt data = Some n"
proof -
  define tr :: nat where "tr = (if data ! 11 AND 0x02 \<noteq> 0 then 64 else 0)"
  have "\<not> wl > length data" "\<not> (pl > length data - wl \<or> tr > length data - wl - pl)"
    "n = wl + pl + tr"
    using assms(4,5) by (auto simp flip: tr_def)
  then show ?thesis
    using assms(1-3) by (simp add: relay_wire_opt_def Let_def flip: tr_def)
qed

lemma relay_wire_len_Some: "relay_wire_opt data = Some n \<Longrightarrow> relay_wire_len data = n"
  by (simp add: relay_wire_len_def)

lemma relay_header_len: "relay_header data = Some (hl, pl) \<Longrightarrow> 22 \<le> hl"
  by (auto simp: relay_header_def Let_def split: if_split_asm)

lemma relay_route_ge: "relay_route data off = Some wl \<Longrightarrow> off \<le> wl"
  by (auto simp: relay_route_def Let_def split: if_split_asm)

lemma relay_wire_opt_bounds:
  assumes "relay_wire_opt data = Some n"
  shows "22 \<le> n" "n \<le> length data"
  using assms by (auto elim!: relay_wire_optD dest!: relay_header_len relay_route_ge)

lemma decode_stages_wire_opt:
  assumes h: "decode_header data = Some (h, off1)"
    and r: "decode_recipient data (wh_flags h) off1 = Some (has_rcpt, rcpt, off2)"
    and rt: "decode_route data (wh_version h) (wh_flags h) off2 = Some off3"
    and pl: "decode_payload env data (wh_payload_len h) off3 = Some carried"
    and off4: "off4 = off3 + unat (wh_payload_len h)"
    and sg: "decode_signature data (wh_flags h) off4 = Some (has_sig, sig, off5)"
  shows "relay_wire_opt data = Some off5"
proof -
  note hd = decode_headerE [OF h]
  have len: "22 \<le> length data" using hd(1,8) by auto
  have hdr: "relay_header data = Some (off1, unat (wh_payload_len h))"
    using hd(1,8) by (auto simp: relay_header_def Let_def unat_ucast_up)
  note o2 = decode_recipient_off [OF r hd(1)]
  note o3 = decode_route_off [OF rt conjunct2 [OF o2]]
  note o4 = decode_payload_off [OF pl, folded off4]
  note o5 = decode_signature_off [OF sg o4]
  have rr: "relay_route data off2 = Some off3"
    using o3 hd(2,6) by (auto simp: relay_route_def Let_def split: if_split_asm)
  show "relay_wire_opt data = Some off5"
    by (rule relay_wire_optI [OF len hdr]) (use rr o2 o5 off4 hd(6) in auto)
qed

lemma decode_wire_opt:
  assumes "bitchat_packet_decode env data = Some p"
  shows "\<exists>n. relay_wire_opt data = Some n \<and> padding_ok data n"
  using assms by (rule decodeE) (blast dest: decode_stages_wire_opt)

subsection \<open>The fingerprint ignores exactly the TTL byte, the RSR bit and the padding\<close>

definition with_rsr :: "u8 \<Rightarrow> bool \<Rightarrow> u8" where
  "with_rsr f rsr = (f AND NOT 0x10) OR (if rsr then 0x10 else 0)"

definition set_ttl_rsr :: "u8 \<Rightarrow> bool \<Rightarrow> bytes \<Rightarrow> bytes" where
  "set_ttl_rsr t rsr data = data[2 := t, 11 := with_rsr (data ! 11) rsr]"

lemma length_set_ttl_rsr [simp]: "length (set_ttl_rsr t rsr data) = length data"
  by (simp add: set_ttl_rsr_def)

lemma with_rsr_and [simp]:
  "with_rsr f rsr AND 0x01 = f AND 0x01" "with_rsr f rsr AND 0x02 = f AND 0x02"
  "with_rsr f rsr AND 0x08 = f AND 0x08" "with_rsr f rsr AND - 17 = f AND - 17"
  "with_rsr f False = f AND - 17"
  by (simp_all add: with_rsr_def bit.conj_disj_distrib2 and.assoc)

lemma set_ttl_rsr_nth:
  "i \<noteq> 2 \<Longrightarrow> i \<noteq> 11 \<Longrightarrow> set_ttl_rsr t rsr data ! i = data ! i"
  "11 < length data \<Longrightarrow> set_ttl_rsr t rsr data ! 11 = with_rsr (data ! 11) rsr"
  by (simp_all add: set_ttl_rsr_def)

lemma set_ttl_rsr_bslice:
  "12 \<le> off \<Longrightarrow> bslice off n (set_ttl_rsr t rsr data) = bslice off n data"
  "3 \<le> off \<Longrightarrow> off + n \<le> 11 \<Longrightarrow> bslice off n (set_ttl_rsr t rsr data) = bslice off n data"
  by (simp_all add: set_ttl_rsr_def bslice_list_update_other)

lemma take_set_ttl_rsr: "12 \<le> n \<Longrightarrow> take n (set_ttl_rsr t rsr data) = set_ttl_rsr t rsr (take n data)"
  by (simp add: set_ttl_rsr_def take_update_swap)

lemma with_rsr_twice [simp]: "with_rsr (with_rsr f r) r' = with_rsr f r'"
  by (simp add: with_rsr_def bit.conj_disj_distrib2 and.assoc)

lemma set_ttl_rsr_twice:
  "12 \<le> length data \<Longrightarrow> set_ttl_rsr t rsr (set_ttl_rsr t' rsr' data) = set_ttl_rsr t rsr data"
  by (simp add: set_ttl_rsr_def list_update_swap [of 11 2])

lemma four_pow: "2 ^ 4 = (0x10 :: u8)"
  by simp

lemma with_rsr_id: "with_rsr f (f AND 0x10 \<noteq> 0) = f"
proof -
  have "with_rsr f (f AND 0x10 \<noteq> 0) = (f AND NOT 0x10) OR (f AND 0x10)"
    using and_mask_flag [of f 4] unfolding with_rsr_def by (simp only: four_pow)
  also have "\<dots> = f AND (NOT 0x10 OR 0x10)" by (simp only: bit.conj_disj_distrib)
  finally show ?thesis by simp
qed

lemma set_ttl_rsr_id: "set_ttl_rsr (y ! 2) (y ! 11 AND 0x10 \<noteq> 0) y = y"
  by (simp add: set_ttl_rsr_def with_rsr_id)

lemma relay_route_set_ttl_rsr:
  "11 < length data \<Longrightarrow> 11 < off \<Longrightarrow> relay_route (set_ttl_rsr t rsr data) off = relay_route data off"
  by (simp add: relay_route_def set_ttl_rsr_nth)

lemma relay_wire_opt_set_ttl_rsr:
  "relay_wire_opt (set_ttl_rsr t rsr data) = relay_wire_opt data"
proof (cases "length data < 22")
  case True
  then show ?thesis by (simp add: relay_wire_opt_def)
next
  case False
  have hdr: "relay_header (set_ttl_rsr t rsr data) = relay_header data"
    by (simp add: relay_header_def Let_def set_ttl_rsr_nth set_ttl_rsr_bslice)
  show ?thesis
  proof (cases "relay_header data")
    case None
    then show ?thesis by (simp add: relay_wire_opt_def hdr)
  next
    case (Some x)
    obtain hl pl where "relay_header data = Some (hl, pl)" using Some by (cases x) simp
    then show ?thesis using False relay_header_len [of data hl pl]
      by (simp add: relay_wire_opt_def hdr relay_route_set_ttl_rsr set_ttl_rsr_nth cong: if_cong)
  qed
qed

lemma relay_wire_opt_prefix:
  assumes n: "relay_wire_opt data = Some n" and pre: "take n data' = take n data"
    and len: "n \<le> length data'"
  shows "relay_wire_opt data' = Some n"
  using n
proof (rule relay_wire_optD)
  fix hl pl wl
  assume h: "relay_header data = Some (hl, pl)"
    and r: "relay_route data (hl + (if data ! 11 AND 0x01 \<noteq> 0 then 8 else 0)) = Some wl"
    and nn: "n = wl + pl + (if data ! 11 AND 0x02 \<noteq> 0 then 64 else 0)"
  note bnd = relay_wire_opt_bounds [OF n]
  have nth: "data' ! i = data ! i" if "i < n" for i
    using pre that by (metis nth_take)
  have sl: "bslice off k data' = bslice off k data" if "off + k \<le> n" for off k
  proof -
    have "take (k + off) (take n data') = take (k + off) (take n data)" by (simp add: pre)
    then show ?thesis using that by (simp add: bslice_def take_drop min_def add.commute)
  qed
  have "24 \<le> n" if "data ! 0 = 2"
    using that h r nn relay_route_ge [OF r] by (auto simp: relay_header_def Let_def split: if_split_asm)
  then have h': "relay_header data' = Some (hl, pl)"
    using h bnd len by (auto simp: relay_header_def Let_def nth sl split: if_split_asm)
  have "relay_route data' off = Some wl" if off: "relay_route data off = Some wl" for off
  proof -
    have "data' ! 0 = data ! 0" "data' ! 11 = data ! 11" using bnd by (simp_all add: nth)
    then show ?thesis
      using off bnd len nn by (auto simp: relay_route_def Let_def nth split: if_split_asm)
  qed
  then show ?thesis
    by (intro relay_wire_optI [OF _ h']) (use bnd len r nn in \<open>auto simp: nth\<close>)
qed

definition relay_canon :: "bytes \<Rightarrow> bytes" where
  "relay_canon data = set_ttl_rsr 0 False (take (relay_wire_len data) data)"

lemma relay_preimage_canon:
  assumes "22 \<le> n" "n \<le> length data"
  shows "relay_preimage data n = set_ttl_rsr 0 False (take n data)"
proof -
  have "relay_preimage data n ! i = set_ttl_rsr 0 False (take n data) ! i" if "i < n" for i
  proof -
    consider "i < 2" | "i = 2" | j where "i = 3 + j" "j < 8" | "i = 11" | j where "i = 12 + j"
    proof -
      assume a: "i < 2 \<Longrightarrow> thesis" "i = 2 \<Longrightarrow> thesis" "\<And>j. i = 3 + j \<Longrightarrow> j < 8 \<Longrightarrow> thesis"
        "i = 11 \<Longrightarrow> thesis" "\<And>j. i = 12 + j \<Longrightarrow> thesis"
      show thesis using a(1,2,4) a(3) [of "i - 3"] a(5) [of "i - 12"] by fastforce
    qed
    then show ?thesis
      using assms that
      by cases (auto simp: relay_preimage_unfold set_ttl_rsr_def nth_append nth_bslice nth_list_update
          nth_Cons')
  qed
  moreover have "length (relay_preimage data n) = n"
    using assms by (simp add: relay_preimage_unfold)
  ultimately show ?thesis
    using assms by (intro nth_equalityI) simp_all
qed

lemma fingerprint_canon:
  assumes "bitchat_packet_decode env data = Some p"
  shows "bitchat_relay_fingerprint psa data = Some (take 16 (bitle_sha256 psa (relay_canon data)))"
proof -
  obtain n where n: "relay_wire_opt data = Some n" using decode_wire_opt [OF assms] by blast
  note b = relay_wire_opt_bounds [OF n]
  show ?thesis
    using relay_preimage_canon [OF b] b
    by (simp add: relay_fingerprint_unfold relay_canon_def relay_wire_len_Some [OF n])
qed

lemma fingerprint_hop_invariant:
  assumes "bitchat_packet_decode env data = Some p"
  shows "bitchat_relay_fingerprint psa (set_ttl_rsr t rsr data) = bitchat_relay_fingerprint psa data"
    and "relay_wire_len data \<le> m \<Longrightarrow>
         bitchat_relay_fingerprint psa (take m data) = bitchat_relay_fingerprint psa data"
proof -
  obtain n where n: "relay_wire_opt data = Some n" using decode_wire_opt [OF assms] by blast
  note b = relay_wire_opt_bounds [OF n]
  have n': "relay_wire_opt (set_ttl_rsr t rsr data) = Some n"
    by (simp add: relay_wire_opt_set_ttl_rsr n)
  have "relay_preimage (set_ttl_rsr t rsr data) n = relay_preimage data n"
    using b by (simp add: relay_preimage_canon) (simp add: set_ttl_rsr_def take_update_swap list_update_swap [of 11 2])
  then show "bitchat_relay_fingerprint psa (set_ttl_rsr t rsr data) = bitchat_relay_fingerprint psa data"
    by (simp add: relay_fingerprint_unfold relay_wire_len_Some [OF n] relay_wire_len_Some [OF n'])
  show "bitchat_relay_fingerprint psa (take m data) = bitchat_relay_fingerprint psa data"
    if m: "relay_wire_len data \<le> m"
  proof -
    have mn: "n \<le> m" using m by (simp add: relay_wire_len_Some [OF n])
    have n'': "relay_wire_opt (take m data) = Some n"
      by (rule relay_wire_opt_prefix [OF n]) (use mn b in \<open>simp_all add: min_def\<close>)
    have "relay_preimage (take m data) n = relay_preimage data n"
      using b mn by (simp add: relay_preimage_canon min_def)
    then show ?thesis
      by (simp add: relay_fingerprint_unfold relay_wire_len_Some [OF n] relay_wire_len_Some [OF n''])
  qed
qed

subsection \<open>Decoded packets are well formed\<close>

lemma decode_payload_wf:
  assumes "decode_payload env data n off = Some c" "n \<le> 65535"
  shows "c = None \<longleftrightarrow> n = 0" "c = Some bs \<Longrightarrow> length bs = unat n \<and> bs = bslice off (unat n) data"
  using assms by (auto simp: decode_payload_def word_greater_zero_iff split: if_split_asm)

lemma inflate_payload_length:
  "inflate_payload env input n = Some out \<Longrightarrow> length out = n"
  by (auto simp: inflate_payload_def inflate_payload_mode_def Let_def
      split: option.splits if_split_asm prod.splits)

lemma unat_ucast_u32_u16: "(n :: u32) \<le> 65535 \<Longrightarrow> unat (ucast n :: u16) = unat n"
  by (simp add: unsigned_ucast_eq take_bit_nat_eq_self word_le_nat_alt)

lemma decode_compressed_wf:
  assumes "decode_compressed env cmp opq n c = Some (pl, plen, cmp')"
    and "n \<le> 65535" and "c = None \<longleftrightarrow> n = 0" and "\<And>bs. c = Some bs \<Longrightarrow> length bs = unat n"
  shows "pl = None \<longleftrightarrow> plen = 0" "pl = Some bs \<Longrightarrow> length bs = unat plen" "\<not> opq \<Longrightarrow> \<not> cmp'"
    "\<not> cmp \<Longrightarrow> pl = c \<and> plen = ucast n \<and> \<not> cmp'"
proof -
  have e: "(ucast n :: u16) = 0 \<longleftrightarrow> n = 0"
    using unat_ucast_u32_u16 [OF assms(2)] by (metis unsigned_eq_0_iff)
  show "pl = None \<longleftrightarrow> plen = 0" "pl = Some bs \<Longrightarrow> length bs = unat plen" "\<not> opq \<Longrightarrow> \<not> cmp'"
    "\<not> cmp \<Longrightarrow> pl = c \<and> plen = ucast n \<and> \<not> cmp'"
    using assms e
    by (auto simp: decode_compressed_def Let_def unat_ucast_u32_u16 dest: inflate_payload_length
        split: if_split_asm option.splits)
qed

lemma decode_recipient_wf:
  "decode_recipient data f off = Some (b, r, off') \<Longrightarrow> length r = 8 \<and> (\<not> b \<longrightarrow> r = replicate 8 0)"
  by (auto simp: decode_recipient_def split: if_split_asm)

lemma decode_signature_wf:
  "decode_signature data f off = Some (b, s, off') \<Longrightarrow> length s = 64 \<and> (\<not> b \<longrightarrow> s = replicate 64 0)"
  by (auto simp: decode_signature_def split: if_split_asm)

lemma decode_wf:
  assumes "bitchat_packet_decode env data = Some p"
  shows "pkt_wf p" "\<not> pk_opaque_only p \<Longrightarrow> \<not> pk_is_compressed p"
proof -
  have "pkt_wf p \<and> (\<not> pk_opaque_only p \<longrightarrow> \<not> pk_is_compressed p)"
    using assms
  proof (rule decodeE)
    fix h off1 off2 off3 off4 off5 carried
    assume h: "decode_header data = Some (h, off1)"
      and r: "decode_recipient data (wh_flags h) off1 =
                Some (pk_has_recipient p, pk_recipient_id p, off2)"
      and pl: "decode_payload env data (wh_payload_len h) off3 = Some carried"
      and cp: "decode_compressed env (wh_flags h AND 4 \<noteq> 0) (wh_version h = 2) (wh_payload_len h)
                 carried = Some (pk_payload p, pk_payload_len p, pk_is_compressed p)"
      and sg: "decode_signature data (wh_flags h) off4 =
                 Some (pk_has_signature p, pk_signature p, off5)"
      and ids: "pk_sender_id p = wh_sender_id h" "pk_opaque_only p \<longleftrightarrow> wh_version h = 2"
    note hd = decode_headerE [OF h]
    note w = decode_payload_wf [OF pl hd(9)]
    note c = decode_compressed_wf [OF cp hd(9) w(1) conjunct1 [OF w(2)]]
    have "length (pk_sender_id p) = 8" using ids hd(1,7,8) by auto
    moreover note decode_recipient_wf [OF r] decode_signature_wf [OF sg]
    ultimately show ?thesis using c ids(2) unfolding pkt_wf_def by blast
  qed
  then show "pkt_wf p" "\<not> pk_opaque_only p \<Longrightarrow> \<not> pk_is_compressed p" by blast+
qed

lemma encode_Some:
  assumes "pkt_wf p" "pk_version p = 1" "encoded_len p \<le> max_len"
  shows "bitchat_packet_encode p max_len = Some ([1, pk_type p, pk_ttl p] @
     be_enc 8 (pk_timestamp_ms p) @ [encode_flags p] @ be_enc 2 (pk_payload_len p) @
     pk_sender_id p @ wire_body p)"
  using assms
  by (cases "pk_payload p")
     (auto simp: bitchat_packet_encode_def pkt_wf_def wire_body_def word_greater_zero_iff)

lemma plain_flags:
  assumes f: "f AND 0x13 = f"
    and "pk_has_recipient p \<longleftrightarrow> f AND 0x01 \<noteq> 0" "pk_has_signature p \<longleftrightarrow> f AND 0x02 \<noteq> 0"
    and "pk_is_rsr p \<longleftrightarrow> f AND 0x10 \<noteq> 0"
  shows "encode_flags p = f" "f AND 0x04 = 0" "f AND 0x08 = 0"
proof -
  have "encode_flags p = (f AND 1) OR (f AND 2) OR (f AND 0x10)"
    using and_mask_flag [of f 0] and_mask_flag [of f 1] and_mask_flag [of f 4]
    unfolding encode_flags_def assms(2-4) by (simp only: power_0 power_one_right four_pow)
  also have "\<dots> = f AND (1 OR 2 OR 0x10)" by (simp only: bit.conj_disj_distrib)
  finally show "encode_flags p = f" using f by simp
  have "(f AND 0x13) AND 0x04 = 0" "(f AND 0x13) AND 0x08 = 0" by (simp_all add: and.assoc)
  then show "f AND 0x04 = 0" "f AND 0x08 = 0" by (simp_all add: f)
qed

lemma v1_fields_join:
  assumes "22 \<le> n"
  shows "take 3 xs @ bslice 3 8 xs @ bslice 11 1 xs @ bslice 12 2 xs @ bslice 14 8 xs @
     bslice 22 (n - 22) xs = take n xs"
proof -
  obtain m where "n = 22 + m" using assms le_Suc_ex by blast
  then show ?thesis
    using bslice_join [of 14 8 xs m] bslice_join [of 12 2 xs "8 + m"]
      bslice_join [of 11 1 xs "10 + m"] bslice_join [of 3 8 xs "11 + m"] take_bslice [of 3 xs "19 + m"]
    by simp
qed

text \<open>
  Re-encoding a decoded v1 packet whose flags the encoder knows gives back the received bytes,
  up to the padding.
\<close>

lemma decode_encode_exact:
  assumes d: "bitchat_packet_decode env data = Some p"
    and v: "data ! 0 = 1" and f: "data ! 11 AND 0x13 = data ! 11"
  shows "bitchat_packet_encode p (length data) = Some (take (relay_wire_len data) data)"
  using d
proof (rule decodeE)
  fix h off1 off2 off3 off4 off5 carried
  assume h: "decode_header data = Some (h, off1)"
    and r: "decode_recipient data (wh_flags h) off1 = Some (pk_has_recipient p, pk_recipient_id p, off2)"
    and rt: "decode_route data (wh_version h) (wh_flags h) off2 = Some off3"
    and pl: "decode_payload env data (wh_payload_len h) off3 = Some carried"
    and off4: "off4 = off3 + unat (wh_payload_len h)"
    and cp: "decode_compressed env (wh_flags h AND 4 \<noteq> 0) (wh_version h = 2) (wh_payload_len h)
                 carried = Some (pk_payload p, pk_payload_len p, pk_is_compressed p)"
    and sg: "decode_signature data (wh_flags h) off4 = Some (pk_has_signature p, pk_signature p, off5)"
    and flds: "pk_version p = wh_version h" "pk_type p = wh_type h" "pk_ttl p = wh_ttl h"
      "pk_timestamp_ms p = wh_timestamp_ms h" "pk_sender_id p = wh_sender_id h"
      "pk_is_rsr p \<longleftrightarrow> wh_flags h AND 0x10 \<noteq> 0"
  note hd = decode_headerE [OF h]
  have off1: "off1 = 22" and plen: "wh_payload_len h = ucast (be_val (bslice 12 2 data) :: u16)"
    using hd(8) v by auto
  have sgb: "pk_has_signature p \<longleftrightarrow> wh_flags h AND 0x02 \<noteq> 0"
    and rcb: "pk_has_recipient p \<longleftrightarrow> wh_flags h AND 0x01 \<noteq> 0"
    using sg r by (auto simp: decode_signature_def decode_recipient_def split: if_split_asm)
  note fl = plain_flags [OF f rcb [unfolded hd(6)] sgb [unfolded hd(6)] flds(6) [unfolded hd(6)]]
  note w = decode_payload_wf [OF pl hd(9)]
  note c = decode_compressed_wf(4) [OF cp hd(9) w(1) conjunct1 [OF w(2)]]
  have c': "pk_payload p = carried" "pk_payload_len p = be_val (bslice 12 2 data)"
    using c fl hd(6) by (simp_all add: plen)
  have o23: "off3 = off2" using rt v hd(2) by (simp add: decode_route_def)
  have o2: "(if pk_has_recipient p then pk_recipient_id p else []) = bslice 22 (off2 - 22) data" "22 \<le> off2" "off2 \<le> length data"
    using r hd(1) by (auto simp: decode_recipient_def off1 split: if_split_asm)
  have o4: "(case pk_payload p of None \<Rightarrow> [] | Some b \<Rightarrow> b) = bslice off2 (off4 - off2) data" "off2 \<le> off4" "off4 \<le> length data"
    using w decode_payload_off [OF pl] by (auto simp: c' off4 o23 split: option.splits)
  have o5: "(if pk_has_signature p then pk_signature p else []) = bslice off4 (off5 - off4) data" "off4 \<le> off5" "off5 \<le> length data"
    using sg o4 by (auto simp: decode_signature_def split: if_split_asm)
  have wb: "wire_body p = bslice 22 (off5 - 22) data"
    using bslice_join [of 22 "off2 - 22" data "off5 - off2"]
      bslice_join [of off2 "off4 - off2" data "off5 - off4"] o2 o4 o5
    unfolding wire_body_def by simp
  note n = decode_stages_wire_opt [OF h r rt pl off4 sg]
  note wf = decode_wf(1) [OF d]
  have el: "encoded_len p = off5" using length_wire_body [OF wf] wb o2 o4 o5 by simp
  have o522: "22 \<le> off5" using o2 o4 o5 by simp
  have l: "22 \<le> length data" using hd(1) off1 by simp
  have "[1, pk_type p, pk_ttl p] = take 3 data" 
    using l v hd(3,4) flds(2,3) by (simp add: take_3)
  moreover have "be_enc 8 (pk_timestamp_ms p) = bslice 3 8 data"
    using l by (simp add: flds hd(5) be_enc_val_len)
  moreover have "[encode_flags p] = bslice 11 1 data" using l by (simp only: fl(1)) (simp add: bslice_1 [symmetric])
  moreover have "be_enc 2 (pk_payload_len p) = bslice 12 2 data"
    using l by (simp add: c' be_enc_val_len)
  moreover have "pk_sender_id p = bslice 14 8 data" using hd(7) by (simp add: flds off1)
  ultimately have "[1, pk_type p, pk_ttl p] @
     be_enc 8 (pk_timestamp_ms p) @ [encode_flags p] @ be_enc 2 (pk_payload_len p) @
     pk_sender_id p @ wire_body p = take off5 data"
    using v1_fields_join [OF o522, of data] by (simp only: wb)
  then show ?thesis
    using encode_Some [OF wf, of "length data"] flds(1) v hd(2) el o5 by (simp add: relay_wire_len_Some [OF n])
qed

lemma decode_versions:
  assumes "bitchat_packet_decode env data = Some p"
  shows "pk_version p = 1 \<or> pk_version p = 2" "pk_version p = 1 \<longrightarrow> \<not> pk_is_compressed p"
proof -
  have "(pk_version p = 1 \<or> pk_version p = 2) \<and> (pk_opaque_only p \<longleftrightarrow> pk_version p = 2)"
    using assms by (rule decodeE) (use decode_headerE(2,8) in \<open>metis (no_types)\<close>)
  then show "pk_version p = 1 \<or> pk_version p = 2" "pk_version p = 1 \<longrightarrow> \<not> pk_is_compressed p"
    using decode_wf(2) [OF assms] by auto
qed

lemma fingerprint_hop:
  assumes d: "bitchat_packet_decode env data = Some p" and m: "relay_wire_len data \<le> m"
  shows "bitchat_relay_fingerprint psa (set_ttl_rsr t rsr (take m data)) =
     bitchat_relay_fingerprint psa data"
proof -
  obtain n where n: "relay_wire_opt data = Some n" using decode_wire_opt [OF d] by blast
  note b = relay_wire_opt_bounds [OF n]
  have mn: "n \<le> m" using m by (simp add: relay_wire_len_Some [OF n])
  have n': "relay_wire_opt (set_ttl_rsr t rsr (take m data)) = Some n"
    unfolding relay_wire_opt_set_ttl_rsr
    by (rule relay_wire_opt_prefix [OF n]) (use mn b in \<open>simp_all add: min_def\<close>)
  have "relay_preimage (set_ttl_rsr t rsr (take m data)) n = relay_preimage data n"
    using b mn
    by (simp add: relay_preimage_canon take_set_ttl_rsr min_def set_ttl_rsr_twice)
  then show ?thesis
    by (simp add: relay_fingerprint_unfold relay_wire_len_Some [OF n] relay_wire_len_Some [OF n'])
qed

lemma relay_canon_eq:
  assumes "bitchat_packet_decode env data = Some p" "bitchat_packet_decode env data' = Some p'"
  shows "relay_canon data = relay_canon data' \<longleftrightarrow>
      (\<exists>t rsr. take (relay_wire_len data') data' =
         set_ttl_rsr t rsr (take (relay_wire_len data) data))"
proof -
  have l: "22 \<le> length (take (relay_wire_len d) d)" if "bitchat_packet_decode env d = Some q" for d q
    using decode_wire_opt [OF that] relay_wire_opt_bounds [of d] by (force simp: relay_wire_len_def)
  have "set_ttl_rsr 0 False x = set_ttl_rsr 0 False y \<longleftrightarrow> (\<exists>t rsr. y = set_ttl_rsr t rsr x)"
    if x: "22 \<le> length x" and y: "22 \<le> length y" for x y :: bytes
  proof
    assume e: "set_ttl_rsr 0 False x = set_ttl_rsr 0 False y"
    have "y = set_ttl_rsr (y ! 2) (y ! 11 AND 0x10 \<noteq> 0) y" by (rule set_ttl_rsr_id [symmetric])
    also have "\<dots> = set_ttl_rsr (y ! 2) (y ! 11 AND 0x10 \<noteq> 0) (set_ttl_rsr 0 False y)"
      using y by (simp add: set_ttl_rsr_twice)
    also have "\<dots> = set_ttl_rsr (y ! 2) (y ! 11 AND 0x10 \<noteq> 0) x"
      using x by (simp add: e [symmetric] set_ttl_rsr_twice)
    finally show "\<exists>t rsr. y = set_ttl_rsr t rsr x" by blast
  qed (use x in \<open>auto simp: set_ttl_rsr_twice\<close>)
  then show ?thesis
    using l [OF assms(1)] l [OF assms(2)] unfolding relay_canon_def by blast
qed

subsection \<open>Rewriting the TTL byte\<close>

lemma drop_update_low: "i < n \<Longrightarrow> drop n (xs[i := x]) = drop n xs"
  by simp

lemma decode_header_ttl:
  assumes "decode_header data = Some (h, off)"
  shows "decode_header (data[2 := t]) = Some (h \<lparr> wh_ttl := t \<rparr>, off)"
proof -
  have l: "22 \<le> length data" using decode_headerE(1,8) [OF assms] by auto
  have b: "bslice o' n (data[2 := t]) = bslice o' n data" if "3 \<le> o'" for o' n
    using that by (intro bslice_list_update_other) simp
  have n: "data[2 := t] ! i = (if i = 2 then t else data ! i)" for i using l by simp
  have s: "Suc (Suc 0) = 2" "Suc 2 = 3" by simp_all
  show ?thesis
    using assms l
    unfolding decode_header_def read_u8_def read_u16_be_def read_u32_be_def read_u64_be_def read_be_def Let_def
    by (auto simp: b n s split: if_split_asm)
qed

lemma decode_stages_ttl:
  assumes "22 \<le> off"
  shows "decode_recipient (data[2 := t]) f off = decode_recipient data f off"
    "decode_route (data[2 := t]) v f off = decode_route data v f off"
    "decode_payload env (data[2 := t]) n off = decode_payload env data n off"
    "decode_signature (data[2 := t]) f off = decode_signature data f off"
  using assms
  by (simp_all add: decode_recipient_def decode_route_def decode_payload_def decode_signature_def
      read_u8_def bslice_list_update_other cong: if_cong)

lemma padding_ok_ttl:
  assumes "22 \<le> off" "22 \<le> length data"
  shows "padding_ok (data[2 := t]) off = padding_ok data off"
proof -
  have "data \<noteq> []" using assms(2) by auto
  then have "last (data[2 := t]) = last data" using assms(2) by (auto simp: last_list_update)
  then show ?thesis using assms by (simp add: padding_ok_def)
qed

lemma decode_ttl:
  assumes "bitchat_packet_decode env data = Some p"
  shows "bitchat_packet_decode env (data[2 := t]) = Some (p \<lparr> pk_ttl := t \<rparr>)"
  using assms
proof (rule decodeE)
  fix h off1 off2 off3 off4 off5 carried
  assume h: "decode_header data = Some (h, off1)"
    and r: "decode_recipient data (wh_flags h) off1 = Some (pk_has_recipient p, pk_recipient_id p, off2)"
    and rt: "decode_route data (wh_version h) (wh_flags h) off2 = Some off3"
    and pl: "decode_payload env data (wh_payload_len h) off3 = Some carried"
    and off4: "off4 = off3 + unat (wh_payload_len h)"
    and cp: "decode_compressed env (wh_flags h AND 4 \<noteq> 0) (wh_version h = 2) (wh_payload_len h)
                 carried = Some (pk_payload p, pk_payload_len p, pk_is_compressed p)"
    and sg: "decode_signature data (wh_flags h) off4 = Some (pk_has_signature p, pk_signature p, off5)"
    and pad: "padding_ok data off5"
    and flds: "pk_version p = wh_version h" "pk_type p = wh_type h" "pk_ttl p = wh_ttl h"
      "pk_timestamp_ms p = wh_timestamp_ms h" "pk_sender_id p = wh_sender_id h"
      "pk_is_rsr p \<longleftrightarrow> wh_flags h AND 0x10 \<noteq> 0" "pk_opaque_only p \<longleftrightarrow> wh_version h = 2"
  note hd = decode_headerE [OF h]
  have o1: "22 \<le> off1" "22 \<le> length data" "data \<noteq> []" using hd(1,8) by auto
  note o2 = decode_recipient_off [OF r hd(1)]
  note o3 = decode_route_off [OF rt conjunct2 [OF o2]]
  note o4 = decode_payload_off [OF pl, folded off4]
  note o5 = decode_signature_off [OF sg o4]
  have g: "22 \<le> off2" "22 \<le> off3" "22 \<le> off4" "22 \<le> off5"
    using o1 o2 o3 off4 o5 by (auto split: if_split_asm)
  show ?thesis
    unfolding bitchat_packet_decode_def decode_header_ttl [OF h]
    using o1 g h r rt pl cp sg pad flds off4
    by (simp add: decode_stages_ttl padding_ok_ttl bind_eq_Some_conv Let_def)
qed

lemma fingerprint_ttl:
  assumes "bitchat_packet_decode env data = Some p"
  shows "bitchat_relay_fingerprint psa (data[2 := t]) = bitchat_relay_fingerprint psa data"
proof -
  have "data[2 := t] = set_ttl_rsr t (data ! 11 AND 0x10 \<noteq> 0) data"
    unfolding set_ttl_rsr_def with_rsr_id using list_update_id [of "data[2 := t]" 11] by simp
  then show ?thesis using fingerprint_hop_invariant(1) [OF assms] by simp
qed

subsection \<open>Dropping the padding\<close>

lemma bslice_take: "off + n \<le> m \<Longrightarrow> bslice off n (take m xs) = bslice off n xs"
  by (simp add: bslice_def drop_take)

lemma decode_header_take:
  assumes "decode_header data = Some (h, off)" "off \<le> m" "m \<le> length data"
  shows "decode_header (take m data) = Some (h, off)"
proof -
  have l: "22 \<le> off" "off \<le> length data" using decode_headerE(1,8) [OF assms(1)] by auto
  have b: "bslice o' n (take m data) = bslice o' n data" if "o' + n \<le> m" for o' n
    using that by (rule bslice_take)
  have s: "Suc (Suc 0) = 2" "Suc 2 = 3" by simp_all
  show ?thesis
    using assms l
    unfolding decode_header_def read_u8_def read_u16_be_def read_u32_be_def read_u64_be_def read_be_def Let_def
    by (auto simp: b s min_def split: if_split_asm)
qed

lemma decode_stages_take:
  assumes "m \<le> length data"
  shows "decode_recipient data f off = Some (hr, r, off') \<Longrightarrow> off' \<le> m \<Longrightarrow> off \<le> length data \<Longrightarrow>
      decode_recipient (take m data) f off = Some (hr, r, off')"
    "decode_route data v f off = Some off' \<Longrightarrow> off' \<le> m \<Longrightarrow> off \<le> length data \<Longrightarrow> decode_route (take m data) v f off = Some off'"
    "decode_payload env data n off = Some c \<Longrightarrow> off + unat n \<le> m \<Longrightarrow> decode_payload env (take m data) n off = Some c"
    "decode_signature data f off = Some (hs, sg, off') \<Longrightarrow> off' \<le> m \<Longrightarrow> off \<le> length data \<Longrightarrow>
      decode_signature (take m data) f off = Some (hs, sg, off')"
  using assms
  by (auto simp: decode_recipient_def decode_route_def decode_payload_def decode_signature_def
      read_u8_def bslice_take Let_def min_def split: if_split_asm)

lemma decode_unpadded:
  assumes "bitchat_packet_decode env data = Some p" "relay_wire_opt data = Some n"
  shows "bitchat_packet_decode env (take n data) = Some p"
  using assms(1)
proof (rule decodeE)
  fix h off1 off2 off3 off4 off5 carried
  assume h: "decode_header data = Some (h, off1)"
    and r: "decode_recipient data (wh_flags h) off1 = Some (pk_has_recipient p, pk_recipient_id p, off2)"
    and rt: "decode_route data (wh_version h) (wh_flags h) off2 = Some off3"
    and pl: "decode_payload env data (wh_payload_len h) off3 = Some carried"
    and off4: "off4 = off3 + unat (wh_payload_len h)"
    and cp: "decode_compressed env (wh_flags h AND 4 \<noteq> 0) (wh_version h = 2) (wh_payload_len h)
                 carried = Some (pk_payload p, pk_payload_len p, pk_is_compressed p)"
    and sg: "decode_signature data (wh_flags h) off4 = Some (pk_has_signature p, pk_signature p, off5)"
    and flds: "pk_version p = wh_version h" "pk_type p = wh_type h" "pk_ttl p = wh_ttl h"
      "pk_timestamp_ms p = wh_timestamp_ms h" "pk_sender_id p = wh_sender_id h"
      "pk_is_rsr p \<longleftrightarrow> wh_flags h AND 0x10 \<noteq> 0" "pk_opaque_only p \<longleftrightarrow> wh_version h = 2"
  note hd = decode_headerE [OF h]
  note o2 = decode_recipient_off [OF r hd(1)]
  note o3 = decode_route_off [OF rt conjunct2 [OF o2]]
  note o4 = decode_payload_off [OF pl, folded off4]
  note o5 = decode_signature_off [OF sg o4]
  have n: "n = off5" using decode_stages_wire_opt [OF h r rt pl off4 sg] assms(2) by simp
  have g: "22 \<le> off1" "off1 \<le> off2" "off2 \<le> off3" "off3 \<le> off4" "off4 \<le> n" "n \<le> length data"
    using hd(8) o2 o3 off4 o5 n by (auto split: if_split_asm)
  note dh = decode_header_take [OF h _ g(6)]
  note ds = decode_stages_take(1) [OF g(6) r] decode_stages_take(2) [OF g(6) rt] decode_stages_take(3) [OF g(6) pl]
    decode_stages_take(4) [OF g(6) sg]
  have "padding_ok (take n data) n" using g by (simp add: padding_ok_def)
  moreover have "take n data \<noteq> []" using g by auto
  ultimately show ?thesis
    using g dh ds o2 o3 o4 n cp flds off4 unfolding bitchat_packet_decode_def
    by (simp add: bind_eq_Some_conv Let_def)
qed

section \<open>Properties\<close>

text \<open>The packet of \<open>packet_codec_self_test\<close>, and an environment with memory and no inflate.\<close>

definition self_test_packet :: packet where
  "self_test_packet = \<lparr> pk_version = 1, pk_type = BITCHAT_MSG_NOISE_ENCRYPTED, pk_ttl = 7,
     pk_timestamp_ms = 0x0102030405060708,
     pk_sender_id = [0x20, 0x21, 0x22, 0x23, 0x24, 0x25, 0x26, 0x27],
     pk_recipient_id = [0x10, 0x11, 0x12, 0x13, 0x14, 0x15, 0x16, 0x17],
     pk_has_recipient = True, pk_is_compressed = False, pk_is_rsr = False,
     pk_opaque_only = False, pk_payload = Some [1, 2, 3, 4], pk_payload_len = 4,
     pk_signature = map (\<lambda>i. 0xAA + word_of_nat i) [0..<64], pk_has_signature = True \<rparr>"

definition stored_env :: codec_env where
  "stored_env = \<lparr> tinfl = (\<lambda>zlib input cap. (False, [], 0)), malloc_ok = (\<lambda>n. True) \<rparr>"

text \<open>The conformance vector \<open>packet.v1.message\<close>.\<close>

definition vector_v1_message :: bytes where
  "vector_v1_message = [0x01, 0x02, 0x07, 0, 0, 0, 0, 0, 0, 0, 0x01, 0x00, 0x00, 0x03,
     0x01, 0x02, 0x03, 0x04, 0x05, 0x06, 0x07, 0x08, 0x61, 0x62, 0x63]"

definition vector_v1_packet :: packet where
  "vector_v1_packet = zero_packet \<lparr> pk_version := 1, pk_type := 2, pk_ttl := 7,
     pk_timestamp_ms := 1, pk_sender_id := [1, 2, 3, 4, 5, 6, 7, 8],
     pk_payload := Some [0x61, 0x62, 0x63], pk_payload_len := 3 \<rparr>"

lemma vector_v1_message_decodes:
  "bitchat_packet_decode stored_env vector_v1_message = Some vector_v1_packet"
  by (simp add: bitchat_packet_decode_def vector_v1_message_def vector_v1_packet_def
      zero_packet_def decode_header_def read_u8_def read_u16_be_def read_u64_be_def read_be_def
      bslice_def be_val_def decode_recipient_def decode_route_def decode_payload_def
      decode_compressed_def decode_signature_def padding_ok_def stored_env_def)

text \<open>
  C21: Encoding a well-formed v1 packet and decoding the bytes gives the packet back, also when a
  sender appended up to 255 bytes of PKCS-style padding.
\<close>

theorem packet_roundtrip:
  assumes "pkt_wf p" and "pkt_v1_plain p"
    and "bitchat_packet_encode p max_len = Some bs"
    and "malloc_ok env (unat (pk_payload_len p))"
    and "k < 256"
  shows "bitchat_packet_decode env (bs @ replicate k (word_of_nat k)) = Some p"
  by (rule encode_decode_padded [OF assms])

lemma self_test_packet_encodes:
  "\<exists>bs. bitchat_packet_encode self_test_packet 512 = Some bs"
  by (simp add: bitchat_packet_encode_def encoded_len_def self_test_packet_def)

theorem packet_roundtrip_witness:
  "\<exists>bs. bitchat_packet_encode self_test_packet 512 = Some bs \<and>
        bitchat_packet_decode stored_env (bs @ [3, 3, 3]) = Some self_test_packet"
proof -
  obtain bs where bs: "bitchat_packet_encode self_test_packet 512 = Some bs"
    using self_test_packet_encodes by blast
  have "bitchat_packet_decode stored_env (bs @ replicate 3 (word_of_nat 3)) = Some self_test_packet"
    by (rule packet_roundtrip [OF _ _ bs])
       (simp_all add: pkt_wf_def pkt_v1_plain_def self_test_packet_def stored_env_def)
  then show ?thesis using bs by (simp add: numeral_3_eq_3)
qed

lemma encode_flags_known: "encode_flags p AND 0x13 = encode_flags p"
  by (simp add: encode_flags_def)

lemma encode_nth_11:
  assumes "pkt_wf p" "bitchat_packet_encode p max_len = Some bs"
  shows "bs ! 11 = encode_flags p"
proof -
  have "bs = ([1, pk_type p, pk_ttl p] @ be_enc 8 (pk_timestamp_ms p)) @ encode_flags p # be_enc 2 (pk_payload_len p) @ pk_sender_id p @ wire_body p"
    using encode_layout [OF assms] by simp
  moreover have "length ([1, pk_type p, pk_ttl p] @ be_enc 8 (pk_timestamp_ms p)) = 11" by simp
  ultimately show ?thesis by (metis nth_append_length)
qed

lemma decode_v1_plain:
  assumes "bitchat_packet_decode env data = Some p" "data ! 0 = 1"
  shows "pkt_wf p" "pkt_v1_plain p"
proof -
  show "pkt_wf p" by (rule decode_wf(1) [OF assms(1)])
  have "pk_version p = 1 \<and> \<not> pk_opaque_only p"
    using assms(1) by (rule decodeE) (use assms(2) decode_headerE(2) in force)
  then show "pkt_v1_plain p" using decode_wf(2) [OF assms(1)] by (simp add: pkt_v1_plain_def)
qed

text \<open>
  C23: Re-encoding a decoded v1 packet gives back the received bytes without their padding exactly when the
  packet carries only flags the encoder knows (recipient, signature, RSR). In every case, that is also for a
  compressed packet, which the decoder inflates, and for a packet with unknown flags, whatever the encoder
  produces decodes to the same packet again, given memory for its payload.
\<close>

theorem decode_canonical:
  assumes "bitchat_packet_decode env data = Some p" and "data ! 0 = 1"
  shows "(bitchat_packet_encode p (length data) = Some (take (relay_wire_len data) data) \<longleftrightarrow> data ! 11 AND 0x13 = data ! 11) \<and>
    (\<forall>n bs. bitchat_packet_encode p n = Some bs \<and> malloc_ok env (unat (pk_payload_len p)) \<longrightarrow> bitchat_packet_decode env bs = Some p)"
proof -
  note p = decode_v1_plain [OF assms]
  obtain n where "relay_wire_opt data = Some n" using decode_wire_opt [OF assms(1)] by blast
  then have "22 \<le> relay_wire_len data" using relay_wire_opt_bounds [of data n] by (simp add: relay_wire_len_def)
  then have "data ! 11 AND 0x13 = data ! 11"
    if "bitchat_packet_encode p (length data) = Some (take (relay_wire_len data) data)"
    using encode_nth_11 [OF p(1) that] encode_flags_known [of p] by simp
  then have 1: "bitchat_packet_encode p (length data) = Some (take (relay_wire_len data) data) \<longleftrightarrow> data ! 11 AND 0x13 = data ! 11"
    using decode_encode_exact [OF assms] by blast
  have 2: "bitchat_packet_decode env bs = Some p"
    if "bitchat_packet_encode p n = Some bs" "malloc_ok env (unat (pk_payload_len p))" for n bs
    using encode_decode_padded [OF p that, of 0] by simp
  from 1 2 show ?thesis by blast
qed

theorem decode_canonical_witness:
  "bitchat_packet_encode vector_v1_packet (length vector_v1_message) =
     Some (take (relay_wire_len vector_v1_message) vector_v1_message)"
  using decode_canonical [OF vector_v1_message_decodes] by (simp add: vector_v1_message_def)

text \<open>
  C39: Every packet the decoder accepts is well formed: ids of 8 bytes, a 64-byte signature field,
  a payload buffer of exactly the advertised length (absent when it is 0). A v1 packet never leaves
  the decoder with its payload still compressed.
\<close>

theorem decode_well_formed:
  assumes "bitchat_packet_decode env data = Some p"
  shows "pkt_wf p \<and> (pk_version p = 1 \<or> pk_version p = 2) \<and>
    (pk_version p = 1 \<longrightarrow> \<not> pk_is_compressed p)"
  by (intro conjI decode_wf(1) [OF assms] decode_versions [OF assms])

theorem decode_well_formed_witness: "pkt_wf vector_v1_packet"
  using decode_well_formed [OF vector_v1_message_decodes] by blast

text \<open>
  The relay fingerprint of a decodable packet does not change when a relay rewrites the TTL
  or the RSR flag, nor when the padding is cut off; so every copy of one packet is recognised as a
  duplicate whichever path it took.
\<close>

lemma relay_fingerprint_hop_invariant:
  assumes "bitchat_packet_decode env data = Some p" and "relay_wire_len data \<le> m"
  shows "bitchat_relay_fingerprint psa (set_ttl_rsr t rsr (take m data)) =
     bitchat_relay_fingerprint psa data"
  by (rule fingerprint_hop [OF assms])

text \<open>
  The fingerprint is the truncated digest of the canonical packet: the received bytes up to
  their wire length with TTL and RSR cleared, so two packets that differ anywhere else (payload,
  sender, timestamp, signature) are hashed from different inputs.
\<close>

lemma relay_fingerprint_preimage:
  assumes "bitchat_packet_decode env data = Some p" "bitchat_packet_decode env data' = Some p'"
  shows "bitchat_relay_fingerprint psa data = Some (take 16 (bitle_sha256 psa (relay_canon data))) \<and>
    (relay_canon data = relay_canon data' \<longleftrightarrow>
      (\<exists>t rsr. take (relay_wire_len data') data' =
         set_ttl_rsr t rsr (take (relay_wire_len data) data)))"
  using fingerprint_canon [OF assms(1)] relay_canon_eq [OF assms] by simp

end
