(* ===== verification/Bitle_Interfaces.thy ===== *)
theory Bitle_Interfaces
  imports Bitle_Prelude
begin

text \<open>
  The contracts the components rely on, as locales: each fixes the operations a client calls and
  assumes the laws the provider promises. The component theories interpret them on their own
  definitions.
\<close>

section \<open>Bounded handle tables\<close>

text \<open>
  A fixed array of slots keyed by a handle: links, BLE connections, Noise sessions. \<open>put\<close> returns
  \<open>None\<close> when the table is full.
\<close>

locale handle_table =
  fixes inv :: "'t \<Rightarrow> bool"
    and look :: "'t \<Rightarrow> 'h \<Rightarrow> 'v option"
    and put :: "'t \<Rightarrow> 'v \<Rightarrow> 't option"
    and del :: "'t \<Rightarrow> 'h \<Rightarrow> 't"
    and key :: "'v \<Rightarrow> 'h"
    and cap :: nat
  assumes put_inv: "inv t \<Longrightarrow> put t v = Some t' \<Longrightarrow> inv t'"
    and look_put: "inv t \<Longrightarrow> put t v = Some t' \<Longrightarrow> look t' h = (if h = key v then Some v else look t h)"
    and put_None: "inv t \<Longrightarrow> put t v = None \<longleftrightarrow> look t (key v) = None \<and> card (dom (look t)) = cap"
    and del_inv: "inv t \<Longrightarrow> inv (del t h)"
    and look_del: "inv t \<Longrightarrow> look (del t h) h' = (if h' = h then None else look t h')"
    and look_dom: "inv t \<Longrightarrow> finite (dom (look t)) \<and> card (dom (look t)) \<le> cap"
begin

lemma dom_put: "inv t \<Longrightarrow> put t v = Some t' \<Longrightarrow> dom (look t') = insert (key v) (dom (look t))"
  by (auto simp: look_put split: if_split_asm)

lemma dom_del: "inv t \<Longrightarrow> dom (look (del t h)) = dom (look t) - {h}"
  by (auto simp: look_del split: if_split_asm)

lemma put_present: "inv t \<Longrightarrow> look t (key v) \<noteq> None \<Longrightarrow> \<exists>t'. put t v = Some t'"
  using put_None [of t v] by auto

lemma put_full_iff:
  "inv t \<Longrightarrow> put t v = None \<longleftrightarrow> key v \<notin> dom (look t) \<and> \<not> card (dom (look t)) < cap"
  using put_None [of t v] look_dom [of t] by auto

text \<open>Freeing any occupied slot makes room for a new handle.\<close>

lemma put_after_del:
  assumes "inv t" "look t h \<noteq> None"
  shows "\<exists>t'. put (del t h) v = Some t'"
proof -
  have "h \<in> dom (look t)" using assms(2) by auto
  then have "card (dom (look (del t h))) < cap"
    using look_dom [OF assms(1)] card_Diff1_less [of "dom (look t)" h]
    by (simp add: dom_del [OF assms(1)])
  then show ?thesis using put_None [OF del_inv [OF assms(1)], of h v] by force
qed

text \<open>Registering the same handle again only replaces its entry.\<close>

lemma put_put_same:
  assumes "inv t" "put t v = Some t1" "key v' = key v"
  obtains t2 where "put t1 v' = Some t2" "inv t2"
    "\<And>h. look t2 h = (if h = key v then Some v' else look t h)"
proof -
  note i1 = put_inv [OF assms(1,2)]
  have "look t1 (key v') \<noteq> None" using assms(3) by (simp add: look_put [OF assms(1,2)])
  then obtain t2 where t2: "put t1 v' = Some t2" using put_present [OF i1] by blast
  show ?thesis
    by (rule that [OF t2 put_inv [OF i1 t2]])
       (simp add: look_put [OF i1 t2] look_put [OF assms(1,2)] assms(3))
qed

end

section \<open>Bounded duplicate caches\<close>

text \<open>
  A memory of the last \<open>cap\<close> distinct keys; \<open>check\<close> tells whether a key is remembered and
  remembers it if not. \<open>content\<close> lists the remembered keys, the latest first.
\<close>

locale seen_cache =
  fixes inv :: "'s \<Rightarrow> bool"
    and content :: "'s \<Rightarrow> 'k list"
    and check :: "'k \<Rightarrow> 's \<Rightarrow> bool \<times> 's"
    and cap :: nat
  assumes hit: "inv s \<Longrightarrow> k \<in> set (content s) \<Longrightarrow> check k s = (True, s)"
    and miss: "inv s \<Longrightarrow> k \<notin> set (content s) \<Longrightarrow> \<not> fst (check k s)"
    and miss_inv: "inv s \<Longrightarrow> k \<notin> set (content s) \<Longrightarrow> inv (snd (check k s))"
    and miss_content: "inv s \<Longrightarrow> k \<notin> set (content s) \<Longrightarrow>
       content (snd (check k s)) = take cap (k # content s)"
begin

lemma check_iff: "inv s \<Longrightarrow> fst (check k s) \<longleftrightarrow> k \<in> set (content s)"
  using hit miss by fastforce

lemma check_inv: "inv s \<Longrightarrow> inv (snd (check k s))"
  using hit miss_inv by (cases "k \<in> set (content s)") auto

lemma fold_inv: "inv s \<Longrightarrow> inv (fold (\<lambda>k s. snd (check k s)) ks s)"
  by (induction ks arbitrary: s) (auto simp: check_inv)

text \<open>A remembered key moves back by at most one place per checked key.\<close>

lemma check_position:
  assumes "inv s" "i < length (content s)" "content s ! i = k" "Suc i < cap"
  shows "\<exists>j \<le> Suc i. j < length (content (snd (check k' s))) \<and> content (snd (check k' s)) ! j = k"
proof (cases "k' \<in> set (content s)")
  case True
  then show ?thesis using hit [OF assms(1)] assms by (intro exI [of _ i]) auto
next
  case False
  then show ?thesis using miss_content [OF assms(1)] assms by (intro exI [of _ "Suc i"]) simp
qed

lemma fold_position:
  assumes "inv s" "i < length (content s)" "content s ! i = k" "i + length ks < cap"
  shows "k \<in> set (content (fold (\<lambda>k s. snd (check k s)) ks s))"
  using assms
proof (induction ks arbitrary: s i)
  case (Cons k' ks)
  obtain j where j: "j \<le> Suc i" "j < length (content (snd (check k' s)))" "content (snd (check k' s)) ! j = k"
    using check_position [of s i k k'] Cons.prems by auto
  then show ?case using Cons.IH [OF check_inv [OF Cons.prems(1)] j(2,3)] Cons.prems by simp
qed auto

text \<open>A key that was let through once is recognised again while fewer than \<open>cap\<close> keys follow.\<close>

lemma recognised:
  assumes "inv s" "\<not> fst (check k s)" "length ks < cap"
  shows "fst (check k (fold (\<lambda>k s. snd (check k s)) ks (snd (check k s))))"
proof -
  let ?s = "snd (check k s)"
  have k: "k \<notin> set (content s)" using assms(1,2) check_iff by blast
  have "0 < length (content ?s)" "content ?s ! 0 = k"
    using miss_content [OF assms(1) k] assms(3) by simp_all
  then have "k \<in> set (content (fold (\<lambda>k s. snd (check k s)) ks ?s))"
    using fold_position [OF check_inv [OF assms(1)], of 0 k k ks] assms(3) by simp
  then show ?thesis using check_iff fold_inv check_inv assms(1) by blast
qed

end

section \<open>Reassembly buffers\<close>

text \<open>
  A buffer for the parts of one message, filled in any order: \<open>has\<close> tells which parts arrived,
  \<open>part\<close> their bytes, \<open>tot\<close> how many there are.
\<close>

locale part_buffer =
  fixes inv :: "'s \<Rightarrow> bool"
    and tot :: "'s \<Rightarrow> nat"
    and has :: "'s \<Rightarrow> nat \<Rightarrow> bool"
    and part :: "'s \<Rightarrow> nat \<Rightarrow> bytes"
    and put :: "nat \<Rightarrow> bytes \<Rightarrow> 's \<Rightarrow> 's"
    and complete :: "'s \<Rightarrow> bool"
    and assemble :: "'s \<Rightarrow> bytes"
  assumes put_inv: "inv s \<Longrightarrow> i < tot s \<Longrightarrow> inv (put i c s)"
    and put_tot: "inv s \<Longrightarrow> i < tot s \<Longrightarrow> tot (put i c s) = tot s"
    and put_has: "inv s \<Longrightarrow> i < tot s \<Longrightarrow> j < tot s \<Longrightarrow> has (put i c s) j \<longleftrightarrow> j = i \<or> has s j"
    and put_part: "inv s \<Longrightarrow> i < tot s \<Longrightarrow> part (put i c s) j = (if j = i then c else part s j)"
    and complete_iff: "inv s \<Longrightarrow> complete s \<longleftrightarrow> (\<forall>j < tot s. has s j)"
    and assemble_eq: "inv s \<Longrightarrow> complete s \<Longrightarrow> assemble s = concat (map (part s) [0..<tot s])"
begin

lemma fold_put:
  assumes "inv s" "\<forall>i \<in> set is. i < tot s"
  shows "inv (fold (\<lambda>i. put i (chunk i)) is s) \<and> tot (fold (\<lambda>i. put i (chunk i)) is s) = tot s \<and>
    (\<forall>j < tot s. has (fold (\<lambda>i. put i (chunk i)) is s) j \<longleftrightarrow> has s j \<or> j \<in> set is) \<and>
    (\<forall>j < tot s. part (fold (\<lambda>i. put i (chunk i)) is s) j = (if j \<in> set is then chunk j else part s j))"
  using assms
proof (induction "is" arbitrary: s)
  case (Cons i "is")
  have i: "i < tot s" and "\<forall>j \<in> set is. j < tot (put i (chunk i) s)"
    using Cons.prems by (auto simp: put_tot)
  from Cons.IH [OF put_inv [OF Cons.prems(1) i] this(2)] show ?case
    using Cons.prems(1) i by (auto simp: put_tot put_has put_part)
qed simp

text \<open>
  The parts of a message, put in any order and with any repetitions, complete the buffer exactly
  when none is missing, and then assemble to the message.
\<close>

lemma reassembly:
  assumes "inv s" "\<forall>j < tot s. \<not> has s j" "\<forall>i \<in> set is. i < tot s"
    and s'_def: "s' = fold (\<lambda>i. put i (chunk i)) is s"
  shows "complete s' \<longleftrightarrow> {0..<tot s} \<subseteq> set is"
    "complete s' \<Longrightarrow> assemble s' = concat (map chunk [0..<tot s])"
proof -
  note f = fold_put [OF assms(1,3), of chunk, folded s'_def]
  show c: "complete s' \<longleftrightarrow> {0..<tot s} \<subseteq> set is"
    using f assms(2) complete_iff [of s'] by auto
  assume co: "complete s'"
  have m: "map (part s') [0..<tot s] = map chunk [0..<tot s]"
    using f c co by (intro map_cong) auto
  have "inv s'" "tot s' = tot s" using f by blast+
  then show "assemble s' = concat (map chunk [0..<tot s])"
    using assemble_eq [of s', OF _ co] by (simp only: m)
qed

end

section \<open>Tables of reassembly buffers\<close>

text \<open>
  A table of buffers by key. Accepting a part of a message puts it into the buffer of the key, or
  into a fresh one when there is none; the table may drop expired and old buffers on the way. A complete
  buffer is closed and its message is the result. \<open>live k now s\<close> says that \<open>s\<close> is in use for
  \<open>k\<close> at that time.
\<close>

locale part_table = part_buffer inv tot has part put complete assemble
  for inv :: "'s \<Rightarrow> bool" and tot :: "'s \<Rightarrow> nat" and has :: "'s \<Rightarrow> nat \<Rightarrow> bool" and part :: "'s \<Rightarrow> nat \<Rightarrow> bytes"
    and put :: "nat \<Rightarrow> bytes \<Rightarrow> 's \<Rightarrow> 's" and complete :: "'s \<Rightarrow> bool" and assemble :: "'s \<Rightarrow> bytes" +
  fixes live :: "'k \<Rightarrow> u64 \<Rightarrow> 's \<Rightarrow> bool"
    and fresh :: "'k \<Rightarrow> nat \<Rightarrow> u64 \<Rightarrow> 's"
    and expire :: "u64 \<Rightarrow> 's \<Rightarrow> 's"
    and close :: "'s \<Rightarrow> 's"
    and accept :: "'k \<Rightarrow> nat \<Rightarrow> nat \<Rightarrow> bytes \<Rightarrow> u64 \<Rightarrow> 's list \<Rightarrow> 's list \<times> bytes option"
    and timeout :: u64 and max_parts :: nat
  assumes fresh_inv: "n \<le> max_parts \<Longrightarrow> inv (fresh k n t) \<and> tot (fresh k n t) = n \<and> \<not> has (fresh k n t) j"
    and fresh_live: "live k now (fresh k n t) \<longleftrightarrow> now - t \<le> timeout"
    and put_live: "live k now (put i c s) \<longleftrightarrow> live k now s"
    and live_expire: "live k now s \<Longrightarrow> expire now s = s"
    and dead_expire: "\<not> live k now s \<Longrightarrow> \<not> live k now' (expire now s)"
    and accept_live: "i < length slots \<Longrightarrow> \<forall>j < length slots. live k now (slots ! j) \<longleftrightarrow> j = i \<Longrightarrow>
      tot (slots ! i) = n \<Longrightarrow> n \<le> max_parts \<Longrightarrow> idx < n \<Longrightarrow> s = put idx c (slots ! i) \<Longrightarrow>
      accept k n idx c now slots =
        (if complete s then ((map (expire now) slots)[i := close s], Some (assemble s))
         else ((map (expire now) slots)[i := s], None))"
    and accept_new: "slots \<noteq> [] \<Longrightarrow> \<forall>s \<in> set slots. \<not> live k now s \<Longrightarrow> n \<le> max_parts \<Longrightarrow> idx < n \<Longrightarrow>
      s = put idx c (fresh k n now) \<Longrightarrow>
      \<exists>i < length slots. accept k n idx c now slots =
        (if complete s then ((map (expire now) slots)[i := close s], Some (assemble s))
         else ((map (expire now) slots)[i := s], None))"
begin

text \<open>The buffer of \<open>k\<close> has taken the parts \<open>is\<close> since \<open>t0\<close>, and no other is in use for \<open>k\<close>.\<close>

definition filling :: "'k \<Rightarrow> nat \<Rightarrow> u64 \<Rightarrow> (nat \<Rightarrow> bytes) \<Rightarrow> nat list \<Rightarrow> 's list \<Rightarrow> bool" where
  "filling k n t0 chunk is slots \<longleftrightarrow>
     (\<exists>i < length slots. slots ! i = fold (\<lambda>j. put j (chunk j)) is (fresh k n t0) \<and>
        (\<forall>j < length slots. j \<noteq> i \<longrightarrow> (\<forall>now. \<not> live k now (slots ! j))))"

lemma fold_put_live: "live k now (fold (\<lambda>j. put j (chunk j)) is s) \<longleftrightarrow> live k now s"
  by (induction "is" arbitrary: s) (simp_all add: put_live)

lemma filled:
  assumes "n \<le> max_parts" "\<forall>j \<in> set is. j < n"
    and s: "s = fold (\<lambda>j. put j (chunk j)) is (fresh k n t0)"
  shows "tot s = n" "complete s \<longleftrightarrow> {0..<n} \<subseteq> set is" "complete s \<Longrightarrow> assemble s = concat (map chunk [0..<n])"
proof -
  note f = fresh_inv [OF assms(1), of k t0]
  have f1: "inv (fresh k n t0)" "tot (fresh k n t0) = n" "\<forall>j < tot (fresh k n t0). \<not> has (fresh k n t0) j"
    "\<forall>i \<in> set is. i < tot (fresh k n t0)" using f assms(2) by auto
  show "tot s = n" using fold_put [OF f1(1,4), of chunk] s f1(2) by simp
  show "complete s \<longleftrightarrow> {0..<n} \<subseteq> set is" "complete s \<Longrightarrow> assemble s = concat (map chunk [0..<n])"
    using reassembly [OF f1(1,3,4) s] f1(2) by simp_all
qed

lemma step_filling:
  assumes fl: "filling k n t0 chunk is slots" and n: "n \<le> max_parts" "\<forall>j \<in> set (is @ [idx]). j < n" and t: "now - t0 \<le> timeout"
    and a: "accept k n idx (chunk idx) now slots = (slots', out)"
  shows "if {0..<n} \<subseteq> set (is @ [idx]) then out = Some (concat (map chunk [0..<n]))
    else out = None \<and> filling k n t0 chunk (is @ [idx]) slots'"
proof -
  obtain i where i: "i < length slots" "slots ! i = fold (\<lambda>j. put j (chunk j)) is (fresh k n t0)"
    "\<forall>j < length slots. j \<noteq> i \<longrightarrow> (\<forall>now. \<not> live k now (slots ! j))" using fl by (auto simp: filling_def)
  have l: "\<forall>j < length slots. live k now (slots ! j) \<longleftrightarrow> j = i"
    using i t by (auto simp: fold_put_live fresh_live)
  define s where "s = fold (\<lambda>j. put j (chunk j)) (is @ [idx]) (fresh k n t0)"
  have s: "s = put idx (chunk idx) (slots ! i)" by (simp add: s_def i(2))
  have ts: "tot (slots ! i) = n" using filled(1) [OF n(1) _ i(2)] n(2) by simp
  note ac = accept_live [OF i(1) l ts n(1) _ s]
  note co = filled(2,3) [OF n s_def]
  show ?thesis
  proof (cases "complete s")
    case True
    then show ?thesis using ac co a n(2) by simp
  next
    case False
    then have o: "out = None" "slots' = (map (expire now) slots)[i := s]" using ac a n(2) by simp_all
    have "filling k n t0 chunk (is @ [idx]) slots'"
      unfolding filling_def
    proof (intro exI [of _ i] conjI allI impI)
      show "i < length slots'" "slots' ! i = fold (\<lambda>j. put j (chunk j)) (is @ [idx]) (fresh k n t0)"
        using i(1) o(2) s_def by simp_all
      fix j now'
      assume j: "j < length slots'" "j \<noteq> i"
      then have "slots' ! j = expire now (slots ! j)" "\<not> live k now (slots ! j)" using o(2) i(3) by simp_all
      then show "\<not> live k now' (slots' ! j)" using dead_expire by simp
    qed
    then show ?thesis using False co(1) o(1) by simp
  qed
qed

lemma step_first:
  assumes dead: "slots \<noteq> []" "\<forall>s \<in> set slots. \<not> live k now s" and n: "n \<le> max_parts" "idx < n"
    and a: "accept k n idx (chunk idx) now slots = (slots', out)"
  shows "if {0..<n} \<subseteq> set [idx] then out = Some (concat (map chunk [0..<n])) else out = None \<and> filling k n now chunk [idx] slots'"
proof -
  define s where "s = fold (\<lambda>j. put j (chunk j)) [idx] (fresh k n now)"
  have s: "s = put idx (chunk idx) (fresh k n now)" by (simp add: s_def)
  obtain i where i: "i < length slots" "accept k n idx (chunk idx) now slots =
        (if complete s then ((map (expire now) slots)[i := close s], Some (assemble s))
         else ((map (expire now) slots)[i := s], None))" using accept_new [OF dead n s] by blast
  note co = filled(2,3) [OF n(1) _ s_def]
  show ?thesis
  proof (cases "complete s")
    case True
    then show ?thesis using i(2) co a n(2) by simp
  next
    case False
    then have o: "out = None" "slots' = (map (expire now) slots)[i := s]" using i(2) a by simp_all
    have "filling k n now chunk [idx] slots'"
      unfolding filling_def
    proof (intro exI [of _ i] conjI allI impI)
      show "i < length slots'" "slots' ! i = fold (\<lambda>j. put j (chunk j)) [idx] (fresh k n now)"
        using i(1) o(2) s_def by simp_all
      fix j now'
      assume j: "j < length slots'" "j \<noteq> i"
      then have "slots' ! j = expire now (slots ! j)" "\<not> live k now (slots ! j)" using o(2) dead(2) by simp_all
      then show "\<not> live k now' (slots' ! j)" using dead_expire by simp
    qed
    then show ?thesis using False co(1) o(1) n(2) by simp
  qed
qed

text \<open>
  The parts of one message, arriving in any order, with repetitions and within the timeout, give
  nothing until the last missing one arrives, and then the message.
\<close>

lemma run_filling:
  assumes "filling k n t0 chunk is slots" "n \<le> max_parts" "\<forall>j \<in> set is. j < n" "es \<noteq> []"
    "\<forall>(j, now) \<in> set es. j < n \<and> now - t0 \<le> timeout"
    "\<not> {0..<n} \<subseteq> set (is @ map fst (butlast es))" "{0..<n} \<subseteq> set (is @ map fst es)"
  shows "run_outs (\<lambda>(j, now). accept k n j (chunk j) now) es slots =
    replicate (length es - 1) None @ [Some (concat (map chunk [0..<n]))]"
  using assms
proof (induction es arbitrary: "is" slots)
  case (Cons e es)
  obtain j now where e: "e = (j, now)" by (metis prod.exhaust)
  obtain slots' out where r: "accept k n j (chunk j) now slots = (slots', out)" by (metis prod.exhaust)
  have js: "\<forall>i \<in> set (is @ [j]). i < n" and t: "now - t0 \<le> timeout" using Cons.prems(3,5) e by auto
  note st = step_filling [OF Cons.prems(1,2) js t r]
  show ?case
  proof (cases "es = []")
    case True
    then have "{0..<n} \<subseteq> set (is @ [j])" using Cons.prems(7) e by simp
    then show ?thesis using st True by (simp add: e r)
  next
    case False
    then have nn: "\<not> {0..<n} \<subseteq> set ((is @ [j]) @ map fst (butlast es))" using Cons.prems(6) e by simp
    then have "\<not> {0..<n} \<subseteq> set (is @ [j])" by auto
    then have o: "out = None" "filling k n t0 chunk (is @ [j]) slots'" using st by simp_all
    have "run_outs (\<lambda>(j, now). accept k n j (chunk j) now) es slots' =
        replicate (length es - 1) None @ [Some (concat (map chunk [0..<n]))]"
      by (rule Cons.IH [OF o(2) Cons.prems(2) js False _ nn]) (use Cons.prems(5,7) e in auto)
    then show ?thesis using False o(1) by (cases es) (simp_all add: e r)
  qed
qed simp

lemma run_message:
  assumes "slots \<noteq> []" "\<forall>s \<in> set slots. \<not> live k t0 s" "n \<le> max_parts" "es \<noteq> []" "snd (hd es) = t0"
    "\<forall>(j, now) \<in> set es. j < n \<and> now - t0 \<le> timeout"
    "\<not> {0..<n} \<subseteq> set (map fst (butlast es))" "{0..<n} \<subseteq> set (map fst es)"
  shows "run_outs (\<lambda>(j, now). accept k n j (chunk j) now) es slots =
    replicate (length es - 1) None @ [Some (concat (map chunk [0..<n]))]"
proof -
  obtain j es' where e: "es = (j, t0) # es'" using assms(4,5) by (cases es) auto
  obtain slots' out where r: "accept k n j (chunk j) t0 slots = (slots', out)" by (metis prod.exhaust)
  have j: "j < n" using assms(6) e by simp
  note st = step_first [where chunk = chunk, OF assms(1,2,3) j r]
  show ?thesis
  proof (cases "es' = []")
    case True
    then show ?thesis using st assms(8) by (simp add: e r)
  next
    case False
    then have nn: "\<not> {0..<n} \<subseteq> set ([j] @ map fst (butlast es'))" using assms(7) e by simp
    then have "\<not> {0..<n} \<subseteq> set [j]" by auto
    then have o: "out = None" "filling k n t0 chunk [j] slots'" using st by simp_all
    have "run_outs (\<lambda>(j, now). accept k n j (chunk j) now) es' slots' =
        replicate (length es' - 1) None @ [Some (concat (map chunk [0..<n]))]"
      by (rule run_filling [OF o(2) assms(3) _ False _ nn]) (use j assms(6,8) e in auto)
    then show ?thesis using o(1) False by (cases es') (simp_all add: e r)
  qed
qed

end

section \<open>Mailboxes\<close>

text \<open>
  A bounded store of records (expiry, flags, payload) by key. An insertion may evict any other
  records, but never changes one; an operation that would never return gives \<open>None\<close>.
\<close>

locale mailbox =
  fixes inv :: "'s \<Rightarrow> bool"
    and look :: "'s \<Rightarrow> bytes \<rightharpoonup> u32 \<times> u8 \<times> bytes"
    and put :: "bytes \<Rightarrow> u32 \<Rightarrow> u8 \<Rightarrow> bytes \<Rightarrow> 's \<Rightarrow> (esp_err \<times> 's) option"
    and del :: "bytes \<Rightarrow> 's \<Rightarrow> 's option"
    and has :: "bytes \<Rightarrow> 's \<Rightarrow> bool option"
    and count :: "'s \<Rightarrow> nat"
    and cap :: nat
    and fits :: "bytes \<Rightarrow> bytes \<Rightarrow> bool"
  assumes look_fin: "inv s \<Longrightarrow> finite (dom (look s))"
    and look_card: "inv s \<Longrightarrow> card (dom (look s)) = count s"
    and put_law: "inv s \<Longrightarrow> fits k p \<Longrightarrow> count s < cap \<Longrightarrow>
       \<exists>s' A. put k x g p s = Some (ESP_OK, s') \<and> inv s' \<and> look s' = (look s |` A)(k \<mapsto> (x, g, p))"
    and del_law: "inv s \<Longrightarrow> \<exists>s'. del k s = Some s' \<and> inv s' \<and> look s' = (look s)(k := None)"
    and has_law: "inv s \<Longrightarrow> has k s = Some (look s k \<noteq> None)"
begin

lemma del_all:
  assumes "inv s"
  shows "\<exists>s'. fold_opt del ks s = Some s' \<and> inv s' \<and> look s' = look s |` (- set ks)"
  using assms
proof (induction ks arbitrary: s)
  case (Cons k ks)
  obtain s1 where s1: "del k s = Some s1" "inv s1" "look s1 = (look s)(k := None)" using del_law [OF Cons.prems] by blast
  obtain s' where "fold_opt del ks s1 = Some s'" "inv s'" "look s' = look s1 |` (- set ks)" using Cons.IH [OF s1(2)] by blast
  then show ?case using s1 by (auto simp: restrict_map_def fun_eq_iff)
qed (simp add: restrict_map_def)

lemma put_count:
  assumes "inv s" "inv s'" "look s' = (look s |` A)(k \<mapsto> v)"
  shows "count s' \<le> Suc (count s)" "look s k \<noteq> None \<Longrightarrow> count s' \<le> count s"
proof -
  have "dom (look s') \<subseteq> insert k (dom (look s))" using assms(3) by auto
  then have c: "card (dom (look s')) \<le> card (insert k (dom (look s)))"
    using look_fin [OF assms(1)] by (intro card_mono) auto
  then show "count s' \<le> Suc (count s)"
    using look_card [OF assms(1)] look_card [OF assms(2)] card_insert_le_m1 look_fin [OF assms(1)]
    by (metis card_insert_if le_SucI le_trans order_refl)
  assume "look s k \<noteq> None"
  then have "insert k (dom (look s)) = dom (look s)" by auto
  then show "count s' \<le> count s" using c look_card [OF assms(1)] look_card [OF assms(2)] by simp
qed

text \<open>Rewriting records that are in the mailbox.\<close>

lemma rewrite_all:
  assumes "inv s" "count s < cap" "\<forall>(k, x, g, p) \<in> set ops. fits k p"
    "length ops + count s \<le> cap"
  shows "\<exists>s'. fold_opt (\<lambda>(k, x, g, p) s. map_option snd (put k x g p s)) ops s = Some s' \<and> inv s' \<and>
    look s' \<subseteq>\<^sub>m look s ++ map_of (rev ops) \<and> (ops \<noteq> [] \<longrightarrow> look s' (fst (last ops)) = Some (snd (last ops)))"
  using assms
proof (induction ops arbitrary: s)
  case (Cons op ops)
  obtain k x g p where op: "op = (k, x, g, p)" by (metis prod.exhaust)
  obtain s1 A where s1: "put k x g p s = Some (ESP_OK, s1)" "inv s1" "look s1 = (look s |` A)(k \<mapsto> (x, g, p))"
    using put_law [OF Cons.prems(1), of k p x g] Cons.prems op by auto
  note c1 = put_count(1) [OF Cons.prems(1) s1(2,3)]
  show ?case
  proof (cases "ops = []")
    case True
    then show ?thesis using s1 op by (auto simp: map_le_def restrict_map_def map_add_def)
  next
    case False
    then have "count s1 < cap" using c1 Cons.prems(4) by (cases ops) auto
    then obtain s' where s': "fold_opt (\<lambda>(k, x, g, p) s. map_option snd (put k x g p s)) ops s1 = Some s'" "inv s'"
      "look s' \<subseteq>\<^sub>m look s1 ++ map_of (rev ops)" "look s' (fst (last ops)) = Some (snd (last ops))"
      using Cons.IH [OF s1(2)] c1 Cons.prems(3,4) False by auto
    have "look s1 \<subseteq>\<^sub>m look s ++ [k \<mapsto> (x, g, p)]" using s1(3) by (auto simp: map_le_def restrict_map_def map_add_def)
    then have "look s1 ++ map_of (rev ops) \<subseteq>\<^sub>m look s ++ [k \<mapsto> (x, g, p)] ++ map_of (rev ops)"
      by (rule map_le_add)
    then have "look s' \<subseteq>\<^sub>m look s ++ map_of (rev (op # ops))"
      using map_le_trans [OF s'(3)] by (simp add: op map_add_assoc)
    then show ?thesis using s'(1,2,4) s1(1) op False by simp
  qed
qed (simp add: map_le_def)

end

end
