(* ===== verification/Link_Registry.thy ===== *)
theory Link_Registry
  imports Bitle_Interfaces
begin

text \<open>
  The transport-agnostic link registry of \<open>main/bitle_link.c\<close>: a table of
  \<open>BITLE_LINK_MAX\<close> entries shared by all transports. A link carries either a legacy send
  function or an adapter with a vtable; function pointers are values of a type \<open>'f\<close>, and what
  calling one does to the outside world \<open>'w\<close> (the radio, the in-memory adapter's buffer) is the
  record \<open>link_driver\<close>, a parameter. A pointer to an adapter's context is an address
  (\<open>None\<close> for NULL). All registry operations run under one mutex; the sends run on a snapshot
  outside it, so the model's send and broadcast take the table only for the snapshot.
\<close>

section \<open>State\<close>

datatype bitle_link_type = BITLE_LINK_BLE | BITLE_LINK_LORA | BITLE_LINK_IN_MEMORY

datatype bitle_link_reliability = BITLE_LINK_BEST_EFFORT | BITLE_LINK_ACKNOWLEDGED

record link_caps =
  lc_id :: u16
  lc_kind :: bitle_link_type
  lc_mtu :: u16
  lc_broadcast :: bool
  lc_unicast :: bool
  lc_reliability :: bitle_link_reliability
  lc_background :: bool
  lc_max_connections :: u8
  lc_cost :: u16

text \<open>\<open>lk_vtable\<close>: no vtable, or a vtable whose \<open>send\<close> may be NULL.\<close>

record 'f bitle_link =
  lk_capabilities :: link_caps
  lk_vtable :: "'f option option"
  lk_context :: "nat option"

record 'f link_entry =
  le_in_use :: bool
  le_adapter :: "'f bitle_link"
  le_legacy_send_fn :: "'f option"

type_synonym 'f links = "'f link_entry list"

record ('f, 'w) link_driver =
  call_legacy :: "'f \<Rightarrow> u16 \<Rightarrow> bytes \<Rightarrow> 'w \<Rightarrow> int \<times> 'w"
  call_vtable :: "'f \<Rightarrow> 'f bitle_link \<Rightarrow> bytes \<Rightarrow> 'w \<Rightarrow> int \<times> 'w"

definition BITLE_LINK_MAX :: nat where "BITLE_LINK_MAX = 8"
definition BITLE_LINK_NONE :: u16 where "BITLE_LINK_NONE = 0xFFFF"
definition BITLE_LINK_LEGACY_MTU :: u16 where "BITLE_LINK_LEGACY_MTU = 520"
definition BITLE_LINK_BROADCAST_BASE :: u16 where "BITLE_LINK_BROADCAST_BASE = 0x4000"

definition zero_caps :: link_caps where
  "zero_caps = \<lparr> lc_id = 0, lc_kind = BITLE_LINK_BLE, lc_mtu = 0, lc_broadcast = False,
     lc_unicast = False, lc_reliability = BITLE_LINK_BEST_EFFORT, lc_background = False,
     lc_max_connections = 0, lc_cost = 0 \<rparr>"

definition zero_entry :: "'f link_entry" where
  "zero_entry = \<lparr> le_in_use = False,
     le_adapter = \<lparr> lk_capabilities = zero_caps, lk_vtable = None, lk_context = None \<rparr>,
     le_legacy_send_fn = None \<rparr>"

definition empty_links :: "'f links" where
  "empty_links = replicate BITLE_LINK_MAX zero_entry"

abbreviation link_id :: "'f link_entry \<Rightarrow> u16" where
  "link_id e \<equiv> lc_id (lk_capabilities (le_adapter e))"

section \<open>Registering and looking up\<close>

definition find_locked :: "u16 \<Rightarrow> 'f links \<Rightarrow> nat option" where
  "find_locked handle ls = find_slot le_in_use link_id handle ls"

definition capabilities_valid :: "link_caps \<Rightarrow> bool" where
  "capabilities_valid c \<longleftrightarrow> lc_id c \<noteq> BITLE_LINK_NONE \<and> lc_mtu c > 0 \<and>
     (lc_broadcast c \<or> lc_unicast c) \<and> lc_max_connections c > 0"

definition register_locked ::
  "'f bitle_link \<Rightarrow> 'f option \<Rightarrow> 'f links \<Rightarrow> esp_err \<times> 'f links" where
  "register_locked adapter legacy ls =
     (case find_slot_or_free le_in_use link_id (lc_id (lk_capabilities adapter)) ls of
        None \<Rightarrow> (ESP_ERR_NO_MEM, ls)
      | Some i \<Rightarrow> (ESP_OK, ls[i := \<lparr> le_in_use = True, le_adapter = adapter,
                                    le_legacy_send_fn = legacy \<rparr>]))"

definition bitle_link_register_adapter ::
  "'f bitle_link option \<Rightarrow> 'f links \<Rightarrow> esp_err \<times> 'f links" where
  "bitle_link_register_adapter link ls =
     (case link of
        None \<Rightarrow> (ESP_ERR_INVALID_ARG, ls)
      | Some l \<Rightarrow>
          if \<not> capabilities_valid (lk_capabilities l) \<or> lk_vtable l = None \<or> lk_vtable l = Some None
          then (ESP_ERR_INVALID_ARG, ls)
          else register_locked l None ls)"

definition legacy_caps :: "u16 \<Rightarrow> bitle_link_type \<Rightarrow> link_caps" where
  "legacy_caps handle type = \<lparr> lc_id = handle, lc_kind = type, lc_mtu = BITLE_LINK_LEGACY_MTU,
     lc_broadcast = (type = BITLE_LINK_LORA \<or> handle \<ge> BITLE_LINK_BROADCAST_BASE),
     lc_unicast = (type \<noteq> BITLE_LINK_LORA),
     lc_reliability = (if type = BITLE_LINK_LORA then BITLE_LINK_ACKNOWLEDGED
                       else BITLE_LINK_BEST_EFFORT),
     lc_background = True,
     lc_max_connections = (if type = BITLE_LINK_BLE then 8 else 1),
     lc_cost = (if type = BITLE_LINK_BLE then 10 else 50) \<rparr>"

definition bitle_link_register ::
  "u16 \<Rightarrow> bitle_link_type \<Rightarrow> 'f option \<Rightarrow> 'f links \<Rightarrow> esp_err \<times> 'f links" where
  "bitle_link_register handle type send_fn ls =
     (if send_fn = None \<or> handle = BITLE_LINK_NONE then (ESP_ERR_INVALID_ARG, ls)
      else register_locked
             \<lparr> lk_capabilities = legacy_caps handle type, lk_vtable = None, lk_context = None \<rparr>
             send_fn ls)"

definition bitle_link_unregister :: "u16 \<Rightarrow> 'f links \<Rightarrow> 'f links" where
  "bitle_link_unregister handle ls =
     (case find_locked handle ls of None \<Rightarrow> ls | Some i \<Rightarrow> ls[i := zero_entry])"

definition bitle_link_ready :: "u16 \<Rightarrow> 'f links \<Rightarrow> bool" where
  "bitle_link_ready handle ls \<longleftrightarrow> find_locked handle ls \<noteq> None"

definition bitle_link_get_capabilities :: "u16 \<Rightarrow> 'f links \<Rightarrow> link_caps option" where
  "bitle_link_get_capabilities handle ls =
     map_option (\<lambda>i. lk_capabilities (le_adapter (ls ! i))) (find_locked handle ls)"

definition bitle_link_is_broadcast :: "u16 \<Rightarrow> 'f links \<Rightarrow> bool" where
  "bitle_link_is_broadcast handle ls =
     (case bitle_link_get_capabilities handle ls of
        Some c \<Rightarrow> lc_broadcast c
      | None \<Rightarrow> handle \<ge> BITLE_LINK_BROADCAST_BASE)"

section \<open>Sending\<close>

definition entry_send ::
  "('f, 'w) link_driver \<Rightarrow> 'f link_entry \<Rightarrow> bytes \<Rightarrow> 'w \<Rightarrow> int \<times> 'w" where
  "entry_send drv e data w =
     (if data = [] \<or> length data > unat (lc_mtu (lk_capabilities (le_adapter e))) then (-1, w)
      else case le_legacy_send_fn e of
        Some f \<Rightarrow> call_legacy drv f (link_id e) data w
      | None \<Rightarrow> call_vtable drv (the (the (lk_vtable (le_adapter e)))) (le_adapter e) data w)"

definition bitle_link_send ::
  "('f, 'w) link_driver \<Rightarrow> 'f links \<Rightarrow> u16 \<Rightarrow> bytes \<Rightarrow> 'w \<Rightarrow> esp_err \<times> 'w" where
  "bitle_link_send drv ls handle data w =
     (case find_locked handle ls of
        None \<Rightarrow> (ESP_ERR_INVALID_STATE, w)
      | Some i \<Rightarrow> (case entry_send drv (ls ! i) data w of
                     (rc, w') \<Rightarrow> (if rc = 0 then ESP_OK else ESP_FAIL, w')))"

definition broadcast_targets :: "u16 \<Rightarrow> 'f links \<Rightarrow> 'f link_entry list" where
  "broadcast_targets exclude ls = filter (\<lambda>e. le_in_use e \<and> link_id e \<noteq> exclude) ls"

fun send_all ::
  "('f, 'w) link_driver \<Rightarrow> 'f link_entry list \<Rightarrow> bytes \<Rightarrow> nat \<Rightarrow> 'w \<Rightarrow> nat \<times> 'w" where
  "send_all drv [] data sent w = (sent, w)"
| "send_all drv (e # es) data sent w =
     (case entry_send drv e data w of
        (rc, w') \<Rightarrow> send_all drv es data (if rc = 0 then sent + 1 else sent) w')"

definition bitle_link_broadcast ::
  "('f, 'w) link_driver \<Rightarrow> 'f links \<Rightarrow> u16 \<Rightarrow> bytes \<Rightarrow> 'w \<Rightarrow> nat \<times> 'w" where
  "bitle_link_broadcast drv ls exclude data w =
     send_all drv (broadcast_targets exclude ls) data 0 w"

section \<open>The in-memory adapter\<close>

record memory_state =
  ms_storage :: "bytes option"
  ms_frame_len :: nat
  ms_send_count :: u32

text \<open>The adapter's \<open>capacity\<close> field is the size of the caller's \<open>storage\<close> array.\<close>

definition ms_capacity :: "memory_state \<Rightarrow> nat" where
  "ms_capacity s = (case ms_storage s of None \<Rightarrow> 0 | Some b \<Rightarrow> length b)"

datatype memory_fn = Memory_Send

type_synonym memory_heap = "nat \<rightharpoonup> memory_state"

definition memory_send :: "memory_fn bitle_link \<Rightarrow> bytes \<Rightarrow> memory_heap \<Rightarrow> int \<times> memory_heap" where
  "memory_send link frame heap =
     (case lk_context link of
        None \<Rightarrow> (-1, heap)
      | Some a \<Rightarrow> (case heap a of
          None \<Rightarrow> (-1, heap)
        | Some st \<Rightarrow> (case ms_storage st of
            None \<Rightarrow> (-1, heap)
          | Some storage \<Rightarrow>
              if frame = [] \<or> length frame > ms_capacity st \<or>
                 length frame > unat (lc_mtu (lk_capabilities link)) then (-1, heap)
              else (0, heap(a \<mapsto> st \<lparr> ms_storage := Some (frame @ drop (length frame) storage),
                                      ms_frame_len := length frame,
                                      ms_send_count := ms_send_count st + 1 \<rparr>)))))"

definition bitle_link_memory_adapter ::
  "nat \<Rightarrow> link_caps \<Rightarrow> memory_heap \<Rightarrow> esp_err \<times> memory_fn bitle_link option \<times> memory_heap" where
  "bitle_link_memory_adapter a caps heap =
     (case heap a of
        None \<Rightarrow> (ESP_ERR_INVALID_ARG, None, heap)
      | Some st \<Rightarrow>
          if ms_storage st = None \<or> \<not> capabilities_valid caps \<or>
             lc_kind caps \<noteq> BITLE_LINK_IN_MEMORY \<or> ms_capacity st < unat (lc_mtu caps)
          then (ESP_ERR_INVALID_ARG, None, heap)
          else (ESP_OK,
                Some \<lparr> lk_capabilities = caps, lk_vtable = Some (Some Memory_Send), lk_context = Some a \<rparr>,
                heap(a \<mapsto> st \<lparr> ms_frame_len := 0, ms_send_count := 0 \<rparr>)))"

definition memory_driver :: "(memory_fn, memory_heap) link_driver" where
  "memory_driver = \<lparr> call_legacy = (\<lambda>f h d w. (-1, w)),
     call_vtable = (\<lambda>f l d w. case f of Memory_Send \<Rightarrow> memory_send l d w) \<rparr>"

definition bitle_link_contract_self_test :: esp_err where
  "bitle_link_contract_self_test =
     (let caps = \<lparr> lc_id = 1, lc_kind = BITLE_LINK_IN_MEMORY, lc_mtu = 4, lc_broadcast = True,
            lc_unicast = True, lc_reliability = BITLE_LINK_ACKNOWLEDGED, lc_background = True,
            lc_max_connections = 1, lc_cost = 0 \<rparr>;
          expected = [1, 2, 3, 4];
          heap = [0 \<mapsto> \<lparr> ms_storage = Some [0, 0, 0, 0], ms_frame_len = 0, ms_send_count = 0 \<rparr>]
      in case bitle_link_memory_adapter 0 caps heap of
           (ESP_OK, Some link, heap1) \<Rightarrow>
             (case memory_send link expected heap1 of (rc, heap2) \<Rightarrow>
                let st = the (heap2 0) in
                if rc \<noteq> 0 \<or> ms_send_count st \<noteq> 1 \<or> ms_frame_len st \<noteq> 4 \<or>
                   ms_storage st \<noteq> Some expected \<or>
                   fst (memory_send link (expected @ [0]) heap2) = 0
                then ESP_FAIL else ESP_OK)
         | _ \<Rightarrow> ESP_FAIL)"

section \<open>The table as a finite map\<close>

definition link_tab_inv :: "'f links \<Rightarrow> bool" where
  "link_tab_inv ls \<longleftrightarrow> length ls = BITLE_LINK_MAX \<and> slots_uniq le_in_use link_id ls"

definition link_look :: "'f links \<Rightarrow> u16 \<Rightarrow> ('f bitle_link \<times> 'f option) option" where
  "link_look ls h = map_option (\<lambda>e. (le_adapter e, le_legacy_send_fn e)) (slot_value le_in_use link_id h ls)"

definition link_put :: "'f links \<Rightarrow> 'f bitle_link \<times> 'f option \<Rightarrow> 'f links option" where
  "link_put ls v = (case register_locked (fst v) (snd v) ls of (ESP_OK, ls') \<Rightarrow> Some ls' | _ \<Rightarrow> None)"

lemma register_locked_cases:
  obtains (full) "find_slot_or_free le_in_use link_id (lc_id (lk_capabilities a)) ls = None"
      "register_locked a f ls = (ESP_ERR_NO_MEM, ls)"
  | (ok) i where "find_slot_or_free le_in_use link_id (lc_id (lk_capabilities a)) ls = Some i"
      "register_locked a f ls =
         (ESP_OK, ls[i := \<lparr> le_in_use = True, le_adapter = a, le_legacy_send_fn = f \<rparr>])"
  by (cases "find_slot_or_free le_in_use link_id (lc_id (lk_capabilities a)) ls")
     (auto simp: register_locked_def)

lemma link_put_Some:
  "link_put ls v = Some ls' \<longleftrightarrow>
     (\<exists>i. find_slot_or_free le_in_use link_id (lc_id (lk_capabilities (fst v))) ls = Some i \<and>
          ls' = ls[i := \<lparr> le_in_use = True, le_adapter = fst v, le_legacy_send_fn = snd v \<rparr>])"
  by (auto simp: link_put_def register_locked_def split: option.splits)

lemma dom_link_look: "dom (link_look ls) = link_id ` {e \<in> set ls. le_in_use e}"
  using find_slot_exists [of le_in_use link_id _ ls]
  by (auto simp: link_look_def slot_value_def dom_def)

interpretation lt: handle_table link_tab_inv link_look link_put "\<lambda>ls h. bitle_link_unregister h ls"
  "\<lambda>v. lc_id (lk_capabilities (fst v))" BITLE_LINK_MAX
proof (unfold_locales, goal_cases)
  case (1 t v t')
  then show ?case
    using slots_uniq_put [of le_in_use link_id t
        "\<lparr> le_in_use = True, le_adapter = fst v, le_legacy_send_fn = snd v \<rparr>"]
    by (auto simp: link_put_Some link_tab_inv_def)
next
  case (2 t v t' h)
  then show ?case
    using slot_value_put [of le_in_use link_id t
        "\<lparr> le_in_use = True, le_adapter = fst v, le_legacy_send_fn = snd v \<rparr>" _ h]
    by (auto simp: link_put_Some link_tab_inv_def link_look_def)
next
  case (3 t v)
  have "link_look t h = None \<longleftrightarrow> find_slot le_in_use link_id h t = None" for h
    by (simp add: link_look_def slot_value_None)
  with 3 show ?case
    using find_slot_or_free_None [of le_in_use link_id t "lc_id (lk_capabilities (fst v))"]
    by (auto simp: link_put_def register_locked_def link_tab_inv_def dom_link_look split: option.splits)
next
  case (4 t h)
  then show ?case
    by (auto simp: link_tab_inv_def bitle_link_unregister_def zero_entry_def slots_uniq_clear
        split: option.split)
next
  case (5 t h h')
  then show ?case
  proof (cases "find_slot le_in_use link_id h t")
    case None
    then show ?thesis
      by (auto simp: link_look_def bitle_link_unregister_def find_locked_def slot_value_None)
  next
    case (Some i)
    then show ?thesis using 5 slot_value_clear [of le_in_use link_id t h i zero_entry h']
      by (auto simp: link_look_def bitle_link_unregister_def find_locked_def link_tab_inv_def
          zero_entry_def)
  qed
next
  case (6 t)
  then show ?case using slots_card_le [of le_in_use link_id t]
    by (simp add: dom_link_look link_tab_inv_def)
qed

section \<open>Reachable registries\<close>

definition entry_ok :: "'f link_entry \<Rightarrow> bool" where
  "entry_ok e \<longleftrightarrow> (le_in_use e \<longrightarrow> capabilities_valid (lk_capabilities (le_adapter e)) \<and>
     (le_legacy_send_fn e = None \<longrightarrow> (\<exists>f. lk_vtable (le_adapter e) = Some (Some f))))"

definition link_inv :: "'f links \<Rightarrow> bool" where
  "link_inv ls \<longleftrightarrow> link_tab_inv ls \<and> list_all entry_ok ls"

inductive link_step :: "'f links \<Rightarrow> 'f links \<Rightarrow> bool" where
  register_adapter: "bitle_link_register_adapter l ls = (r, ls') \<Longrightarrow> link_step ls ls'"
| register: "bitle_link_register h ty f ls = (r, ls') \<Longrightarrow> link_step ls ls'"
| unregister: "link_step ls (bitle_link_unregister h ls)"

inductive link_reach :: "'f links \<Rightarrow> bool" where
  boot: "link_reach empty_links"
| step: "link_reach ls \<Longrightarrow> link_step ls ls' \<Longrightarrow> link_reach ls'"

lemma link_put_register:
  "register_locked a f ls = (ESP_OK, ls') \<longleftrightarrow> link_put ls (a, f) = Some ls'"
  by (cases rule: register_locked_cases [of a ls f]) (auto simp: link_put_def)

lemma register_locked_result:
  "register_locked a f ls = (r, ls') \<Longrightarrow> r = ESP_OK \<or> (r = ESP_ERR_NO_MEM \<and> ls' = ls \<and> link_put ls (a, f) = None)"
  by (cases rule: register_locked_cases [of a ls f]) (auto simp: link_put_def)

lemma register_locked_inv:
  assumes "link_inv ls" "register_locked a f ls = (r, ls')"
    and "capabilities_valid (lk_capabilities a)" "f = None \<Longrightarrow> \<exists>g. lk_vtable a = Some (Some g)"
  shows "link_inv ls'"
proof (cases rule: register_locked_cases [of a ls f])
  case full
  then show ?thesis using assms(1,2) by simp
next
  case (ok i)
  then have r: "r = ESP_OK" "link_put ls (a, f) = Some ls'"
    using assms(2) by (auto simp flip: link_put_register)
  moreover have "list_all entry_ok ls'"
    using assms ok by (auto simp: link_inv_def entry_ok_def intro!: list_all_update)
  ultimately show ?thesis using assms(1) lt.put_inv by (auto simp: link_inv_def)
qed

lemma legacy_caps_valid: "h \<noteq> BITLE_LINK_NONE \<Longrightarrow> capabilities_valid (legacy_caps h ty)"
  by (cases ty) (auto simp: capabilities_valid_def legacy_caps_def BITLE_LINK_LEGACY_MTU_def)

lemma link_step_inv: "link_step ls ls' \<Longrightarrow> link_inv ls \<Longrightarrow> link_inv ls'"
proof (induction rule: link_step.induct)
  case (register_adapter l ls r ls')
  then show ?case
    using register_locked_inv [of ls "the l" None r ls']
    by (auto simp: bitle_link_register_adapter_def split: option.splits if_splits)
next
  case (register h ty f ls r ls')
  then show ?case
    using legacy_caps_valid [of h ty] register_locked_inv [of ls "\<lparr> lk_capabilities = legacy_caps h ty,
      lk_vtable = None, lk_context = None \<rparr>" f r ls']
    by (auto simp: bitle_link_register_def split: if_splits)
next
  case (unregister ls h)
  then have "link_tab_inv (bitle_link_unregister h ls)" by (simp add: link_inv_def lt.del_inv)
  moreover have "list_all entry_ok (bitle_link_unregister h ls)"
    using unregister
    by (auto simp: link_inv_def bitle_link_unregister_def entry_ok_def zero_entry_def
        intro!: list_all_update split: option.splits)
  ultimately show ?case by (simp add: link_inv_def)
qed

lemma link_inv_empty: "link_inv empty_links"
  by (simp add: link_inv_def link_tab_inv_def empty_links_def slots_uniq_def zero_entry_def
      entry_ok_def list_all_iff)

lemma link_reach_inv: "link_reach ls \<Longrightarrow> link_inv ls"
  by (induction rule: link_reach.induct) (auto simp: link_inv_empty dest: link_step_inv)

lemma link_ready_look: "bitle_link_ready h ls \<longleftrightarrow> link_look ls h \<noteq> None"
  by (auto simp: bitle_link_ready_def link_look_def slot_value_def find_locked_def)

lemma link_caps_look:
  "bitle_link_get_capabilities h ls = map_option (\<lambda>v. lk_capabilities (fst v)) (link_look ls h)"
  by (simp add: bitle_link_get_capabilities_def link_look_def slot_value_def find_locked_def
      option.map_comp comp_def)

lemma dom_link_ready: "dom (link_look ls) = {h. bitle_link_ready h ls}"
  by (auto simp: link_ready_look)

lemma register_legacy:
  assumes "link_inv ls" "h \<noteq> BITLE_LINK_NONE"
    and "bitle_link_register h ty (Some f) ls = (r, ls')"
  shows "(if bitle_link_ready h ls \<or> card {h. bitle_link_ready h ls} < BITLE_LINK_MAX
     then r = ESP_OK \<and> (\<forall>h'. bitle_link_get_capabilities h' ls' =
            (if h' = h then Some (legacy_caps h ty) else bitle_link_get_capabilities h' ls))
     else r = ESP_ERR_NO_MEM \<and> ls' = ls)"
proof -
  define a where "a = \<lparr> lk_capabilities = legacy_caps h ty, lk_vtable = None :: 'a option option,
     lk_context = None \<rparr>"
  have reg: "register_locked a (Some f) ls = (r, ls')"
    using assms(2,3) by (simp add: bitle_link_register_def a_def)
  have inv: "link_tab_inv ls" using assms(1) by (simp add: link_inv_def)
  have k: "lc_id (lk_capabilities (fst (a, Some f))) = h" by (simp add: a_def legacy_caps_def)
  note full = lt.put_full_iff [OF inv, of "(a, Some f)", unfolded k dom_link_ready]
  show ?thesis
  proof (cases "link_put ls (a, Some f)")
    case None
    then have "r = ESP_ERR_NO_MEM \<and> ls' = ls"
      using reg register_locked_result [OF reg] link_put_register [of a "Some f" ls ls'] by auto
    then show ?thesis using None full by auto
  next
    case (Some t)
    then have ok: "r = ESP_OK" "ls' = t"
      using reg by (simp_all flip: link_put_register)
    then show ?thesis using full Some lt.look_put [OF inv Some, unfolded k]
      by (auto simp: link_caps_look a_def)
  qed
qed

section \<open>Broadcasting\<close>

text \<open>A driver that records every call (handle, frame, success) and then does what \<open>drv\<close> does.\<close>

type_synonym send_log = "(u16 \<times> bytes \<times> bool) list"

definition log_driver :: "('f, 'w) link_driver \<Rightarrow> ('f, send_log \<times> 'w) link_driver" where
  "log_driver drv =
     \<lparr> call_legacy = (\<lambda>f h d (l, w). case call_legacy drv f h d w of
          (rc, w') \<Rightarrow> (rc, (l @ [(h, d, rc = 0)], w'))),
       call_vtable = (\<lambda>f a d (l, w). case call_vtable drv f a d w of
          (rc, w') \<Rightarrow> (rc, (l @ [(lc_id (lk_capabilities a), d, rc = 0)], w'))) \<rparr>"

definition frame_fits :: "bytes \<Rightarrow> link_caps \<Rightarrow> bool" where
  "frame_fits data c \<longleftrightarrow> data \<noteq> [] \<and> length data \<le> unat (lc_mtu c)"

lemma entry_send_log:
  "entry_send (log_driver drv) e data (l, w) = (rc, (l', w')) \<Longrightarrow>
   (if frame_fits data (lk_capabilities (le_adapter e)) then l' = l @ [(link_id e, data, rc = 0)]
    else l' = l \<and> rc \<noteq> 0)"
  by (auto simp: entry_send_def log_driver_def frame_fits_def split: if_splits option.splits prod.splits)

lemma send_all_log:
  "send_all (log_driver drv) es data sent (l, w) = (n, (l', w')) \<Longrightarrow>
   \<exists>new. l' = l @ new \<and> n = sent + length (filter (\<lambda>(h, d, ok). ok) new) \<and>
     map fst new = map link_id (filter (\<lambda>e. frame_fits data (lk_capabilities (le_adapter e))) es) \<and>
     (\<forall>(h, d, ok) \<in> set new. d = data)"
proof (induction es arbitrary: sent l w)
  case (Cons e es)
  obtain rc l1 w1 where e: "entry_send (log_driver drv) e data (l, w) = (rc, (l1, w1))"
    by (metis prod.exhaust)
  note el = entry_send_log [OF e]
  obtain new where new: "l' = l1 @ new"
    "n = (if rc = 0 then sent + 1 else sent) + length (filter (\<lambda>(h, d, ok). ok) new)"
    "map fst new = map link_id (filter (\<lambda>e. frame_fits data (lk_capabilities (le_adapter e))) es)"
    "\<forall>(h, d, ok) \<in> set new. d = data"
    using Cons.IH [OF Cons.prems [unfolded send_all.simps e prod.case]] by blast
  show ?case
  proof (cases "frame_fits data (lk_capabilities (le_adapter e))")
    case True
    then show ?thesis using el new by (intro exI [of _ "(link_id e, data, rc = 0) # new"]) auto
  next
    case False
    then show ?thesis using el new by (intro exI [of _ new]) auto
  qed
qed simp

lemma broadcast_log:
  assumes "link_inv ls" "bitle_link_broadcast (log_driver drv) ls ex data ([], w) = (n, (l, w'))"
  shows "distinct (map fst l)"
    "set (map fst l) = {h. h \<noteq> ex \<and> (\<exists>c. bitle_link_get_capabilities h ls = Some c \<and> frame_fits data c)}"
    "\<forall>(h, d, ok) \<in> set l. d = data" "n = length (filter (\<lambda>(h, d, ok). ok) l)"
proof -
  have u: "slots_uniq le_in_use link_id ls" using assms(1) by (simp add: link_inv_def link_tab_inv_def)
  obtain new where new: "l = new" "n = length (filter (\<lambda>(h, d, ok). ok) new)"
     "map fst new = map link_id (filter (\<lambda>e. frame_fits data (lk_capabilities (le_adapter e)))
        (broadcast_targets ex ls))"
     "\<forall>(h, d, ok) \<in> set new. d = data"
    using send_all_log [OF assms(2) [unfolded bitle_link_broadcast_def]] by auto
  have "map fst l = map link_id (filter (\<lambda>e. frame_fits data (lk_capabilities (le_adapter e)) \<and> link_id e \<noteq> ex)
        (filter le_in_use ls))"
    unfolding new(1,3) broadcast_targets_def by (simp add: conj_ac)
  moreover have "bitle_link_get_capabilities h ls = Some c \<longleftrightarrow>
      (\<exists>e \<in> set ls. le_in_use e \<and> link_id e = h \<and> lk_capabilities (le_adapter e) = c)" for h c
    by (auto simp: link_caps_look link_look_def slot_value_Some [OF u])
  ultimately show "distinct (map fst l)"
    "set (map fst l) = {h. h \<noteq> ex \<and> (\<exists>c. bitle_link_get_capabilities h ls = Some c \<and> frame_fits data c)}"
    using slots_uniq_filter [OF u, of "\<lambda>e. frame_fits data (lk_capabilities (le_adapter e)) \<and> link_id e \<noteq> ex"]
    by auto
  show "\<forall>(h, d, ok) \<in> set l. d = data" "n = length (filter (\<lambda>(h, d, ok). ok) l)"
    using new by auto
qed

section \<open>Properties\<close>

lemma bitle_link_self_test_passes: "bitle_link_contract_self_test = ESP_OK"
  by (simp add: bitle_link_contract_self_test_def bitle_link_memory_adapter_def memory_send_def
      ms_capacity_def capabilities_valid_def BITLE_LINK_NONE_def)

text \<open>A registry with BLE peers 1 and 2 and the LoRa trunk.\<close>

definition sample_links :: "nat links" where
  "sample_links = snd (bitle_link_register 0x4000 BITLE_LINK_LORA (Some 1)
     (snd (bitle_link_register 2 BITLE_LINK_BLE (Some 0)
     (snd (bitle_link_register 1 BITLE_LINK_BLE (Some 0) empty_links)))))"

lemma link_reach_register: "link_reach ls \<Longrightarrow> link_reach (snd (bitle_link_register h ty f ls))"
  by (rule link_reach.step [OF _ link_step.register [OF prod.collapse [symmetric]]])

lemma sample_links_reach: "link_reach sample_links"
  unfolding sample_links_def by (intro link_reach_register link_reach.boot)

lemma empty_links_list:
  "empty_links = [zero_entry, zero_entry, zero_entry, zero_entry,
     zero_entry, zero_entry, zero_entry, zero_entry]"
  by (simp add: empty_links_def BITLE_LINK_MAX_def numeral_eq_Suc)

lemmas link_eval = sample_links_def bitle_link_register_def register_locked_def find_slot_or_free_def
  find_slot_def empty_links_list BITLE_LINK_MAX_def BITLE_LINK_NONE_def zero_entry_def zero_caps_def
  legacy_caps_def BITLE_LINK_LEGACY_MTU_def BITLE_LINK_BROADCAST_BASE_def

text \<open>
  In every state the registry can reach, it has exactly \<open>BITLE_LINK_MAX\<close> slots, no handle
  is registered twice, and every occupied entry has valid capabilities and a function to call: a
  send never goes through a null pointer.
\<close>

lemma link_registry_invariant:
  assumes "link_reach ls"
  shows "length ls = 8 \<and> slots_uniq le_in_use link_id ls \<and>
    (\<forall>e \<in> set ls. le_in_use e \<longrightarrow> capabilities_valid (lk_capabilities (le_adapter e)) \<and>
      (le_legacy_send_fn e \<noteq> None \<or> (\<exists>f. lk_vtable (le_adapter e) = Some (Some f))))"
  using link_reach_inv [OF assms]
  by (auto simp: link_inv_def link_tab_inv_def entry_ok_def list_all_iff BITLE_LINK_MAX_def)

text \<open>
  Registration refines a bounded finite map from handles to capabilities: it succeeds exactly
  when the handle is already registered or one of the 8 slots is free, then changes that handle's
  entry only; otherwise it reports ESP_ERR_NO_MEM and changes nothing.
\<close>

lemma link_register_refines_map:
  assumes "link_inv ls" "h \<noteq> BITLE_LINK_NONE"
    and "bitle_link_register h ty (Some f) ls = (r, ls')"
  shows "(if bitle_link_ready h ls \<or> card {h. bitle_link_ready h ls} < BITLE_LINK_MAX
     then r = ESP_OK \<and> (\<forall>h'. bitle_link_get_capabilities h' ls' =
            (if h' = h then Some (legacy_caps h ty) else bitle_link_get_capabilities h' ls))
     else r = ESP_ERR_NO_MEM \<and> ls' = ls)"
  by (rule register_legacy [OF assms])

text \<open>
  C34: A broadcast calls the transport once for every registered link except the excluded one
  whose MTU the frame fits, always with the frame itself, and returns the number of calls that
  succeeded.
\<close>

theorem link_broadcast_exact:
  assumes "link_inv ls"
    and "bitle_link_broadcast (log_driver drv) ls ex data ([], w) = (n, (l, w'))"
  shows "distinct (map fst l) \<and>
    set (map fst l) = {h. h \<noteq> ex \<and> (\<exists>c. bitle_link_get_capabilities h ls = Some c \<and> frame_fits data c)} \<and>
    (\<forall>(h, d, ok) \<in> set l. d = data) \<and> n = length (filter (\<lambda>(h, d, ok). ok) l)"
  using broadcast_log [OF assms] by blast

theorem link_broadcast_exact_witness:
  "\<exists>n l w. bitle_link_broadcast (log_driver \<lparr> call_legacy = (\<lambda>f h d w. (0, w)),
       call_vtable = (\<lambda>f a d w. (0, w)) \<rparr>) sample_links 1 [9, 9] ([], ()) = (n, (l, w)) \<and>
     1 \<notin> set (map fst l) \<and> n = 2"
proof -
  let ?d = "\<lparr> call_legacy = (\<lambda>(f :: nat) h d (w :: unit). (0 :: int, w)),
     call_vtable = (\<lambda>f a d w. (0, w)) \<rparr>"
  obtain n l w where r: "bitle_link_broadcast (log_driver ?d) sample_links 1 [9, 9] ([], ()) = (n, (l, w))"
    by (metis prod.exhaust)
  have "n = 2" using r
    by (simp add: bitle_link_broadcast_def broadcast_targets_def entry_send_def log_driver_def link_eval)
  then show ?thesis
    using r link_broadcast_exact [OF link_reach_inv [OF sample_links_reach] r] by auto
qed

end
