(* ===== verification/Clock.thy ===== *)
theory Clock
  imports Bitle_Prelude
begin

text \<open>
  The wall clock of \<open>components/bitchat_utils/bitchat_time.c\<close>. The node has no battery-backed
  clock: it boots from the time kept in flash (NVS), takes its time from peers, and protects itself
  against peers that are wrong. Every operation gets the monotonic time of its reads as arguments
  (\<open>mt\<close> inside the critical section, \<open>mt'\<close> for the read after it); the NVS service
  is the record \<open>nvs_io\<close>, a parameter, and the value it stores is the field \<open>ck_nvs\<close>.
  All times are 64-bit words, so the arithmetic wraps where the code's does.
\<close>

section \<open>State\<close>

definition MIN_VALID_EPOCH_SECONDS :: u64 where "MIN_VALID_EPOCH_SECONDS = 1704067200"
definition MAX_CLOCK_SKEW_SECONDS :: u64 where "MAX_CLOCK_SKEW_SECONDS = 30"
definition PERSIST_INTERVAL_MS :: u64 where "PERSIST_INTERVAL_MS = 6 * 60 * 60 * 1000"

abbreviation skew_ms :: u64 where "skew_ms \<equiv> MAX_CLOCK_SKEW_SECONDS * 1000"

record clock =
  ck_epoch_base_ms :: u64
  ck_time_valid :: bool
  ck_peer_synced :: bool
  ck_sync_generation :: u32
  ck_last_persist_uptime_ms :: u64
  ck_anchor_wall_ms :: u64
  ck_anchor_mono_ms :: u64
  ck_time_authoritative :: bool
  ck_nvs :: "u64 option"

record nvs_io =
  nvs_open_ok :: bool
  nvs_set_ok :: bool
  nvs_get_ok :: bool

section \<open>Persistence and boot\<close>

definition persist_wall_estimate :: "nvs_io \<Rightarrow> u64 \<Rightarrow> u64 \<Rightarrow> clock \<Rightarrow> clock" where
  "persist_wall_estimate io mt' wall_ms s =
     (if \<not> nvs_open_ok io then s
      else s \<lparr> ck_nvs := (if nvs_set_ok io then Some wall_ms else ck_nvs s),
               ck_last_persist_uptime_ms := mt' \<rparr>)"

definition load_epoch_base :: "nvs_io \<Rightarrow> clock \<Rightarrow> u64" where
  "load_epoch_base io s =
     (if nvs_open_ok io \<and> nvs_get_ok io then (case ck_nvs s of Some v \<Rightarrow> v | None \<Rightarrow> 0) else 0)"

text \<open>\<open>epoch\<close> is what \<open>mktime\<close> makes of the compiler's build date and time.\<close>

definition build_epoch_ms :: "u64 \<Rightarrow> u64" where
  "build_epoch_ms epoch =
     (if epoch < MIN_VALID_EPOCH_SECONDS then MIN_VALID_EPOCH_SECONDS else epoch) * 1000"

definition bitchat_time_init :: "nvs_io \<Rightarrow> u64 \<Rightarrow> u64 \<Rightarrow> clock \<Rightarrow> clock" where
  "bitchat_time_init io mt' epoch s =
     (let stored = load_epoch_base io s;
          build_ms = build_epoch_ms epoch;
          base = (if stored > build_ms then stored else build_ms);
          s1 = s \<lparr> ck_epoch_base_ms := base,
                   ck_time_valid := (base div 1000 \<ge> MIN_VALID_EPOCH_SECONDS) \<rparr>
      in if stored \<noteq> base then persist_wall_estimate io mt' base s1 else s1)"

text \<open>The static variables of a freshly booted node; only the flash content survives.\<close>

definition reset_clock :: "u64 option \<Rightarrow> clock" where
  "reset_clock nvs = \<lparr> ck_epoch_base_ms = 0, ck_time_valid = False, ck_peer_synced = False,
     ck_sync_generation = 0, ck_last_persist_uptime_ms = 0, ck_anchor_wall_ms = 0,
     ck_anchor_mono_ms = 0, ck_time_authoritative = False, ck_nvs = nvs \<rparr>"

definition bitchat_time_now_ms :: "u64 \<Rightarrow> clock \<Rightarrow> u64" where
  "bitchat_time_now_ms mt s = (if ck_epoch_base_ms s = 0 then 0 else ck_epoch_base_ms s + mt)"

definition bitchat_time_is_valid :: "clock \<Rightarrow> bool" where
  "bitchat_time_is_valid s = ck_time_valid s"

definition bitchat_time_is_authoritative :: "clock \<Rightarrow> bool" where
  "bitchat_time_is_authoritative s = ck_time_authoritative s"

definition bitchat_time_sync_generation :: "clock \<Rightarrow> u32" where
  "bitchat_time_sync_generation s = ck_sync_generation s"

section \<open>Time from peers\<close>

definition peer_ts_unusable :: "u64 \<Rightarrow> bool" where
  "peer_ts_unusable ts \<longleftrightarrow> ts = 0 \<or> ts div 1000 < MIN_VALID_EPOCH_SECONDS"

definition ts_delta :: "u64 \<Rightarrow> u64 \<Rightarrow> u64" where
  "ts_delta ts current = (if ts > current then ts - current else current - ts)"

definition anchor_cap :: "u64 \<Rightarrow> clock \<Rightarrow> u64" where
  "anchor_cap mt s = ck_anchor_wall_ms s + (mt - ck_anchor_mono_ms s) + skew_ms"

definition acquire :: "u64 \<Rightarrow> u64 \<Rightarrow> clock \<Rightarrow> clock" where
  "acquire ts mt s = s \<lparr> ck_epoch_base_ms := ts - mt, ck_time_valid := True,
     ck_peer_synced := True, ck_sync_generation := ck_sync_generation s + 1,
     ck_anchor_wall_ms := ts, ck_anchor_mono_ms := mt \<rparr>"

definition bitchat_time_consider_peer :: "nvs_io \<Rightarrow> u64 \<Rightarrow> u64 \<Rightarrow> u64 \<Rightarrow> clock \<Rightarrow> clock" where
  "bitchat_time_consider_peer io mt mt' ts s =
     (if peer_ts_unusable ts then s
      else if \<not> ck_peer_synced s then persist_wall_estimate io mt' ts (acquire ts mt s)
      else
        let current = ck_epoch_base_ms s + mt in
        if ts_delta ts current > skew_ms then s
        else if ts > current then
          (if ts \<le> anchor_cap mt s then s \<lparr> ck_epoch_base_ms := ts - mt \<rparr> else s)
        else s)"

definition bitchat_time_consider_peer_announce ::
  "nvs_io \<Rightarrow> u64 \<Rightarrow> u64 \<Rightarrow> u64 \<Rightarrow> bool \<Rightarrow> bool \<Rightarrow> clock \<Rightarrow> clock" where
  "bitchat_time_consider_peer_announce io mt mt' ts peer_is_infra peer_is_authoritative s =
     (if peer_ts_unusable ts then s
      else
        let source_is_phone = (\<not> peer_is_infra);
            source_authoritative = (source_is_phone \<or> peer_is_authoritative)
        in if \<not> ck_peer_synced s then
             persist_wall_estimate io mt' ts
               ((acquire ts mt s) \<lparr> ck_time_authoritative := source_authoritative \<rparr>)
           else
             let current = ck_epoch_base_ms s + mt;
                 allow_large = (source_is_phone \<or> (peer_is_authoritative \<and> \<not> ck_time_authoritative s))
             in if ts_delta ts current \<le> skew_ms then
                  let s1 = (if ts > current \<and> ts \<le> anchor_cap mt s
                            then s \<lparr> ck_epoch_base_ms := ts - mt \<rparr> else s)
                  in if source_authoritative \<and> \<not> ck_time_authoritative s1
                     then s1 \<lparr> ck_time_authoritative := True,
                               ck_sync_generation := ck_sync_generation s1 + 1 \<rparr>
                     else s1
                else if allow_large then
                  let s1 = s \<lparr> ck_epoch_base_ms := ts - mt, ck_anchor_wall_ms := ts,
                               ck_anchor_mono_ms := mt,
                               ck_sync_generation := ck_sync_generation s + 1 \<rparr>;
                      s2 = (if source_authoritative then s1 \<lparr> ck_time_authoritative := True \<rparr> else s1)
                  in persist_wall_estimate io mt' ts s2
                else s)"

definition bitchat_time_poll :: "nvs_io \<Rightarrow> u64 \<Rightarrow> u64 \<Rightarrow> u64 \<Rightarrow> clock \<Rightarrow> clock" where
  "bitchat_time_poll io uptime mt mt' s =
     (if uptime - ck_last_persist_uptime_ms s < PERSIST_INTERVAL_MS then s
      else let now = bitchat_time_now_ms mt s
           in if now \<noteq> 0 then persist_wall_estimate io mt' now s else s)"

section \<open>The anchor bounds the drift\<close>

text \<open>
  How far the clock runs ahead of the last confident synchronisation: the reading is
  anchor wall time + elapsed monotonic time + drift.
\<close>

definition drift :: "clock \<Rightarrow> u64" where
  "drift s = ck_epoch_base_ms s - (ck_anchor_wall_ms s - ck_anchor_mono_ms s)"

lemma reading_drift:
  "ck_epoch_base_ms s + mt = ck_anchor_wall_ms s + (mt - ck_anchor_mono_ms s) + drift s"
  by (simp add: drift_def)

lemma persist_fields [simp]:
  "ck_epoch_base_ms (persist_wall_estimate io m w s) = ck_epoch_base_ms s"
  "ck_time_valid (persist_wall_estimate io m w s) = ck_time_valid s"
  "ck_peer_synced (persist_wall_estimate io m w s) = ck_peer_synced s"
  "ck_sync_generation (persist_wall_estimate io m w s) = ck_sync_generation s"
  "ck_anchor_wall_ms (persist_wall_estimate io m w s) = ck_anchor_wall_ms s"
  "ck_anchor_mono_ms (persist_wall_estimate io m w s) = ck_anchor_mono_ms s"
  "ck_time_authoritative (persist_wall_estimate io m w s) = ck_time_authoritative s"
  by (simp_all add: persist_wall_estimate_def)

lemma drift_persist [simp]: "drift (persist_wall_estimate io m w s) = drift s"
  by (simp add: drift_def)

lemma drift_acquire [simp]: "drift (acquire ts mt s) = 0"
  by (simp add: drift_def acquire_def)

text \<open>The wrap-around case analysis behind the cap: \<open>a\<close> is anchor plus elapsed time.\<close>

lemma cap_step:
  fixes a d ts k :: u64
  assumes "d \<le> k" "ts > a + d" "ts - (a + d) \<le> k" "ts \<le> a + k" "k \<le> 30000"
  shows "ts - a \<le> k" "d \<le> ts - a"
proof -
  have "uint a < 2 ^ 64" "uint ts < 2 ^ 64" using uint_lt2p [of a] uint_lt2p [of ts] by simp_all
  then have "ts - a \<le> k \<and> d \<le> ts - a"
    using assms uint_ge_0 [of a] uint_ge_0 [of ts] uint_ge_0 [of d]
    by (simp add: word_le_def word_less_def uint_plus_if' uint_sub_if' split: if_split_asm)
       (use uint_ge_0 [of d] in linarith)
  then show "ts - a \<le> k" "d \<le> ts - a" by blast+
qed

lemma unat_skew: "skew_ms \<le> 30000"
  by (simp add: MAX_CLOCK_SKEW_SECONDS_def)

text \<open>One in-window forward nudge, the common part of both entry points.\<close>

lemma nudge_drift:
  assumes "drift s \<le> skew_ms" "ts > ck_epoch_base_ms s + mt"
    "ts_delta ts (ck_epoch_base_ms s + mt) \<le> skew_ms" "ts \<le> anchor_cap mt s"
  shows "drift (s \<lparr> ck_epoch_base_ms := ts - mt \<rparr>) \<le> skew_ms"
    "drift s \<le> drift (s \<lparr> ck_epoch_base_ms := ts - mt \<rparr>)"
proof -
  let ?a = "ck_anchor_wall_ms s + (mt - ck_anchor_mono_ms s)"
  have d: "drift (s \<lparr> ck_epoch_base_ms := ts - mt \<rparr>) = ts - ?a" by (simp add: drift_def)
  have "ts > ?a + drift s" "ts - (?a + drift s) \<le> skew_ms" "ts \<le> ?a + skew_ms"
    using assms by (simp_all add: reading_drift [symmetric] ts_delta_def anchor_cap_def)
  from cap_step [OF assms(1) this unat_skew]
  show "drift (s \<lparr> ck_epoch_base_ms := ts - mt \<rparr>) \<le> skew_ms"
    "drift s \<le> drift (s \<lparr> ck_epoch_base_ms := ts - mt \<rparr>)"
    unfolding d by blast+
qed

section \<open>Events and reachable clocks\<close>

datatype clock_event =
    Tentative u64 \<comment> \<open>any direct packet: its timestamp\<close>
  | Announce u64 bool bool \<comment> \<open>a verified announce: timestamp, infrastructure?, authoritative?\<close>
  | Poll

text \<open>An event with the monotonic times of its reads and the state of the NVS service.\<close>

record clock_input =
  ci_io :: nvs_io
  ci_mono :: u64
  ci_mono' :: u64
  ci_event :: clock_event

definition clock_step :: "clock_input \<Rightarrow> clock \<Rightarrow> clock" where
  "clock_step i s = (case ci_event i of
       Tentative ts \<Rightarrow> bitchat_time_consider_peer (ci_io i) (ci_mono i) (ci_mono' i) ts s
     | Announce ts infra auth \<Rightarrow>
         bitchat_time_consider_peer_announce (ci_io i) (ci_mono i) (ci_mono' i) ts infra auth s
     | Poll \<Rightarrow> bitchat_time_poll (ci_io i) (ci_mono i) (ci_mono i) (ci_mono' i) s)"

inductive clock_reach :: "clock \<Rightarrow> bool" where
  boot: "clock_reach (bitchat_time_init io mt' epoch (reset_clock nvs))"
| step: "clock_reach s \<Longrightarrow> clock_reach (clock_step i s)"

definition clock_inv :: "clock \<Rightarrow> bool" where
  "clock_inv s \<longleftrightarrow> (ck_peer_synced s \<longrightarrow> ck_time_valid s \<and> drift s \<le> skew_ms) \<and>
     (ck_time_authoritative s \<longrightarrow> ck_peer_synced s)"

lemma drift_unaffected [simp]:
  "drift (s \<lparr> ck_time_authoritative := b \<rparr>) = drift s"
  "drift (s \<lparr> ck_sync_generation := g \<rparr>) = drift s"
  by (simp_all add: drift_def)

lemma consider_peer_inv: "clock_inv s \<Longrightarrow> clock_inv (bitchat_time_consider_peer io m m' ts s)"
  using nudge_drift(1) [of s m ts]
  by (auto simp: bitchat_time_consider_peer_def clock_inv_def Let_def acquire_def drift_def)

lemma consider_announce_inv:
  "clock_inv s \<Longrightarrow> clock_inv (bitchat_time_consider_peer_announce io m m' ts infra auth s)"
  using nudge_drift(1) [of s m ts]
  by (auto simp: bitchat_time_consider_peer_announce_def clock_inv_def Let_def acquire_def drift_def)

lemma poll_fields [simp]:
  "ck_peer_synced (bitchat_time_poll io u m m' s) = ck_peer_synced s"
  "ck_time_valid (bitchat_time_poll io u m m' s) = ck_time_valid s"
  "ck_time_authoritative (bitchat_time_poll io u m m' s) = ck_time_authoritative s"
  "ck_anchor_wall_ms (bitchat_time_poll io u m m' s) = ck_anchor_wall_ms s"
  "ck_anchor_mono_ms (bitchat_time_poll io u m m' s) = ck_anchor_mono_ms s"
  "ck_epoch_base_ms (bitchat_time_poll io u m m' s) = ck_epoch_base_ms s"
  by (simp_all add: bitchat_time_poll_def Let_def)

lemma drift_poll [simp]: "drift (bitchat_time_poll io u m m' s) = drift s"
  by (simp add: drift_def)

lemma clock_step_inv: "clock_inv s \<Longrightarrow> clock_inv (clock_step i s)"
  by (auto simp: clock_step_def consider_peer_inv consider_announce_inv split: clock_event.split)
     (simp add: clock_inv_def)

lemma clock_boot_inv: "clock_inv (bitchat_time_init io m' epoch (reset_clock nvs))"
  by (simp add: clock_inv_def bitchat_time_init_def reset_clock_def Let_def)

lemma clock_reach_inv: "clock_reach s \<Longrightarrow> clock_inv s"
  by (induction rule: clock_reach.induct) (simp_all add: clock_boot_inv clock_step_inv)

text \<open>
  Inputs that may not move a synchronised clock beyond the window: tentative packets, polls and
  announces of infrastructure nodes, unless such a node brings authority we do not have yet.
\<close>

definition untrusted :: "clock \<Rightarrow> clock_input \<Rightarrow> bool" where
  "untrusted s i = (case ci_event i of
       Tentative ts \<Rightarrow> True
     | Poll \<Rightarrow> True
     | Announce ts infra auth \<Rightarrow> infra \<and> (auth \<longrightarrow> ck_time_authoritative s))"

definition same_anchor :: "clock \<Rightarrow> clock \<Rightarrow> bool" where
  "same_anchor s s' \<longleftrightarrow> ck_anchor_wall_ms s' = ck_anchor_wall_ms s \<and>
     ck_anchor_mono_ms s' = ck_anchor_mono_ms s \<and> ck_peer_synced s' = ck_peer_synced s \<and>
     ck_time_authoritative s' = ck_time_authoritative s"

lemma same_anchor_trans: "same_anchor s s' \<Longrightarrow> same_anchor s' s'' \<Longrightarrow> same_anchor s s''"
  by (simp add: same_anchor_def)

lemma untrusted_step:
  assumes "clock_inv s" "ck_peer_synced s" "untrusted s i"
  shows "same_anchor s (clock_step i s) \<and> drift s \<le> drift (clock_step i s)"
proof -
  have d: "drift s \<le> skew_ms" using assms by (simp add: clock_inv_def)
  show ?thesis
  proof (cases "ci_event i")
    case (Tentative ts)
    then show ?thesis using assms(2) nudge_drift(2) [OF d, of "ci_mono i" ts]
      by (auto simp: clock_step_def same_anchor_def bitchat_time_consider_peer_def Let_def)
  next
    case (Announce ts infra auth)
    then show ?thesis using assms(2,3) nudge_drift(2) [OF d, of "ci_mono i" ts]
      by (auto simp: clock_step_def same_anchor_def untrusted_def
          bitchat_time_consider_peer_announce_def Let_def)
  next
    case Poll
    then show ?thesis by (simp add: clock_step_def same_anchor_def)
  qed
qed

lemma untrusted_same_anchor: "same_anchor s s' \<Longrightarrow> untrusted s' i = untrusted s i"
  by (simp add: untrusted_def same_anchor_def split: clock_event.split)

lemma untrusted_run:
  assumes "clock_inv s" "ck_peer_synced s" "list_all (untrusted s) is"
  shows "same_anchor s (fold clock_step is s) \<and> drift s \<le> drift (fold clock_step is s) \<and>
    clock_inv (fold clock_step is s)"
  using assms
proof (induction "is" arbitrary: s)
  case (Cons i "is")
  note st = untrusted_step [of s i]
  have sa: "same_anchor s (clock_step i s)" and dr: "drift s \<le> drift (clock_step i s)"
    using st Cons.prems by auto
  have "list_all (untrusted (clock_step i s)) is"
    using Cons.prems(3) untrusted_same_anchor [OF sa] by (simp add: list_all_iff)
  moreover have "ck_peer_synced (clock_step i s)" using sa Cons.prems by (simp add: same_anchor_def)
  ultimately show ?case
    using Cons.IH [OF clock_step_inv [OF Cons.prems(1)]] same_anchor_trans [OF sa] dr by fastforce
qed (simp add: same_anchor_def)

lemma ts_delta_self [simp]: "ts_delta t t = 0"
  by (simp add: ts_delta_def)

lemma phone_announce_corrects:
  assumes "\<not> peer_ts_unusable ts"
    and s': "s' = bitchat_time_consider_peer_announce io m m' ts False auth s"
  shows "ck_time_authoritative s' \<and> ck_peer_synced s' \<and>
     ts_delta ts (ck_epoch_base_ms s' + m) \<le> skew_ms"
  using assms(1) unfolding s'
  by (auto simp: bitchat_time_consider_peer_announce_def Let_def acquire_def)

lemma authority_source:
  assumes "ck_time_authoritative (clock_step i s)"
  shows "ck_time_authoritative s \<or> (\<exists>ts infra auth. ci_event i = Announce ts infra auth \<and> (\<not> infra \<or> auth))"
proof (cases "ci_event i")
  case (Tentative ts)
  then show ?thesis using assms
    by (auto simp: clock_step_def bitchat_time_consider_peer_def acquire_def Let_def split: if_split_asm)
next
  case (Announce ts infra auth)
  then show ?thesis using assms
    by (auto simp: clock_step_def bitchat_time_consider_peer_announce_def acquire_def Let_def split: if_split_asm)
next
  case Poll
  then show ?thesis using assms by (simp add: clock_step_def)
qed

section \<open>A network of clocks\<close>

text \<open>
  Nodes, by name, that announce themselves to each other with their own authority flag (as
  \<open>bitchat_time_is_authoritative\<close> reports it), and phones. A tentative packet or the timestamp
  of an announce may be anything.
\<close>

inductive net_reach :: "'n set \<Rightarrow> ('n \<Rightarrow> clock) \<Rightarrow> bool" for phoned :: "'n set" where
  boot: "(\<And>n. \<exists>io mt' epoch nvs. net n = bitchat_time_init io mt' epoch (reset_clock nvs)) \<Longrightarrow>
         net_reach phoned net"
| node_announce: "net_reach phoned net \<Longrightarrow>
    ci_event i = Announce ts True (bitchat_time_is_authoritative (net n)) \<Longrightarrow>
    net_reach phoned (net(m := clock_step i (net m)))"
| phone_announce: "net_reach phoned net \<Longrightarrow> m \<in> phoned \<Longrightarrow> ci_event i = Announce ts False auth \<Longrightarrow>
    net_reach phoned (net(m := clock_step i (net m)))"
| packet: "net_reach phoned net \<Longrightarrow> ci_event i = Tentative ts \<Longrightarrow>
    net_reach phoned (net(m := clock_step i (net m)))"
| poll: "net_reach phoned net \<Longrightarrow> ci_event i = Poll \<Longrightarrow>
    net_reach phoned (net(m := clock_step i (net m)))"

lemma net_reach_inv: "net_reach phoned net \<Longrightarrow> clock_inv (net n)"
proof (induction arbitrary: n rule: net_reach.induct)
  case (boot net)
  then show ?case using clock_boot_inv by (metis boot)
qed (auto simp: clock_step_inv)

lemma net_no_phone: "net_reach {} net \<Longrightarrow> \<not> ck_time_authoritative (net n)"
proof (induction arbitrary: n rule: net_reach.induct)
  case (boot net)
  obtain io m' epoch nvs where "net n = bitchat_time_init io m' epoch (reset_clock nvs)"
    using boot by blast
  then show ?case by (simp add: bitchat_time_init_def reset_clock_def Let_def)
qed (auto simp: bitchat_time_is_authoritative_def dest!: authority_source)

section \<open>Rebooting\<close>

lemma init_not_behind:
  assumes "nvs_open_ok io" "nvs_get_ok io" "epoch < 2 ^ 50"
    and s': "s' = bitchat_time_init io m' epoch (reset_clock (Some w))"
  shows "w \<le> ck_epoch_base_ms s' \<and> epoch * 1000 \<le> ck_epoch_base_ms s' \<and> ck_time_valid s'"
proof -
  let ?e = "if epoch < MIN_VALID_EPOCH_SECONDS then MIN_VALID_EPOCH_SECONDS else epoch"
  have u: "unat epoch < 2 ^ 50" using assms(3) by (simp add: word_less_nat_alt)
  have e1000: "unat (?e * 1000) = unat ?e * 1000" "unat (epoch * 1000) = unat epoch * 1000"
    using u by (auto simp: unat_word_ariths MIN_VALID_EPOCH_SECONDS_def)
  have b: "build_epoch_ms epoch = ?e * 1000" by (simp add: build_epoch_ms_def)
  have ge: "epoch * 1000 \<le> ?e * 1000"
    unfolding word_le_nat_alt e1000 by (simp add: word_less_nat_alt)
  have v: "MIN_VALID_EPOCH_SECONDS \<le> x div 1000" if "build_epoch_ms epoch \<le> x" for x
  proof -
    have "unat MIN_VALID_EPOCH_SECONDS * 1000 \<le> unat (?e * 1000)"
      unfolding e1000 by (auto simp: word_less_nat_alt)
    also have "\<dots> \<le> unat x" using that by (simp only: b word_le_nat_alt)
    finally have "unat MIN_VALID_EPOCH_SECONDS \<le> unat x div 1000" by simp
    then show ?thesis by (simp add: word_le_nat_alt unat_div)
  qed
  show ?thesis
    using assms(1,2) ge v unfolding s'
    by (auto simp: bitchat_time_init_def Let_def load_epoch_base_def reset_clock_def b)
qed

section \<open>Properties\<close>

lemma base_diff:
  assumes "same_anchor s s'" "drift s \<le> drift s'" "drift s' \<le> skew_ms"
  shows "ck_epoch_base_ms s' - ck_epoch_base_ms s \<le> skew_ms"
proof -
  have "ck_epoch_base_ms s' - ck_epoch_base_ms s = drift s' - drift s"
    using assms(1) by (simp add: same_anchor_def drift_def)
  also have "\<dots> \<le> drift s'" using assms(2) by (rule word_sub_le)
  finally show ?thesis using assms(3) by simp
qed

definition nvs_works :: nvs_io where
  "nvs_works = \<lparr> nvs_open_ok = True, nvs_set_ok = True, nvs_get_ok = True \<rparr>"

definition sample_input :: "u64 \<Rightarrow> clock_event \<Rightarrow> clock_input" where
  "sample_input t ev = \<lparr> ci_io = nvs_works, ci_mono = t, ci_mono' = t, ci_event = ev \<rparr>"

definition sample_clock :: clock where
  "sample_clock = clock_step (sample_input 500 (Tentative 1800000000000))
     (bitchat_time_init nvs_works 0 1750000000 (reset_clock None))"

lemma sample_clock_reach: "clock_reach sample_clock"
  unfolding sample_clock_def by (intro clock_reach.intros)

lemma sample_clock_synced: "ck_peer_synced sample_clock"
  by (simp add: sample_clock_def sample_input_def clock_step_def bitchat_time_consider_peer_def
      peer_ts_unusable_def MIN_VALID_EPOCH_SECONDS_def acquire_def bitchat_time_init_def Let_def
      reset_clock_def)

text \<open>
  C27: Anti-ratchet: once a node is synchronised, no stream of untrusted inputs, however long
  (direct packets of any content, announces of infrastructure nodes that bring no new authority),
  moves its clock backwards or by more than 30 s in total, and the clock never runs more than 30 s
  ahead of its anchor plus the elapsed monotonic time. The statement is about the 64-bit words of
  the code and needs no assumption on overflow.
\<close>

theorem clock_untrusted_bounded:
  assumes "clock_reach s" "ck_peer_synced s" "list_all (untrusted s) inputs"
    and "s' = fold clock_step inputs s"
  shows "same_anchor s s' \<and> drift s \<le> drift s' \<and> drift s' \<le> 30000 \<and>
    ck_epoch_base_ms s' - ck_epoch_base_ms s \<le> 30000 \<and>
    (\<forall>mt. ck_epoch_base_ms s' + mt =
            ck_anchor_wall_ms s + (mt - ck_anchor_mono_ms s) + drift s')"
proof -
  note r = untrusted_run [OF clock_reach_inv [OF assms(1)] assms(2,3), folded assms(4)]
  have "drift s' \<le> skew_ms" using r assms(2) by (auto simp: clock_inv_def same_anchor_def)
  then show ?thesis using r base_diff [of s s'] reading_drift [of s']
    by (auto simp: MAX_CLOCK_SKEW_SECONDS_def same_anchor_def)
qed

theorem clock_untrusted_bounded_witness:
  "drift (fold clock_step [sample_input 900 (Tentative 1800000020000),
     sample_input 901 (Announce 1900000000000 True False)] sample_clock) \<le> 30000"
  using clock_untrusted_bounded [OF sample_clock_reach sample_clock_synced _ refl,
      of "[sample_input 900 (Tentative 1800000020000), sample_input 901 (Announce 1900000000000 True False)]"]
  by (simp add: untrusted_def sample_input_def)

text \<open>
  A phone is the time authority: after an announce of a phone with a usable timestamp the
  node is synchronised and authoritative, and its clock is within 30 s of the phone's, whatever
  it was before.
\<close>

lemma clock_phone_corrects:
  assumes "ts div 1000 \<ge> MIN_VALID_EPOCH_SECONDS" "ts \<noteq> 0"
    and "s' = bitchat_time_consider_peer_announce io mt mt' ts False auth s"
  shows "ck_time_authoritative s' \<and> ck_peer_synced s' \<and>
     ts_delta ts (ck_epoch_base_ms s' + mt) \<le> 30000"
  using phone_announce_corrects [OF _ assms(3)] assms(1,2)
  by (auto simp: peer_ts_unusable_def MAX_CLOCK_SKEW_SECONDS_def not_less)

text \<open>
  C28: Authority is never created out of nothing: in a network of nodes that no phone ever
  announces itself to, no node becomes authoritative, whatever packets and timestamps circulate;
  and every synchronised clock stays within 30 s of its own anchor.
\<close>

theorem clock_no_authority_without_phone:
  assumes "net_reach {} net"
  shows "\<not> ck_time_authoritative (net n) \<and> (ck_peer_synced (net n) \<longrightarrow> drift (net n) \<le> 30000)"
  using net_no_phone [OF assms] net_reach_inv [OF assms, of n]
  by (auto simp: clock_inv_def MAX_CLOCK_SKEW_SECONDS_def)

theorem clock_no_authority_without_phone_witness:
  "\<not> ck_time_authoritative (((\<lambda>n :: nat. bitchat_time_init nvs_works 0 0 (reset_clock None))
      (1 := clock_step (sample_input 5 (Tentative 1800000000000))
              (bitchat_time_init nvs_works 0 0 (reset_clock None)))) 1)"
proof -
  have "net_reach {} (\<lambda>n :: nat. bitchat_time_init nvs_works 0 0 (reset_clock None))"
    by (rule net_reach.boot) blast
  from net_reach.packet [OF this, of "sample_input 5 (Tentative 1800000000000)" 1800000000000 1]
  have "net_reach {} ((\<lambda>n :: nat. bitchat_time_init nvs_works 0 0 (reset_clock None))
      (1 := clock_step (sample_input 5 (Tentative 1800000000000))
              (bitchat_time_init nvs_works 0 0 (reset_clock None))))"
    by (simp add: sample_input_def)
  from clock_no_authority_without_phone [OF this, of 1] show ?thesis by blast
qed

end
