(* ===== verification/Gcs_Filter.thy ===== *)
theory Gcs_Filter
  imports Bitle_Hash "HOL-Library.Monad_Syntax"
begin

text \<open>
  The Golomb-coded set filter of \<open>main/bitle_sync.c\<close>: the bucket of a packet id, MSB-first bit
  input and output on byte buffers, Golomb-Rice coding of a strictly increasing bucket list, its
  decoder and the binary search in the decoded list. The bit buffers are refined to lists of bits;
  on those, decoding inverts encoding.
\<close>

section \<open>Buckets\<close>

definition gcs_bucket :: "psa_hash \<Rightarrow> bytes \<Rightarrow> u32 \<Rightarrow> u64" where
  "gcs_bucket psa ident m =
     (if m \<le> 1 then 0
      else let digest = bitle_sha256 psa ident;
               h = (be_val (take 8 digest) :: u64) AND 0x7fffffffffffffff;
               v = h mod ucast m
           in if v = 0 then 1 else v)"

section \<open>Bit writer\<close>

record bitwriter =
  bw_buf :: bytes
  bw_bit :: nat

definition bw_put :: "bitwriter \<Rightarrow> bool \<Rightarrow> bitwriter option" where
  "bw_put w b =
     (let byte = bw_bit w div 8 in
      if byte \<ge> length (bw_buf w) then None
      else Some (w \<lparr> bw_buf := (if b then (bw_buf w)[byte := bw_buf w ! byte OR drop_bit (bw_bit w mod 8) 0x80]
                                else bw_buf w),
                     bw_bit := bw_bit w + 1 \<rparr>))"

text \<open>\<open>bw_put_bits w v n\<close> writes the bits \<open>n - 1\<close> down to 0 of \<open>v\<close>.\<close>

fun bw_put_bits :: "bitwriter \<Rightarrow> u64 \<Rightarrow> nat \<Rightarrow> bitwriter option" where
  "bw_put_bits w v 0 = Some w"
| "bw_put_bits w v (Suc i) = do { w' \<leftarrow> bw_put w (drop_bit i v AND 1 \<noteq> 0); bw_put_bits w' v i }"

text \<open>The loop \<open>while (q--) bw_put(&w, 1)\<close>.\<close>

fun bw_put_ones :: "bitwriter \<Rightarrow> nat \<Rightarrow> bitwriter option" where
  "bw_put_ones w 0 = Some w"
| "bw_put_ones w (Suc q) = do { w' \<leftarrow> bw_put w True; bw_put_ones w' q }"

fun gcs_encode_loop :: "u64 list \<Rightarrow> u64 \<Rightarrow> nat \<Rightarrow> bitwriter \<Rightarrow> bitwriter option" where
  "gcs_encode_loop [] prev p w = Some w"
| "gcs_encode_loop (v # vs) prev p w = do {
     let x = v - prev;
     let q = drop_bit p (x - 1);
     let r = (x - 1) AND (push_bit p 1 - 1);
     w1 \<leftarrow> bw_put_ones w (unat q);
     w2 \<leftarrow> bw_put w1 False;
     w3 \<leftarrow> bw_put_bits w2 r p;
     gcs_encode_loop vs v p w3 }"

text \<open>The bytes of the filter; the C function returns length 0 where it does not fit.\<close>

definition gcs_encode :: "u64 list \<Rightarrow> nat \<Rightarrow> nat \<Rightarrow> bytes" where
  "gcs_encode vals p out_cap =
     (case gcs_encode_loop vals 0 p \<lparr> bw_buf = replicate out_cap 0, bw_bit = 0 \<rparr> of
        None \<Rightarrow> []
      | Some w \<Rightarrow> take ((bw_bit w + 7) div 8) (bw_buf w))"

section \<open>Bit reader\<close>

text \<open>The reader's state is its bit position; \<open>None\<close> is the code's result -1.\<close>

definition br_get :: "bytes \<Rightarrow> nat \<Rightarrow> bool option" where
  "br_get data pos =
     (if pos div 8 \<ge> length data then None
      else Some (drop_bit (7 - pos mod 8) (data ! (pos div 8)) AND 1 \<noteq> 0))"

lemma br_get_bound: "br_get data pos = Some b \<Longrightarrow> pos < 8 * length data"
  by (auto simp: br_get_def split: if_split_asm)

function br_unary :: "bytes \<Rightarrow> nat \<Rightarrow> u64 \<Rightarrow> (u64 \<times> nat) option" where
  "br_unary data pos q =
     (case br_get data pos of
        None \<Rightarrow> None
      | Some b \<Rightarrow> if b then br_unary data (pos + 1) (q + 1) else Some (q, pos + 1))"
  by pat_completeness auto
termination
  by (relation "measure (\<lambda>(data, pos, q). 8 * length data - pos)") (auto dest: br_get_bound)

declare br_unary.simps [simp del]

fun br_bits :: "bytes \<Rightarrow> nat \<Rightarrow> nat \<Rightarrow> u64 \<Rightarrow> (u64 \<times> nat) option" where
  "br_bits data pos 0 rem = Some (rem, pos)"
| "br_bits data pos (Suc n) rem =
     (case br_get data pos of
        None \<Rightarrow> None
      | Some b \<Rightarrow> br_bits data (pos + 1) n (push_bit 1 rem OR (if b then 1 else 0)))"

text \<open>The last argument but one is the number of elements the output array can still take.\<close>

fun gcs_decode_loop :: "bytes \<Rightarrow> nat \<Rightarrow> u32 \<Rightarrow> u64 \<Rightarrow> nat \<Rightarrow> nat \<Rightarrow> u64 list" where
  "gcs_decode_loop data p m acc 0 pos = []"
| "gcs_decode_loop data p m acc (Suc n) pos =
     (case br_unary data pos 0 of
        None \<Rightarrow> []
      | Some (q, pos1) \<Rightarrow>
          (case br_bits data pos1 p 0 of
             None \<Rightarrow> []
           | Some (rem, pos2) \<Rightarrow>
               let acc' = acc + (push_bit p q + rem + 1) in
               if acc' \<ge> ucast m then [] else acc' # gcs_decode_loop data p m acc' n pos2))"

definition gcs_decode :: "bytes \<Rightarrow> int \<Rightarrow> u32 \<Rightarrow> nat \<Rightarrow> u64 list" where
  "gcs_decode data p m out_cap =
     (if p < 1 \<or> p > 32 \<or> m \<le> 1 then [] else gcs_decode_loop data (nat p) m 0 out_cap 0)"

function sorted_contains_range :: "u64 list \<Rightarrow> u64 \<Rightarrow> nat \<Rightarrow> nat \<Rightarrow> bool" where
  "sorted_contains_range vals needle lo hi =
     (if lo < hi then
        let mid = (lo + hi) div 2 in
        if vals ! mid < needle then sorted_contains_range vals needle (mid + 1) hi
        else if vals ! mid > needle then sorted_contains_range vals needle lo mid
        else True
      else False)"
  by pat_completeness auto
termination
  by (relation "measure (\<lambda>(vals, needle, lo, hi). hi - lo)") auto

declare sorted_contains_range.simps [simp del]

definition sorted_contains :: "u64 list \<Rightarrow> u64 \<Rightarrow> bool" where
  "sorted_contains vals needle = sorted_contains_range vals needle 0 (length vals)"

section \<open>Binary search\<close>

lemma sorted_contains_range_iff:
  assumes "sorted_wrt (<) vals" "hi \<le> length vals"
  shows "sorted_contains_range vals needle lo hi \<longleftrightarrow> (\<exists>i. lo \<le> i \<and> i < hi \<and> vals ! i = needle)"
  using assms
proof (induction vals needle lo hi rule: sorted_contains_range.induct)
  case (1 vals needle lo hi)
  let ?mid = "(lo + hi) div 2"
  have lt: "vals ! i < vals ! j" if "i < j" "j < length vals" for i j
    using 1(3) that by (simp add: sorted_wrt_iff_nth_less)
  show ?case
  proof (cases "lo < hi")
    case True
    then have mid: "lo \<le> ?mid" "?mid < hi" by auto
    consider "vals ! ?mid < needle" | "vals ! ?mid > needle" | "vals ! ?mid = needle" by fastforce
    then show ?thesis
    proof cases
      case 1
      have "i > ?mid" if "vals ! i = needle" "i < hi" for i
        using that 1 lt [of i ?mid] mid "1.prems"(2) by (cases "i = ?mid") force+
      then have "?mid + 1 \<le> i \<and> i < hi \<and> vals ! i = needle \<longleftrightarrow> lo \<le> i \<and> i < hi \<and> vals ! i = needle" for i
        using mid by fastforce
      then show ?thesis
        using "1.IH"(1) [OF True refl 1] "1.prems" True 1
        by (subst sorted_contains_range.simps) (simp add: Let_def)
    next
      case 2
      have "i < ?mid" if "vals ! i = needle" "i < hi" for i
        using that 2 lt [of ?mid i] mid "1.prems"(2) by (cases "i = ?mid") force+
      then show ?thesis
        using "1.IH"(2) [OF True refl _ 2] "1.prems" True 2 mid
        by (subst sorted_contains_range.simps) (auto simp: Let_def)
    next
      case 3
      then show ?thesis using True mid by (subst sorted_contains_range.simps) auto
    qed
  next
    case False
    then show ?thesis by (subst sorted_contains_range.simps) auto
  qed
qed

lemma sorted_contains_iff: "sorted_wrt (<) vals \<Longrightarrow> sorted_contains vals needle \<longleftrightarrow> needle \<in> set vals"
  by (auto simp: sorted_contains_def sorted_contains_range_iff in_set_conv_nth)

lemma gcs_bucket_range:
  assumes "1 < m"
  shows "0 < gcs_bucket psa ident m" "gcs_bucket psa ident m < ucast m"
proof -
  have u: "unat (ucast m :: u64) = unat m" by (simp add: unat_ucast_up)
  have m: "1 < unat m" using assms by (simp add: word_less_nat_alt)
  have lt: "h mod ucast m < ucast m" for h :: u64
    using m by (simp add: word_less_nat_alt unat_mod u)
  have "(1 :: u64) < ucast m" using m by (simp add: word_less_nat_alt u)
  then show "0 < gcs_bucket psa ident m" "gcs_bucket psa ident m < ucast m"
    using assms lt by (auto simp: gcs_bucket_def Let_def word_greater_zero_iff)
qed

section \<open>Bit buffers as lists of bits\<close>

definition bits_of :: "bytes \<Rightarrow> bool list" where
  "bits_of bs = map (\<lambda>pos. bit (bs ! (pos div 8)) (7 - pos mod 8)) [0..<8 * length bs]"

lemma length_bits_of [simp]: "length (bits_of bs) = 8 * length bs"
  by (simp add: bits_of_def)

lemma nth_bits_of: "pos < 8 * length bs \<Longrightarrow> bits_of bs ! pos = bit (bs ! (pos div 8)) (7 - pos mod 8)"
  by (simp add: bits_of_def)

lemma bits_of_take: "bits_of (take n bs) = take (8 * n) (bits_of bs)"
  by (rule nth_equalityI) (auto simp: nth_bits_of)

lemma bits_of_zero: "bits_of (replicate n 0) = replicate (8 * n) False"
  by (rule nth_equalityI) (auto simp: nth_bits_of)

lemma flag_bit: "drop_bit k w AND 1 \<noteq> 0 \<longleftrightarrow> bit (w :: 'a::len word) k"
  by (simp add: and_one_eq bit_iff_odd_drop_bit even_iff_mod_2_eq_zero)

lemma br_get_bits:
  "br_get data pos = (if pos < length (bits_of data) then Some (bits_of data ! pos) else None)"
  by (auto simp: br_get_def nth_bits_of flag_bit)

lemma bit_0x80: "bit (0x80 :: u8) k \<longleftrightarrow> k = 7"
  using bit_push_bit_iff [of 7 "1 :: u8" k] by (auto simp: bit_1_iff)

lemma bit_mask_pos:
  assumes "a < 8" "c < 8"
  shows "bit (drop_bit a 0x80 :: u8) (7 - c) \<longleftrightarrow> a = c"
  unfolding bit_drop_bit_eq comp_def bit_0x80 using assms by linarith

lemma bits_of_set:
  assumes "n < 8 * length buf"
  shows "bits_of (buf[n div 8 := buf ! (n div 8) OR drop_bit (n mod 8) 0x80]) = (bits_of buf)[n := True]"
    (is "bits_of (buf[_ := ?x]) = _")
proof (rule nth_equalityI)
  fix pos
  assume "pos < length (bits_of (buf[n div 8 := ?x]))"
  then have pos: "pos < 8 * length buf" by simp
  have b: "bit ?x (7 - pos mod 8) \<longleftrightarrow> bit (buf ! (n div 8)) (7 - pos mod 8) \<or> n mod 8 = pos mod 8"
    unfolding bit_or_iff by (simp add: bit_mask_pos)
  have "pos = n \<longleftrightarrow> pos div 8 = n div 8 \<and> n mod 8 = pos mod 8"
    by (metis div_mod_decomp)
  then show "bits_of (buf[n div 8 := ?x]) ! pos = (bits_of buf)[n := True] ! pos"
    using assms pos b by (auto simp: nth_bits_of nth_upd)
qed simp

definition winv :: "bitwriter \<Rightarrow> bool" where
  "winv w \<longleftrightarrow> bw_bit w \<le> 8 * length (bw_buf w) \<and>
     drop (bw_bit w) (bits_of (bw_buf w)) = replicate (8 * length (bw_buf w) - bw_bit w) False"

definition written :: "bitwriter \<Rightarrow> bool list" where
  "written w = take (bw_bit w) (bits_of (bw_buf w))"

lemma bw_put_ok:
  assumes "winv w" "bw_bit w < 8 * length (bw_buf w)"
  shows "\<exists>w'. bw_put w b = Some w' \<and> winv w' \<and> written w' = written w @ [b] \<and>
     length (bw_buf w') = length (bw_buf w) \<and> bw_bit w' = bw_bit w + 1"
proof -
  let ?n = "bw_bit w" and ?l = "8 * length (bw_buf w)"
  define buf' where "buf' = (if b then (bw_buf w)[?n div 8 := bw_buf w ! (?n div 8) OR drop_bit (?n mod 8) 0x80]
     else bw_buf w)"
  have put: "bw_put w b = Some (w \<lparr> bw_buf := buf', bw_bit := ?n + 1 \<rparr>)"
    using assms(2) by (simp add: bw_put_def Let_def buf'_def)
  have dr: "drop ?n (bits_of (bw_buf w)) = False # replicate (?l - ?n - 1) False"
    using assms by (simp add: winv_def flip: replicate_Suc)
  then have bn: "\<not> bits_of (bw_buf w) ! ?n" and dr1: "drop (?n + 1) (bits_of (bw_buf w)) = replicate (?l - ?n - 1) False"
    using assms(2) by (auto simp: Cons_nth_drop_Suc [symmetric])
  have bits: "bits_of buf' = (bits_of (bw_buf w))[?n := b]"
    using assms(2) bn bits_of_set [of ?n "bw_buf w"] list_update_id [of "bits_of (bw_buf w)" ?n]
    by (simp add: buf'_def)
  have "take (?n + 1) (bits_of buf') = take ?n (bits_of (bw_buf w)) @ [b]"
    using assms(2) by (simp add: bits take_Suc_conv_app_nth)
  moreover have "drop (?n + 1) (bits_of buf') = replicate (?l - ?n - 1) False"
    using dr1 by (simp add: bits)
  moreover have "length buf' = length (bw_buf w)" by (simp add: buf'_def)
  ultimately show ?thesis
    using assms(2) by (simp add: put winv_def written_def)
qed

lemma bw_put_full: "bw_bit w = 8 * length (bw_buf w) \<Longrightarrow> bw_put w b = None"
  by (simp add: bw_put_def)

fun bw_puts :: "bitwriter \<Rightarrow> bool list \<Rightarrow> bitwriter option" where
  "bw_puts w [] = Some w"
| "bw_puts w (b # bs) = do { w' \<leftarrow> bw_put w b; bw_puts w' bs }"

lemma bw_puts_append: "bw_puts w (as @ bs) = do { w' \<leftarrow> bw_puts w as; bw_puts w' bs }"
  by (induction as arbitrary: w) (auto split: Option.bind_split)

lemma bw_puts_spec:
  assumes "winv w"
  shows "(if bw_bit w + length bs \<le> 8 * length (bw_buf w)
     then \<exists>w'. bw_puts w bs = Some w' \<and> winv w' \<and> written w' = written w @ bs \<and>
            length (bw_buf w') = length (bw_buf w) \<and> bw_bit w' = bw_bit w + length bs
     else bw_puts w bs = None)"
  using assms
proof (induction bs arbitrary: w)
  case (Cons b bs)
  show ?case
  proof (cases "bw_bit w < 8 * length (bw_buf w)")
    case True
    then obtain w' where w': "bw_put w b = Some w'" "winv w'" "written w' = written w @ [b]"
      "length (bw_buf w') = length (bw_buf w)" "bw_bit w' = bw_bit w + 1"
      using bw_put_ok Cons.prems by blast
    then show ?thesis using Cons.IH [OF w'(2)] by (auto split: if_split_asm)
  next
    case False
    then have "bw_bit w = 8 * length (bw_buf w)" using Cons.prems by (simp add: winv_def)
    then show ?thesis by (simp add: bw_put_full)
  qed
qed (simp add: winv_def)

lemma bw_put_ones_puts: "bw_put_ones w n = bw_puts w (replicate n True)"
  by (induction n arbitrary: w) (auto split: Option.bind_split)

lemma bw_put_bits_puts: "bw_put_bits w v n = bw_puts w (map (bit v) (rev [0..<n]))"
  by (induction n arbitrary: w) (auto simp: flag_bit split: Option.bind_split)

definition rice :: "nat \<Rightarrow> u64 \<Rightarrow> bool list" where
  "rice p x = replicate (unat (drop_bit p (x - 1))) True @ [False] @
     map (bit ((x - 1) AND (push_bit p 1 - 1))) (rev [0..<p])"

fun rice_list :: "nat \<Rightarrow> u64 \<Rightarrow> u64 list \<Rightarrow> bool list" where
  "rice_list p prev [] = []"
| "rice_list p prev (v # vs) = rice p (v - prev) @ rice_list p v vs"

lemma gcs_encode_loop_puts: "gcs_encode_loop vs prev p w = bw_puts w (rice_list p prev vs)"
proof (induction vs arbitrary: prev w)
  case (Cons v vs)
  then have "gcs_encode_loop vs v p = (\<lambda>w. bw_puts w (rice_list p v vs))" by blast
  then show ?case
    by (simp add: rice_def bw_puts_append bw_put_ones_puts bw_put_bits_puts Let_def)
qed simp

lemma gcs_encode_bits:
  assumes "length (rice_list p 0 vs) \<le> 8 * cap"
  shows "\<exists>k < 8. bits_of (gcs_encode vs p cap) = rice_list p 0 vs @ replicate k False"
proof -
  define w0 where "w0 = \<lparr> bw_buf = replicate cap (0 :: u8), bw_bit = 0 \<rparr>"
  let ?bits = "rice_list p 0 vs"
  have w0: "winv w0" "bw_bit w0 = 0" "written w0 = []" "length (bw_buf w0) = cap"
    by (simp_all add: winv_def w0_def bits_of_zero written_def)
  from bw_puts_spec [OF w0(1), of ?bits]
  obtain w where w: "bw_puts w0 ?bits = Some w" "winv w" "written w = ?bits"
    "length (bw_buf w) = cap" "bw_bit w = length ?bits"
    using assms w0(2-4) by (simp split: if_split_asm) blast
  define n where "n = (length ?bits + 7) div 8"
  have n: "length ?bits \<le> 8 * n" "8 * n < length ?bits + 8" "n \<le> cap"
    using assms by (auto simp: n_def)
  have "gcs_encode vs p cap = take n (bw_buf w)"
    using w by (simp add: gcs_encode_def gcs_encode_loop_puts n_def flip: w0_def)
  moreover have "bits_of (bw_buf w) = ?bits @ replicate (8 * cap - length ?bits) False"
    using w append_take_drop_id [of "bw_bit w" "bits_of (bw_buf w)"]
    by (simp add: winv_def written_def)
  ultimately have "bits_of (gcs_encode vs p cap) = ?bits @ replicate (8 * n - length ?bits) False"
    using n by (simp add: bits_of_take)
  then show ?thesis using n by (intro exI [of _ "8 * n - length ?bits"]) auto
qed

section \<open>Decoding inverts encoding\<close>

lemma br_unary_run:
  "bits_of data = pre @ replicate n True @ False # rest \<Longrightarrow>
   br_unary data (length pre) q = Some (q + word_of_nat n, length pre + n + 1)"
proof (induction n arbitrary: pre q)
  case 0
  then have "br_get data (length pre) = Some False" by (simp add: br_get_bits)
  then show ?case by (simp add: br_unary.simps [of data "length pre" q])
next
  case (Suc n)
  then have "br_get data (length pre) = Some True" by (simp add: br_get_bits)
  moreover have "br_unary data (length (pre @ [True])) (q + 1) =
      Some (q + 1 + word_of_nat n, length (pre @ [True]) + n + 1)"
    by (rule Suc.IH) (simp add: Suc.prems)
  ultimately show ?case by (simp add: br_unary.simps [of data "length pre" q])
qed

lemma br_bits_run:
  "bits_of data = pre @ bs @ rest \<Longrightarrow>
   br_bits data (length pre) (length bs) r =
     Some (foldl (\<lambda>r b. push_bit 1 r OR (if b then 1 else 0)) r bs, length pre + length bs)"
proof (induction bs arbitrary: pre r)
  case (Cons b bs)
  then have "br_get data (length pre) = Some b" by (simp add: br_get_bits)
  moreover have "br_bits data (length (pre @ [b])) (length bs) r' =
     Some (foldl (\<lambda>r b. push_bit 1 r OR (if b then 1 else 0)) r' bs, length (pre @ [b]) + length bs)" for r'
    by (rule Cons.IH) (simp add: Cons.prems)
  ultimately show ?case by simp
qed simp

lemma br_bits_short:
  "length (bits_of data) < pos + n \<Longrightarrow> pos \<le> length (bits_of data) \<Longrightarrow> br_bits data pos n r = None"
  by (induction n arbitrary: pos r) (auto simp: br_get_bits split: option.split)

lemma foldl_bits:
  "foldl (\<lambda>r b. push_bit 1 r OR (if b then 1 else 0)) acc (map (bit (v :: u64)) (rev [0..<n]))
     = push_bit n acc OR take_bit n v"
proof (induction n arbitrary: acc)
  case (Suc n)
  have "push_bit n (push_bit 1 acc OR (if bit v n then 1 else 0)) OR take_bit n v =
      push_bit (Suc n) acc OR take_bit (Suc n) v"
    by (rule bit_eqI) (auto simp: bit_simps less_Suc_eq)
  then show ?case using Suc by simp
qed simp

lemma rice_value:
  "push_bit p (drop_bit p y) + (y AND (push_bit p 1 - 1)) = (y :: u64)"
  using bits_ident [of p y] by (simp add: take_bit_eq_mask mask_eq_decr_exp)

lemma mask_AND: "y AND (push_bit p 1 - 1) = take_bit p (y :: u64)"
  by (simp add: take_bit_eq_mask mask_eq_decr_exp push_bit_eq_mult)

lemma gcs_decode_loop_rice:
  assumes "bits_of data = pre @ rice_list 7 prev vs @ replicate k False" "k < 8"
    and "sorted_wrt (<) (prev # vs)" "\<And>v. v \<in> set vs \<Longrightarrow> v < ucast m" "length vs \<le> n"
  shows "gcs_decode_loop data 7 m prev n (length pre) = vs"
  using assms
proof (induction vs arbitrary: pre prev n)
  case Nil
  show ?case
  proof (cases n)
    case (Suc n')
    show ?thesis
    proof (cases k)
      case 0
      then have "br_unary data (length pre) 0 = None"
        using Nil.prems(1) by (subst br_unary.simps) (simp add: br_get_bits)
      then show ?thesis by (simp add: Suc)
    next
      case (Suc k')
      then have "br_unary data (length pre) 0 = Some (0, length pre + 1)"
        using Nil.prems(1) br_unary_run [of data pre 0 "replicate k' False" 0] by simp
      moreover have "br_bits data (length pre + 1) 7 0 = None"
        using Nil.prems(1,2) arg_cong [OF Nil.prems(1), of length] Suc
        by (intro br_bits_short) simp_all
      ultimately show ?thesis by (simp add: \<open>n = Suc n'\<close>)
    qed
  qed simp
next
  case (Cons v vs)
  obtain n' where n': "n = Suc n'" "length vs \<le> n'" using Cons.prems(5) by (cases n) auto
  let ?y = "v - prev - 1" let ?q = "drop_bit 7 ?y" let ?r = "?y AND (push_bit 7 1 - 1)"
  let ?bs = "map (bit ?r) (rev [0..<7])" let ?rest = "rice_list 7 v vs @ replicate k False"
  let ?pre1 = "pre @ replicate (unat ?q) True @ [False]"
  have d: "bits_of data = pre @ replicate (unat ?q) True @ False # ?bs @ ?rest"
    unfolding Cons.prems(1) rice_list.simps rice_def by (simp only: append_assoc append_Cons append_Nil)
  have u: "br_unary data (length pre) 0 = Some (?q, length ?pre1)"
    using br_unary_run [OF d, of 0] by simp
  have b: "br_bits data (length ?pre1) 7 0 = Some (?r, length (?pre1 @ ?bs))"
  proof -
    have "foldl (\<lambda>r b. push_bit 1 r OR (if b then 1 else 0)) 0 ?bs = ?r"
      by (simp only: foldl_bits mask_AND) simp
    then show ?thesis using br_bits_run [of data ?pre1 ?bs ?rest 0] d by simp
  qed
  have acc: "prev + (push_bit 7 ?q + ?r + 1) = v"
    unfolding rice_value by simp
  have "gcs_decode_loop data 7 m v n' (length (?pre1 @ ?bs)) = vs"
    by (rule Cons.IH) (use d Cons.prems n' in \<open>simp_all\<close>)
  then show ?case
    using u b acc Cons.prems(4) [of v] by (simp add: n' not_le)
qed

lemma gcs_roundtrip:
  assumes "sorted_wrt (<) (0 # vs)" "\<And>v. v \<in> set vs \<Longrightarrow> v < ucast m" "length vs \<le> n" "1 < m"
    and "length (rice_list 7 0 vs) \<le> 8 * cap"
  shows "gcs_decode (gcs_encode vs 7 cap) 7 m n = vs"
proof -
  obtain k where k: "k < 8" "bits_of (gcs_encode vs 7 cap) = rice_list 7 0 vs @ replicate k False"
    using gcs_encode_bits [OF assms(5)] by blast
  have "gcs_decode_loop (gcs_encode vs 7 cap) 7 m 0 n (length []) = vs"
    using gcs_decode_loop_rice [of _ "[]" 0 vs k m n] k assms(1-3) by simp
  then show ?thesis using assms(4) by (auto simp: gcs_decode_def)
qed

lemma div_add_le: "a div k + b div k \<le> (a + b) div (k :: nat)"
  by (metis div_add1_eq le_add1)

lemma length_rice_list:
  assumes "sorted_wrt (<) (prev # vs)" "\<And>v. v \<in> set vs \<Longrightarrow> unat v \<le> M" "unat prev \<le> M"
  shows "length (rice_list p prev vs) \<le> (1 + p) * length vs + (M - unat prev) div 2 ^ p"
  using assms
proof (induction vs arbitrary: prev)
  case (Cons v vs)
  have pv: "prev < v" using Cons.prems(1) by simp
  have vM: "unat v \<le> M" using Cons.prems(2) by simp
  have "unat (v - prev - 1) = unat v - unat prev - 1"
    using pv by (simp add: unat_sub_if' word_less_nat_alt)
  then have q: "unat (drop_bit p (v - prev - 1)) = (unat v - unat prev - 1) div 2 ^ p"
    by (simp add: unat_drop_bit_eq flip: drop_bit_eq_div)
  have "(unat v - unat prev - 1) div 2 ^ p + (M - unat v) div 2 ^ p \<le>
      (unat v - unat prev - 1 + (M - unat v)) div 2 ^ p" by (rule div_add_le)
  also have "\<dots> \<le> (M - unat prev) div 2 ^ p"
    using vM pv by (intro div_le_mono) (simp add: word_less_nat_alt)
  moreover have "length (rice_list p v vs) \<le> (1 + p) * length vs + (M - unat v) div 2 ^ p"
    by (rule Cons.IH) (use Cons.prems vM in auto)
  ultimately show ?case by (simp add: rice_def q)
qed simp

section \<open>Properties\<close>

text \<open>
  C14: Golomb-coded filters are exact: for the coding parameter the node uses, decoding an encoded
  filter returns the strictly increasing bucket list, with no element invented from the padding.
\<close>

theorem gcs_filter_roundtrip:
  assumes "sorted_wrt (<) (0 # vs)" "\<And>v. v \<in> set vs \<Longrightarrow> v < ucast m" "length vs \<le> n" "1 < m"
    and "length (rice_list 7 0 vs) \<le> 8 * cap"
  shows "gcs_decode (gcs_encode vs 7 cap) 7 m n = vs"
  by (rule gcs_roundtrip [OF assms])

theorem gcs_filter_roundtrip_witness: "gcs_decode (gcs_encode [5, 200, 201] 7 400) 7 512 363 = [5, 200, 201]"
  by (rule gcs_filter_roundtrip) (auto simp: rice_def)

text \<open>
  Looking a bucket up in a received filter is set membership: the binary search over the decoded
  values finds exactly the buckets the requester encoded, so an entry is held back precisely when the
  requester's filter contains its bucket.
\<close>

lemma gcs_lookup_is_membership:
  assumes "sorted_wrt (<) (0 # vs)" "\<And>v. v \<in> set vs \<Longrightarrow> v < ucast m" "length vs \<le> n" "1 < m"
    and "length (rice_list 7 0 vs) \<le> 8 * cap"
  shows "sorted_contains (gcs_decode (gcs_encode vs 7 cap) 7 m n) x \<longleftrightarrow> x \<in> set vs"
  using sorted_contains_iff [of vs x] assms(1) by (simp add: gcs_roundtrip [OF assms])

end
