(* ===== verification/Gossip_Sync.thy ===== *)
theory Gossip_Sync
  imports Gcs_Filter Packet_Codec Link_Registry
begin

text \<open>
  Gossip synchronisation (\<open>main/bitle_sync.c\<close>): a bounded store of recent public packets, the
  answer to a peer's \<open>requestSync\<close> with the packets its filter does not contain, and the node's
  own requests. The store is guarded by one mutex; a request selects slots under it and then
  re-reads each selected slot later, so \<open>bitle_sync_handle_request\<close> takes, besides the state at
  selection, the slot table at each of the later reads. Time, the peer's Noise identity and the
  Ed25519 check are arguments.
\<close>

section \<open>State\<close>

definition GCS_P :: nat where "GCS_P = 7"
definition GCS_MAX_BYTES :: nat where "GCS_MAX_BYTES = 400"
definition GCS_MAX_ACCEPT :: nat where "GCS_MAX_ACCEPT = 1024"
definition GCS_MAX_ELEMENTS :: nat where "GCS_MAX_ELEMENTS = 355"
definition WINDOW_ANNOUNCE_MS :: u64 where "WINDOW_ANNOUNCE_MS = 900 * 1000"
definition WINDOW_MESSAGE_MS :: u64 where "WINDOW_MESSAGE_MS = 6 * 3600 * 1000"
definition WINDOW_PREKEY_MS :: u64 where "WINDOW_PREKEY_MS = 24 * 3600 * 1000"
definition RATE_WINDOW_MS :: u64 where "RATE_WINDOW_MS = 30000"
definition RATE_MAX_RESPONSES :: u8 where "RATE_MAX_RESPONSES = 8"
definition REQUEST_INTERVAL_MS :: u64 where "REQUEST_INTERVAL_MS = 60000"
definition MAX_REPLAY_PER_REQ :: nat where "MAX_REPLAY_PER_REQ = 40"
definition FLAG_ANNOUNCE :: u64 where "FLAG_ANNOUNCE = 1"
definition FLAG_MESSAGE :: u64 where "FLAG_MESSAGE = 2"
definition FLAG_PREKEY :: u64 where "FLAG_PREKEY = push_bit 9 1"
definition FLAG_GROUP :: u64 where "FLAG_GROUP = push_bit 10 1"
definition BITLE_SYNC_SLOTS :: nat where "BITLE_SYNC_SLOTS = 80"
definition BITLE_SYNC_FRAME_MAX :: nat where "BITLE_SYNC_FRAME_MAX = 524"
definition BITLE_SYNC_QUOTA_ANNOUNCE :: nat where "BITLE_SYNC_QUOTA_ANNOUNCE = 24"
definition BITLE_SYNC_QUOTA_MESSAGE :: nat where "BITLE_SYNC_QUOTA_MESSAGE = 40"
definition BITLE_SYNC_QUOTA_PREKEY :: nat where "BITLE_SYNC_QUOTA_PREKEY = 16"

record sync_slot =
  ss_in_use :: bool
  ss_type :: u8
  ss_id :: bytes
  ss_timestamp_ms :: u64
  ss_ingest_seq :: u32
  ss_owner :: bytes
  ss_frame :: bytes

record peer_state =
  ps_conn_handle :: u16
  ps_count :: u8
  ps_window_start_ms :: u64
  ps_last_request_ms :: u64

record sync_state =
  sy_slots :: "sync_slot list"
  sy_ingest_seq :: u32
  sy_peers :: "peer_state list"

definition zero_slot :: sync_slot where
  "zero_slot = \<lparr> ss_in_use = False, ss_type = 0, ss_id = replicate 16 0, ss_timestamp_ms = 0,
     ss_ingest_seq = 0, ss_owner = replicate 8 0, ss_frame = [] \<rparr>"

definition zero_peer :: peer_state where
  "zero_peer = \<lparr> ps_conn_handle = 0, ps_count = 0, ps_window_start_ms = 0, ps_last_request_ms = 0 \<rparr>"

definition bitle_sync_init :: sync_state where
  "bitle_sync_init = \<lparr> sy_slots = replicate BITLE_SYNC_SLOTS zero_slot, sy_ingest_seq = 0,
     sy_peers = replicate 8 zero_peer \<rparr>"

section \<open>Per-peer state\<close>

text \<open>
  The victim search: index 0 to start with; the first free entry ends it, an entry with an older
  request replaces the candidate.
\<close>

fun peer_victim :: "peer_state list \<Rightarrow> nat \<Rightarrow> nat \<Rightarrow> u64 \<Rightarrow> nat" where
  "peer_victim [] i best best_last = best"
| "peer_victim (p # ps) i best best_last =
     (if ps_conn_handle p = 0 then i
      else if ps_last_request_ms p < best_last then peer_victim ps (i + 1) i (ps_last_request_ms p)
      else peer_victim ps (i + 1) best best_last)"

definition peer_state_of :: "u16 \<Rightarrow> peer_state list \<Rightarrow> nat \<times> peer_state list" where
  "peer_state_of conn ps =
     (case find_index (\<lambda>p. ps_conn_handle p = conn) ps of
        Some i \<Rightarrow> (i, ps)
      | None \<Rightarrow>
          let v = peer_victim ps 0 0 (ps_last_request_ms (ps ! 0))
          in (v, ps[v := zero_peer \<lparr> ps_conn_handle := conn \<rparr>]))"

section \<open>Packet identity\<close>

definition packet_id :: "psa_hash \<Rightarrow> packet \<Rightarrow> bytes" where
  "packet_id psa p =
     take 16 (bitle_sha256_finish psa (foldl bitle_sha256_update bitle_sha256_begin
       ([[pk_type p], pk_sender_id p, be_enc 8 (pk_timestamp_ms p)] @
        (if pk_payload_len p \<noteq> 0 then [the (pk_payload p)] else []))))"

section \<open>The store\<close>

definition is_announce_type :: "u8 \<Rightarrow> bool" where
  "is_announce_type t \<longleftrightarrow> t = BITCHAT_MSG_ANNOUNCE \<or> t = BITCHAT_MSG_NODE_CAPABILITY"

definition type_window_ms :: "u8 \<Rightarrow> u64" where
  "type_window_ms t =
     (if t = BITCHAT_MSG_ANNOUNCE \<or> t = BITCHAT_MSG_NODE_CAPABILITY then WINDOW_ANNOUNCE_MS
      else if t = BITCHAT_MSG_PREKEY_BUNDLE then WINDOW_PREKEY_MS
      else WINDOW_MESSAGE_MS)"

definition slot_fresh :: "sync_slot \<Rightarrow> u64 \<Rightarrow> bool" where
  "slot_fresh s now_ms \<longleftrightarrow>
     (let window = type_window_ms (ss_type s) in now_ms < window \<or> ss_timestamp_ms s \<ge> now_ms - window)"

definition type_count :: "sync_slot list \<Rightarrow> bool \<Rightarrow> bool \<Rightarrow> nat" where
  "type_count slots announce prekey =
     length (filter (\<lambda>s. ss_in_use s \<and>
       (let is_announce = is_announce_type (ss_type s);
            is_prekey = (ss_type s = BITCHAT_MSG_PREKEY_BUNDLE)
        in (announce \<and> is_announce) \<or> (prekey \<and> is_prekey) \<or>
           (\<not> announce \<and> \<not> prekey \<and> \<not> is_announce \<and> \<not> is_prekey))) slots)"

definition same_class :: "u8 \<Rightarrow> u8 \<Rightarrow> bool" where
  "same_class type t \<longleftrightarrow> t = type \<or>
     (\<not> is_announce_type type \<and> type \<noteq> BITCHAT_MSG_PREKEY_BUNDLE \<and>
      \<not> is_announce_type t \<and> t \<noteq> BITCHAT_MSG_PREKEY_BUNDLE)"

fun oldest_of_class :: "u8 \<Rightarrow> sync_slot list \<Rightarrow> nat \<Rightarrow> (nat \<times> u32) option \<Rightarrow> nat option" where
  "oldest_of_class type [] i best = map_option fst best"
| "oldest_of_class type (s # ss) i best =
     oldest_of_class type ss (i + 1)
       (if \<not> same_class type (ss_type s) then best
        else case best of
          None \<Rightarrow> Some (i, ss_ingest_seq s)
        | Some (v, q) \<Rightarrow> if ss_ingest_seq s < q then Some (i, ss_ingest_seq s) else best)"

definition evict_for :: "u8 \<Rightarrow> u64 \<Rightarrow> sync_slot list \<Rightarrow> nat option" where
  "evict_for type now_ms slots =
     (case find_index (\<lambda>s. \<not> ss_in_use s \<or> \<not> slot_fresh s now_ms) slots of
        Some i \<Rightarrow> Some i
      | None \<Rightarrow> oldest_of_class type slots 0 None)"

text \<open>The TLV walk of \<open>derive_owner\<close> over the rest of a prekey bundle.\<close>

function prekey_owner :: "psa_hash \<Rightarrow> bytes \<Rightarrow> bytes option" where
  "prekey_owner psa p =
     (if length p < 3 then None
      else let t = p ! 0; l = unat (be_val (bslice 1 2 p) :: u16); rest = drop 3 p in
           if length rest < l then None
           else if t = 0x01 \<and> l = 32 then Some (take 8 (bitle_sha256 psa (take 32 rest)))
           else prekey_owner psa (drop l rest))"
  by pat_completeness auto
termination by (relation "measure (\<lambda>(psa, p). length p)") auto

declare prekey_owner.simps [simp del]

definition derive_owner :: "psa_hash \<Rightarrow> packet \<Rightarrow> bytes option" where
  "derive_owner psa p =
     (if is_announce_type (pk_type p) then Some (pk_sender_id p)
      else if pk_type p = BITCHAT_MSG_PREKEY_BUNDLE then prekey_owner psa (the (pk_payload p))
      else Some (replicate 8 0))"

definition replace_type :: "u8 \<Rightarrow> bool" where
  "replace_type t \<longleftrightarrow> is_announce_type t \<or> t = BITCHAT_MSG_PREKEY_BUNDLE"

text \<open>
  The scan for an already stored copy or an older packet of the same owner: \<open>None\<close> where the
  code returns, otherwise the target slot found, if any.
\<close>

fun ingest_scan ::
  "u8 \<Rightarrow> bytes \<Rightarrow> bytes \<Rightarrow> u64 \<Rightarrow> sync_slot list \<Rightarrow> nat \<Rightarrow> nat option \<Rightarrow> nat option option" where
  "ingest_scan type ident owner ts [] i target = Some target"
| "ingest_scan type ident owner ts (s # ss) i target =
     (if \<not> ss_in_use s then ingest_scan type ident owner ts ss (i + 1) target
      else if ss_id s = ident then None
      else if replace_type type \<and> ss_type s = type \<and> ss_owner s = owner then
        (if ts \<le> ss_timestamp_ms s then None
         else ingest_scan type ident owner ts ss (i + 1) (Some i))
      else ingest_scan type ident owner ts ss (i + 1) target)"

definition ingest_target :: "u8 \<Rightarrow> u64 \<Rightarrow> sync_slot list \<Rightarrow> nat option" where
  "ingest_target type now_ms slots =
     (let (quota, used) =
            (if is_announce_type type then (BITLE_SYNC_QUOTA_ANNOUNCE, type_count slots True False)
             else if type = BITCHAT_MSG_PREKEY_BUNDLE
             then (BITLE_SYNC_QUOTA_PREKEY, type_count slots False True)
             else (BITLE_SYNC_QUOTA_MESSAGE, type_count slots False False))
      in if used \<ge> quota then evict_for type now_ms slots
         else case find_index (\<lambda>s. \<not> ss_in_use s) slots of
                Some i \<Rightarrow> Some i
              | None \<Rightarrow> evict_for type now_ms slots)"

definition ingest_acceptable :: "u64 \<Rightarrow> packet \<Rightarrow> bytes \<Rightarrow> bool" where
  "ingest_acceptable now_ms p raw \<longleftrightarrow>
     raw \<noteq> [] \<and> length raw \<le> BITLE_SYNC_FRAME_MAX \<and> pk_payload p \<noteq> None \<and>
     (pk_type p = BITCHAT_MSG_ANNOUNCE \<or> pk_type p = BITCHAT_MSG_MESSAGE \<or>
      pk_type p = BITCHAT_MSG_NODE_CAPABILITY \<or> pk_type p = BITCHAT_MSG_PREKEY_BUNDLE) \<and>
     pk_has_signature p \<and>
     \<not> (now_ms > type_window_ms (pk_type p) \<and>
        pk_timestamp_ms p < now_ms - type_window_ms (pk_type p)) \<and>
     \<not> pk_timestamp_ms p > now_ms + WINDOW_ANNOUNCE_MS"

definition bitle_sync_ingest ::
  "psa_hash \<Rightarrow> u64 \<Rightarrow> packet \<Rightarrow> bytes \<Rightarrow> sync_state \<Rightarrow> sync_state" where
  "bitle_sync_ingest psa now_ms p raw st =
     (if \<not> ingest_acceptable now_ms p raw then st
      else case derive_owner psa p of
        None \<Rightarrow> st
      | Some owner \<Rightarrow>
          let ident = packet_id psa p in
          (case ingest_scan (pk_type p) ident owner (pk_timestamp_ms p) (sy_slots st) 0 None of
             None \<Rightarrow> st
           | Some found \<Rightarrow>
               (case (case found of Some i \<Rightarrow> Some i
                                  | None \<Rightarrow> ingest_target (pk_type p) now_ms (sy_slots st)) of
                  None \<Rightarrow> st
                | Some i \<Rightarrow>
                    let seq = sy_ingest_seq st + 1 in
                    st \<lparr> sy_slots := (sy_slots st)[i :=
                            \<lparr> ss_in_use = True, ss_type = pk_type p, ss_id = ident,
                              ss_timestamp_ms = pk_timestamp_ms p, ss_ingest_seq = seq,
                              ss_owner = owner, ss_frame = raw \<rparr>],
                         sy_ingest_seq := seq \<rparr>)))"

section \<open>Serving requests\<close>

record sync_request =
  rq_p :: int
  rq_m :: u32
  rq_filter :: bytes
  rq_type_flags :: u64
  rq_have_types :: bool
  rq_has_since :: bool
  rq_since_ms :: u64
  rq_have_m :: bool
  rq_have_data :: bool

definition empty_request :: sync_request where
  "empty_request = \<lparr> rq_p = -1, rq_m = 0, rq_filter = [], rq_type_flags = 0, rq_have_types = False,
     rq_has_since = False, rq_since_ms = 0, rq_have_m = False, rq_have_data = False \<rparr>"

text \<open>The little-endian flags field: at most its first 8 bytes.\<close>

definition le_val :: "bytes \<Rightarrow> u64" where
  "le_val v = foldr (\<lambda>b acc. push_bit 8 acc OR ucast b) (take 8 v) 0"

text \<open>The effect of one TLV; \<open>None\<close> where the parser rejects the request.\<close>

definition request_field :: "u8 \<Rightarrow> bytes \<Rightarrow> sync_request \<Rightarrow> sync_request option" where
  "request_field t v req =
     (if t = 0x01 then Some (if length v = 1 then req \<lparr> rq_p := int (unat (v ! 0)) \<rparr> else req)
      else if t = 0x02 then
        Some (if length v = 4 then req \<lparr> rq_m := be_val v, rq_have_m := True \<rparr> else req)
      else if t = 0x03 then
        (if length v > GCS_MAX_ACCEPT then None
         else Some (req \<lparr> rq_filter := v, rq_have_data := True \<rparr>))
      else if t = 0x04 then Some (req \<lparr> rq_type_flags := le_val v, rq_have_types := True \<rparr>)
      else if t = 0x05 then
        Some (if length v = 8 then req \<lparr> rq_since_ms := be_val v, rq_has_since := True \<rparr> else req)
      else Some req)"

function request_fields :: "bytes \<Rightarrow> sync_request \<Rightarrow> sync_request option" where
  "request_fields p req =
     (if length p < 3 then Some req
      else let t = p ! 0; l = unat (be_val (bslice 1 2 p) :: u16); rest = drop 3 p in
           if length rest < l then None
           else (case request_field t (take l rest) req of
                   None \<Rightarrow> None
                 | Some req' \<Rightarrow> request_fields (drop l rest) req'))"
  by pat_completeness auto
termination by (relation "measure (\<lambda>(p, req). length p)") auto

declare request_fields.simps [simp del]

definition parse_request :: "bytes \<Rightarrow> sync_request option" where
  "parse_request p =
     (case request_fields p empty_request of
        None \<Rightarrow> None
      | Some req \<Rightarrow>
          if rq_p req < 1 \<or> rq_p req > 32 \<or> \<not> rq_have_m req \<or> rq_m req = 0 \<or> \<not> rq_have_data req
          then None
          else Some (if rq_have_types req then req
                     else req \<lparr> rq_type_flags := FLAG_ANNOUNCE OR FLAG_MESSAGE \<rparr>))"

definition type_requested :: "u8 \<Rightarrow> u64 \<Rightarrow> bool" where
  "type_requested t flags =
     (if t = BITCHAT_MSG_ANNOUNCE then flags AND FLAG_ANNOUNCE \<noteq> 0
      else if t = BITCHAT_MSG_MESSAGE then flags AND FLAG_MESSAGE \<noteq> 0
      else if t = BITCHAT_MSG_NODE_CAPABILITY then flags AND FLAG_ANNOUNCE \<noteq> 0
      else if t = BITCHAT_MSG_PREKEY_BUNDLE then flags AND FLAG_PREKEY \<noteq> 0
      else False)"

text \<open>Whether a slot passes the filters of the selection loop.\<close>

definition wants_slot :: "psa_hash \<Rightarrow> u64 \<Rightarrow> sync_request \<Rightarrow> u64 list \<Rightarrow> sync_slot \<Rightarrow> bool" where
  "wants_slot psa now_ms req buckets s \<longleftrightarrow>
     ss_in_use s \<and> type_requested (ss_type s) (rq_type_flags req) \<and> slot_fresh s now_ms \<and>
     \<not> (rq_has_since req \<and> ss_type s \<noteq> BITCHAT_MSG_ANNOUNCE \<and>
        ss_type s \<noteq> BITCHAT_MSG_PREKEY_BUNDLE \<and> ss_timestamp_ms s < rq_since_ms req) \<and>
     \<not> (rq_m req > 1 \<and> buckets \<noteq> [] \<and>
        sorted_contains buckets (gcs_bucket psa (ss_id s) (rq_m req)))"

definition select_replays ::
  "psa_hash \<Rightarrow> u64 \<Rightarrow> sync_request \<Rightarrow> u64 list \<Rightarrow> sync_slot list \<Rightarrow> nat list" where
  "select_replays psa now_ms req buckets slots =
     take MAX_REPLAY_PER_REQ
       (filter (\<lambda>i. wants_slot psa now_ms req buckets (slots ! i)) [0..<length slots])"

text \<open>The re-read of a selected slot and the patch of the copy.\<close>

definition replay_frame :: "sync_slot list \<Rightarrow> nat \<Rightarrow> bytes option" where
  "replay_frame slots i =
     (let s = slots ! i in
      if \<not> ss_in_use s \<or> ss_frame s = [] then None
      else let f = (ss_frame s)[2 := 0] in Some (f[11 := f ! 11 OR 0x10]))"

text \<open>
  What the request handler gets from other modules: the peer's verified signing key
  (\<open>noise_get_peer_identity\<close>) and the signature check.
\<close>

record sync_peer_env =
  spe_identity :: "u16 \<Rightarrow> (bytes \<times> bool) option"
  spe_verify :: "packet \<Rightarrow> bytes \<Rightarrow> bool"

text \<open>
  The rate limiter of the handler: the window restarts when more than \<open>RATE_WINDOW_MS\<close> passed; a
  full window rejects.
\<close>

definition rate_admit :: "u64 \<Rightarrow> peer_state \<Rightarrow> bool \<times> peer_state" where
  "rate_admit now_ms ps =
     (let ps1 = (if now_ms - ps_window_start_ms ps > RATE_WINDOW_MS
                 then ps \<lparr> ps_window_start_ms := now_ms, ps_count := 0 \<rparr> else ps)
      in if ps_count ps1 \<ge> RATE_MAX_RESPONSES then (False, ps1)
         else (True, ps1 \<lparr> ps_count := ps_count ps1 + 1 \<rparr>))"

text \<open>
  The frames handed to \<open>bitchat_ble_send\<close>, in order; \<open>later k\<close> is the slot table at the
  re-read of the \<open>k\<close>-th selected slot.
\<close>

definition replay_frames :: "(nat \<Rightarrow> sync_slot list) \<Rightarrow> nat list \<Rightarrow> bytes list" where
  "replay_frames later sel =
     concat (map (\<lambda>(k, i). case replay_frame (later k) i of None \<Rightarrow> [] | Some f \<Rightarrow> [f])
                 (zip [0..<length sel] sel))"

definition bitle_sync_handle_request ::
  "psa_hash \<Rightarrow> sync_peer_env \<Rightarrow> u64 \<Rightarrow> u16 \<Rightarrow> packet \<Rightarrow> (nat \<Rightarrow> sync_slot list) \<Rightarrow>
   sync_state \<Rightarrow> bytes list \<times> sync_state" where
  "bitle_sync_handle_request psa env now_ms conn p later st =
     (if pk_ttl p \<noteq> 0 then ([], st)
      else case spe_identity env conn of
        None \<Rightarrow> ([], st)
      | Some (sign_key, verified) \<Rightarrow>
          if \<not> verified then ([], st)
          else
            (case peer_state_of conn (sy_peers st) of (i, peers) \<Rightarrow>
             case rate_admit now_ms (peers ! i) of (admitted, ps) \<Rightarrow>
               let st' = st \<lparr> sy_peers := peers[i := ps] \<rparr> in
               if \<not> admitted then ([], st')
               else if \<not> spe_verify env p sign_key then ([], st')
               else (case parse_request (case pk_payload p of None \<Rightarrow> [] | Some b \<Rightarrow> b) of
                       None \<Rightarrow> ([], st')
                     | Some req \<Rightarrow>
                         let buckets = gcs_decode (rq_filter req) (rq_p req) (rq_m req) (GCS_MAX_ELEMENTS + 8);
                             sel = select_replays psa now_ms req buckets (sy_slots st)
                         in (replay_frames later sel, st'))))"

section \<open>Own requests\<close>

definition insert_bucket :: "u64 \<Rightarrow> u64 list \<Rightarrow> u64 list" where
  "insert_bucket b bs =
     (let j = length bs - length (takeWhile (\<lambda>x. x > b) (rev bs))
      in if j > 0 \<and> bs ! (j - 1) = b then bs else take j bs @ b # drop j bs)"

definition collect_ids :: "u64 \<Rightarrow> u64 \<Rightarrow> nat \<Rightarrow> sync_slot list \<Rightarrow> bytes list" where
  "collect_ids flags now_ms cap slots =
     take cap (map ss_id (filter (\<lambda>s. ss_in_use s \<and> type_requested (ss_type s) flags \<and>
                                    slot_fresh s now_ms) slots))"

definition collect_buckets ::
  "psa_hash \<Rightarrow> u64 \<Rightarrow> u64 \<Rightarrow> nat \<Rightarrow> sync_slot list \<Rightarrow> u32 \<times> u64 list" where
  "collect_buckets psa flags now_ms cap slots =
     (let ids = collect_ids flags now_ms cap slots;
          n = length ids;
          m = (if n \<noteq> 0 then word_of_nat (n * 2 ^ GCS_P) else 1)
      in (m, foldl (\<lambda>bs ident. insert_bucket (gcs_bucket psa ident m) bs) [] ids))"

definition own_flags :: u64 where
  "own_flags = FLAG_ANNOUNCE OR FLAG_MESSAGE OR FLAG_GROUP OR FLAG_PREKEY"

definition request_payload :: "psa_hash \<Rightarrow> u64 \<Rightarrow> sync_slot list \<Rightarrow> bytes" where
  "request_payload psa now_ms slots =
     (case collect_buckets psa own_flags now_ms BITLE_SYNC_SLOTS slots of
        (m, buckets) \<Rightarrow>
          let flt = (if buckets \<noteq> [] then gcs_encode buckets GCS_P GCS_MAX_BYTES else [])
          in [0x01, 0, 1, word_of_nat GCS_P] @ [0x02, 0, 4] @ be_enc 4 m @
             [0x03] @ be_enc 2 (word_of_nat (length flt) :: u16) @ flt @
             [0x04, 0, 2, ucast (FLAG_ANNOUNCE OR FLAG_MESSAGE),
              ucast (drop_bit 8 (FLAG_PREKEY OR FLAG_GROUP))])"

text \<open>
  \<open>send_request\<close>: the payload handed to \<open>noise_send_packet\<close> (type requestSync, TTL 0, signed),
  or nothing on a broadcast link.
\<close>

definition send_request :: "psa_hash \<Rightarrow> u64 \<Rightarrow> u16 \<Rightarrow> 'f links \<Rightarrow> sync_slot list \<Rightarrow> bytes option" where
  "send_request psa now_ms conn ls slots =
     (let payload = request_payload psa now_ms slots
      in if bitle_link_is_broadcast conn ls then None else Some payload)"

definition bitle_sync_tick ::
  "psa_hash \<Rightarrow> u64 \<Rightarrow> u16 \<Rightarrow> 'f links \<Rightarrow> u64 \<Rightarrow> sync_state \<Rightarrow> bytes option \<times> sync_state" where
  "bitle_sync_tick psa now_ms conn ls uptime_ms st =
     (case peer_state_of conn (sy_peers st) of (i, peers) \<Rightarrow>
        if ps_last_request_ms (peers ! i) \<noteq> 0 \<and>
           uptime_ms - ps_last_request_ms (peers ! i) < REQUEST_INTERVAL_MS
        then (None, st \<lparr> sy_peers := peers \<rparr>)
        else (send_request psa now_ms conn ls (sy_slots st),
              st \<lparr> sy_peers := peers[i := (peers ! i) \<lparr>
                     ps_last_request_ms := (if uptime_ms \<noteq> 0 then uptime_ms else 1) \<rparr>] \<rparr>))"

section \<open>The filter of a request\<close>

lemma insert_bucket_spec:
  assumes "sorted_wrt (<) bs"
  shows "sorted_wrt (<) (insert_bucket b bs) \<and> set (insert_bucket b bs) = insert b (set bs)"
proof -
  define hi where "hi = takeWhile (\<lambda>x. x > b) (rev bs)"
  define lo where "lo = rev (dropWhile (\<lambda>x. x > b) (rev bs))"
  have bs: "bs = lo @ rev hi"
    unfolding lo_def hi_def by (metis rev_append rev_rev_ident takeWhile_dropWhile_id)
  have hi: "\<forall>x \<in> set hi. b < x" by (auto simp: hi_def dest: set_takeWhileD)
  have last: "lo \<noteq> [] \<Longrightarrow> last lo \<le> b"
    using hd_dropWhile [of "\<lambda>x. x > b" "rev bs"] by (auto simp: lo_def last_rev)
  have lo: "\<forall>x \<in> set lo. x \<le> b \<and> (x = b \<longrightarrow> last lo = b)"
  proof
    fix x assume x: "x \<in> set lo"
    then have ne: "lo \<noteq> []" by auto
    have "sorted_wrt (<) (butlast lo @ [last lo])" using assms bs ne by (simp add: sorted_wrt_append)
    then have "x = last lo \<or> x < last lo"
      using x ne by (metis Un_iff append_butlast_last_id set_append sorted_wrt_append list.set_intros(1) empty_iff set_ConsD list.set(1))
    then show "x \<le> b \<and> (x = b \<longrightarrow> last lo = b)" using last [OF ne] by auto
  qed
  have j: "length bs - length hi = length lo" by (simp add: bs)
  have tk: "take (length lo) bs = lo" "drop (length lo) bs = rev hi" by (simp_all add: bs)
  have nth: "lo \<noteq> [] \<Longrightarrow> bs ! (length lo - 1) = last lo" by (simp add: bs nth_append last_conv_nth)
  show ?thesis
  proof (cases "lo \<noteq> [] \<and> last lo = b")
    case True
    then have "insert_bucket b bs = bs" using nth j by (simp add: insert_bucket_def flip: hi_def)
    moreover have "b \<in> set bs" using True bs by auto
    ultimately show ?thesis using assms by auto
  next
    case False
    then have ib: "insert_bucket b bs = lo @ b # rev hi"
      using nth j tk by (auto simp: insert_bucket_def Let_def simp flip: hi_def)
    have "\<forall>x \<in> set lo. x < b" using lo False by (metis empty_iff list.set(1) order_le_less)
    then have "sorted_wrt (<) (lo @ b # rev hi)"
      using assms hi bs by (auto simp: sorted_wrt_append)
    then show ?thesis using ib bs by auto
  qed
qed

lemma fold_insert_bucket:
  "sorted_wrt (<) bs \<Longrightarrow>
   sorted_wrt (<) (foldl (\<lambda>bs x. insert_bucket (f x) bs) bs xs) \<and>
   set (foldl (\<lambda>bs x. insert_bucket (f x) bs) bs xs) = set bs \<union> f ` set xs"
  by (induction xs arbitrary: bs) (auto simp: insert_bucket_spec)

lemma sorted_less_distinct: "sorted_wrt (<) (bs :: 'a::linorder list) \<Longrightarrow> distinct bs"
  by (induction bs) auto

lemma length_fold_insert_bucket: 
  "length (foldl (\<lambda>bs x. insert_bucket (f x) bs) [] xs) \<le> length xs"
proof -
  let ?r = "foldl (\<lambda>bs x. insert_bucket (f x) bs) [] xs"
  have "sorted_wrt (<) ?r" "set ?r = f ` set xs" using fold_insert_bucket [of "[]" f xs] by auto
  then have "length ?r = card (f ` set xs)" using distinct_card [OF sorted_less_distinct] by metis
  also have "\<dots> \<le> length xs" by (meson card_image_le card_length finite_set order_trans)
  finally show ?thesis .
qed

text \<open>What the node's own filter contains, and that it decodes to exactly that.\<close>

lemma collect_buckets_spec:
  assumes "collect_buckets psa flags now cap slots = (m, bs)" "cap \<le> 80"
    and n: "n = length (collect_ids flags now cap slots)" "n \<noteq> 0"
  shows "unat m = n * 128" "1 < m" "sorted_wrt (<) (0 # bs)"
    "set bs = (\<lambda>x. gcs_bucket psa x m) ` set (collect_ids flags now cap slots)"
    "\<And>b. b \<in> set bs \<Longrightarrow> b < ucast m" "length bs \<le> n" "n \<le> 80"
proof -
  let ?ids = "collect_ids flags now cap slots"
  show n80: "n \<le> 80" using n assms(2) by (simp add: collect_ids_def)
  have m: "m = word_of_nat (n * 128)" and bs: "bs = foldl (\<lambda>bs x. insert_bucket (gcs_bucket psa x m) bs) [] ?ids"
    using assms(1) n by (auto simp: collect_buckets_def Let_def GCS_P_def)
  show um: "unat m = n * 128" using n80 unfolding m by (subst unat_of_nat_small) auto
  show m1: "1 < m" using um n(2) by (simp add: word_less_nat_alt)
  note fi = fold_insert_bucket [of "[]" "\<lambda>x. gcs_bucket psa x m" ?ids, folded bs]
  show st: "set bs = (\<lambda>x. gcs_bucket psa x m) ` set ?ids" using fi by simp
  show "sorted_wrt (<) (0 # bs)" using fi st gcs_bucket_range(1) [OF m1] by auto
  show "b < ucast m" if "b \<in> set bs" for b using that st gcs_bucket_range(2) [OF m1] by auto
  show "length bs \<le> n" unfolding bs n(1) by (rule length_fold_insert_bucket)
qed

lemma own_filter_fits:
  assumes "collect_buckets psa flags now cap slots = (m, bs)" "cap \<le> 80"
  shows "length (rice_list 7 0 bs) \<le> 720"
proof (cases "length (collect_ids flags now cap slots) = 0")
  case True
  then have "bs = []" using assms(1) by (auto simp: collect_buckets_def Let_def)
  then show ?thesis by simp
next
  case False
  note c = collect_buckets_spec [OF assms refl False]
  have "unat v \<le> unat m" if "v \<in> set bs" for v
    using c(5) [OF that] by (simp add: word_less_nat_alt unat_ucast_up)
  from length_rice_list [OF c(3) this, of 7]
  show ?thesis using c(1,6,7) by simp
qed

lemma own_filter_decodes:
  assumes "collect_buckets psa flags now cap slots = (m, bs)" "cap \<le> 80" "bs \<noteq> []"
  shows "gcs_decode (gcs_encode bs GCS_P GCS_MAX_BYTES) 7 m (GCS_MAX_ELEMENTS + 8) = bs"
proof -
  have ne: "length (collect_ids flags now cap slots) \<noteq> 0"
    using assms(1,3) by (auto simp: collect_buckets_def Let_def)
  note c = collect_buckets_spec [OF assms(1,2) refl ne]
  show ?thesis unfolding GCS_P_def
    by (rule gcs_roundtrip [OF c(3,5)])
       (use c own_filter_fits [OF assms(1,2)] in \<open>auto simp: GCS_MAX_BYTES_def GCS_MAX_ELEMENTS_def\<close>)
qed


section \<open>The request a node sends, as its peer reads it\<close>

definition tlv16 :: "u8 \<Rightarrow> bytes \<Rightarrow> bytes" where
  "tlv16 t v = t # be_enc 2 (word_of_nat (length v) :: u16) @ v"

lemma request_fields_step:
  assumes "length v < 65536"
  shows "request_fields (tlv16 t v @ rest) req =
    (case request_field t v req of None \<Rightarrow> None | Some req' \<Rightarrow> request_fields rest req')"
proof -
  have "bslice 1 2 (tlv16 t v @ rest) = be_enc 2 (word_of_nat (length v) :: u16)"
    "drop 3 (tlv16 t v @ rest) = v @ rest" "(tlv16 t v @ rest) ! 0 = t"
    "\<not> length (tlv16 t v @ rest) < 3"
    by (simp_all add: bslice_def tlv16_def numeral_3_eq_3 numeral_2_eq_2)
  moreover have "unat (word_of_nat (length v) :: u16) = length v"
    using assms by (subst unat_of_nat_small) auto
  ultimately show ?thesis by (subst request_fields.simps) (simp add: Let_def split: option.split)
qed

lemma request_fields_Nil: "request_fields [] req = Some req"
  by (simp add: request_fields.simps)

lemma be_enc_2_lit: "be_enc 2 (1 :: u16) = [0, 1]" "be_enc 2 (2 :: u16) = [0, 2]" "be_enc 2 (4 :: u16) = [0, 4]"
  by (simp_all add: be_enc_def upt_rec)

lemma request_payload_fields:
  assumes "collect_buckets psa own_flags now BITLE_SYNC_SLOTS slots = (m, bs)"
    and "flt = (if bs \<noteq> [] then gcs_encode bs GCS_P GCS_MAX_BYTES else [])"
  shows "request_payload psa now slots =
     tlv16 0x01 [0x07] @ tlv16 0x02 (be_enc 4 m) @ tlv16 0x03 flt @ tlv16 0x04 [3, 6] @ []"
  by (simp add: request_payload_def assms(1) assms(2) [symmetric] tlv16_def GCS_P_def be_enc_2_lit
      FLAG_ANNOUNCE_def FLAG_MESSAGE_def FLAG_PREKEY_def FLAG_GROUP_def)

lemma length_gcs_encode: "length (gcs_encode vs p cap) \<le> cap"
proof -
  have "length (bw_buf w') = length (bw_buf w)" if "bw_puts w bs = Some w'" for w w' bs
    using that by (induction bs arbitrary: w) (auto simp: bind_eq_Some_conv bw_put_def Let_def split: if_split_asm)
  from this [of "\<lparr> bw_buf = replicate cap 0, bw_bit = 0 \<rparr>"] show ?thesis
    by (auto simp: gcs_encode_def gcs_encode_loop_puts split: option.split)
qed

definition own_request :: "u32 \<Rightarrow> bytes \<Rightarrow> sync_request" where
  "own_request m flt = empty_request \<lparr> rq_p := 7, rq_m := m, rq_have_m := True, rq_filter := flt,
     rq_have_data := True, rq_type_flags := own_flags, rq_have_types := True \<rparr>"

lemma parse_own_request:
  assumes c: "collect_buckets psa own_flags now BITLE_SYNC_SLOTS slots = (m, bs)"
    and flt: "flt = (if bs \<noteq> [] then gcs_encode bs GCS_P GCS_MAX_BYTES else [])"
  shows "parse_request (request_payload psa now slots) = Some (own_request m flt)"
proof -
  have len: "length flt \<le> 400"
    using length_gcs_encode [of bs GCS_P GCS_MAX_BYTES] by (auto simp: flt GCS_MAX_BYTES_def)
  have m0: "m \<noteq> 0"
  proof (cases "length (collect_ids own_flags now BITLE_SYNC_SLOTS slots) = 0")
    case True
    then show ?thesis using c by (auto simp: collect_buckets_def Let_def)
  next
    case False
    from collect_buckets_spec(2) [OF c _ refl False] show ?thesis
      by (auto simp: BITLE_SYNC_SLOTS_def)
  qed
  have fl: "le_val [3, 6] = own_flags"
    by (simp add: le_val_def own_flags_def FLAG_ANNOUNCE_def FLAG_MESSAGE_def FLAG_PREKEY_def FLAG_GROUP_def)
  show ?thesis
    using len m0 fl
    unfolding parse_request_def request_payload_fields [OF c flt]
    by (simp add: request_fields_step request_field_def request_fields_Nil own_request_def
        GCS_MAX_ACCEPT_def empty_request_def del: append_Nil2)
qed

section \<open>The store's invariant\<close>

definition frame_ok :: "sync_slot \<Rightarrow> bool" where
  "frame_ok s \<longleftrightarrow> (ss_in_use s \<longrightarrow> ss_frame s \<noteq> [] \<and> length (ss_frame s) \<le> BITLE_SYNC_FRAME_MAX)"

abbreviation owned :: "sync_slot \<Rightarrow> bool" where
  "owned s \<equiv> ss_in_use s \<and> replace_type (ss_type s)"

abbreviation owner_key :: "sync_slot \<Rightarrow> u8 \<times> bytes" where
  "owner_key s \<equiv> (ss_type s, ss_owner s)"

definition sync_inv :: "sync_state \<Rightarrow> bool" where
  "sync_inv st \<longleftrightarrow> length (sy_slots st) = BITLE_SYNC_SLOTS \<and> length (sy_peers st) = 8 \<and>
     slots_uniq ss_in_use ss_id (sy_slots st) \<and> slots_uniq owned owner_key (sy_slots st) \<and>
     list_all frame_ok (sy_slots st)"

lemma ingest_scan_ids:
  "ingest_scan t ident owner ts slots i target = Some found \<Longrightarrow>
   \<forall>s \<in> set slots. ss_in_use s \<longrightarrow> ss_id s \<noteq> ident"
  by (induction slots arbitrary: i target) (auto split: if_split_asm)

lemma ingest_scan_found:
  "ingest_scan t ident owner ts slots i target = Some found \<Longrightarrow>
   found = target \<and> (\<forall>s \<in> set slots. ss_in_use s \<longrightarrow> replace_type t \<longrightarrow> owner_key s \<noteq> (t, owner)) \<or>
   (\<exists>k < length slots. found = Some (i + k) \<and> owned (slots ! k) \<and> owner_key (slots ! k) = (t, owner) \<and>
      ss_timestamp_ms (slots ! k) < ts)"
proof (induction slots arbitrary: i target)
  case (Cons s ss)
  define tgt where "tgt = (if ss_in_use s \<and> replace_type t \<and> ss_type s = t \<and> ss_owner s = owner then Some i else target)"
  have rec: "ingest_scan t ident owner ts ss (i + 1) tgt = Some found"
    and here: "ss_in_use s \<and> replace_type t \<and> ss_type s = t \<and> ss_owner s = owner \<Longrightarrow> ss_timestamp_ms s < ts"
    using Cons.prems by (auto simp: tgt_def not_le split: if_split_asm)
  from Cons.IH [OF rec] show ?case
  proof
    assume a: "found = tgt \<and> (\<forall>s \<in> set ss. ss_in_use s \<longrightarrow> replace_type t \<longrightarrow> owner_key s \<noteq> (t, owner))"
    show ?thesis
    proof (cases "ss_in_use s \<and> replace_type t \<and> ss_type s = t \<and> ss_owner s = owner")
      case True
      then show ?thesis using a here [OF True] by (intro disjI2 exI [of _ 0]) (auto simp: tgt_def)
    next
      case False
      then show ?thesis using a by (intro disjI1) (auto simp: tgt_def)
    qed
  next
    assume "\<exists>k < length ss. found = Some (i + 1 + k) \<and> owned (ss ! k) \<and> owner_key (ss ! k) = (t, owner) \<and>
      ss_timestamp_ms (ss ! k) < ts"
    then obtain k where "k < length ss" "found = Some (i + 1 + k)" "owned (ss ! k)"
      "owner_key (ss ! k) = (t, owner)" "ss_timestamp_ms (ss ! k) < ts" by blast
    then show ?thesis by (intro disjI2 exI [of _ "Suc k"]) auto
  qed
qed simp

definition new_slot :: "psa_hash \<Rightarrow> packet \<Rightarrow> bytes \<Rightarrow> u32 \<Rightarrow> bytes \<Rightarrow> sync_slot" where
  "new_slot psa p owner seq raw = \<lparr> ss_in_use = True, ss_type = pk_type p, ss_id = packet_id psa p,
     ss_timestamp_ms = pk_timestamp_ms p, ss_ingest_seq = seq, ss_owner = owner, ss_frame = raw \<rparr>"

text \<open>Either the store is unchanged, or one slot is overwritten by the packet.\<close>

lemma ingest_cases:
  obtains (same) "bitle_sync_ingest psa now p raw st = st"
  | (stored) owner i found where "ingest_acceptable now p raw" "derive_owner psa p = Some owner"
      "ingest_scan (pk_type p) (packet_id psa p) owner (pk_timestamp_ms p) (sy_slots st) 0 None = Some found"
      "case found of Some k \<Rightarrow> i = k | None \<Rightarrow> ingest_target (pk_type p) now (sy_slots st) = Some i"
      "bitle_sync_ingest psa now p raw st =
         st \<lparr> sy_slots := (sy_slots st)[i := new_slot psa p owner (sy_ingest_seq st + 1) raw],
              sy_ingest_seq := sy_ingest_seq st + 1 \<rparr>"
proof (cases "ingest_acceptable now p raw")
  case acc: True
  show ?thesis
  proof (cases "derive_owner psa p")
    case own: (Some owner)
    show ?thesis
    proof (cases "ingest_scan (pk_type p) (packet_id psa p) owner (pk_timestamp_ms p) (sy_slots st) 0 None")
      case sc: (Some found)
      show ?thesis
      proof (cases "case found of Some k \<Rightarrow> Some k | None \<Rightarrow> ingest_target (pk_type p) now (sy_slots st)")
        case None
        then show ?thesis using acc own sc same by (simp add: bitle_sync_ingest_def)
      next
        case (Some i)
        then show ?thesis using acc own sc stored [OF acc own sc, of i]
          by (auto simp: bitle_sync_ingest_def new_slot_def Let_def split: option.splits)
      qed
    qed (use acc own same in \<open>simp add: bitle_sync_ingest_def\<close>)
  qed (use acc same in \<open>simp add: bitle_sync_ingest_def\<close>)
qed (use same in \<open>simp add: bitle_sync_ingest_def\<close>)

lemma ingest_inv:
  assumes "sync_inv st"
  shows "sync_inv (bitle_sync_ingest psa now p raw st)"
proof (cases rule: ingest_cases [of psa now p raw st])
  case same
  then show ?thesis using assms by simp
next
  case (stored owner i found)
  let ?v = "new_slot psa p owner (sy_ingest_seq st + 1) raw"
  have "slots_uniq ss_in_use ss_id ((sy_slots st)[i := ?v])"
    using assms ingest_scan_ids [OF stored(3)]
    by (intro slots_uniq_upd) (auto simp: sync_inv_def new_slot_def)
  moreover have "slots_uniq owned owner_key ((sy_slots st)[i := ?v])"
  proof (rule slots_uniq_upd)
    show u: "slots_uniq owned owner_key (sy_slots st)" using assms by (simp add: sync_inv_def)
    fix j assume j: "j < length (sy_slots st)" "j \<noteq> i" "owned (sy_slots st ! j)"
    show "owner_key (sy_slots st ! j) \<noteq> owner_key ?v"
    proof
      assume e: "owner_key (sy_slots st ! j) = owner_key ?v"
      have rt: "replace_type (pk_type p)" using e j(3) by (simp add: new_slot_def)
      from ingest_scan_found [OF stored(3)]
      show False
      proof
        assume "found = None \<and> (\<forall>s \<in> set (sy_slots st). ss_in_use s \<longrightarrow> replace_type (pk_type p) \<longrightarrow>
           owner_key s \<noteq> (pk_type p, owner))"
        then show False using j e rt by (auto simp: new_slot_def)
      next
        assume "\<exists>k < length (sy_slots st). found = Some (0 + k) \<and> owned (sy_slots st ! k) \<and>
          owner_key (sy_slots st ! k) = (pk_type p, owner) \<and> ss_timestamp_ms (sy_slots st ! k) < pk_timestamp_ms p"
        then obtain k where "k < length (sy_slots st)" "i = k" "owned (sy_slots st ! k)"
          "owner_key (sy_slots st ! k) = (pk_type p, owner)" using stored(4) by auto
        then show False using u j e by (auto simp: slots_uniq_nth new_slot_def)
      qed
    qed
  qed
  moreover have "list_all frame_ok ((sy_slots st)[i := ?v])"
    using assms stored(1)
    by (intro list_all_update) (auto simp: sync_inv_def frame_ok_def new_slot_def ingest_acceptable_def)
  ultimately show ?thesis using assms stored(5) by (simp add: sync_inv_def)
qed

lemma peer_victim_bound:
  "best < i + length ps \<Longrightarrow> peer_victim ps i best bl < i + length ps"
proof (induction ps arbitrary: i best bl)
  case (Cons p ps)
  show ?case using Cons.prems Cons.IH [of i "i + 1"] Cons.IH [of best "i + 1"] by simp
qed simp

lemma peer_state_of_spec:
  assumes "peer_state_of conn ps = (i, ps')" "ps \<noteq> []"
  shows "length ps' = length ps" "i < length ps" "ps_conn_handle (ps' ! i) = conn"
  using assms peer_victim_bound [of 0 0 ps "ps_last_request_ms (ps ! 0)"]
  by (auto simp: peer_state_of_def Let_def zero_peer_def find_index_Some split: option.splits)

lemma handle_request_state:
  "snd (bitle_sync_handle_request psa env now conn p later st) = st \<or>
   (\<exists>i peers ps. peer_state_of conn (sy_peers st) = (i, peers) \<and>
      snd (bitle_sync_handle_request psa env now conn p later st) = st \<lparr> sy_peers := peers[i := ps] \<rparr>)"
  by (auto simp: bitle_sync_handle_request_def Let_def split: option.splits prod.splits)

lemma handle_request_inv:
  assumes "sync_inv st"
  shows "sync_inv (snd (bitle_sync_handle_request psa env now conn p later st))"
proof -
  have "sy_peers st \<noteq> []" using assms by (auto simp: sync_inv_def)
  then show ?thesis
    using handle_request_state [of psa env now conn p later st] peer_state_of_spec(1) assms
    by (fastforce simp: sync_inv_def)
qed

lemma tick_inv:
  assumes "sync_inv st"
  shows "sync_inv (snd (bitle_sync_tick psa now conn ls up st))"
proof -
  have "sy_peers st \<noteq> []" using assms by (auto simp: sync_inv_def)
  then show ?thesis
    using peer_state_of_spec(1) [of conn "sy_peers st"] assms
    by (auto simp: sync_inv_def bitle_sync_tick_def split: prod.splits)
qed

inductive sync_reach :: "sync_state \<Rightarrow> bool" where
  init: "sync_reach bitle_sync_init"
| ingest: "sync_reach st \<Longrightarrow> sync_reach (bitle_sync_ingest psa now p raw st)"
| request: "sync_reach st \<Longrightarrow> sync_reach (snd (bitle_sync_handle_request psa env now conn p later st))"
| tick: "sync_reach st \<Longrightarrow> sync_reach (snd (bitle_sync_tick psa now conn (ls :: nat links) up st))"

lemma init_inv: "sync_inv bitle_sync_init"
  by (simp add: sync_inv_def bitle_sync_init_def slots_uniq_def zero_slot_def frame_ok_def list_all_iff)

lemma sync_reach_inv: "sync_reach st \<Longrightarrow> sync_inv st"
  by (induction rule: sync_reach.induct) (simp_all add: init_inv ingest_inv handle_request_inv tick_inv)

section \<open>Replays\<close>

lemma replay_frame_patch:
  assumes "replay_frame slots i = Some f"
  shows "f = set_ttl_rsr 0 True (ss_frame (slots ! i))" "ss_in_use (slots ! i)"
proof -
  have "b OR 0x10 = with_rsr b True" for b :: u8
    by (rule bit_eqI) (auto simp: with_rsr_def bit_simps)
  then show "f = set_ttl_rsr 0 True (ss_frame (slots ! i))" "ss_in_use (slots ! i)"
    using assms by (auto simp: replay_frame_def Let_def set_ttl_rsr_def split: if_split_asm)
qed

lemma handle_request_frames:
  assumes "bitle_sync_handle_request psa env now conn p later st = (frames, st')" "f \<in> set frames"
  shows "pk_ttl p = 0 \<and> (\<exists>key. spe_identity env conn = Some (key, True) \<and> spe_verify env p key) \<and>
    length frames \<le> MAX_REPLAY_PER_REQ \<and>
    (\<exists>k i. i < length (sy_slots st) \<and> ss_in_use (later k ! i) \<and>
       f = set_ttl_rsr 0 True (ss_frame (later k ! i)))"
proof -
  obtain key where key: "pk_ttl p = 0" "spe_identity env conn = Some (key, True)" "spe_verify env p key"
    and "\<exists>req bk. frames = replay_frames later (select_replays psa now req bk (sy_slots st))"
    using assms
    by (auto simp: bitle_sync_handle_request_def Let_def split: option.splits prod.splits if_split_asm)
  then obtain req bk where fr: "frames = replay_frames later (select_replays psa now req bk (sy_slots st))"
    by blast
  define sel where "sel = select_replays psa now req bk (sy_slots st)"
  have sel: "length sel \<le> MAX_REPLAY_PER_REQ" "\<And>i. i \<in> set sel \<Longrightarrow> i < length (sy_slots st)"
    by (auto simp: sel_def select_replays_def dest: in_set_takeD)
  have "length (replay_frames later xs) \<le> length xs" for xs
  proof -
    have "length (concat (map (\<lambda>(k, i). case replay_frame (later k) i of None \<Rightarrow> [] | Some f \<Rightarrow> [f]) ys))
       \<le> length ys" for ys
      by (induction ys) (auto split: option.split)
    from this [of "zip [0..<length xs] xs"] show ?thesis by (simp add: replay_frames_def)
  qed
  then have "length frames \<le> MAX_REPLAY_PER_REQ" using fr sel(1) by (metis sel_def order_trans)
  moreover obtain k i where "i \<in> set sel" "replay_frame (later k) i = Some f"
    using assms(2) fr
    by (auto simp: replay_frames_def sel_def split: option.splits dest!: set_zip_rightD) 
  ultimately show ?thesis using key sel(2) replay_frame_patch by blast
qed

section \<open>Quotas\<close>

lemma length_filter_update:
  "i < length xs \<Longrightarrow> \<not> P (xs ! i) \<Longrightarrow> P v \<Longrightarrow> length (filter P (xs[i := v])) = Suc (length (filter P xs))"
  by (induction xs arbitrary: i) (auto split: nat.splits)

text \<open>While any slot is free, a new announce is stored whatever the count of announces.\<close>

lemma quota_overrun:
  assumes fresh: "\<And>s. s \<in> set (sy_slots st) \<Longrightarrow> ss_in_use s \<Longrightarrow> slot_fresh s now"
    and free: "s0 \<in> set (sy_slots st)" "\<not> ss_in_use s0"
    and acc: "ingest_acceptable now p raw" "is_announce_type (pk_type p)"
    and new: "\<And>s. s \<in> set (sy_slots st) \<Longrightarrow> ss_in_use s \<Longrightarrow>
       ss_id s \<noteq> packet_id psa p \<and> ss_owner s \<noteq> pk_sender_id p"
  shows "type_count (sy_slots (bitle_sync_ingest psa now p raw st)) True False =
         Suc (type_count (sy_slots st) True False)"
proof -
  let ?slots = "sy_slots st"
  have own: "derive_owner psa p = Some (pk_sender_id p)" using acc by (simp add: derive_owner_def)
  have "ingest_scan (pk_type p) (packet_id psa p) (pk_sender_id p) ts ss i None = Some None"
    if "set ss \<subseteq> set ?slots" for ts ss i
    using that new by (induction ss arbitrary: i) auto
  then have scan: "ingest_scan (pk_type p) (packet_id psa p) (pk_sender_id p) (pk_timestamp_ms p) ?slots 0 None
    = Some None" by simp
  have "ingest_target (pk_type p) now ?slots \<noteq> None \<and>
     (\<forall>i. ingest_target (pk_type p) now ?slots = Some i \<longrightarrow> i < length ?slots \<and> \<not> ss_in_use (?slots ! i))"
    using free fresh
    by (auto simp: ingest_target_def evict_for_def Let_def find_index_None find_index_Some
        split: option.splits if_splits dest: nth_mem)
  then obtain i where i: "ingest_target (pk_type p) now ?slots = Some i" "i < length ?slots" "\<not> ss_in_use (?slots ! i)"
    by blast
  show ?thesis
    using acc own scan i
    by (auto simp: bitle_sync_ingest_def Let_def type_count_def intro!: length_filter_update)
qed

text \<open>And a store full of fresh announces does not take messages any more.\<close>

lemma announces_starve_messages:
  assumes full: "\<And>s. s \<in> set (sy_slots st) \<Longrightarrow> ss_in_use s \<and> slot_fresh s now \<and> is_announce_type (ss_type s)"
    and "pk_type p = BITCHAT_MSG_MESSAGE"
  shows "bitle_sync_ingest psa now p raw st = st"
proof -
  let ?slots = "sy_slots st"
  have "\<not> same_class (pk_type p) (ss_type s)" if "s \<in> set ?slots" for s
    using full [OF that] assms(2) by (auto simp: same_class_def is_announce_type_def msg_type_defs)
  then have "oldest_of_class (pk_type p) ss i None = None" if "set ss \<subseteq> set ?slots" for ss i
    using that by (induction ss arbitrary: i) auto
  then have ev: "evict_for (pk_type p) now ?slots = None"
    using full by (auto simp: evict_for_def find_index_None split: option.split dest: find_index_sat find_index_bound)
  have "find_index (\<lambda>s. \<not> ss_in_use s) ?slots = None" using full by (simp add: find_index_None)
  then have tgt: "ingest_target (pk_type p) now ?slots = None"
    using ev by (auto simp: ingest_target_def Let_def)
  show ?thesis
  proof (cases rule: ingest_cases [of psa now p raw st])
    case (stored owner i found)
    then show ?thesis using ingest_scan_found [OF stored(3)] tgt assms(2)
      by (auto simp: replace_type_def is_announce_type_def msg_type_defs)
  qed
qed


section \<open>Rate limit\<close>

text \<open>The number of requests of one peer that pass the limiter, for the times of its requests.\<close>

fun rate_run :: "u64 list \<Rightarrow> peer_state \<Rightarrow> nat" where
  "rate_run [] ps = 0"
| "rate_run (t # ts) ps =
     (case rate_admit t ps of (adm, ps') \<Rightarrow> (if adm then 1 else 0) + rate_run ts ps')"

lemma rate_admit_no_restart:
  assumes "t - ps_window_start_ms ps \<le> RATE_WINDOW_MS" "rate_admit t ps = (adm, ps')"
  shows "ps_window_start_ms ps' = ps_window_start_ms ps"
    "(if adm then 1 else 0) + (8 - unat (ps_count ps')) \<le> 8 - unat (ps_count ps)"
proof -
  have "unat (c + 1) = unat c + 1" if "\<not> c \<ge> RATE_MAX_RESPONSES" for c
    using that by (subst unat_plus_if') (auto simp: RATE_MAX_RESPONSES_def word_le_nat_alt)
  then show "ps_window_start_ms ps' = ps_window_start_ms ps"
    "(if adm then 1 else 0) + (8 - unat (ps_count ps')) \<le> 8 - unat (ps_count ps)"
    using assms(2) leD [OF assms(1)]
    by (auto simp: rate_admit_def Let_def RATE_MAX_RESPONSES_def word_le_nat_alt split: if_split_asm)
qed

lemma rate_run_window:
  assumes "\<forall>t \<in> set ts. t - ps_window_start_ms ps \<le> RATE_WINDOW_MS"
  shows "rate_run ts ps \<le> 8 - unat (ps_count ps)"
  using assms
proof (induction ts arbitrary: ps)
  case (Cons t ts)
  obtain adm ps' where a: "rate_admit t ps = (adm, ps')" by fastforce
  note r = rate_admit_no_restart [OF _ a]
  have "rate_run ts ps' \<le> 8 - unat (ps_count ps')"
    using Cons r(1) by simp
  then show ?case using r(2) Cons.prems by (simp add: a)
qed simp

lemma rate_admit_restart:
  assumes "\<not> t - ps_window_start_ms ps \<le> RATE_WINDOW_MS" "rate_admit t ps = (adm, ps')"
  shows "adm \<and> ps_window_start_ms ps' = t \<and> ps_count ps' = 1"
  using assms by (auto simp: rate_admit_def Let_def RATE_MAX_RESPONSES_def not_le)

lemma rate_run_sliding:
  assumes "sorted ts" "\<forall>t \<in> set ts. a \<le> t \<and> t \<le> b" "b - a \<le> RATE_WINDOW_MS"
  shows "rate_run ts ps \<le> (8 - unat (ps_count ps)) + 8"
  using assms
proof (induction ts arbitrary: ps)
  case (Cons t ts)
  obtain adm ps' where a: "rate_admit t ps = (adm, ps')" by fastforce
  show ?case
  proof (cases "t - ps_window_start_ms ps \<le> RATE_WINDOW_MS")
    case True
    have "rate_run ts ps' \<le> (8 - unat (ps_count ps')) + 8" using Cons by simp
    then show ?thesis using rate_admit_no_restart(2) [OF True a] by (simp add: a)
  next
    case False
    note r = rate_admit_restart [OF False a]
    have "t' - t \<le> RATE_WINDOW_MS" if "t' \<in> set ts" for t'
    proof -
      have "unat t \<le> unat t'" "unat a \<le> unat t" "unat t' \<le> unat b"
        using Cons.prems that by (auto simp: word_le_nat_alt)
      moreover have "unat (t' - t) = unat t' - unat t" "unat (b - a) = unat b - unat a"
        using calculation by (auto simp: unat_sub_if')
      ultimately show ?thesis using Cons.prems(3) by (simp add: word_le_nat_alt)
    qed
    then have "rate_run ts ps' \<le> 7" using rate_run_window [of ts ps'] r by simp
    then show ?thesis using r by (simp add: a)
  qed
qed simp

section \<open>Properties\<close>

text \<open>A small store and a concrete hash, to exhibit the properties on.\<close>

definition demo_psa :: psa_hash where
  "demo_psa m = Some (take 32 (m @ replicate 32 0))"

definition demo_slot :: "u8 \<Rightarrow> u8 \<Rightarrow> sync_slot" where
  "demo_slot t n = \<lparr> ss_in_use = True, ss_type = t, ss_id = n # replicate 15 0, ss_timestamp_ms = 1000,
     ss_ingest_seq = ucast n, ss_owner = replicate 8 n, ss_frame = vector_v1_message \<rparr>"

lemma slot_stale_later:
  assumes "\<not> slot_fresh s now" "now \<le> now'" "ss_type s' = ss_type s" "ss_timestamp_ms s' = ss_timestamp_ms s"
  shows "\<not> slot_fresh s' now'"
proof -
  let ?w = "type_window_ms (ss_type s)"
  have w: "?w \<le> now" "ss_timestamp_ms s < now - ?w" using assms(1) by (auto simp: slot_fresh_def Let_def not_less not_le)
  then have "?w \<le> now'" using assms(2) by simp
  moreover have "now - ?w \<le> now' - ?w"
    using w(1) assms(2) \<open>?w \<le> now'\<close> by (simp add: word_le_nat_alt unat_sub)
  ultimately show ?thesis using w(2) assms(3,4) by (auto simp: slot_fresh_def Let_def)
qed

text \<open>
  C3: A gossip request does not fetch what the node has. Whatever a node stores, its peer parses the
  request, and the filter fits. Of a stored packet of a requested type that is within its freshness window, and so
  counted in the filter, the peer selects no copy for replay, whatever its own store and clock. Of a stored packet that
  is too old for the filter, or of a type that is not requested, a peer whose clock is not behind selects no copy either: it
  holds the packet with the same identifier, type and timestamp and finds it stale or not requested.
\<close>

theorem sync_no_redundant_replay:
  assumes "length slots \<le> BITLE_SYNC_SLOTS"
  shows "\<exists>req. parse_request (request_payload psa now slots) = Some req \<and> length (rq_filter req) \<le> GCS_MAX_BYTES \<and>
    (\<forall>s \<in> set slots. ss_in_use s \<longrightarrow> (\<forall>now' slots'. \<forall>i \<in> set (select_replays psa now' req
        (gcs_decode (rq_filter req) (rq_p req) (rq_m req) (GCS_MAX_ELEMENTS + 8)) slots').
       (type_requested (ss_type s) own_flags \<and> slot_fresh s now \<longrightarrow> ss_id (slots' ! i) \<noteq> ss_id s) \<and>
       (now \<le> now' \<longrightarrow> \<not> (ss_id (slots' ! i) = ss_id s \<and> ss_type (slots' ! i) = ss_type s \<and>
          ss_timestamp_ms (slots' ! i) = ss_timestamp_ms s))))"
proof -
  obtain m bs where c: "collect_buckets psa own_flags now BITLE_SYNC_SLOTS slots = (m, bs)"
    by fastforce
  let ?flt = "if bs \<noteq> [] then gcs_encode bs GCS_P GCS_MAX_BYTES else []"
  let ?req = "own_request m ?flt"
  let ?bs = "gcs_decode (rq_filter ?req) (rq_p ?req) (rq_m ?req) (GCS_MAX_ELEMENTS + 8)"
  have fresh: "\<not> wants_slot psa now' ?req ?bs s'"
    if s: "s \<in> set slots" "ss_in_use s" "type_requested (ss_type s) own_flags" "slot_fresh s now" "ss_id s' = ss_id s" for s s' now'
  proof -
    let ?ids = "collect_ids own_flags now BITLE_SYNC_SLOTS slots"
    have "length (filter P slots) \<le> BITLE_SYNC_SLOTS" for P
      using assms length_filter_le [of P slots] by (rule order_trans [rotated])
    then have ids: "ss_id s \<in> set ?ids" using s by (auto simp: collect_ids_def)
    then have ne: "length ?ids \<noteq> 0" by auto
    have cap: "BITLE_SYNC_SLOTS \<le> 80" by (simp add: BITLE_SYNC_SLOTS_def)
    note sp = collect_buckets_spec [OF c cap refl ne]
    have bs: "bs \<noteq> []" "gcs_bucket psa (ss_id s) m \<in> set bs" using sp(4) ids by auto
    have "?bs = bs" using own_filter_decodes [OF c cap bs(1)] bs(1) by (simp add: own_request_def)
    then show ?thesis using s(5) bs sp(2,3) by (simp add: wants_slot_def own_request_def sorted_contains_iff)
  qed
  have wt: "wants_slot psa now' ?req b s' \<longrightarrow> type_requested (ss_type s') own_flags \<and> slot_fresh s' now'" for now' b s'
    by (simp add: wants_slot_def own_request_def)
  have old: "\<not> wants_slot psa now' ?req ?bs s'"
    if "s \<in> set slots" "ss_in_use s" "now \<le> now'" "ss_id s' = ss_id s" "ss_type s' = ss_type s" "ss_timestamp_ms s' = ss_timestamp_ms s" for s s' now'
    using fresh [OF that(1,2) _ _ that(4), of now'] slot_stale_later [OF _ that(3,5,6)] wt [of now' ?bs s'] that(5) by argo
  have "wants_slot psa now' ?req ?bs (slots' ! i)" if "i \<in> set (select_replays psa now' ?req ?bs slots')" for now' slots' i
    using that by (auto simp: select_replays_def dest!: in_set_takeD)
  then have sel: "\<forall>s \<in> set slots. ss_in_use s \<longrightarrow> (\<forall>now' slots'. \<forall>i \<in> set (select_replays psa now' ?req ?bs slots').
       (type_requested (ss_type s) own_flags \<and> slot_fresh s now \<longrightarrow> ss_id (slots' ! i) \<noteq> ss_id s) \<and>
       (now \<le> now' \<longrightarrow> \<not> (ss_id (slots' ! i) = ss_id s \<and> ss_type (slots' ! i) = ss_type s \<and> ss_timestamp_ms (slots' ! i) = ss_timestamp_ms s)))"
    using fresh old by blast
  have "length (rq_filter ?req) \<le> GCS_MAX_BYTES" using length_gcs_encode [of bs GCS_P GCS_MAX_BYTES] by (simp add: own_request_def)
  then show ?thesis using sel parse_own_request [OF c refl] by blast
qed

theorem sync_no_redundant_replay_witness:
  "\<exists>req. parse_request (request_payload demo_psa 2000 [demo_slot 2 7]) = Some req \<and>
     select_replays demo_psa 2000 req (gcs_decode (rq_filter req) (rq_p req) (rq_m req) (GCS_MAX_ELEMENTS + 8)) [demo_slot 2 7] = []"
proof -
  have "length [demo_slot 2 7] \<le> BITLE_SYNC_SLOTS" "demo_slot 2 7 \<in> set [demo_slot 2 7]" "ss_in_use (demo_slot 2 7)"
    "type_requested (ss_type (demo_slot 2 7)) own_flags" "slot_fresh (demo_slot 2 7) 2000"
    by (simp_all add: BITLE_SYNC_SLOTS_def demo_slot_def type_requested_def msg_type_defs own_flags_def
      FLAG_ANNOUNCE_def FLAG_MESSAGE_def FLAG_PREKEY_def FLAG_GROUP_def slot_fresh_def
      type_window_ms_def WINDOW_MESSAGE_MS_def)
  note s = this
  obtain req where r: "parse_request (request_payload demo_psa 2000 [demo_slot 2 7]) = Some req"
    "\<And>i. i \<in> set (select_replays demo_psa 2000 req (gcs_decode (rq_filter req) (rq_p req) (rq_m req) (GCS_MAX_ELEMENTS + 8)) [demo_slot 2 7]) \<Longrightarrow>
      ss_id ([demo_slot 2 7] ! i) \<noteq> ss_id (demo_slot 2 7)"
    using sync_no_redundant_replay [OF s(1), of demo_psa 2000] s(2-5) by blast
  have "set (select_replays demo_psa 2000 req b [demo_slot 2 7]) \<subseteq> {0}" for b by (auto simp: select_replays_def dest!: in_set_takeD)
  then have "i \<notin> set (select_replays demo_psa 2000 req (gcs_decode (rq_filter req) (rq_p req) (rq_m req) (GCS_MAX_ELEMENTS + 8)) [demo_slot 2 7])" for i
    using r(2) [of i] by fastforce
  then have "select_replays demo_psa 2000 req (gcs_decode (rq_filter req) (rq_p req) (rq_m req) (GCS_MAX_ELEMENTS + 8)) [demo_slot 2 7] = []"
    by (metis list.set_intros(1) neq_Nil_conv)
  then show ?thesis using r(1) by blast
qed

text \<open>
  C31: In every reachable state the store has 80 slots, no packet id is stored twice, at most one
  announce, capability or prekey bundle per owner and type is kept, and every stored frame is
  non-empty and fits its slot.
\<close>

theorem sync_store_invariant:
  assumes "sync_reach st"
  shows "length (sy_slots st) = 80 \<and> slots_uniq ss_in_use ss_id (sy_slots st) \<and>
    slots_uniq owned owner_key (sy_slots st) \<and>
    (\<forall>s \<in> set (sy_slots st). ss_in_use s \<longrightarrow> ss_frame s \<noteq> [] \<and> length (ss_frame s) \<le> 524)"
  using sync_reach_inv [OF assms]
  by (auto simp: sync_inv_def BITLE_SYNC_SLOTS_def list_all_iff frame_ok_def BITLE_SYNC_FRAME_MAX_def)

theorem sync_store_invariant_witness:
  "length (sy_slots (bitle_sync_ingest demo_psa 5 self_test_packet [1, 2] bitle_sync_init)) = 80"
  using sync_store_invariant [OF sync_reach.ingest [OF sync_reach.init]] by blast

text \<open>
  C29: A node replays only to a peer whose identity is verified and whose request is link-local
  (TTL 0) and correctly signed, at most 40 frames per request; each frame is a stored frame with
  TTL 0 and the RSR flag, and has the same relay fingerprint as the packet it replays, so the
  peer's deduplication recognises it.
\<close>

theorem sync_replay_authentic:
  assumes "bitle_sync_handle_request psa env now conn p later st = (frames, st')" "f \<in> set frames"
    and "\<And>k s. s \<in> set (later k) \<Longrightarrow> ss_in_use s \<Longrightarrow> \<exists>q. bitchat_packet_decode cenv (ss_frame s) = Some q"
    and "\<And>k. length (later k) = length (sy_slots st)"
  shows "pk_ttl p = 0 \<and> (\<exists>key. spe_identity env conn = Some (key, True) \<and> spe_verify env p key) \<and>
    length frames \<le> 40 \<and>
    (\<exists>k. \<exists>s \<in> set (later k). f = set_ttl_rsr 0 True (ss_frame s) \<and>
       bitchat_relay_fingerprint psa f = bitchat_relay_fingerprint psa (ss_frame s))"
proof -
  note h = handle_request_frames [OF assms(1,2)]
  obtain k i where ki: "i < length (sy_slots st)" "ss_in_use (later k ! i)"
    "f = set_ttl_rsr 0 True (ss_frame (later k ! i))" using h by blast
  let ?s = "later k ! i"
  have s: "?s \<in> set (later k)" using ki(1) assms(4) [of k] by simp
  obtain q where q: "bitchat_packet_decode cenv (ss_frame ?s) = Some q" using assms(3) [OF s ki(2)] by blast
  have "relay_wire_len (ss_frame ?s) \<le> length (ss_frame ?s)"
    using decode_wire_opt [OF q] by (auto dest: relay_wire_opt_bounds simp: relay_wire_len_def)
  from fingerprint_hop [OF q this, of psa 0 True]
  show ?thesis using h s ki(3) by (auto simp: MAX_REPLAY_PER_REQ_def)
qed


definition demo_request :: packet where
  "demo_request = zero_packet \<lparr> pk_type := 0x21,
     pk_payload := Some (tlv16 0x01 [7] @ tlv16 0x02 [0, 0, 0, 1] @ tlv16 0x03 [] @ []) \<rparr>"

definition demo_env :: sync_peer_env where
  "demo_env = \<lparr> spe_identity = (\<lambda>conn. Some ([1], True)), spe_verify = (\<lambda>p key. True) \<rparr>"

definition demo_state :: sync_state where
  "demo_state = bitle_sync_init \<lparr> sy_slots := [demo_slot 2 7],
     sy_peers := [zero_peer \<lparr> ps_conn_handle := 9 \<rparr>] \<rparr>"

lemma demo_parse: "parse_request (tlv16 0x01 [7] @ tlv16 0x02 [0, 0, 0, 1] @ tlv16 0x03 [] @ []) =
   Some (empty_request \<lparr> rq_p := 7, rq_m := 1, rq_have_m := True, rq_have_data := True, rq_type_flags := 3 \<rparr>)"
  unfolding parse_request_def
  by (simp add: request_fields_step request_field_def request_fields_Nil empty_request_def be_val_def
      GCS_MAX_ACCEPT_def FLAG_ANNOUNCE_def FLAG_MESSAGE_def del: append_Nil2)

lemma demo_replay:
  "set_ttl_rsr 0 True vector_v1_message \<in>
     set (fst (bitle_sync_handle_request demo_psa demo_env 2000 9 demo_request (\<lambda>k. [demo_slot 2 7]) demo_state))"
proof -
  have "replay_frame [demo_slot 2 7] 0 = Some (set_ttl_rsr 0 True vector_v1_message)"
    by (simp add: replay_frame_def demo_slot_def set_ttl_rsr_def with_rsr_def vector_v1_message_def)
  then show ?thesis
    by (simp add: bitle_sync_handle_request_def demo_request_def demo_env_def demo_state_def zero_packet_def
      bitle_sync_init_def peer_state_of_def zero_peer_def rate_admit_def RATE_MAX_RESPONSES_def RATE_WINDOW_MS_def
      demo_parse select_replays_def wants_slot_def demo_slot_def replay_frames_def
      MAX_REPLAY_PER_REQ_def type_requested_def msg_type_defs empty_request_def FLAG_MESSAGE_def
      slot_fresh_def type_window_ms_def WINDOW_MESSAGE_MS_def Let_def del: append_Nil2)
qed


theorem sync_replay_authentic_witness:
  "\<exists>frames st'. bitle_sync_handle_request demo_psa demo_env 2000 9 demo_request (\<lambda>k. [demo_slot 2 7]) demo_state
     = (frames, st') \<and> length frames \<le> 40"
proof -
  obtain frames st' where r: "bitle_sync_handle_request demo_psa demo_env 2000 9 demo_request
      (\<lambda>k. [demo_slot 2 7]) demo_state = (frames, st')" by fastforce
  have f: "set_ttl_rsr 0 True vector_v1_message \<in> set frames" using demo_replay by (simp add: r)
  have "length frames \<le> 40"
    using sync_replay_authentic [OF r f, of stored_env] vector_v1_message_decodes
    by (simp add: demo_slot_def demo_state_def)
  then show ?thesis using r by blast
qed

text \<open>
  A peer cannot make the node verify more than 16 signatures within any 30 seconds (8 per
  rate window), however fast it sends requests.
\<close>

lemma sync_rate_limit:
  assumes "sorted ts" "\<forall>t \<in> set ts. a \<le> t \<and> t \<le> b" "b - a \<le> 30000"
  shows "rate_run ts ps \<le> 16"
  using rate_run_sliding [of ts a b ps] assms by (simp add: RATE_WINDOW_MS_def)

text \<open>
  The per-type quotas are not hard: as long as a slot is free, a new announce is stored also
  when 24 or more announces are stored already, so their number exceeds
  \<open>BITLE_SYNC_QUOTA_ANNOUNCE\<close>.
\<close>

lemma sync_quota_not_hard:
  assumes "\<And>s. s \<in> set (sy_slots st) \<Longrightarrow> ss_in_use s \<Longrightarrow> slot_fresh s now"
    and "s0 \<in> set (sy_slots st)" "\<not> ss_in_use s0"
    and "ingest_acceptable now p raw" "is_announce_type (pk_type p)"
    and "\<And>s. s \<in> set (sy_slots st) \<Longrightarrow> ss_in_use s \<Longrightarrow>
       ss_id s \<noteq> packet_id psa p \<and> ss_owner s \<noteq> pk_sender_id p"
    and "type_count (sy_slots st) True False \<ge> BITLE_SYNC_QUOTA_ANNOUNCE"
  shows "type_count (sy_slots (bitle_sync_ingest psa now p raw st)) True False > BITLE_SYNC_QUOTA_ANNOUNCE"
  using quota_overrun [of st now s0 p raw psa] assms by simp

definition demo_announce :: packet where
  "demo_announce = vector_v1_packet \<lparr> pk_type := 1, pk_has_signature := True,
     pk_sender_id := replicate 8 99, pk_timestamp_ms := 1500 \<rparr>"

end
