(* ===== verification/Mesh_Core.thy ===== *)
theory Mesh_Core
  imports Clock Gossip_Sync
begin

text \<open>
  The transport-agnostic mesh core (\<open>main/bitle_mesh.c\<close>): duplicate suppression by a ring of
  fingerprints, fragment reassembly, local dispatch and TTL relay. The inbound path of a node is
  one function on the record \<open>node\<close>, which also holds the clock and the gossip store the path
  updates; the whole path runs under one mutex, so inbound packets of several tasks are a sequence.
  What the path hands to other modules (the Noise worker's queue, the OTA handler, the link
  registry's broadcast) is its output, a list of \<open>mesh_out\<close>.
\<close>

section \<open>State\<close>

definition FRAG_SLOTS :: nat where "FRAG_SLOTS = 2"
definition FRAG_MAX_PARTS :: nat where "FRAG_MAX_PARTS = 4"
definition FRAG_PART_MAX :: nat where "FRAG_PART_MAX = 501"
definition FRAG_TIMEOUT_MS :: u64 where "FRAG_TIMEOUT_MS = 15000"
definition RELAY_CACHE_SIZE :: nat where "RELAY_CACHE_SIZE = 64"
definition BITLE_ORIGIN_TTL :: u8 where "BITLE_ORIGIN_TTL = 7"

text \<open>A part and its length are one list; \<open>part_len\<close> is its length.\<close>

record frag_slot =
  fs_in_use :: bool
  fs_frag_id :: u64
  fs_sender :: bytes
  fs_total :: u16
  fs_have_mask :: u32
  fs_started_ms :: u64
  fs_parts :: "bytes list"

record seen_ring =
  sr_seen :: "u64 list"
  sr_used :: "bool list"
  sr_next :: nat

record node =
  nd_frags :: "frag_slot list"
  nd_ring :: seen_ring
  nd_clock :: clock
  nd_sync :: sync_state

datatype mesh_out =
    Noise_Announce u16 packet
  | Noise_Handshake u16 packet
  | Noise_Encrypted u16 packet
  | Noise_Identity u16 packet
  | Noise_Public_Message u16 packet
  | Ota_Packet u16 packet
  | Noise_Courier u16 packet
  | Noise_Request_Sync u16 packet
  | Broadcast u16 bytes

record mesh_env =
  me_codec :: codec_env
  me_psa :: psa_hash
  me_local_id :: bytes
  me_nvs :: nvs_io

definition zero_frag :: frag_slot where
  "zero_frag = \<lparr> fs_in_use = False, fs_frag_id = 0, fs_sender = replicate 8 0, fs_total = 0,
     fs_have_mask = 0, fs_started_ms = 0, fs_parts = replicate FRAG_MAX_PARTS [] \<rparr>"

definition empty_ring :: seen_ring where
  "empty_ring = \<lparr> sr_seen = replicate RELAY_CACHE_SIZE 0, sr_used = replicate RELAY_CACHE_SIZE False,
     sr_next = 0 \<rparr>"

definition mesh_boot :: "clock \<Rightarrow> node" where
  "mesh_boot c = \<lparr> nd_frags = replicate FRAG_SLOTS zero_frag, nd_ring = empty_ring, nd_clock = c,
     nd_sync = bitle_sync_init \<rparr>"

section \<open>Duplicate suppression\<close>

definition relay_fingerprint :: "psa_hash \<Rightarrow> bytes \<Rightarrow> u64" where
  "relay_fingerprint psa data =
     (case bitchat_relay_fingerprint psa data of
        None \<Rightarrow> 0
      | Some digest \<Rightarrow> be_val (take 8 digest))"

definition relay_seen_before :: "u64 \<Rightarrow> seen_ring \<Rightarrow> bool \<times> seen_ring" where
  "relay_seen_before fp r =
     (if \<exists>i < length (sr_seen r). sr_used r ! i \<and> sr_seen r ! i = fp then (True, r)
      else (False, r \<lparr> sr_seen := (sr_seen r)[sr_next r := fp],
                       sr_used := (sr_used r)[sr_next r := True],
                       sr_next := (sr_next r + 1) mod RELAY_CACHE_SIZE \<rparr>))"

section \<open>Recipients\<close>

definition is_broadcast_recipient :: "packet \<Rightarrow> bool" where
  "is_broadcast_recipient p \<longleftrightarrow> \<not> pk_has_recipient p \<or> list_all (\<lambda>b. b = 0xFF) (pk_recipient_id p)"

definition is_local_recipient :: "mesh_env \<Rightarrow> packet \<Rightarrow> bool" where
  "is_local_recipient env p \<longleftrightarrow> pk_has_recipient p \<and> pk_recipient_id p = me_local_id env"

section \<open>Fragment reassembly\<close>

text \<open>
  The scan of the slots: expired ones are freed; it yields the slot of this fragment id and sender,
  the first free slot, and the slot with the oldest start time.
\<close>

fun frag_scan ::
  "u64 \<Rightarrow> bytes \<Rightarrow> u64 \<Rightarrow> frag_slot list \<Rightarrow> nat \<Rightarrow> nat option \<Rightarrow> nat option \<Rightarrow> nat \<Rightarrow> u64 \<Rightarrow>
   frag_slot list \<times> nat option \<times> nat option \<times> nat" where
  "frag_scan frag_id sender now [] i slot free oldest oldest_ms = ([], slot, free, oldest)"
| "frag_scan frag_id sender now (s # ss) i slot free oldest oldest_ms =
     (let s' = (if fs_in_use s \<and> now - fs_started_ms s > FRAG_TIMEOUT_MS
                then s \<lparr> fs_in_use := False \<rparr> else s);
          match = (fs_in_use s' \<and> fs_frag_id s' = frag_id \<and> fs_sender s' = sender);
          slot' = (if match then Some i else slot);
          free' = (if \<not> match \<and> \<not> fs_in_use s' \<and> free = None then Some i else free);
          (oldest', oldest_ms') =
             (if fs_started_ms s' < oldest_ms then (i, fs_started_ms s') else (oldest, oldest_ms))
      in case frag_scan frag_id sender now ss (i + 1) slot' free' oldest' oldest_ms' of
           (ss', r) \<Rightarrow> (s' # ss', r))"

text \<open>Storing one chunk in its slot.\<close>

definition frag_put :: "nat \<Rightarrow> bytes \<Rightarrow> frag_slot \<Rightarrow> frag_slot" where
  "frag_put index chunk s =
     s \<lparr> fs_parts := (fs_parts s)[index := chunk],
         fs_have_mask := fs_have_mask s OR push_bit index 1 \<rparr>"

definition frag_complete :: "u16 \<Rightarrow> frag_slot \<Rightarrow> bool" where
  "frag_complete tot s \<longleftrightarrow>
     (let want_mask = push_bit (unat tot) (1 :: u32) - 1 in fs_have_mask s AND want_mask = want_mask)"

definition frag_assemble :: "u16 \<Rightarrow> frag_slot \<Rightarrow> bytes" where
  "frag_assemble tot s = concat (map (\<lambda>i. fs_parts s ! i) [0..<unat tot])"

definition frag_header :: "packet \<Rightarrow> (u64 \<times> nat \<times> u16 \<times> bytes) option" where
  "frag_header p =
     (case pk_payload p of
        None \<Rightarrow> None
      | Some d \<Rightarrow>
          if pk_payload_len p < 13 then None
          else let frag_id = be_val (take 8 d);
                   index = unat (be_val (bslice 8 2 d) :: u16);
                   tot = be_val (bslice 10 2 d);
                   chunk = drop 13 d
               in if tot = 0 \<or> index \<ge> unat tot \<or> chunk = [] then None
                  else if unat tot > FRAG_MAX_PARTS \<or> length chunk > FRAG_PART_MAX then None
                  else Some (frag_id, index, tot, chunk))"

text \<open>The slot a fragment goes to, created if there is none, and the table with it.\<close>

definition frag_slot_for ::
  "u64 \<Rightarrow> bytes \<Rightarrow> u16 \<Rightarrow> u64 \<Rightarrow> frag_slot list \<Rightarrow> nat \<times> frag_slot list" where
  "frag_slot_for frag_id sender tot now slots =
     (case frag_scan frag_id sender now slots 0 None None 0 (fs_started_ms (slots ! 0)) of
        (slots1, slot, free, oldest) \<Rightarrow>
          (case slot of
             Some i \<Rightarrow> (i, slots1)
           | None \<Rightarrow>
               let i = (case free of Some f \<Rightarrow> f | None \<Rightarrow> oldest)
               in (i, slots1[i := zero_frag \<lparr> fs_in_use := True, fs_frag_id := frag_id,
                                   fs_sender := sender, fs_total := tot,
                                   fs_started_ms := now \<rparr>])))"

text \<open>
  \<open>handle_fragment\<close> up to the decoding of the reassembled packet: the new slots, and the bytes
  once the packet is complete.
\<close>

definition frag_store ::
  "u64 \<Rightarrow> bytes \<Rightarrow> u16 \<Rightarrow> nat \<Rightarrow> bytes \<Rightarrow> u64 \<Rightarrow> frag_slot list \<Rightarrow> frag_slot list \<times> bytes option" where
  "frag_store frag_id sender tot index chunk now slots =
     (case frag_slot_for frag_id sender tot now slots of
        (i, slots1) \<Rightarrow>
          if fs_total (slots1 ! i) \<noteq> tot then (slots1, None)
          else let s = frag_put index chunk (slots1 ! i)
               in if \<not> frag_complete tot s then (slots1[i := s], None)
                  else (slots1[i := s \<lparr> fs_in_use := False \<rparr>], Some (frag_assemble tot s)))"

definition frag_accept :: "u64 \<Rightarrow> packet \<Rightarrow> frag_slot list \<Rightarrow> frag_slot list \<times> bytes option" where
  "frag_accept now p slots =
     (case frag_header p of
        None \<Rightarrow> (slots, None)
      | Some (frag_id, index, tot, chunk) \<Rightarrow> frag_store frag_id (pk_sender_id p) tot index chunk now slots)"

section \<open>Dispatch\<close>

text \<open>
  \<open>dispatch_with frag\<close> is \<open>dispatch_packet\<close> with \<open>frag\<close> called for a fragment. A reassembled
  packet is dispatched again only when it is not itself a fragment, so the inner dispatch needs
  no fragment handler. \<open>mt\<close> is the monotonic time in milliseconds.
\<close>

definition dispatch_with ::
  "(u16 \<Rightarrow> packet \<Rightarrow> node \<Rightarrow> mesh_out list \<times> node) \<Rightarrow>
   mesh_env \<Rightarrow> u64 \<Rightarrow> u16 \<Rightarrow> packet \<Rightarrow> node \<Rightarrow> mesh_out list \<times> node" where
  "dispatch_with frag env mt link p st =
     (if pk_opaque_only p then ([], st)
      else
        let st1 = (if pk_ttl p = BITLE_ORIGIN_TTL \<and> pk_type p \<noteq> BITCHAT_MSG_ANNOUNCE
                   then st \<lparr> nd_clock := bitchat_time_consider_peer (me_nvs env) mt mt
                                          (pk_timestamp_ms p) (nd_clock st) \<rparr>
                   else st)
        in if pk_is_compressed p then ([], st1)
           else if \<not> is_broadcast_recipient p \<and> \<not> is_local_recipient env p then ([], st1)
           else if pk_type p = BITCHAT_MSG_ANNOUNCE then ([Noise_Announce link p], st1)
           else if pk_type p = BITCHAT_MSG_NOISE_HANDSHAKE then ([Noise_Handshake link p], st1)
           else if pk_type p = BITCHAT_MSG_NOISE_ENCRYPTED then ([Noise_Encrypted link p], st1)
           else if pk_type p = BITCHAT_MSG_NOISE_IDENTITY_ANNOUNCE then ([Noise_Identity link p], st1)
           else if pk_type p = BITCHAT_MSG_MESSAGE then ([Noise_Public_Message link p], st1)
           else if pk_type p = BITCHAT_MSG_FRAGMENT then frag link p st1
           else if pk_type p = BITLE_MSG_OTA_MANIFEST \<or> pk_type p = BITLE_MSG_OTA_REQ \<or>
                   pk_type p = BITLE_MSG_OTA_CHUNK \<or> pk_type p = BITLE_MSG_OTA_STATUS
                then ([Ota_Packet link p], st1)
           else if pk_type p = BITCHAT_MSG_COURIER_ENVELOPE then
             (if is_local_recipient env p then ([Noise_Courier link p], st1) else ([], st1))
           else if pk_type p = BITCHAT_MSG_REQUEST_SYNC then ([Noise_Request_Sync link p], st1)
           else ([], st1))"

definition handle_fragment ::
  "mesh_env \<Rightarrow> u64 \<Rightarrow> u16 \<Rightarrow> packet \<Rightarrow> node \<Rightarrow> mesh_out list \<times> node" where
  "handle_fragment env mt link p st =
     (case frag_accept mt p (nd_frags st) of
        (frags, None) \<Rightarrow> ([], st \<lparr> nd_frags := frags \<rparr>)
      | (frags, Some reassembled) \<Rightarrow>
          let st1 = st \<lparr> nd_frags := frags \<rparr> in
          (case bitchat_packet_decode (me_codec env) reassembled of
             None \<Rightarrow> ([], st1)
           | Some inner \<Rightarrow>
               (case relay_seen_before (relay_fingerprint (me_psa env) reassembled) (nd_ring st1) of
                  (seen, ring) \<Rightarrow>
                    let st2 = st1 \<lparr> nd_ring := ring \<rparr> in
                    if seen then ([], st2)
                    else if pk_type inner \<noteq> BITCHAT_MSG_FRAGMENT
                    then dispatch_with (\<lambda>l q s. ([], s)) env mt link inner st2
                    else ([], st2))))"

definition dispatch_packet ::
  "mesh_env \<Rightarrow> u64 \<Rightarrow> u16 \<Rightarrow> packet \<Rightarrow> node \<Rightarrow> mesh_out list \<times> node" where
  "dispatch_packet env mt = dispatch_with (handle_fragment env mt) env mt"

section \<open>Relay and the inbound path\<close>

definition relay_packet :: "mesh_env \<Rightarrow> u16 \<Rightarrow> bytes \<Rightarrow> packet \<Rightarrow> mesh_out list" where
  "relay_packet env src buffer p =
     (if pk_ttl p \<le> 1 then []
      else if pk_sender_id p = me_local_id env then []
      else if pk_type p = BITCHAT_MSG_REQUEST_SYNC then []
      else if is_local_recipient env p then []
      else if \<not> pk_has_recipient p \<and> pk_type p = BITCHAT_MSG_NOISE_HANDSHAKE then []
      else [Broadcast src (buffer[2 := pk_ttl p - 1])])"

definition bitle_mesh_inbound ::
  "mesh_env \<Rightarrow> u64 \<Rightarrow> u16 \<Rightarrow> bytes \<Rightarrow> node \<Rightarrow> bool \<times> mesh_out list \<times> node" where
  "bitle_mesh_inbound env mt link buffer st =
     (case bitchat_packet_decode (me_codec env) buffer of
        None \<Rightarrow> (False, [], st)
      | Some p \<Rightarrow>
          (case relay_seen_before (relay_fingerprint (me_psa env) buffer) (nd_ring st) of
             (seen, ring) \<Rightarrow>
               let st1 = st \<lparr> nd_ring := ring \<rparr> in
               if seen then (True, [], st1)
               else
                 (case dispatch_packet env mt link p st1 of
                    (outs, st2) \<Rightarrow>
                      let st3 = (if \<not> pk_is_compressed p \<and> \<not> pk_opaque_only p
                                 then st2 \<lparr> nd_sync := bitle_sync_ingest (me_psa env)
                                        (bitchat_time_now_ms mt (nd_clock st2)) p buffer (nd_sync st2) \<rparr>
                                 else st2)
                      in (True, outs @ relay_packet env link buffer p, st3))))"

section \<open>The fingerprint ring is a duplicate cache\<close>

definition ring_idx :: "seen_ring \<Rightarrow> nat \<Rightarrow> nat" where
  "ring_idx r i = (sr_next r + 63 - i) mod 64"

definition ring_content :: "seen_ring \<Rightarrow> u64 list" where
  "ring_content r = map (\<lambda>i. sr_seen r ! ring_idx r i) (filter (\<lambda>i. sr_used r ! ring_idx r i) [0..<64])"

definition ring_inv :: "seen_ring \<Rightarrow> bool" where
  "ring_inv r \<longleftrightarrow> length (sr_seen r) = 64 \<and> length (sr_used r) = 64 \<and> sr_next r < 64 \<and>
     (\<forall>i < 64. \<forall>j < i. sr_used r ! ring_idx r i \<longrightarrow> sr_used r ! ring_idx r j)"

lemma ring_idx_lt: "ring_idx r i < 64"
  by (simp add: ring_idx_def)

lemma ring_idx_surj:
  assumes "sr_next r < 64" "j < 64"
  shows "\<exists>i < 64. ring_idx r i = j"
proof (cases "j < sr_next r")
  case True
  then have "ring_idx r (sr_next r - 1 - j) = j"
    using assms by (simp add: ring_idx_def mod_if)
  then show ?thesis using assms True by (intro exI [of _ "sr_next r - 1 - j"]) simp
next
  case False
  then have "ring_idx r (sr_next r + 63 - j) = j"
    using assms by (simp add: ring_idx_def)
  then show ?thesis using assms False by (intro exI [of _ "sr_next r + 63 - j"]) simp
qed

lemma ring_content_mem:
  assumes "ring_inv r"
  shows "k \<in> set (ring_content r) \<longleftrightarrow> (\<exists>i < 64. sr_used r ! i \<and> sr_seen r ! i = k)"
proof
  assume "k \<in> set (ring_content r)"
  then obtain i where "sr_used r ! ring_idx r i" "sr_seen r ! ring_idx r i = k"
    by (auto simp: ring_content_def)
  then show "\<exists>i < 64. sr_used r ! i \<and> sr_seen r ! i = k" using ring_idx_lt by blast
next
  assume "\<exists>i < 64. sr_used r ! i \<and> sr_seen r ! i = k"
  then obtain j where "j < 64" "sr_used r ! j" "sr_seen r ! j = k" by blast
  moreover obtain i where "i < 64" "ring_idx r i = j"
    using ring_idx_surj [OF _ \<open>j < 64\<close>] assms by (auto simp: ring_inv_def)
  ultimately have "i \<in> set (filter (\<lambda>i. sr_used r ! ring_idx r i) [0..<64])"
    "k = sr_seen r ! ring_idx r i" by auto
  then show "k \<in> set (ring_content r)" unfolding ring_content_def set_map by blast
qed

lemma relay_seen_before_mem:
  "ring_inv r \<Longrightarrow> relay_seen_before k r =
     (if k \<in> set (ring_content r) then (True, r)
      else (False, r \<lparr> sr_seen := (sr_seen r)[sr_next r := k], sr_used := (sr_used r)[sr_next r := True],
                       sr_next := (sr_next r + 1) mod 64 \<rparr>))"
  by (auto simp: relay_seen_before_def ring_content_mem RELAY_CACHE_SIZE_def ring_inv_def)

text \<open>One step of the ring: index 0 is the new entry, index \<open>i + 1\<close> the old index \<open>i\<close>.\<close>

lemma ring_idx_step:
  assumes "sr_next r < 64" "r' = r \<lparr> sr_seen := a, sr_used := b, sr_next := (sr_next r + 1) mod 64 \<rparr>"
  shows "ring_idx r' 0 = sr_next r" "i < 63 \<Longrightarrow> ring_idx r' (Suc i) = ring_idx r i"
    "i < 63 \<Longrightarrow> ring_idx r i \<noteq> sr_next r" "ring_idx r 63 = sr_next r"
proof -
  have n: "sr_next r' = (if sr_next r = 63 then 0 else sr_next r + 1)"
    using assms by (auto simp: mod_if)
  show "ring_idx r' 0 = sr_next r" using assms(1) by (auto simp: ring_idx_def n mod_if)
  show "ring_idx r' (Suc i) = ring_idx r i" if "i < 63"
    using assms(1) that by (auto simp: ring_idx_def n mod_if)
  show "ring_idx r i \<noteq> sr_next r" if "i < 63"
    using assms(1) that by (auto simp: ring_idx_def mod_if)
  show "ring_idx r 63 = sr_next r" using assms(1) by (simp add: ring_idx_def)
qed

lemma upt_64: "[0..<64] = 0 # map Suc [0..<63]" "[0..<64] = [0..<63] @ [63]"
  using upt_conv_Cons [of 0 64] upt_Suc [of 0 63] by (simp_all add: map_Suc_upt)

lemma ring_miss:
  assumes inv: "ring_inv r"
    and r': "r' = r \<lparr> sr_seen := (sr_seen r)[sr_next r := k], sr_used := (sr_used r)[sr_next r := True],
       sr_next := (sr_next r + 1) mod 64 \<rparr>"
  shows "ring_inv r'" "ring_content r' = take 64 (k # ring_content r)"
proof -
  have lens: "length (sr_seen r) = 64" "length (sr_used r) = 64" "sr_next r < 64"
    and mono_used: "\<And>i j. i < 64 \<Longrightarrow> j < i \<Longrightarrow> sr_used r ! ring_idx r i \<Longrightarrow> sr_used r ! ring_idx r j"
    using inv by (auto simp: ring_inv_def)
  note st = ring_idx_step [OF lens(3) r']
  have u0: "sr_used r' ! ring_idx r' 0" "sr_seen r' ! ring_idx r' 0 = k"
    using lens st(1) by (simp_all add: r')
  have uS: "sr_used r' ! ring_idx r' (Suc i) = sr_used r ! ring_idx r i"
    "sr_seen r' ! ring_idx r' (Suc i) = sr_seen r ! ring_idx r i" if "i < 63" for i
    using that st(2,3) [of i] by (simp_all add: r')
  have "sr_used r' ! ring_idx r' j" if ij: "i < 64" "j < i" "sr_used r' ! ring_idx r' i" for i j
  proof (cases j)
    case (Suc j')
    then obtain i' where "i = Suc i'" using ij by (cases i) auto
    then show ?thesis using ij Suc uS [of j'] uS [of i'] mono_used [of i' j'] by simp
  qed (use u0 in simp)
  then show "ring_inv r'" using lens by (auto simp: ring_inv_def r')
  define pre where "pre = map (\<lambda>i. sr_seen r ! ring_idx r i) (filter (\<lambda>i. sr_used r ! ring_idx r i) [0..<63])"
  have "map (\<lambda>i. sr_seen r' ! ring_idx r' i) (filter (\<lambda>i. sr_used r' ! ring_idx r' i) (map Suc [0..<63])) = pre"
    unfolding pre_def filter_map map_map comp_def
    by (rule map_cong) (auto simp: uS intro!: filter_cong)
  then have c': "ring_content r' = k # pre"
    using u0 by (simp add: ring_content_def upt_64(1))
  have c: "ring_content r = pre @ (if sr_used r ! sr_next r then [sr_seen r ! sr_next r] else [])"
    by (simp add: ring_content_def upt_64(2) pre_def st(4))
  have "length pre = 63" if "sr_used r ! sr_next r"
  proof -
    have "filter (\<lambda>i. sr_used r ! ring_idx r i) [0..<63] = [0..<63]"
      using that mono_used [of 63] by (intro filter_True) (auto simp: st(4))
    then show ?thesis by (simp add: pre_def)
  qed
  moreover have "length pre \<le> 63"
    using length_filter_le [of "\<lambda>i. sr_used r ! ring_idx r i" "[0..<63]"] by (simp add: pre_def)
  ultimately show "ring_content r' = take 64 (k # ring_content r)"
    unfolding c c' by (auto simp: take_append)
qed

interpretation ring: seen_cache ring_inv ring_content relay_seen_before 64
  by unfold_locales (simp_all add: relay_seen_before_mem ring_miss)

lemma ring_inv_empty: "ring_inv empty_ring"
  by (simp add: ring_inv_def empty_ring_def RELAY_CACHE_SIZE_def ring_idx_lt)

section \<open>Fragment slots are reassembly buffers\<close>

definition fs_inv :: "frag_slot \<Rightarrow> bool" where
  "fs_inv s \<longleftrightarrow> length (fs_parts s) = 4 \<and> unat (fs_total s) \<le> 4"

interpretation fb: part_buffer fs_inv "\<lambda>s. unat (fs_total s)" "\<lambda>s j. bit (fs_have_mask s) j"
  "\<lambda>s j. fs_parts s ! j" frag_put "\<lambda>s. frag_complete (fs_total s) s" "\<lambda>s. frag_assemble (fs_total s) s"
proof (unfold_locales, goal_cases)
  case (3 s i j c)
  then show ?case by (auto simp: frag_put_def bit_or_iff bit_push_one fs_inv_def)
next
  case (4 s i c j)
  then show ?case by (auto simp: frag_put_def fs_inv_def)
next
  case (5 s)
  then show ?case by (simp add: frag_complete_def mask_all_bits fs_inv_def Let_def)
qed (auto simp: frag_put_def fs_inv_def frag_assemble_def)

subsection \<open>Finding the slot\<close>

definition frag_match :: "u64 \<Rightarrow> bytes \<Rightarrow> frag_slot \<Rightarrow> bool" where
  "frag_match frag_id sd s \<longleftrightarrow> fs_in_use s \<and> fs_frag_id s = frag_id \<and> fs_sender s = sd"

definition frag_expire :: "u64 \<Rightarrow> frag_slot \<Rightarrow> frag_slot" where
  "frag_expire now s = (if fs_in_use s \<and> now - fs_started_ms s > FRAG_TIMEOUT_MS
     then s \<lparr> fs_in_use := False \<rparr> else s)"

lemma frag_expire_no_match: "\<not> frag_match frag_id sd s \<Longrightarrow> \<not> frag_match frag_id sd (frag_expire now s)"
  by (auto simp: frag_match_def frag_expire_def)

lemma frag_scan_Cons:
  "frag_scan frag_id sd now (s # ss) k slot free old oms =
     (let s' = frag_expire now s; m = frag_match frag_id sd s';
          r = frag_scan frag_id sd now ss (k + 1) (if m then Some k else slot)
                (if \<not> m \<and> \<not> fs_in_use s' \<and> free = None then Some k else free)
                (if fs_started_ms s' < oms then k else old)
                (if fs_started_ms s' < oms then fs_started_ms s' else oms)
      in (s' # fst r, snd r))"
  unfolding frag_scan.simps frag_expire_def [symmetric] frag_match_def [symmetric]
  by (simp add: Let_def split: prod.split)

lemmas frag_scan_rec = frag_scan.simps(1) frag_scan_Cons

lemma frag_scan_slots:
  "fst (frag_scan frag_id sd now ss k slot free old oms) = map (frag_expire now) ss"
  by (induction ss arbitrary: k slot free old oms)
     (simp_all add: Let_def frag_scan_Cons del: frag_scan.simps(2))

lemma frag_scan_none:
  "\<forall>s \<in> set ss. \<not> frag_match frag_id sd (frag_expire now s) \<Longrightarrow>
   fst (snd (frag_scan frag_id sd now ss k slot free old oms)) = slot"
  by (induction ss arbitrary: k slot free old oms)
     (simp_all add: Let_def frag_scan_Cons del: frag_scan.simps(2))

lemma frag_scan_found:
  "i < length ss \<Longrightarrow> \<forall>j < length ss. frag_match frag_id sd (frag_expire now (ss ! j)) \<longleftrightarrow> j = i \<Longrightarrow>
   fst (snd (frag_scan frag_id sd now ss k slot free old oms)) = Some (k + i)"
proof (induction ss arbitrary: i k slot free old oms)
  case (Cons s ss)
  show ?case
  proof (cases i)
    case 0
    then have m: "frag_match frag_id sd (frag_expire now s)" using Cons.prems(2) by force
    have "\<not> frag_match frag_id sd (frag_expire now x)" if "x \<in> set ss" for x
      using that 0 Cons.prems(2) by (auto simp: in_set_conv_nth)
    then show ?thesis
      using 0 m by (simp add: Let_def frag_scan_Cons frag_scan_none del: frag_scan.simps(2))
  next
    case (Suc i')
    have "\<not> frag_match frag_id sd (frag_expire now s)" using Cons.prems(2) Suc by force
    moreover have "\<forall>j < length ss. frag_match frag_id sd (frag_expire now (ss ! j)) \<longleftrightarrow> j = i'"
      using Cons.prems(2) Suc by force
    ultimately show ?thesis
      using Cons.IH [of i'] Cons.prems(1) Suc
      by (simp add: Let_def frag_scan_Cons del: frag_scan.simps(2))
  qed
qed simp

lemma frag_scan_bounds:
  "frag_scan frag_id sd now ss k slot free old oms = (r, slot', free', old') \<Longrightarrow>
   old < k + length ss \<Longrightarrow> (\<forall>f. free = Some f \<longrightarrow> f < k + length ss) \<Longrightarrow>
   old' < k + length ss \<and> (\<forall>f. free' = Some f \<longrightarrow> f < k + length ss)"
proof (induction ss arbitrary: k slot free old oms r)
  case (Cons s ss)
  let ?s = "frag_expire now s" let ?m = "frag_match frag_id sd ?s"
  define R where "R = frag_scan frag_id sd now ss (k + 1) (if ?m then Some k else slot)
      (if \<not> ?m \<and> \<not> fs_in_use ?s \<and> free = None then Some k else free)
      (if fs_started_ms ?s < oms then k else old)
      (if fs_started_ms ?s < oms then fs_started_ms ?s else oms)"
  have "snd R = (slot', free', old')"
    using Cons.prems(1) unfolding frag_scan_Cons Let_def R_def [symmetric] by simp
  then have R: "R = (fst R, slot', free', old')" by (metis prod.collapse)
  have b1: "(if c then k else old) < k + 1 + length ss" for c
    using Cons.prems(2) by (cases c) simp_all
  have b2: "\<forall>f. (if d then Some k else free) = Some f \<longrightarrow> f < k + 1 + length ss" for d
    using Cons.prems(3) by (cases d) simp_all
  show ?case using Cons.IH [OF R [unfolded R_def] b1 b2] by simp
qed simp

definition fresh_frag :: "u64 \<Rightarrow> bytes \<Rightarrow> u16 \<Rightarrow> u64 \<Rightarrow> frag_slot" where
  "fresh_frag frag_id sd tot now = zero_frag \<lparr> fs_in_use := True, fs_frag_id := frag_id,
     fs_sender := sd, fs_total := tot, fs_started_ms := now \<rparr>"

lemma frag_slot_for_found:
  assumes "i < length slots" "\<forall>j < length slots. frag_match frag_id sd (frag_expire now (slots ! j)) \<longleftrightarrow> j = i"
  shows "frag_slot_for frag_id sd tot now slots = (i, map (frag_expire now) slots)"
  using frag_scan_found [OF assms, of 0 None None 0 "fs_started_ms (slots ! 0)"]
    frag_scan_slots [of frag_id sd now slots 0 None None 0 "fs_started_ms (slots ! 0)"]
  by (auto simp: frag_slot_for_def split: prod.split)

lemma frag_slot_for_new:
  assumes "slots \<noteq> []" "\<forall>s \<in> set slots. \<not> frag_match frag_id sd (frag_expire now s)"
  shows "\<exists>i < length slots. frag_slot_for frag_id sd tot now slots =
    (i, (map (frag_expire now) slots)[i := fresh_frag frag_id sd tot now])"
proof -
  obtain r slot free old where sc:
    "frag_scan frag_id sd now slots 0 None None 0 (fs_started_ms (slots ! 0)) = (r, slot, free, old)"
    by (metis prod.exhaust)
  have r: "r = map (frag_expire now) slots" "slot = None"
    using frag_scan_slots [of frag_id sd now slots 0 None None 0 "fs_started_ms (slots ! 0)"]
      frag_scan_none [OF assms(2), of 0 None None 0 "fs_started_ms (slots ! 0)"] by (simp_all add: sc)
  have "(case free of Some f \<Rightarrow> f | None \<Rightarrow> old) < length slots"
    using frag_scan_bounds [OF sc] assms(1) by (auto split: option.split)
  then show ?thesis by (simp add: frag_slot_for_def sc r fresh_frag_def Let_def)
qed


subsection \<open>A message, fragment by fragment\<close>

text \<open>The fragments of one message: id, sender, number of parts and the chunk of each index.\<close>

definition is_fragment_of :: "u64 \<Rightarrow> bytes \<Rightarrow> u16 \<Rightarrow> (nat \<Rightarrow> bytes) \<Rightarrow> nat \<Rightarrow> packet \<Rightarrow> bool" where
  "is_fragment_of frag_id sd tot chunk j p \<longleftrightarrow>
     frag_header p = Some (frag_id, j, tot, chunk j) \<and> pk_sender_id p = sd"

lemma frag_put_fields [simp]:
  "fs_in_use (frag_put j c s) = fs_in_use s" "fs_frag_id (frag_put j c s) = fs_frag_id s"
  "fs_sender (frag_put j c s) = fs_sender s" "fs_total (frag_put j c s) = fs_total s"
  "fs_started_ms (frag_put j c s) = fs_started_ms s"
  by (simp_all add: frag_put_def)

lemma fresh_frag_fields [simp]:
  "fs_in_use (fresh_frag a b c d)" "fs_frag_id (fresh_frag a b c d) = a" "fs_sender (fresh_frag a b c d) = b"
  "fs_total (fresh_frag a b c d) = c" "fs_started_ms (fresh_frag a b c d) = d"
  by (simp_all add: fresh_frag_def)

lemma fresh_frag_empty: "unat c \<le> 4 \<Longrightarrow> fs_inv (fresh_frag a b c d)" "\<not> bit (fs_have_mask (fresh_frag a b c d)) j"
  by (simp_all add: fresh_frag_def zero_frag_def fs_inv_def FRAG_MAX_PARTS_def)

lemma small_total: "n \<le> 4 \<Longrightarrow> unat (word_of_nat n :: u16) = n"
  by (intro unat_of_nat_small) simp

text \<open>The fragment slots are a table of reassembly buffers, by fragment id and sender.\<close>

interpretation ft: part_table fs_inv "\<lambda>s. unat (fs_total s)" "\<lambda>s j. bit (fs_have_mask s) j"
  "\<lambda>s j. fs_parts s ! j" frag_put "\<lambda>s. frag_complete (fs_total s) s" "\<lambda>s. frag_assemble (fs_total s) s"
  "\<lambda>k now s. frag_match (fst k) (snd k) (frag_expire now s)" "\<lambda>k n t. fresh_frag (fst k) (snd k) (word_of_nat n) t"
  frag_expire "\<lambda>s. s \<lparr> fs_in_use := False \<rparr>"
  "\<lambda>k n idx c now. frag_store (fst k) (snd k) (word_of_nat n) idx c now" FRAG_TIMEOUT_MS 4
proof (unfold_locales, goal_cases)
  case (1 n k t j)
  then show ?case by (simp add: fresh_frag_empty small_total)
next
  case (2 k now n t)
  show ?case by (auto simp: frag_match_def frag_expire_def not_less)
next
  case (3 k now i c s)
  show ?case by (simp add: frag_match_def frag_expire_def)
next
  case (4 k now s)
  then show ?case by (auto simp: frag_match_def frag_expire_def split: if_splits)
next
  case (5 k now s now')
  then show ?case by (rule frag_expire_no_match)
next
  case (6 i slots k now n idx s c)
  have m: "frag_match (fst k) (snd k) (frag_expire now (slots ! i))" using 6 by simp
  then have e: "frag_expire now (slots ! i) = slots ! i" by (auto simp: frag_match_def frag_expire_def split: if_splits)
  have t: "fs_total (slots ! i) = word_of_nat n" using 6(3) by auto
  show ?case using frag_slot_for_found [OF 6(1,2), of "word_of_nat n"] 6(1,6) e t by (simp add: frag_store_def Let_def)
next
  case (7 slots k now n idx s c)
  obtain i where i: "i < length slots" "frag_slot_for (fst k) (snd k) (word_of_nat n) now slots =
    (i, (map (frag_expire now) slots)[i := fresh_frag (fst k) (snd k) (word_of_nat n) now])"
    using frag_slot_for_new [OF 7(1,2)] by blast
  then show ?case using 7(5) by (intro exI [of _ i]) (simp add: frag_store_def Let_def)
qed

fun frag_run :: "(u64 \<times> packet) list \<Rightarrow> frag_slot list \<Rightarrow> bytes option list" where
  "frag_run [] slots = []"
| "frag_run ((now, p) # es) slots =
     (case frag_accept now p slots of (slots', out) \<Rightarrow> out # frag_run es slots')"

text \<open>A stream of fragments: index, arrival time and packet of each.\<close>

definition frag_stream ::
  "u64 \<Rightarrow> bytes \<Rightarrow> u16 \<Rightarrow> u64 \<Rightarrow> (nat \<Rightarrow> bytes) \<Rightarrow> (nat \<times> u64 \<times> packet) list \<Rightarrow> bool" where
  "frag_stream frag_id sd tot t0 chunk es \<longleftrightarrow>
     (\<forall>(j, now, p) \<in> set es. is_fragment_of frag_id sd tot chunk j p \<and> j < unat tot \<and>
        now - t0 \<le> FRAG_TIMEOUT_MS)"

lemma frag_run_outs:
  "frag_stream frag_id sd tot t0 chunk es \<Longrightarrow> frag_run (map snd es) slots =
     run_outs (\<lambda>(j, now). frag_store frag_id sd tot j (chunk j) now) (map (\<lambda>(j, now, p). (j, now)) es) slots"
  by (induction es arbitrary: slots)
     (auto simp: frag_stream_def frag_accept_def is_fragment_of_def split: prod.splits)

lemma frag_run_complete:
  assumes "slots \<noteq> []" "\<forall>s \<in> set slots. \<not> frag_match frag_id sd (frag_expire t0 s)"
    and st: "frag_stream frag_id sd tot t0 chunk es" and "unat tot \<le> 4" "es \<noteq> []" "fst (snd (hd es)) = t0"
    and "\<not> {0..<unat tot} \<subseteq> set (map fst (butlast es))" "{0..<unat tot} \<subseteq> set (map fst es)"
  shows "frag_run (map snd es) slots =
    replicate (length es - 1) None @ [Some (concat (map chunk [0..<unat tot]))]"
proof -
  let ?h = "\<lambda>(j, now, p :: packet). (j :: nat, now :: u64)"
  have f: "map fst (map ?h xs) = map fst xs" for xs by (auto simp: case_prod_beta)
  have "run_outs (\<lambda>(j, now). frag_store (fst (frag_id, sd)) (snd (frag_id, sd)) (word_of_nat (unat tot)) j (chunk j) now) (map ?h es) slots =
      replicate (length (map ?h es) - 1) None @ [Some (concat (map chunk [0..<unat tot]))]"
  proof (rule ft.run_message)
    show "snd (hd (map ?h es)) = t0" using assms(5,6) by (cases es) auto
    show "\<forall>(j, now) \<in> set (map ?h es). j < unat tot \<and> now - t0 \<le> FRAG_TIMEOUT_MS" using st by (auto simp: frag_stream_def)
    show "\<not> {0..<unat tot} \<subseteq> set (map fst (butlast (map ?h es)))" using assms(7) by (simp only: map_butlast [symmetric] f) simp
    show "{0..<unat tot} \<subseteq> set (map fst (map ?h es))" using assms(8) by (simp only: f)
  qed (use assms in simp_all)
  then show ?thesis using frag_run_outs [OF st] by simp
qed

section \<open>What an inbound packet does\<close>

abbreviation ring_checks :: "u64 list \<Rightarrow> seen_ring \<Rightarrow> seen_ring" where
  "ring_checks ks r \<equiv> fold (\<lambda>k s. snd (relay_seen_before k s)) ks r"

definition out_packet :: "mesh_out \<Rightarrow> packet option" where
  "out_packet x = (case x of
       Noise_Announce l p \<Rightarrow> Some p | Noise_Handshake l p \<Rightarrow> Some p | Noise_Encrypted l p \<Rightarrow> Some p
     | Noise_Identity l p \<Rightarrow> Some p | Noise_Public_Message l p \<Rightarrow> Some p | Ota_Packet l p \<Rightarrow> Some p
     | Noise_Courier l p \<Rightarrow> Some p | Noise_Request_Sync l p \<Rightarrow> Some p | Broadcast l f \<Rightarrow> None)"

text \<open>Whether the node may act on a packet locally.\<close>

definition for_us :: "mesh_env \<Rightarrow> packet \<Rightarrow> bool" where
  "for_us env p \<longleftrightarrow> \<not> pk_opaque_only p \<and> \<not> pk_is_compressed p \<and>
     (is_broadcast_recipient p \<or> is_local_recipient env p)"

definition local_out :: "mesh_env \<Rightarrow> mesh_out \<Rightarrow> bool" where
  "local_out env x \<longleftrightarrow> (\<exists>p. out_packet x = Some p \<and> for_us env p)"

lemma dispatch_with_cases:
  assumes "dispatch_with frag env mt link p st = (outs, st')"
  obtains (clock) c where "st' = st \<lparr> nd_clock := c \<rparr>" "\<forall>x \<in> set outs. local_out env x" "clock_inv (nd_clock st) \<longrightarrow> clock_inv c"
  | (frag) st1 c where "st1 = st \<lparr> nd_clock := c \<rparr>" "pk_type p = BITCHAT_MSG_FRAGMENT"
      "frag link p st1 = (outs, st')" "for_us env p" "clock_inv (nd_clock st) \<longrightarrow> clock_inv c"
proof -
  define c where "c = (if pk_ttl p = BITLE_ORIGIN_TTL \<and> pk_type p \<noteq> BITCHAT_MSG_ANNOUNCE
     then bitchat_time_consider_peer (me_nvs env) mt mt (pk_timestamp_ms p) (nd_clock st) else nd_clock st)"
  define st1 where "st1 = st \<lparr> nd_clock := c \<rparr>"
  have st1: "(if pk_ttl p = BITLE_ORIGIN_TTL \<and> pk_type p \<noteq> BITCHAT_MSG_ANNOUNCE
     then st \<lparr> nd_clock := bitchat_time_consider_peer (me_nvs env) mt mt (pk_timestamp_ms p) (nd_clock st) \<rparr>
     else st) = st1" by (simp add: st1_def c_def)
  have ci: "clock_inv (nd_clock st) \<longrightarrow> clock_inv c" by (simp add: c_def consider_peer_inv)
  have same: "st = st \<lparr> nd_clock := nd_clock st \<rparr>" by simp
  show thesis
  proof (cases "\<not> for_us env p")
    case True
    then have "outs = [] \<and> (st' = st \<or> st' = st1)"
      using assms unfolding dispatch_with_def st1 Let_def for_us_def by (auto split: if_split_asm)
    then show thesis using clock [of "nd_clock st"] clock [of c] ci same by (auto simp: st1_def)
  next
    case False
    then have fu: "for_us env p" by simp
    show thesis
    proof (cases "pk_type p = BITCHAT_MSG_FRAGMENT")
      case True
      then have "frag link p st1 = (outs, st')"
        using assms fu unfolding dispatch_with_def st1 Let_def for_us_def by (auto simp: msg_type_defs)
      then show thesis using frag [OF st1_def True] fu ci by blast
    next
      case False
      then have "st' = st1 \<and> (\<forall>x \<in> set outs. out_packet x = Some p)"
        using assms fu unfolding dispatch_with_def st1 Let_def for_us_def
        by (auto simp: out_packet_def split: if_split_asm)
      then show thesis using clock [of c] fu ci by (auto simp: st1_def local_out_def)
    qed
  qed
qed


definition frag_ok :: "frag_slot \<Rightarrow> bool" where
  "frag_ok s \<longleftrightarrow> length (fs_parts s) = FRAG_MAX_PARTS \<and> list_all (\<lambda>c. length c \<le> FRAG_PART_MAX) (fs_parts s)"

definition frags_inv :: "frag_slot list \<Rightarrow> bool" where
  "frags_inv fs \<longleftrightarrow> length fs = FRAG_SLOTS \<and> list_all frag_ok fs"

lemma frag_header_bounds:
  "frag_header p = Some (frag_id, index, tot, chunk) \<Longrightarrow>
   index < unat tot \<and> unat tot \<le> FRAG_MAX_PARTS \<and> chunk \<noteq> [] \<and> length chunk \<le> FRAG_PART_MAX"
  by (auto simp: frag_header_def Let_def split: option.splits if_split_asm)

lemma frag_slot_for_inv:
  assumes "frags_inv slots" "frag_slot_for frag_id sd tot now slots = (i, slots1)"
  shows "frags_inv slots1"
proof -
  obtain r slot free old where sc:
    "frag_scan frag_id sd now slots 0 None None 0 (fs_started_ms (slots ! 0)) = (r, slot, free, old)"
    by (metis prod.exhaust)
  have r: "r = map (frag_expire now) slots"
    using frag_scan_slots [of frag_id sd now slots 0 None None 0 "fs_started_ms (slots ! 0)"] by (simp add: sc)
  have "frags_inv r" using assms(1) unfolding r
    by (auto simp: frags_inv_def frag_ok_def frag_expire_def list_all_iff)
  then show ?thesis using assms(2)
    by (auto simp: frag_slot_for_def sc frags_inv_def Let_def frag_ok_def zero_frag_def
        intro!: list_all_update split: option.splits)
qed

lemma frag_accept_inv:
  assumes "frags_inv slots" "frag_accept now p slots = (slots', out)"
  shows "frags_inv slots'"
proof (cases "frag_header p")
  case None
  then show ?thesis using assms by (simp add: frag_accept_def)
next
  case (Some h)
  obtain frag_id index tot chunk where h: "frag_header p = Some (frag_id, index, tot, chunk)"
    using Some by (cases h) auto
  obtain i slots1 where sl: "frag_slot_for frag_id (pk_sender_id p) tot now slots = (i, slots1)" by fastforce
  note f1 = frag_slot_for_inv [OF assms(1) sl]
  note b = frag_header_bounds [OF h]
  have "frag_ok (frag_put index chunk s)" if "frag_ok s" for s
    using that b by (auto simp: frag_ok_def frag_put_def intro!: list_all_update)
  then have "i < length slots1 \<Longrightarrow> frag_ok (frag_put index chunk (slots1 ! i))"
    using f1 by (simp add: frags_inv_def list_all_length)
  then have "i < length slots1 \<Longrightarrow> frags_inv (slots1[i := frag_put index chunk (slots1 ! i)])"
    "i < length slots1 \<Longrightarrow> frags_inv (slots1[i := (frag_put index chunk (slots1 ! i)) \<lparr> fs_in_use := False \<rparr>])"
    using f1 by (auto simp: frags_inv_def frag_ok_def intro!: list_all_update)
  moreover have "\<not> i < length slots1 \<Longrightarrow> slots1[i := x] = slots1" for x by (simp add: list_update_beyond)
  ultimately show ?thesis using assms(2) f1
    by (cases "i < length slots1") (auto simp: frag_accept_def frag_store_def h sl Let_def split: if_split_asm)
qed

text \<open>The mesh part of a node's state after a packet, and the fingerprints it checked.\<close>

definition node_inv :: "codec_env \<Rightarrow> node \<Rightarrow> bool" where
  "node_inv cenv st \<longleftrightarrow> ring_inv (nd_ring st) \<and> frags_inv (nd_frags st) \<and> clock_inv (nd_clock st) \<and>
     sync_inv (nd_sync st) \<and>
     list_all (\<lambda>s. ss_in_use s \<longrightarrow> bitchat_packet_decode cenv (ss_frame s) \<noteq> None) (sy_slots (nd_sync st))"

lemma handle_fragment_spec:
  assumes "handle_fragment env mt link p st = (outs, st')"
  shows "\<forall>x \<in> set outs. local_out env x" "nd_sync st' = nd_sync st"
    "\<exists>ks. length ks \<le> 1 \<and> nd_ring st' = ring_checks ks (nd_ring st)"
    "clock_inv (nd_clock st) \<Longrightarrow> clock_inv (nd_clock st')"
    "frags_inv (nd_frags st) \<Longrightarrow> frags_inv (nd_frags st')"
proof -
  obtain frags out where fa: "frag_accept mt p (nd_frags st) = (frags, out)" by fastforce
  let ?st1 = "st \<lparr> nd_frags := frags \<rparr>"
  have fi: "frags_inv (nd_frags st) \<Longrightarrow> frags_inv frags" using frag_accept_inv [OF _ fa] .
  have "(\<forall>x \<in> set outs. local_out env x) \<and> nd_sync st' = nd_sync st \<and> nd_frags st' = frags \<and>
    (\<exists>ks. length ks \<le> 1 \<and> nd_ring st' = ring_checks ks (nd_ring st)) \<and>
    (clock_inv (nd_clock st) \<longrightarrow> clock_inv (nd_clock st'))"
  proof (cases "outs = [] \<and> st' = ?st1")
    case True
    then show ?thesis by (auto intro!: exI [of _ "[]"])
  next
    case False
    then obtain re inner where re: "out = Some re" "bitchat_packet_decode (me_codec env) re = Some inner"
      using assms by (auto simp: handle_fragment_def fa Let_def split: option.splits)
    obtain seen ring where sr: "relay_seen_before (relay_fingerprint (me_psa env) re) (nd_ring st) = (seen, ring)"
      by fastforce
    let ?st2 = "?st1 \<lparr> nd_ring := ring \<rparr>"
    have k: "ring_checks [relay_fingerprint (me_psa env) re] (nd_ring st) = ring" by (simp add: sr)
    have "(outs = [] \<and> st' = ?st2) \<or> dispatch_with (\<lambda>l q s. ([], s)) env mt link inner ?st2 = (outs, st')"
      using assms re sr by (auto simp: handle_fragment_def fa Let_def split: if_split_asm)
    then show ?thesis
    proof
      assume "outs = [] \<and> st' = ?st2"
      then show ?thesis using k by (auto intro!: exI [of _ "[relay_fingerprint (me_psa env) re]"])
    next
      assume "dispatch_with (\<lambda>l q s. ([], s)) env mt link inner ?st2 = (outs, st')"
      then show ?thesis
        by (cases rule: dispatch_with_cases)
           (use k in \<open>auto intro!: exI [of _ "[relay_fingerprint (me_psa env) re]"]\<close>)
    qed
  qed
  then show "\<forall>x \<in> set outs. local_out env x" "nd_sync st' = nd_sync st"
    "\<exists>ks. length ks \<le> 1 \<and> nd_ring st' = ring_checks ks (nd_ring st)"
    "clock_inv (nd_clock st) \<Longrightarrow> clock_inv (nd_clock st')"
    "frags_inv (nd_frags st) \<Longrightarrow> frags_inv (nd_frags st')"
    using fi by auto
qed

lemma dispatch_packet_spec:
  assumes "dispatch_packet env mt link p st = (outs, st')"
  shows "\<forall>x \<in> set outs. local_out env x" "nd_sync st' = nd_sync st"
    "\<exists>ks. length ks \<le> 1 \<and> nd_ring st' = ring_checks ks (nd_ring st)"
    "clock_inv (nd_clock st) \<Longrightarrow> clock_inv (nd_clock st')"
    "frags_inv (nd_frags st) \<Longrightarrow> frags_inv (nd_frags st')"
proof -
  have "(\<forall>x \<in> set outs. local_out env x) \<and> nd_sync st' = nd_sync st \<and>
    (\<exists>ks. length ks \<le> 1 \<and> nd_ring st' = ring_checks ks (nd_ring st)) \<and>
    (clock_inv (nd_clock st) \<longrightarrow> clock_inv (nd_clock st')) \<and>
    (frags_inv (nd_frags st) \<longrightarrow> frags_inv (nd_frags st'))"
    using assms unfolding dispatch_packet_def
  proof (cases rule: dispatch_with_cases)
    case (clock c)
    then show ?thesis by (auto intro!: exI [of _ "[]"])
  next
    case (frag st1 c)
    from handle_fragment_spec [OF frag(3)] frag(1,5) show ?thesis by auto
  qed
  then show "\<forall>x \<in> set outs. local_out env x" "nd_sync st' = nd_sync st"
    "\<exists>ks. length ks \<le> 1 \<and> nd_ring st' = ring_checks ks (nd_ring st)"
    "clock_inv (nd_clock st) \<Longrightarrow> clock_inv (nd_clock st')"
    "frags_inv (nd_frags st) \<Longrightarrow> frags_inv (nd_frags st')" by auto
qed

lemma inbound_cases:
  assumes "bitle_mesh_inbound env mt link buf st = (b, outs, st')"
  obtains (undecoded) "bitchat_packet_decode (me_codec env) buf = None" "\<not> b" "outs = []" "st' = st"
  | (duplicate) p where "bitchat_packet_decode (me_codec env) buf = Some p" "b" "outs = []"
      "relay_seen_before (relay_fingerprint (me_psa env) buf) (nd_ring st) = (True, nd_ring st)" "st' = st"
  | (processed) p ring outs1 st2 where "bitchat_packet_decode (me_codec env) buf = Some p" "b"
      "relay_seen_before (relay_fingerprint (me_psa env) buf) (nd_ring st) = (False, ring)"
      "dispatch_packet env mt link p (st \<lparr> nd_ring := ring \<rparr>) = (outs1, st2)"
      "outs = outs1 @ relay_packet env link buf p"
      "st' = (if \<not> pk_is_compressed p \<and> \<not> pk_opaque_only p
              then st2 \<lparr> nd_sync := bitle_sync_ingest (me_psa env) (bitchat_time_now_ms mt (nd_clock st2)) p
                     buf (nd_sync st2) \<rparr> else st2)"
proof (cases "bitchat_packet_decode (me_codec env) buf")
  case None
  then show ?thesis using assms undecoded by (simp add: bitle_mesh_inbound_def)
next
  case (Some p)
  obtain seen ring where sr: "relay_seen_before (relay_fingerprint (me_psa env) buf) (nd_ring st) = (seen, ring)"
    by fastforce
  show ?thesis
  proof (cases seen)
    case True
    then have "ring = nd_ring st" using sr by (auto simp: relay_seen_before_def split: if_split_asm)
    then have "bitle_mesh_inbound env mt link buf st = (True, [], st)"
      using sr True by (simp add: bitle_mesh_inbound_def Some)
    then have "b" "outs = []" "st' = st" using assms by simp_all
    then show ?thesis using sr True \<open>ring = nd_ring st\<close> by (intro duplicate [OF Some]) auto
  next
    case False
    obtain outs1 st2 where d: "dispatch_packet env mt link p (st \<lparr> nd_ring := ring \<rparr>) = (outs1, st2)" by fastforce
    have "bitle_mesh_inbound env mt link buf st = (True, outs1 @ relay_packet env link buf p,
       (if \<not> pk_is_compressed p \<and> \<not> pk_opaque_only p
              then st2 \<lparr> nd_sync := bitle_sync_ingest (me_psa env) (bitchat_time_now_ms mt (nd_clock st2)) p
                     buf (nd_sync st2) \<rparr> else st2))"
      using sr False d by (simp add: bitle_mesh_inbound_def Some Let_def)
    then show ?thesis using sr False assms by (intro processed [OF Some _ _ d]) auto
  qed
qed

lemma relay_packet_out:
  "x \<in> set (relay_packet env link buf p) \<Longrightarrow>
   x = Broadcast link (buf[2 := pk_ttl p - 1]) \<and> 1 < pk_ttl p \<and> pk_sender_id p \<noteq> me_local_id env \<and>
   pk_type p \<noteq> BITCHAT_MSG_REQUEST_SYNC \<and> \<not> is_local_recipient env p"
  by (auto simp: relay_packet_def split: if_split_asm)

lemma inbound_outs:
  assumes "bitle_mesh_inbound env mt link buf st = (b, outs, st')" "x \<in> set outs"
  shows "local_out env x \<or>
    (\<exists>p. bitchat_packet_decode (me_codec env) buf = Some p \<and> x = Broadcast link (buf[2 := pk_ttl p - 1]) \<and>
       1 < pk_ttl p \<and> pk_sender_id p \<noteq> me_local_id env \<and> pk_type p \<noteq> BITCHAT_MSG_REQUEST_SYNC \<and>
       \<not> is_local_recipient env p)"
  using assms(1)
proof (cases rule: inbound_cases)
  case (processed p ring outs1 st2)
  then consider "x \<in> set outs1" | "x \<in> set (relay_packet env link buf p)" using assms(2) by auto
  then show ?thesis
    by cases (use dispatch_packet_spec(1) [OF processed(4)] relay_packet_out processed(1) in blast)+
qed (use assms(2) in auto)

lemma inbound_ring:
  assumes "bitle_mesh_inbound env mt link buf st = (b, outs, st')"
  shows "\<exists>ks. length ks \<le> 2 \<and> nd_ring st' = ring_checks ks (nd_ring st)"
  using assms
proof (cases rule: inbound_cases)
  case (processed p ring outs1 st2)
  obtain ks where ks: "length ks \<le> 1" "nd_ring st2 = ring_checks ks ring"
    using dispatch_packet_spec(3) [OF processed(4)] by auto
  show ?thesis using ks processed(3,6)
    by (intro exI [of _ "relay_fingerprint (me_psa env) buf # ks"]) auto
qed (auto intro!: exI [of _ "[]"])

lemma ingest_frames_decode:
  assumes "list_all (\<lambda>s. ss_in_use s \<longrightarrow> bitchat_packet_decode cenv (ss_frame s) \<noteq> None) (sy_slots sy)"
    and "bitchat_packet_decode cenv raw = Some q"
  shows "list_all (\<lambda>s. ss_in_use s \<longrightarrow> bitchat_packet_decode cenv (ss_frame s) \<noteq> None)
     (sy_slots (bitle_sync_ingest psa now p raw sy))"
proof (cases rule: ingest_cases [of psa now p raw sy])
  case (stored owner i found)
  then show ?thesis using assms by (auto simp: new_slot_def intro!: list_all_update)
qed (use assms in simp)

lemma inbound_inv:
  assumes "node_inv (me_codec env) st" "bitle_mesh_inbound env mt link buf st = (b, outs, st')"
  shows "node_inv (me_codec env) st'"
proof -
  have ri: "ring_inv (nd_ring st')"
    using inbound_ring [OF assms(2)] ring.fold_inv assms(1) by (auto simp: node_inv_def)
  show ?thesis using assms(2)
  proof (cases rule: inbound_cases)
    case (processed p ring outs1 st2)
    note d = dispatch_packet_spec [OF processed(4)]
    show ?thesis
      using d(2,4,5) processed(6) assms(1) ri ingest_inv ingest_frames_decode [OF _ processed(1)]
      by (auto simp: node_inv_def)
  qed (use assms(1) in simp_all)
qed

text \<open>A sequence of inbound packets (time, link, bytes), as the mutex orders them.\<close>

fun mesh_run :: "mesh_env \<Rightarrow> (u64 \<times> u16 \<times> bytes) list \<Rightarrow> node \<Rightarrow> node" where
  "mesh_run env [] st = st"
| "mesh_run env ((mt, link, buf) # es) st =
     (case bitle_mesh_inbound env mt link buf st of (b, outs, st') \<Rightarrow> mesh_run env es st')"

lemma mesh_run_ring:
  "\<exists>ks. length ks \<le> 2 * length es \<and> nd_ring (mesh_run env es st) = ring_checks ks (nd_ring st)"
proof (induction es arbitrary: st)
  case (Cons e es)
  obtain mt link buf where e: "e = (mt, link, buf)" by (cases e) auto
  obtain b outs st' where r: "bitle_mesh_inbound env mt link buf st = (b, outs, st')" by (metis prod.exhaust)
  obtain k1 where k1: "length k1 \<le> 2" "nd_ring st' = ring_checks k1 (nd_ring st)" using inbound_ring [OF r] by blast
  obtain k2 where k2: "length k2 \<le> 2 * length es" "nd_ring (mesh_run env es st') = ring_checks k2 (nd_ring st')"
    using Cons.IH by blast
  show ?case using k1 k2 by (intro exI [of _ "k1 @ k2"]) (simp add: e r)
qed simp

lemma duplicate_dropped:
  assumes "fst (relay_seen_before (relay_fingerprint (me_psa env) buf) (nd_ring st))"
  shows "fst (snd (bitle_mesh_inbound env mt link buf st)) = [] \<and> snd (snd (bitle_mesh_inbound env mt link buf st)) = st"
proof -
  obtain b outs st' where r: "bitle_mesh_inbound env mt link buf st = (b, outs, st')" by (metis prod.exhaust)
  then have "outs = [] \<and> st' = st" by (cases rule: inbound_cases) (use assms in auto)
  then show ?thesis by (simp add: r)
qed

lemma duplicate_silent:
  assumes inv: "node_inv (me_codec env) st"
    and new: "\<not> fst (relay_seen_before (relay_fingerprint (me_psa env) buf) (nd_ring st))"
    and r: "bitle_mesh_inbound env mt link buf st = (True, outs, st1)"
    and few: "length es \<le> 31"
    and copy: "relay_fingerprint (me_psa env) copy = relay_fingerprint (me_psa env) buf"
    and st2: "st2 = mesh_run env es st1"
  shows "fst (snd (bitle_mesh_inbound env mt' link' copy st2)) = [] \<and>
         snd (snd (bitle_mesh_inbound env mt' link' copy st2)) = st2"
proof (rule duplicate_dropped, unfold copy)
  let ?fp = "relay_fingerprint (me_psa env) buf"
  obtain k1 where k1: "length k1 \<le> 1" "nd_ring st1 = ring_checks k1 (snd (relay_seen_before ?fp (nd_ring st)))"
    using r
  proof (cases rule: inbound_cases)
    case (processed p ring outs1 s2)
    obtain ks where "length ks \<le> 1" "nd_ring s2 = ring_checks ks ring"
      using dispatch_packet_spec(3) [OF processed(4)] by auto
    then show thesis using that [of ks] processed(3,6) by auto
  qed (use new in auto)
  obtain k2 where k2: "length k2 \<le> 62" "nd_ring st2 = ring_checks k2 (nd_ring st1)"
  proof -
    obtain ks where "length ks \<le> 2 * length es" "nd_ring (mesh_run env es st1) = ring_checks ks (nd_ring st1)"
      using mesh_run_ring [of es env st1] by blast
    then show thesis using that [of ks] few st2 by simp
  qed
  have "fst (relay_seen_before ?fp (ring_checks (k1 @ k2) (snd (relay_seen_before ?fp (nd_ring st)))))"
    by (rule ring.recognised) (use inv new k1(1) k2(1) in \<open>auto simp: node_inv_def\<close>)
  then show "fst (relay_seen_before ?fp (nd_ring st2))" using k1(2) k2(2) by simp
qed

section \<open>Properties\<close>

definition demo_mesh_env :: mesh_env where
  "demo_mesh_env = \<lparr> me_codec = stored_env, me_psa = demo_psa, me_local_id = [9, 9, 9, 9, 9, 9, 9, 9], me_nvs = nvs_works \<rparr>"

definition demo_node :: node where
  "demo_node = mesh_boot (bitchat_time_init nvs_works 0 0 (reset_clock None))"

lemma demo_node_inv: "node_inv cenv demo_node"
proof -
  have "list_all (\<lambda>s. ss_in_use s \<longrightarrow> bitchat_packet_decode cenv (ss_frame s) \<noteq> None) (sy_slots bitle_sync_init)"
    by (simp add: bitle_sync_init_def zero_slot_def)
  then show ?thesis
    by (simp add: node_inv_def demo_node_def mesh_boot_def ring_inv_empty clock_boot_inv init_inv frags_inv_def
      FRAG_SLOTS_def frag_ok_def zero_frag_def)
qed

lemma boot_not_seen: "\<not> fst (relay_seen_before fp empty_ring)"
  by (auto simp: relay_seen_before_def empty_ring_def RELAY_CACHE_SIZE_def)

lemma demo_inbound:
  "\<exists>outs st'. bitle_mesh_inbound demo_mesh_env 5 1 vector_v1_message demo_node = (True, outs, st') \<and>
     Broadcast 1 (vector_v1_message[2 := 6]) \<in> set outs"
proof -
  obtain b outs st' where r: "bitle_mesh_inbound demo_mesh_env 5 1 vector_v1_message demo_node = (b, outs, st')"
    by (metis prod.exhaust)
  have dec: "bitchat_packet_decode (me_codec demo_mesh_env) vector_v1_message = Some vector_v1_packet"
    by (simp add: demo_mesh_env_def vector_v1_message_decodes)
  have ring: "nd_ring demo_node = empty_ring" by (simp add: demo_node_def mesh_boot_def)
  have rp: "relay_packet demo_mesh_env 1 vector_v1_message vector_v1_packet = [Broadcast 1 (vector_v1_message[2 := 6])]"
    by (simp add: relay_packet_def vector_v1_packet_def zero_packet_def demo_mesh_env_def is_local_recipient_def
        msg_type_defs word_le_nat_alt)
  from r have "b \<and> Broadcast 1 (vector_v1_message[2 := 6]) \<in> set outs"
  proof (cases rule: inbound_cases)
    case undecoded
    then show ?thesis using dec by simp
  next
    case (duplicate p)
    then show ?thesis using boot_not_seen [of "relay_fingerprint (me_psa demo_mesh_env) vector_v1_message"]
      by (simp add: ring)
  next
    case (processed p ring outs1 st2)
    then show ?thesis using dec rp by auto
  qed
  then show ?thesis using r by auto
qed

text \<open>
  C1: Every packet is processed once: after a node has taken a new packet, and while it takes up
  to 31 further inbound packets of any kind, a copy of that packet, arriving on any link with a
  different TTL or RSR flag or with its padding removed, makes the node do nothing at all (no
  local delivery, no relay, no state change).
\<close>

theorem mesh_duplicate_silent:
  assumes "node_inv (me_codec env) st"
    and "\<not> fst (relay_seen_before (relay_fingerprint (me_psa env) buf) (nd_ring st))"
    and "bitle_mesh_inbound env mt link buf st = (True, outs, st1)"
    and "length es \<le> 31" and "st2 = mesh_run env es st1"
    and "relay_wire_len buf \<le> m" and "copy = set_ttl_rsr t rsr (take m buf)"
  shows "fst (snd (bitle_mesh_inbound env mt' link' copy st2)) = [] \<and>
         snd (snd (bitle_mesh_inbound env mt' link' copy st2)) = st2"
proof -
  obtain p where p: "bitchat_packet_decode (me_codec env) buf = Some p"
    using assms(3) by (cases rule: inbound_cases) auto
  have "relay_fingerprint (me_psa env) copy = relay_fingerprint (me_psa env) buf"
    using fingerprint_hop [OF p assms(6)] by (simp add: relay_fingerprint_def assms(7))
  from duplicate_silent [OF assms(1-4) this assms(5)] show ?thesis .
qed

theorem mesh_duplicate_silent_witness:
  "\<exists>outs st1. bitle_mesh_inbound demo_mesh_env 5 1 vector_v1_message demo_node = (True, outs, st1) \<and>
     fst (snd (bitle_mesh_inbound demo_mesh_env 9 2 (set_ttl_rsr 3 True (take 25 vector_v1_message)) st1)) = []"
proof -
  obtain outs st1 where r: "bitle_mesh_inbound demo_mesh_env 5 1 vector_v1_message demo_node = (True, outs, st1)"
    using demo_inbound by blast
  have n: "\<not> fst (relay_seen_before (relay_fingerprint (me_psa demo_mesh_env) vector_v1_message) (nd_ring demo_node))"
    using boot_not_seen by (simp add: demo_node_def mesh_boot_def)
  have l: "relay_wire_len vector_v1_message \<le> 25"
    by (simp add: relay_wire_len_def relay_wire_opt_def relay_header_def relay_route_def
      vector_v1_message_def bslice_def be_val_def)
  show ?thesis
    using r mesh_duplicate_silent [OF demo_node_inv n r, of "[]" st1 25, OF _ _ l refl] by auto
qed

text \<open>
  C2: Relaying changes nothing but the TTL: every frame a node forwards goes to all links but the
  one it came from, decodes to the received packet with the TTL lowered by one, and has the same
  fingerprint. A node does not forward its own packets, packets addressed to it, sync requests, or
  packets with TTL 0 or 1.
\<close>

theorem mesh_relay_preserves:
  assumes "bitle_mesh_inbound env mt link buf st = (b, outs, st')" "Broadcast ex f \<in> set outs"
  shows "\<exists>p. bitchat_packet_decode (me_codec env) buf = Some p \<and> ex = link \<and>
    bitchat_packet_decode (me_codec env) f = Some (p \<lparr> pk_ttl := pk_ttl p - 1 \<rparr>) \<and>
    bitchat_relay_fingerprint psa f = bitchat_relay_fingerprint psa buf \<and> length f = length buf \<and>
    1 < pk_ttl p \<and> pk_sender_id p \<noteq> me_local_id env \<and> pk_type p \<noteq> BITCHAT_MSG_REQUEST_SYNC \<and>
    \<not> is_local_recipient env p"
proof -
  obtain p where p: "bitchat_packet_decode (me_codec env) buf = Some p" "ex = link" "f = buf[2 := pk_ttl p - 1]"
    "1 < pk_ttl p" "pk_sender_id p \<noteq> me_local_id env" "pk_type p \<noteq> BITCHAT_MSG_REQUEST_SYNC"
    "\<not> is_local_recipient env p"
    using inbound_outs [OF assms] by (auto simp: local_out_def out_packet_def)
  have "bitchat_relay_fingerprint psa f = bitchat_relay_fingerprint psa buf"
    unfolding p(3) by (rule fingerprint_ttl [OF p(1)])
  then show ?thesis using p decode_ttl [OF p(1), of "pk_ttl p - 1"] by auto
qed

theorem mesh_relay_preserves_witness:
  "bitchat_relay_fingerprint demo_psa (vector_v1_message[2 := 6]) = bitchat_relay_fingerprint demo_psa vector_v1_message"
  using demo_inbound mesh_relay_preserves [of demo_mesh_env 5 1 vector_v1_message demo_node] by blast

section \<open>Chains of relays\<close>

inductive mesh_hops :: "codec_env \<Rightarrow> nat \<Rightarrow> bytes \<Rightarrow> bytes \<Rightarrow> bool" for cenv where
  origin: "mesh_hops cenv 0 f f"
| hop: "mesh_hops cenv n f g \<Longrightarrow> me_codec env = cenv \<Longrightarrow>
    bitle_mesh_inbound env mt link g st = (b, outs, st') \<Longrightarrow> Broadcast ex g' \<in> set outs \<Longrightarrow>
    mesh_hops cenv (Suc n) f g'"

lemma decode_ttl_byte: "bitchat_packet_decode env data = Some p \<Longrightarrow> data ! 2 = pk_ttl p"
  by (erule decodeE) (use decode_headerE(4) in metis)

lemma hops_decrement:
  assumes "mesh_hops cenv n f g" "bitchat_packet_decode cenv f = Some p"
  shows "(n = 0 \<or> n < unat (pk_ttl p)) \<and> g = f[2 := pk_ttl p - word_of_nat n] \<and>
    bitchat_packet_decode cenv g = Some (p \<lparr> pk_ttl := pk_ttl p - word_of_nat n \<rparr>)"
  using assms
proof (induction rule: mesh_hops.induct)
  case (origin f)
  have "f[2 := pk_ttl p] = f" using decode_ttl_byte [OF origin] list_update_id [of f 2] by simp
  then show ?case using origin by simp
next
  case (hop n f g env mt link st b outs st' ex g')
  let ?t = "pk_ttl p - word_of_nat n"
  have ih: "n = 0 \<or> n < unat (pk_ttl p)" "g = f[2 := ?t]"
    "bitchat_packet_decode cenv g = Some (p \<lparr> pk_ttl := ?t \<rparr>)" using hop.IH hop.prems by auto
  from inbound_outs [OF hop.hyps(3,4)] ih(3) hop.hyps(2)
  have g': "g' = g[2 := ?t - 1]" and t: "1 < ?t" by (auto simp: local_out_def out_packet_def)
  have n: "n < 256" "n \<le> unat (pk_ttl p)" using ih(1) unat_less_256 [of "pk_ttl p"] by auto
  have u: "unat ?t = unat (pk_ttl p) - n"
    using n by (simp add: unat_sub_if' unat_of_nat_small)
  have "Suc n < unat (pk_ttl p)" using t u by (simp add: word_less_nat_alt)
  moreover have e: "?t - 1 = pk_ttl p - word_of_nat (Suc n)" by (simp add: algebra_simps)
  ultimately show ?case
    using g' ih(2) decode_ttl [OF ih(3), of "?t - 1"] by (simp add: e)
qed

text \<open>
  C5: Flooding ends: a frame that was relayed by \<open>n\<close> nodes in a row, whatever their states and
  links, is the original frame with the TTL lowered by \<open>n\<close>, and \<open>n\<close> is less than the original
  TTL.
\<close>

theorem mesh_flood_bounded:
  assumes "mesh_hops cenv n f g" "bitchat_packet_decode cenv f = Some p" "0 < n"
  shows "n < unat (pk_ttl p) \<and> g = f[2 := pk_ttl p - word_of_nat n] \<and>
    bitchat_packet_decode cenv g = Some (p \<lparr> pk_ttl := pk_ttl p - word_of_nat n \<rparr>)"
  using hops_decrement [OF assms(1,2)] assms(3) by auto

theorem mesh_flood_bounded_witness:
  "\<exists>g. mesh_hops stored_env 1 vector_v1_message g \<and> g = vector_v1_message[2 := 6]"
proof -
  obtain outs st' where r: "bitle_mesh_inbound demo_mesh_env 5 1 vector_v1_message demo_node = (True, outs, st')"
    "Broadcast 1 (vector_v1_message[2 := 6]) \<in> set outs" using demo_inbound by blast
  have h: "mesh_hops stored_env (Suc 0) vector_v1_message (vector_v1_message[2 := 6])"
    by (rule mesh_hops.hop [OF mesh_hops.origin _ r]) (simp add: demo_mesh_env_def)
  show ?thesis using h mesh_flood_bounded [OF h vector_v1_message_decodes] by auto
qed

text \<open>
  C4: Fragmented packets are rebuilt: the fragments of one message of up to four parts, arriving
  within 15 seconds in any order and with any repetitions, yield nothing until the last missing
  part arrives and then exactly the original bytes.
\<close>

theorem mesh_fragments_reassemble:
  assumes "slots \<noteq> []" "\<forall>s \<in> set slots. \<not> frag_match frag_id sd (frag_expire t0 s)"
    and "frag_stream frag_id sd tot t0 chunk es" "unat tot \<le> 4" "es \<noteq> []" "fst (snd (hd es)) = t0"
    and "\<not> {0..<unat tot} \<subseteq> set (map fst (butlast es))" "{0..<unat tot} \<subseteq> set (map fst es)"
  shows "frag_run (map snd es) slots =
    replicate (length es - 1) None @ [Some (concat (map chunk [0..<unat tot]))]"
  by (rule frag_run_complete [OF assms])

definition demo_fragment :: "nat \<Rightarrow> packet" where
  "demo_fragment j = zero_packet \<lparr> pk_type := 0x20, pk_sender_id := [1, 2, 3, 4, 5, 6, 7, 8], pk_payload_len := 14,
     pk_payload := Some ([0, 0, 0, 0, 0, 0, 0, 42, 0, word_of_nat j, 0, 2, 2, word_of_nat j + 65]) \<rparr>"

theorem mesh_fragments_reassemble_witness:
  "frag_run [(100, demo_fragment 1), (120, demo_fragment 0)] [zero_frag, zero_frag] = [None, Some [65, 66]]"
proof -
  let ?es = "[(1, 100, demo_fragment 1), (0, 120, demo_fragment 0)] :: (nat \<times> u64 \<times> packet) list"
  have f: "is_fragment_of 42 [1, 2, 3, 4, 5, 6, 7, 8] 2 (\<lambda>j. [word_of_nat j + 65]) 0 (demo_fragment 0)"
    "is_fragment_of 42 [1, 2, 3, 4, 5, 6, 7, 8] 2 (\<lambda>j. [word_of_nat j + 65]) 1 (demo_fragment 1)"
    by (simp_all add: is_fragment_of_def frag_header_def demo_fragment_def zero_packet_def be_val_def
        bslice_def FRAG_MAX_PARTS_def FRAG_PART_MAX_def)
  have s: "{0..<2} = {0, 1 :: nat}" by auto
  have "frag_run (map snd ?es) [zero_frag, zero_frag] =
     replicate (length ?es - 1) None @ [Some (concat (map (\<lambda>j. [word_of_nat j + 65]) [0..<unat (2 :: u16)]))]"
    by (rule mesh_fragments_reassemble [where frag_id = 42 and sd = "[1, 2, 3, 4, 5, 6, 7, 8]" and ?t0.0 = 100])
       (use f in \<open>auto simp: frag_match_def frag_expire_def zero_frag_def frag_stream_def FRAG_TIMEOUT_MS_def s\<close>)
  then show ?thesis by (simp add: upt_rec)
qed

text \<open>
  What a node delivers locally is for it: every packet handed to the Noise worker or the OTA
  handler, also one rebuilt from fragments, is neither an opaque v2 packet nor compressed, and is a
  broadcast or addressed to this node.
\<close>

lemma mesh_local_delivery:
  assumes "bitle_mesh_inbound env mt link buf st = (b, outs, st')" "x \<in> set outs" "out_packet x = Some q"
  shows "\<not> pk_opaque_only q \<and> \<not> pk_is_compressed q \<and> (is_broadcast_recipient q \<or> is_local_recipient env q)"
  using inbound_outs [OF assms(1,2)] assms(3) by (auto simp: local_out_def for_us_def out_packet_def)

end
