(* ===== verification/Mailbox_Store.thy ===== *)
theory Mailbox_Store
  imports Bitle_Interfaces "HOL-Library.Multiset"
begin

text \<open>
  The flash mailbox of \<open>main/bitle_store.c\<close>: a ring of erase sectors holding appended records,
  and an index in RAM. The flash partition is a parameter, the record \<open>flash\<close> of the
  \<open>esp_partition_*\<close> calls the code makes, and so is the ROM's CRC function; what the code relies
  on is the predicate \<open>flash_works\<close> (reads return the bytes, programming only clears bits,
  erasing sets them). A call that never returns, because a loop does not end or because the
  non-recursive mutex \<open>s_lock\<close> is already held, has the value \<open>None\<close>. Partition offsets are
  natural numbers: the partition has 384 KiB, far from the wrap of \<open>uint32_t\<close>. Sector
  sequence numbers are 32-bit words.
\<close>

section \<open>The flash partition\<close>

record 'f flash =
  fl_size :: nat
  fl_read :: "'f \<Rightarrow> nat \<Rightarrow> nat \<Rightarrow> bytes option"
  fl_write :: "'f \<Rightarrow> nat \<Rightarrow> bytes \<Rightarrow> esp_err \<times> 'f"
  fl_erase :: "'f \<Rightarrow> nat \<Rightarrow> nat \<Rightarrow> esp_err \<times> 'f"

type_synonym crc_fun = "u32 \<Rightarrow> bytes \<Rightarrow> u32"

text \<open>Packed structures are stored as the processor keeps them, the low byte first.\<close>

definition le_enc :: "nat \<Rightarrow> 'a::len word \<Rightarrow> bytes" where
  "le_enc n w = rev (be_enc n w)"

definition le_val :: "bytes \<Rightarrow> 'a::len word" where
  "le_val bs = be_val (rev bs)"

section \<open>Layout\<close>

definition BITLE_STORE_KEY_LEN :: nat where "BITLE_STORE_KEY_LEN = 16"
definition BITLE_STORE_PAYLOAD_MAX :: nat where "BITLE_STORE_PAYLOAD_MAX = 520"
definition BITLE_STORE_MAX_RECORDS :: nat where "BITLE_STORE_MAX_RECORDS = 256"
definition STORE_SECTOR_SIZE :: nat where "STORE_SECTOR_SIZE = 4096"
definition STORE_RECORD_MAGIC :: u16 where "STORE_RECORD_MAGIC = 0xB17E"
definition STORE_SECTOR_MAGIC :: u32 where "STORE_SECTOR_MAGIC = 0x53544F52"
definition STORE_ALIVE_OFFSET :: nat where "STORE_ALIVE_OFFSET = 4"

text \<open>\<open>sizeof\<close> of the two packed headers.\<close>

abbreviation rec_hdr_len :: nat where "rec_hdr_len \<equiv> 32"
abbreviation sector_hdr_len :: nat where "sector_hdr_len \<equiv> 8"

record store_record_hdr =
  rh_magic :: u16
  rh_payload_len :: u16
  rh_alive :: u8
  rh_flags :: u8
  rh_reserved :: u16
  rh_expiry :: u32
  rh_key :: bytes
  rh_crc :: u32

definition hdr_bytes :: "store_record_hdr \<Rightarrow> bytes" where
  "hdr_bytes h = le_enc 2 (rh_magic h) @ le_enc 2 (rh_payload_len h) @ [rh_alive h] @ [rh_flags h] @
     le_enc 2 (rh_reserved h) @ le_enc 4 (rh_expiry h) @ rh_key h @ le_enc 4 (rh_crc h)"

definition hdr_of_bytes :: "bytes \<Rightarrow> store_record_hdr" where
  "hdr_of_bytes bs = \<lparr> rh_magic = le_val (bslice 0 2 bs), rh_payload_len = le_val (bslice 2 2 bs),
     rh_alive = bs ! 4, rh_flags = bs ! 5, rh_reserved = le_val (bslice 6 2 bs),
     rh_expiry = le_val (bslice 8 4 bs), rh_key = bslice 12 16 bs, rh_crc = le_val (bslice 28 4 bs) \<rparr>"

record store_sector_hdr =
  sh_magic :: u32
  sh_seq :: u32

definition shdr_bytes :: "store_sector_hdr \<Rightarrow> bytes" where
  "shdr_bytes h = le_enc 4 (sh_magic h) @ le_enc 4 (sh_seq h)"

definition shdr_of_bytes :: "bytes \<Rightarrow> store_sector_hdr" where
  "shdr_of_bytes bs = \<lparr> sh_magic = le_val (bslice 0 4 bs), sh_seq = le_val (bslice 4 4 bs) \<rparr>"

record store_index_entry =
  ie_key :: bytes
  ie_offset :: nat
  ie_expiry :: u32
  ie_seq :: u32

text \<open>
  The static variables; \<open>s_part\<close> tells whether the partition was found, \<open>s_locked\<close> whether
  the mutex is held, and \<open>s_index\<close> is the used prefix of the index array.
\<close>

record 'f store =
  s_part :: bool
  s_locked :: bool
  s_flash :: 'f
  s_index :: "store_index_entry list"
  s_write_off :: nat
  s_next_seq :: u32
  s_head_seq :: u32

section \<open>Helpers\<close>

definition now_unix_s :: "u64 \<Rightarrow> u32" where
  "now_unix_s now_ms = ucast (now_ms div 1000)"

definition sector_base :: "nat \<Rightarrow> nat" where
  "sector_base off = off - off mod STORE_SECTOR_SIZE"

definition record_crc :: "crc_fun \<Rightarrow> store_record_hdr \<Rightarrow> bytes \<Rightarrow> u32" where
  "record_crc crc h payload =
     (let c1 = crc 0 (le_enc 2 (rh_payload_len h));
          c2 = crc c1 [rh_flags h];
          c3 = crc c2 (le_enc 4 (rh_expiry h));
          c4 = crc c3 (rh_key h)
      in crc c4 (take (unat (rh_payload_len h)) payload))"

definition index_remove_at :: "nat \<Rightarrow> 'a list \<Rightarrow> 'a list" where
  "index_remove_at i idx = butlast (idx[i := last idx])"

definition index_find :: "bytes \<Rightarrow> store_index_entry list \<Rightarrow> nat option" where
  "index_find key idx = find_index (\<lambda>e. ie_key e = key) idx"

definition tombstone_at :: "'f flash \<Rightarrow> nat \<Rightarrow> 'f \<Rightarrow> 'f" where
  "tombstone_at fl record_off f = snd (fl_write fl f (record_off + STORE_ALIVE_OFFSET) [0])"

definition read_shdr :: "'f flash \<Rightarrow> 'f \<Rightarrow> nat \<Rightarrow> store_sector_hdr option" where
  "read_shdr fl f base = map_option shdr_of_bytes (fl_read fl f base sector_hdr_len)"

definition read_hdr :: "'f flash \<Rightarrow> 'f \<Rightarrow> nat \<Rightarrow> store_record_hdr option" where
  "read_hdr fl f off = map_option hdr_of_bytes (fl_read fl f off rec_hdr_len)"

text \<open>The bases a loop over the sectors of the partition visits.\<close>

definition sector_bases :: "'f flash \<Rightarrow> nat list" where
  "sector_bases fl = map (\<lambda>i. i * STORE_SECTOR_SIZE) [0..<(fl_size fl + STORE_SECTOR_SIZE - 1) div STORE_SECTOR_SIZE]"

lemma length_index_remove_at [simp]: "length (index_remove_at i idx) = length idx - 1"
  by (simp add: index_remove_at_def)

text \<open>The loop that drops the entries of a sector, removing in place.\<close>

function drop_loop :: "nat \<Rightarrow> nat \<Rightarrow> store_index_entry list \<Rightarrow> store_index_entry list" where
  "drop_loop base i idx =
     (if i < length idx
      then if sector_base (ie_offset (idx ! i)) = base
           then drop_loop base i (index_remove_at i idx)
           else drop_loop base (Suc i) idx
      else idx)"
  by auto
termination
  by (relation "measure (\<lambda>(base, i, idx). length idx - i)") auto

definition index_drop_sector :: "nat \<Rightarrow> store_index_entry list \<Rightarrow> store_index_entry list" where
  "index_drop_sector base idx = drop_loop base 0 idx"

section \<open>The ring of sectors\<close>

definition oldest_step :: "'f flash \<Rightarrow> 'f store \<Rightarrow> nat \<Rightarrow> u32 \<times> nat option \<Rightarrow> u32 \<times> nat option" where
  "oldest_step fl s base acc =
     (case read_shdr fl (s_flash s) base of
        None \<Rightarrow> acc
      | Some h \<Rightarrow>
          if sh_magic h = STORE_SECTOR_MAGIC \<and> sh_seq h < fst acc \<and> base \<noteq> sector_base (s_write_off s)
          then (sh_seq h, Some base) else acc)"

definition oldest_sector :: "'f flash \<Rightarrow> 'f store \<Rightarrow> nat option" where
  "oldest_sector fl s = snd (fold (oldest_step fl s) (sector_bases fl) (0xFFFFFFFF, None))"

definition reclaim_oldest_sector :: "'f flash \<Rightarrow> 'f store \<Rightarrow> bool \<times> 'f store" where
  "reclaim_oldest_sector fl s =
     (case oldest_sector fl s of
        None \<Rightarrow> (False, s)
      | Some base \<Rightarrow>
          (True, s \<lparr> s_index := index_drop_sector base (s_index s),
                     s_flash := snd (fl_erase fl (s_flash s) base STORE_SECTOR_SIZE) \<rparr>))"

definition open_sector :: "'f flash \<Rightarrow> nat \<Rightarrow> 'f store \<Rightarrow> esp_err \<times> 'f store" where
  "open_sector fl base s =
     (let idx = (case read_shdr fl (s_flash s) base of
                   None \<Rightarrow> s_index s
                 | Some h \<Rightarrow> if sh_magic h = STORE_SECTOR_MAGIC then index_drop_sector base (s_index s)
                             else s_index s);
          (err, f1) = fl_erase fl (s_flash s) base STORE_SECTOR_SIZE;
          s1 = s \<lparr> s_index := idx, s_flash := f1 \<rparr>
      in if err \<noteq> ESP_OK then (err, s1)
         else let seq = s_next_seq s;
                  (err', f2) = fl_write fl f1 base
                     (shdr_bytes \<lparr> sh_magic = STORE_SECTOR_MAGIC, sh_seq = seq \<rparr>);
                  s2 = s1 \<lparr> s_next_seq := seq + 1, s_head_seq := seq, s_flash := f2 \<rparr>
              in if err' \<noteq> ESP_OK then (err', s2)
                 else (ESP_OK, s2 \<lparr> s_write_off := base + sector_hdr_len \<rparr>))"

text \<open>The two loops of \<open>bitle_store_put\<close>: the quota, and the search for room.\<close>

partial_function (option) evict_loop :: "'f flash \<Rightarrow> 'f store \<Rightarrow> (bool \<times> 'f store) option" where
  "evict_loop fl s =
     (if length (s_index s) < BITLE_STORE_MAX_RECORDS then Some (True, s)
      else let (more, s') = reclaim_oldest_sector fl s
           in if more then evict_loop fl s' else Some (False, s'))"

definition wrap_head :: "'f flash \<Rightarrow> 'f store \<Rightarrow> esp_err \<times> 'f store" where
  "wrap_head fl s = (if fl_size fl \<le> s_write_off s then open_sector fl 0 s else (ESP_OK, s))"

definition head_fits :: "nat \<Rightarrow> 'f store \<Rightarrow> bool" where
  "head_fits need s = (let base = sector_base (s_write_off s)
     in s_write_off s \<noteq> base \<and> s_write_off s + need \<le> base + STORE_SECTOR_SIZE)"

definition next_base :: "'f flash \<Rightarrow> 'f store \<Rightarrow> nat" where
  "next_base fl s = (let base = sector_base (s_write_off s);
       next = (if s_write_off s = base then base else base + STORE_SECTOR_SIZE)
     in if fl_size fl \<le> next then 0 else next)"

partial_function (option) head_loop :: "'f flash \<Rightarrow> nat \<Rightarrow> 'f store \<Rightarrow> (esp_err \<times> 'f store) option" where
  "head_loop fl need s =
     (let (err, s1) = wrap_head fl s
      in if err \<noteq> ESP_OK then Some (err, s1)
         else if head_fits need s1 then Some (ESP_OK, s1)
         else let (err', s2) = open_sector fl (next_base fl s1) s1
              in if err' \<noteq> ESP_OK then Some (err', s2) else head_loop fl need s2)"

section \<open>Operations\<close>

text \<open>The write of a record at the head, once there is room.\<close>

definition new_hdr :: "crc_fun \<Rightarrow> bytes \<Rightarrow> u32 \<Rightarrow> u8 \<Rightarrow> bytes \<Rightarrow> store_record_hdr" where
  "new_hdr crc key expiry flags payload =
     (let h = \<lparr> rh_magic = STORE_RECORD_MAGIC, rh_payload_len = of_nat (length payload),
                rh_alive = 0xFF, rh_flags = flags, rh_reserved = 0xFFFF, rh_expiry = expiry,
                rh_key = key, rh_crc = 0 \<rparr>
      in h \<lparr> rh_crc := record_crc crc h payload \<rparr>)"

definition append_record ::
  "'f flash \<Rightarrow> crc_fun \<Rightarrow> bytes \<Rightarrow> u32 \<Rightarrow> u8 \<Rightarrow> bytes \<Rightarrow> 'f store \<Rightarrow> esp_err \<times> 'f store" where
  "append_record fl crc key expiry flags payload s =
     (let off = s_write_off s;
          (err, f1) = fl_write fl (s_flash s) off (hdr_bytes (new_hdr crc key expiry flags payload))
      in if err \<noteq> ESP_OK then (err, s \<lparr> s_flash := f1 \<rparr>)
         else let (err', f2) = fl_write fl f1 (off + rec_hdr_len) payload
              in if err' \<noteq> ESP_OK then (err', s \<lparr> s_flash := f2 \<rparr>)
                 else (ESP_OK, s \<lparr> s_flash := f2, s_write_off := off + (rec_hdr_len + length payload),
                         s_index := s_index s @ [\<lparr> ie_key = key, ie_offset = off, ie_expiry = expiry,
                                                  ie_seq = s_head_seq s \<rparr>] \<rparr>))"

definition drop_key :: "'f flash \<Rightarrow> bytes \<Rightarrow> 'f store \<Rightarrow> 'f store" where
  "drop_key fl key s =
     (case index_find key (s_index s) of
        None \<Rightarrow> s
      | Some i \<Rightarrow> s \<lparr> s_flash := tombstone_at fl (ie_offset (s_index s ! i)) (s_flash s),
                      s_index := index_remove_at i (s_index s) \<rparr>)"

definition bitle_store_put ::
  "'f flash \<Rightarrow> crc_fun \<Rightarrow> bytes \<Rightarrow> u32 \<Rightarrow> u8 \<Rightarrow> bytes \<Rightarrow> 'f store \<Rightarrow> (esp_err \<times> 'f store) option" where
  "bitle_store_put fl crc key expiry flags payload s =
     (if \<not> s_part s \<or> payload = [] \<or> BITLE_STORE_PAYLOAD_MAX < length payload
      then Some (ESP_ERR_INVALID_ARG, s)
      else if s_locked s then None
      else Option.bind (evict_loop fl (drop_key fl key s)) (\<lambda>(room, s1).
             if \<not> room then Some (ESP_ERR_NO_MEM, s1)
             else Option.bind (head_loop fl (rec_hdr_len + length payload) s1) (\<lambda>(err, s2).
                    if err \<noteq> ESP_OK then Some (err, s2)
                    else Some (append_record fl crc key expiry flags payload s2))))"

text \<open>
  The callback of an iteration sees the store with its mutex held, and may itself never return.
\<close>

type_synonym ('f, 'a) store_cb = "bytes \<Rightarrow> u32 \<Rightarrow> u8 \<Rightarrow> bytes \<Rightarrow> 'f store \<Rightarrow> 'a \<Rightarrow> (bool \<times> 'a) option"

definition entry_expired :: "u32 \<Rightarrow> u32 \<Rightarrow> bool" where
  "entry_expired now expiry \<longleftrightarrow> expiry \<noteq> 0 \<and> expiry < now"

definition read_record :: "'f flash \<Rightarrow> 'f \<Rightarrow> nat \<Rightarrow> (store_record_hdr \<times> bytes) option" where
  "read_record fl f off =
     (case read_hdr fl f off of
        None \<Rightarrow> None
      | Some h \<Rightarrow>
          if rh_magic h \<noteq> STORE_RECORD_MAGIC \<or> BITLE_STORE_PAYLOAD_MAX < unat (rh_payload_len h) then None
          else map_option (\<lambda>p. (h, p)) (fl_read fl f (off + rec_hdr_len) (unat (rh_payload_len h))))"

function iterate_loop ::
  "'f flash \<Rightarrow> u32 \<Rightarrow> ('f, 'a) store_cb \<Rightarrow> nat \<Rightarrow> 'f store \<Rightarrow> 'a \<Rightarrow> ('f store \<times> 'a) option" where
  "iterate_loop fl now cb i s arg =
     (if i < length (s_index s)
      then let e = s_index s ! i
           in if entry_expired now (ie_expiry e)
              then iterate_loop fl now cb i
                     (s \<lparr> s_flash := tombstone_at fl (ie_offset e) (s_flash s),
                          s_index := index_remove_at i (s_index s) \<rparr>) arg
              else (case read_record fl (s_flash s) (ie_offset e) of
                      None \<Rightarrow> iterate_loop fl now cb i (s \<lparr> s_index := index_remove_at i (s_index s) \<rparr>) arg
                    | Some (h, payload) \<Rightarrow>
                        (case cb (ie_key e) (rh_expiry h) (rh_flags h) payload s arg of
                           None \<Rightarrow> None
                         | Some (keep_going, arg') \<Rightarrow>
                             if keep_going then iterate_loop fl now cb (Suc i) s arg' else Some (s, arg')))
      else Some (s, arg))"
  by pat_completeness auto
termination
  by (relation "measure (\<lambda>(fl, now, cb, i, s, arg). length (s_index s) - i)") auto

definition bitle_store_iterate ::
  "'f flash \<Rightarrow> u64 \<Rightarrow> ('f, 'a) store_cb \<Rightarrow> 'f store \<Rightarrow> 'a \<Rightarrow> ('f store \<times> 'a) option" where
  "bitle_store_iterate fl now_ms cb s arg =
     (if \<not> s_part s then Some (s, arg)
      else if s_locked s then None
      else map_option (\<lambda>(s', a). (s' \<lparr> s_locked := False \<rparr>, a))
             (iterate_loop fl (now_unix_s now_ms) cb 0 (s \<lparr> s_locked := True \<rparr>) arg))"

definition bitle_store_delete :: "'f flash \<Rightarrow> bytes \<Rightarrow> 'f store \<Rightarrow> 'f store option" where
  "bitle_store_delete fl key s =
     (if \<not> s_part s then Some s else if s_locked s then None else Some (drop_key fl key s))"

definition bitle_store_contains :: "bytes \<Rightarrow> 'f store \<Rightarrow> bool option" where
  "bitle_store_contains key s =
     (if \<not> s_part s then Some False
      else if s_locked s then None else Some (index_find key (s_index s) \<noteq> None))"

definition bitle_store_count :: "'f store \<Rightarrow> nat" where
  "bitle_store_count s = length (s_index s)"

section \<open>Boot\<close>

text \<open>A record the boot scan accepts: readable, of plausible length, with a matching CRC.\<close>

definition scan_hdr :: "'f flash \<Rightarrow> 'f \<Rightarrow> nat \<Rightarrow> store_record_hdr option" where
  "scan_hdr fl f off =
     (case read_hdr fl f off of
        None \<Rightarrow> None
      | Some h \<Rightarrow>
          if rh_magic h \<noteq> STORE_RECORD_MAGIC \<or> rh_payload_len h = 0 \<or>
             BITLE_STORE_PAYLOAD_MAX < unat (rh_payload_len h)
          then None else Some h)"

definition scan_record :: "'f flash \<Rightarrow> crc_fun \<Rightarrow> 'f \<Rightarrow> nat \<Rightarrow> store_record_hdr option" where
  "scan_record fl crc f off =
     (case scan_hdr fl f off of
        None \<Rightarrow> None
      | Some h \<Rightarrow>
          (case fl_read fl f (off + rec_hdr_len) (unat (rh_payload_len h)) of
             None \<Rightarrow> None
           | Some payload \<Rightarrow> if record_crc crc h payload = rh_crc h then Some h else None))"

definition index_record ::
  "u32 \<Rightarrow> u32 \<Rightarrow> nat \<Rightarrow> store_record_hdr \<Rightarrow> store_index_entry list \<Rightarrow> store_index_entry list" where
  "index_record now seq off h idx =
     (if rh_alive h = 0xFF \<and> \<not> entry_expired now (rh_expiry h) \<and> length idx < BITLE_STORE_MAX_RECORDS
      then let e = \<lparr> ie_key = rh_key h, ie_offset = off, ie_expiry = rh_expiry h, ie_seq = seq \<rparr>
           in (case index_find (rh_key h) idx of
                 Some dup \<Rightarrow> if seq \<le> ie_seq (idx ! dup) then idx else idx[dup := e]
               | None \<Rightarrow> idx @ [e])
      else idx)"

function rebuild_walk ::
  "'f flash \<Rightarrow> crc_fun \<Rightarrow> 'f \<Rightarrow> u32 \<Rightarrow> nat \<Rightarrow> u32 \<Rightarrow> nat \<Rightarrow> store_index_entry list \<Rightarrow> store_index_entry list" where
  "rebuild_walk fl crc f now base seq off idx =
     (if off + rec_hdr_len \<le> base + STORE_SECTOR_SIZE
      then case scan_record fl crc f off of
             None \<Rightarrow> idx
           | Some h \<Rightarrow> rebuild_walk fl crc f now base seq (off + (rec_hdr_len + unat (rh_payload_len h)))
                         (index_record now seq off h idx)
      else idx)"
  by pat_completeness auto
termination
  by (relation "measure (\<lambda>(fl, crc, f, now, base, seq, off, idx). base + STORE_SECTOR_SIZE - off)") auto

function resume_walk :: "'f flash \<Rightarrow> 'f \<Rightarrow> nat \<Rightarrow> nat \<Rightarrow> nat" where
  "resume_walk fl f base off =
     (if off + rec_hdr_len \<le> base + STORE_SECTOR_SIZE
      then case scan_hdr fl f off of
             None \<Rightarrow> off
           | Some h \<Rightarrow> resume_walk fl f base (off + (rec_hdr_len + unat (rh_payload_len h)))
      else off)"
  by pat_completeness auto
termination
  by (relation "measure (\<lambda>(fl, f, base, off). base + STORE_SECTOR_SIZE - off)") auto

definition rebuild_sector ::
  "'f flash \<Rightarrow> crc_fun \<Rightarrow> 'f \<Rightarrow> u32 \<Rightarrow> nat \<Rightarrow> u32 \<times> nat option \<times> store_index_entry list
     \<Rightarrow> u32 \<times> nat option \<times> store_index_entry list" where
  "rebuild_sector fl crc f now base acc =
     (case acc of (newest_seq, newest_base, idx) \<Rightarrow>
       (case read_shdr fl f base of
          None \<Rightarrow> acc
        | Some sh \<Rightarrow>
            if sh_magic sh \<noteq> STORE_SECTOR_MAGIC then acc
            else let (q, b) = (if newest_seq \<le> sh_seq sh then (sh_seq sh, Some base) else (newest_seq, newest_base))
                 in (q, b, rebuild_walk fl crc f now base (sh_seq sh) (base + sector_hdr_len) idx)))"

definition store_static :: "'f \<Rightarrow> 'f store" where
  "store_static f = \<lparr> s_part = False, s_locked = False, s_flash = f, s_index = [], s_write_off = 0,
     s_next_seq = 0, s_head_seq = 0 \<rparr>"

text \<open>
  \<open>found\<close> is whether the partition table has the partition, \<open>lock_ok\<close> whether the mutex
  could be allocated. The static variables are zero when the code calls it, once, at start-up.
\<close>

definition bitle_store_init ::
  "'f flash \<Rightarrow> crc_fun \<Rightarrow> bool \<Rightarrow> bool \<Rightarrow> u64 \<Rightarrow> 'f store \<Rightarrow> esp_err \<times> 'f store" where
  "bitle_store_init fl crc found lock_ok now_ms s =
     (if \<not> found then (ESP_ERR_NOT_FOUND, s \<lparr> s_part := False \<rparr>)
      else let s1 = s \<lparr> s_part := True \<rparr> in
        if \<not> lock_ok then (ESP_ERR_NO_MEM, s1)
        else let (newest_seq, newest_base, idx) =
                   fold (rebuild_sector fl crc (s_flash s1) (now_unix_s now_ms)) (sector_bases fl)
                     (0, None, s_index s1);
                 s2 = s1 \<lparr> s_index := idx, s_next_seq := newest_seq + 1 \<rparr>
             in case newest_base of
                  None \<Rightarrow> open_sector fl 0 s2
                | Some nb \<Rightarrow> (ESP_OK, s2 \<lparr> s_write_off := resume_walk fl (s_flash s2) nb (nb + sector_hdr_len),
                                           s_head_seq := newest_seq \<rparr>))"

declare drop_loop.simps [simp del] iterate_loop.simps [simp del]
  rebuild_walk.simps [simp del] resume_walk.simps [simp del]

section \<open>Layout lemmas\<close>

lemma length_le_enc [simp]: "length (le_enc n w) = n"
  by (simp add: le_enc_def)

lemma le_val_enc: "LENGTH('a) \<le> 8 * n \<Longrightarrow> le_val (le_enc n w) = (w :: 'a::len word)"
  by (simp add: le_val_def le_enc_def be_val_enc)

lemma le_val_enc_fields [simp]:
  "le_val (le_enc 2 (w :: u16)) = w" "le_val (le_enc 4 (v :: u32)) = v"
  by (simp_all add: le_val_enc)

lemma length_hdr_bytes [simp]: "length (rh_key h) = 16 \<Longrightarrow> length (hdr_bytes h) = 32"
  by (simp add: hdr_bytes_def)

lemma length_shdr_bytes [simp]: "length (shdr_bytes h) = 8"
  by (simp add: shdr_bytes_def)

lemma bslice_skip: "length xs \<le> off \<Longrightarrow> bslice off n (xs @ ys) = bslice (off - length xs) n ys"
  by (simp add: bslice_def)

lemma bslice_here: "length xs = n \<Longrightarrow> bslice 0 n (xs @ ys) = xs"
  by (simp add: bslice_def)

lemma bslice_all: "length xs = n \<Longrightarrow> bslice 0 n xs = xs"
  by (simp add: bslice_def)

lemma bslice_Cons: "0 < off \<Longrightarrow> bslice off n (x # xs) = bslice (off - 1) n xs"
  by (simp add: bslice_def drop_Cons')

lemma nth_skip: "length xs \<le> i \<Longrightarrow> (xs @ ys) ! i = ys ! (i - length xs)"
  by (simp add: nth_append)

lemmas layout_simps = bslice_skip bslice_here bslice_all bslice_Cons nth_skip

lemma hdr_roundtrip: "length (rh_key h) = 16 \<Longrightarrow> hdr_of_bytes (hdr_bytes h) = h"
  by (simp add: hdr_of_bytes_def hdr_bytes_def layout_simps del: bslice_0)

lemma shdr_roundtrip: "shdr_of_bytes (shdr_bytes h) = h"
  by (simp add: shdr_of_bytes_def shdr_bytes_def layout_simps del: bslice_0)

section \<open>The index array\<close>

lemma mset_butlast: "xs \<noteq> [] \<Longrightarrow> mset (butlast xs) = mset xs - {#last xs#}"
  by (cases xs rule: rev_cases) auto

lemma mset_index_remove_at:
  assumes "i < length idx"
  shows "mset (index_remove_at i idx) = mset idx - {#idx ! i#}"
proof -
  have "idx \<noteq> []" using assms by auto
  then have l: "last (idx[i := last idx]) = last idx"
    by (simp add: last_conv_nth nth_upd)
  show ?thesis
    using assms \<open>idx \<noteq> []\<close> unfolding index_remove_at_def
    by (subst mset_butlast) (auto simp: mset_update l)
qed

lemma mset_index_remove_at_add:
  "i < length idx \<Longrightarrow> add_mset (idx ! i) (mset (index_remove_at i idx)) = mset idx"
  by (simp add: mset_index_remove_at)

lemma set_index_remove_at_distinct:
  assumes "distinct idx" "i < length idx"
  shows "set (index_remove_at i idx) = set idx - {idx ! i}"
proof -
  have "set_mset (mset (index_remove_at i idx)) = set_mset (mset idx - {#idx ! i#})"
    by (simp add: mset_index_remove_at assms)
  moreover have "mset idx - {#idx ! i#} = mset_set (set idx - {idx ! i})"
    using assms by (simp add: mset_set_Diff mset_set_set)
  ultimately show ?thesis by simp
qed

lemma mset_drop_loop:
  "\<forall>j < i. sector_base (ie_offset (idx ! j)) \<noteq> base \<Longrightarrow> i \<le> length idx \<Longrightarrow>
   mset (drop_loop base i idx) = filter_mset (\<lambda>e. sector_base (ie_offset e) \<noteq> base) (mset idx)"
proof (induction base i idx rule: drop_loop.induct)
  case (1 base i idx)
  show ?case
  proof (cases "i < length idx")
    case False
    then have "\<forall>e \<in> set idx. sector_base (ie_offset e) \<noteq> base"
      using "1.prems" by (metis in_set_conv_nth le_antisym linorder_not_less)
    then have "filter_mset (\<lambda>e. sector_base (ie_offset e) \<noteq> base) (mset idx) = filter_mset (\<lambda>_. True) (mset idx)"
      by (intro filter_mset_cong) auto
    then show ?thesis using False by (simp add: drop_loop.simps [of base i])
  next
    case True
    let ?d = "index_remove_at i idx"
    show ?thesis
    proof (cases "sector_base (ie_offset (idx ! i)) = base")
      case hit: True
      have "\<forall>j < i. ?d ! j = idx ! j"
        using True by (simp add: index_remove_at_def nth_butlast nth_upd)
      then have "mset (drop_loop base i ?d) = filter_mset (\<lambda>e. sector_base (ie_offset e) \<noteq> base) (mset ?d)"
        using "1.IH"(1) [OF True hit] "1.prems" True by simp
      also have "\<dots> = filter_mset (\<lambda>e. sector_base (ie_offset e) \<noteq> base) (mset idx)"
        using hit by (subst mset_index_remove_at_add [OF True, symmetric]) simp
      finally show ?thesis using True hit by (simp add: drop_loop.simps [of base i])
    next
      case False
      then show ?thesis
        using "1.IH"(2) [OF True False] "1.prems" True by (simp add: drop_loop.simps [of base i] less_Suc_eq)
    qed
  qed
qed

lemma mset_index_drop_sector:
  "mset (index_drop_sector base idx) = filter_mset (\<lambda>e. sector_base (ie_offset e) \<noteq> base) (mset idx)"
  by (simp add: index_drop_sector_def mset_drop_loop)

lemma set_index_drop_sector [simp]:
  "set (index_drop_sector base idx) = {e \<in> set idx. sector_base (ie_offset e) \<noteq> base}"
  using arg_cong [OF mset_index_drop_sector, of set_mset base idx] by simp

lemma length_index_drop_sector: "length (index_drop_sector base idx) \<le> length idx"
  using arg_cong [OF mset_index_drop_sector, of size base idx] size_filter_mset_lesseq [of _ "mset idx"]
  by simp

lemma distinct_index_drop_sector:
  assumes "distinct (map ie_key idx)"
  shows "distinct (map ie_key (index_drop_sector base idx))"
proof -
  have "mset (map ie_key (index_drop_sector base idx)) =
        mset (map ie_key (filter (\<lambda>e. sector_base (ie_offset e) \<noteq> base) idx))"
    by (simp add: mset_index_drop_sector)
  then show ?thesis
    using distinct_map_filter [OF assms] mset_eq_imp_distinct_iff by blast
qed

lemma distinct_index_remove_at:
  assumes "distinct (map ie_key idx)" "i < length idx"
  shows "distinct (map ie_key (index_remove_at i idx))"
proof -
  have "mset (map ie_key idx) = mset (ie_key (idx ! i) # map ie_key (index_remove_at i idx))"
    using arg_cong [OF mset_index_remove_at_add [OF assms(2)], of "image_mset ie_key"] by simp
  then have "distinct (ie_key (idx ! i) # map ie_key (index_remove_at i idx))"
    using assms(1) mset_eq_imp_distinct_iff by blast
  then show ?thesis by simp
qed

lemma set_index_remove_at:
  assumes "distinct (map ie_key idx)" "i < length idx"
  shows "set (index_remove_at i idx) = {e \<in> set idx. ie_key e \<noteq> ie_key (idx ! i)}"
proof -
  have "set (index_remove_at i idx) = set idx - {idx ! i}"
    using assms by (intro set_index_remove_at_distinct) (auto simp: distinct_map)
  then show ?thesis using assms by (auto simp: distinct_map inj_on_def)
qed

lemma index_find_Some:
  assumes "distinct (map ie_key idx)"
  shows "index_find k idx = Some i \<longleftrightarrow> i < length idx \<and> ie_key (idx ! i) = k"
  using assms unfolding index_find_def find_index_Some
  by (auto simp: distinct_map inj_on_def distinct_conv_nth)

lemma index_find_None: "index_find k idx = None \<longleftrightarrow> k \<notin> ie_key ` set idx"
  by (auto simp: index_find_def find_index_None)

section \<open>A working flash\<close>

text \<open>
  What the code relies on of \<open>esp_partition_read\<close>, \<open>esp_partition_write\<close> and
  \<open>esp_partition_erase_range\<close> on NOR flash: inside the partition they succeed, a read returns the
  bytes, programming can only clear bits, erasing sets every bit, and bytes outside the range are
  untouched. The partition is a whole number of sectors.
\<close>

definition fl_byte :: "'f flash \<Rightarrow> 'f \<Rightarrow> nat \<Rightarrow> u8" where
  "fl_byte fl f a = (case fl_read fl f a 1 of Some (b # _) \<Rightarrow> b | _ \<Rightarrow> 0)"

definition flash_works :: "'f flash \<Rightarrow> bool" where
  "flash_works fl \<longleftrightarrow> 0 < fl_size fl \<and> STORE_SECTOR_SIZE dvd fl_size fl \<and>
     (\<forall>f off n. off + n \<le> fl_size fl \<longrightarrow> fl_read fl f off n = Some (map (fl_byte fl f) [off..<off + n])) \<and>
     (\<forall>f off bs. off + length bs \<le> fl_size fl \<longrightarrow> fst (fl_write fl f off bs) = ESP_OK \<and>
        (\<forall>a < fl_size fl. fl_byte fl (snd (fl_write fl f off bs)) a =
           (if off \<le> a \<and> a < off + length bs then fl_byte fl f a AND bs ! (a - off) else fl_byte fl f a))) \<and>
     (\<forall>f off n. off + n \<le> fl_size fl \<longrightarrow> fst (fl_erase fl f off n) = ESP_OK \<and>
        (\<forall>a < fl_size fl. fl_byte fl (snd (fl_erase fl f off n)) a =
           (if off \<le> a \<and> a < off + n then 0xFF else fl_byte fl f a)))"

lemma fl_read_works:
  "flash_works fl \<Longrightarrow> off + n \<le> fl_size fl \<Longrightarrow> fl_read fl f off n = Some (map (fl_byte fl f) [off..<off + n])"
  by (simp add: flash_works_def)

lemma fl_write_ok: "flash_works fl \<Longrightarrow> off + length bs \<le> fl_size fl \<Longrightarrow> fst (fl_write fl f off bs) = ESP_OK"
  by (simp add: flash_works_def)

lemma fl_write_byte:
  "flash_works fl \<Longrightarrow> off + length bs \<le> fl_size fl \<Longrightarrow> a < fl_size fl \<Longrightarrow>
   fl_byte fl (snd (fl_write fl f off bs)) a =
     (if off \<le> a \<and> a < off + length bs then fl_byte fl f a AND bs ! (a - off) else fl_byte fl f a)"
  by (simp add: flash_works_def)

lemma fl_erase_ok: "flash_works fl \<Longrightarrow> off + n \<le> fl_size fl \<Longrightarrow> fst (fl_erase fl f off n) = ESP_OK"
  by (simp add: flash_works_def)

lemma fl_erase_byte:
  "flash_works fl \<Longrightarrow> off + n \<le> fl_size fl \<Longrightarrow> a < fl_size fl \<Longrightarrow>
   fl_byte fl (snd (fl_erase fl f off n)) a = (if off \<le> a \<and> a < off + n then 0xFF else fl_byte fl f a)"
  by (simp add: flash_works_def)

text \<open>The bytes of a range, and two contents that agree on one.\<close>

definition fl_range :: "'f flash \<Rightarrow> 'f \<Rightarrow> nat \<Rightarrow> nat \<Rightarrow> bytes" where
  "fl_range fl f off n = map (fl_byte fl f) [off..<off + n]"

definition fl_agree :: "'f flash \<Rightarrow> 'f \<Rightarrow> 'f \<Rightarrow> nat \<Rightarrow> nat \<Rightarrow> bool" where
  "fl_agree fl f f' a b \<longleftrightarrow> (\<forall>i. a \<le> i \<and> i < b \<longrightarrow> fl_byte fl f' i = fl_byte fl f i)"

definition fl_blank :: "'f flash \<Rightarrow> 'f \<Rightarrow> nat \<Rightarrow> nat \<Rightarrow> bool" where
  "fl_blank fl f a b \<longleftrightarrow> (\<forall>i. a \<le> i \<and> i < b \<longrightarrow> fl_byte fl f i = 0xFF)"

lemma length_fl_range [simp]: "length (fl_range fl f off n) = n"
  by (simp add: fl_range_def)

lemma fl_range_cong: "fl_agree fl f f' off (off + n) \<Longrightarrow> fl_range fl f' off n = fl_range fl f off n"
  by (auto simp: fl_range_def fl_agree_def)

lemma fl_agree_sub: "fl_agree fl f f' a b \<Longrightarrow> a \<le> a' \<Longrightarrow> b' \<le> b \<Longrightarrow> fl_agree fl f f' a' b'"
  by (auto simp: fl_agree_def)

lemma fl_agree_trans: "fl_agree fl f f' a b \<Longrightarrow> fl_agree fl f' f'' a b \<Longrightarrow> fl_agree fl f f'' a b"
  by (auto simp: fl_agree_def)

lemma fl_blank_cong: "fl_agree fl f f' a b \<Longrightarrow> fl_blank fl f a b \<Longrightarrow> fl_blank fl f' a b"
  by (auto simp: fl_agree_def fl_blank_def)

lemma fl_blank_sub: "fl_blank fl f a b \<Longrightarrow> a \<le> a' \<Longrightarrow> b' \<le> b \<Longrightarrow> fl_blank fl f a' b'"
  by (auto simp: fl_blank_def)

lemma fl_write_agree:
  assumes "flash_works fl" "off + length bs \<le> fl_size fl" "b \<le> fl_size fl" "b \<le> off \<or> off + length bs \<le> a"
  shows "fl_agree fl f (snd (fl_write fl f off bs)) a b"
  using assms by (auto simp: fl_agree_def fl_write_byte)

lemma fl_erase_agree:
  assumes "flash_works fl" "off + n \<le> fl_size fl" "b \<le> fl_size fl" "b \<le> off \<or> off + n \<le> a"
  shows "fl_agree fl f (snd (fl_erase fl f off n)) a b"
  using assms by (auto simp: fl_agree_def fl_erase_byte)

lemma fl_erase_blank:
  assumes "flash_works fl" "off + n \<le> fl_size fl"
  shows "fl_blank fl (snd (fl_erase fl f off n)) off (off + n)"
  using assms by (auto simp: fl_blank_def fl_erase_byte)

lemma blank_and [simp]: "(0xFF :: u8) AND b = b"
proof -
  have "(0xFF :: u8) = - 1" by simp
  then show ?thesis by (simp only: and.left_neutral)
qed

lemma fl_range_write:
  assumes "flash_works fl" "off + length bs \<le> fl_size fl" "fl_blank fl f off (off + length bs)"
  shows "fl_range fl (snd (fl_write fl f off bs)) off (length bs) = bs"
  using assms by (intro nth_equalityI) (auto simp: fl_range_def fl_blank_def fl_write_byte)

lemma read_hdr_works:
  "flash_works fl \<Longrightarrow> off + 32 \<le> fl_size fl \<Longrightarrow> read_hdr fl f off = Some (hdr_of_bytes (fl_range fl f off 32))"
  by (simp add: read_hdr_def fl_read_works fl_range_def)

lemma read_shdr_works:
  "flash_works fl \<Longrightarrow> off + 8 \<le> fl_size fl \<Longrightarrow> read_shdr fl f off = Some (shdr_of_bytes (fl_range fl f off 8))"
  by (simp add: read_shdr_def fl_read_works fl_range_def)

section \<open>The log of a sector\<close>

definition rec_len :: "store_record_hdr \<Rightarrow> nat" where
  "rec_len h = rec_hdr_len + unat (rh_payload_len h)"

definition rec_payload :: "'f flash \<Rightarrow> 'f \<Rightarrow> nat \<Rightarrow> store_record_hdr \<Rightarrow> bytes" where
  "rec_payload fl f off h = fl_range fl f (off + rec_hdr_len) (unat (rh_payload_len h))"

definition rec_at :: "'f flash \<Rightarrow> crc_fun \<Rightarrow> 'f \<Rightarrow> nat \<Rightarrow> store_record_hdr \<Rightarrow> bool" where
  "rec_at fl crc f off h \<longleftrightarrow> h = hdr_of_bytes (fl_range fl f off rec_hdr_len) \<and>
     rh_magic h = STORE_RECORD_MAGIC \<and> rh_payload_len h \<noteq> 0 \<and>
     unat (rh_payload_len h) \<le> BITLE_STORE_PAYLOAD_MAX \<and>
     record_crc crc h (rec_payload fl f off h) = rh_crc h"

fun lseg :: "'f flash \<Rightarrow> crc_fun \<Rightarrow> 'f \<Rightarrow> nat \<Rightarrow> (nat \<times> store_record_hdr) list \<Rightarrow> nat \<Rightarrow> bool" where
  "lseg fl crc f off [] e \<longleftrightarrow> off = e"
| "lseg fl crc f off ((o', h) # rs) e \<longleftrightarrow>
     o' = off \<and> rec_at fl crc f off h \<and> lseg fl crc f (off + rec_len h) rs e"

text \<open>A sector's log: its records one after the other, and nothing but erased flash behind them.\<close>

definition log_ok :: "'f flash \<Rightarrow> crc_fun \<Rightarrow> 'f \<Rightarrow> nat \<Rightarrow> (nat \<times> store_record_hdr) list \<Rightarrow> nat \<Rightarrow> bool" where
  "log_ok fl crc f base rs e \<longleftrightarrow> lseg fl crc f (base + sector_hdr_len) rs e \<and>
     e \<le> base + STORE_SECTOR_SIZE \<and> fl_blank fl f e (base + STORE_SECTOR_SIZE)"

lemma rec_len_ge [simp]: "32 \<le> rec_len h"
  by (simp add: rec_len_def)

lemma rec_at_cong:
  assumes "fl_agree fl f f' off (off + rec_len h)" "rec_at fl crc f off h"
  shows "rec_at fl crc f' off h"
proof -
  have "fl_range fl f' off 32 = fl_range fl f off 32" "rec_payload fl f' off h = rec_payload fl f off h"
    unfolding rec_payload_def
    by (rule fl_range_cong, rule fl_agree_sub [OF assms(1)]; simp add: rec_len_def)+
  then show ?thesis using assms(2) unfolding rec_at_def by metis
qed

lemma lseg_le: "lseg fl crc f off rs e \<Longrightarrow> off \<le> e"
  by (induction rs arbitrary: off) (auto, fastforce)

lemma lseg_cong:
  "lseg fl crc f off rs e \<Longrightarrow> fl_agree fl f f' off e \<Longrightarrow> lseg fl crc f' off rs e"
proof (induction rs arbitrary: off)
  case (Cons r rs)
  obtain h where r: "r = (off, h)" using Cons.prems(1) by (cases r) auto
  have tl: "lseg fl crc f (off + rec_len h) rs e" using Cons.prems(1) r by simp
  have "fl_agree fl f f' off (off + rec_len h)" "fl_agree fl f f' (off + rec_len h) e"
    using lseg_le [OF tl] by (auto intro: fl_agree_sub [OF Cons.prems(2)])
  then show ?case using Cons.IH [OF tl] Cons.prems(1) r by (simp add: rec_at_cong)
qed simp

lemma lseg_snoc:
  "lseg fl crc f off rs e \<Longrightarrow> rec_at fl crc f e h \<Longrightarrow> lseg fl crc f off (rs @ [(e, h)]) (e + rec_len h)"
  by (induction rs arbitrary: off) auto

lemma lseg_mem:
  "lseg fl crc f off rs e \<Longrightarrow> (o', h) \<in> set rs \<Longrightarrow>
   rec_at fl crc f o' h \<and> off \<le> o' \<and> o' + rec_len h \<le> e"
proof (induction rs arbitrary: off)
  case (Cons r rs)
  obtain h' where r: "r = (off, h')" using Cons.prems(1) by (cases r) auto
  then have tl: "lseg fl crc f (off + rec_len h') rs e" using Cons.prems(1) by simp
  then show ?case using Cons lseg_le [OF tl] r by fastforce
qed simp

text \<open>Two records of a log are the same or do not overlap.\<close>

lemma lseg_disjoint:
  "lseg fl crc f off rs e \<Longrightarrow> (o1, h1) \<in> set rs \<Longrightarrow> (o2, h2) \<in> set rs \<Longrightarrow> o1 \<noteq> o2 \<Longrightarrow>
   o1 + rec_len h1 \<le> o2 \<or> o2 + rec_len h2 \<le> o1"
proof (induction rs arbitrary: off)
  case (Cons r rs)
  obtain h' where r: "r = (off, h')" using Cons.prems(1) by (cases r) auto
  then have tl: "lseg fl crc f (off + rec_len h') rs e" using Cons.prems(1) by simp
  show ?case
    using Cons.IH [OF tl] Cons.prems(2-4) r lseg_mem [OF tl, of o1 h1] lseg_mem [OF tl, of o2 h2] by auto
qed simp

lemma rec_at_unique: "rec_at fl crc f off h \<Longrightarrow> rec_at fl crc f off h' \<Longrightarrow> h = h'"
  by (simp add: rec_at_def)

lemma blank_no_rec: 
  assumes "fl_blank fl f off b" "off + 2 \<le> b"
  shows "\<not> rec_at fl crc f off h" "rh_magic (hdr_of_bytes (fl_range fl f off rec_hdr_len)) \<noteq> STORE_RECORD_MAGIC"
proof -
  have "bslice 0 2 (fl_range fl f off rec_hdr_len) = [fl_byte fl f off, fl_byte fl f (Suc off)]"
    by (rule nth_equalityI) (auto simp: fl_range_def less_2_cases_iff)
  also have "\<dots> = [0xFF, 0xFF]" using assms by (simp add: fl_blank_def)
  finally have "rh_magic (hdr_of_bytes (fl_range fl f off rec_hdr_len)) = le_val [0xFF, 0xFF]"
    by (simp add: hdr_of_bytes_def)
  then show m: "rh_magic (hdr_of_bytes (fl_range fl f off rec_hdr_len)) \<noteq> STORE_RECORD_MAGIC"
    by (simp add: le_val_def be_val_def STORE_RECORD_MAGIC_def)
  show "\<not> rec_at fl crc f off h" using m by (auto simp: rec_at_def)
qed

text \<open>The log of a sector is determined by its bytes.\<close>

lemma lseg_unique:
  assumes "lseg fl crc f off rs e" "fl_blank fl f e b" "e \<le> b"
    "lseg fl crc f off rs' e'" "fl_blank fl f e' b" "e' \<le> b"
  shows "rs = rs' \<and> e = e'"
  using assms
proof (induction rs arbitrary: off rs')
  case Nil
  show ?case
  proof (cases rs')
    case (Cons r rs'')
    then obtain h where "rec_at fl crc f e h" "lseg fl crc f (e + rec_len h) rs'' e'"
      using Nil by (cases r) auto
    moreover have "e + 2 \<le> b"
      using lseg_le [OF calculation(2)] Nil.prems(6) rec_len_ge [of h] by linarith
    ultimately show ?thesis using blank_no_rec(1) [OF Nil.prems(2)] by blast
  qed (use Nil in auto)
next
  case (Cons r rs)
  obtain h where r: "r = (off, h)" "rec_at fl crc f off h" "lseg fl crc f (off + rec_len h) rs e"
    using Cons.prems(1) by (cases r) auto
  show ?case
  proof (cases rs')
    case n: Nil
    have "off + 2 \<le> b"
      using lseg_le [OF r(3)] Cons.prems(3) rec_len_ge [of h] by linarith
    then show ?thesis using blank_no_rec(1) [of fl f off b] n Cons.prems(4,5) r by auto
  next
    case c: (Cons r' rs'')
    then obtain h' where r': "r' = (off, h')" "rec_at fl crc f off h'" "lseg fl crc f (off + rec_len h') rs'' e'"
      using Cons.prems(4) by (cases r') auto
    have "h' = h" by (rule rec_at_unique [OF r'(2) r(2)])
    then have "lseg fl crc f (off + rec_len h) rs'' e'" using r'(3) by simp
    from Cons.IH [OF r(3) Cons.prems(2,3) this Cons.prems(5,6)] show ?thesis
      unfolding c r(1) r'(1) \<open>h' = h\<close> by simp
  qed
qed

section \<open>Writing and deleting records\<close>

lemma record_crc_take: "length payload = unat (rh_payload_len h) \<Longrightarrow>
   record_crc crc (h\<lparr>rh_crc := c\<rparr>) payload = record_crc crc h payload"
  by (simp add: record_crc_def)

lemma record_crc_alive [simp]: "record_crc crc (h\<lparr>rh_alive := a\<rparr>) p = record_crc crc h p"
  by (simp add: record_crc_def)

lemma new_hdr_simps [simp]:
  "rh_magic (new_hdr crc k x g p) = STORE_RECORD_MAGIC" "rh_payload_len (new_hdr crc k x g p) = of_nat (length p)"
  "rh_alive (new_hdr crc k x g p) = 0xFF" "rh_flags (new_hdr crc k x g p) = g"
  "rh_expiry (new_hdr crc k x g p) = x" "rh_key (new_hdr crc k x g p) = k"
  by (simp_all add: new_hdr_def Let_def)

lemma new_hdr_crc: "length p < 65536 \<Longrightarrow> record_crc crc (new_hdr crc k x g p) p = rh_crc (new_hdr crc k x g p)"
  by (simp add: new_hdr_def Let_def record_crc_def)

lemma rec_len_new_hdr: "length p \<le> 520 \<Longrightarrow> rec_len (new_hdr crc k x g p) = 32 + length p"
  by (simp add: rec_len_def unat_of_nat_small)

lemma written_record:
  assumes "flash_works fl" "length k = 16" "p \<noteq> []" "length p \<le> 520"
    "off + (32 + length p) \<le> fl_size fl" "fl_blank fl f off (off + (32 + length p))"
    and h: "h = new_hdr crc k x g p"
    and f1: "f1 = snd (fl_write fl f off (hdr_bytes h))"
    and f2: "f2 = snd (fl_write fl f1 (off + 32) p)"
  shows "rec_at fl crc f2 off h" "rec_payload fl f2 off h = p"
proof -
  have lh: "length (hdr_bytes h) = 32" using assms(2) h by simp
  have len: "unat (rh_payload_len h) = length p" using assms(4) h by (simp add: unat_of_nat_small)
  have "fl_range fl f1 off 32 = hdr_bytes h"
    using fl_range_write [OF assms(1), of off "hdr_bytes h" f] assms(5,6) lh
    by (simp add: f1 fl_blank_sub)
  moreover have "fl_range fl f2 off 32 = fl_range fl f1 off 32"
    unfolding f2 by (rule fl_range_cong, rule fl_write_agree [OF assms(1)]) (use assms(5) in auto)
  ultimately have hdr: "hdr_of_bytes (fl_range fl f2 off 32) = h"
    using assms(2) h by (simp add: hdr_roundtrip)
  have "fl_blank fl f1 (off + 32) (off + 32 + length p)"
    unfolding f1 by (rule fl_blank_cong [OF fl_write_agree [OF assms(1)]])
      (use assms(5,6) lh in \<open>auto intro: fl_blank_sub\<close>)
  then have "fl_range fl f2 (off + 32) (length p) = p"
    using fl_range_write [OF assms(1), of "off + 32" p f1] assms(5) by (simp add: f2)
  then show pl: "rec_payload fl f2 off h = p" by (simp add: rec_payload_def len)
  have "0 < length p" using assms(3) by simp
  then have "rh_payload_len h \<noteq> 0" using len by force
  then show "rec_at fl crc f2 off h"
    using assms(4) hdr len pl new_hdr_crc [of p crc k x g]
    by (simp add: rec_at_def BITLE_STORE_PAYLOAD_MAX_def h)
qed

lemma nth_fl_range: "i < n \<Longrightarrow> fl_range fl f off n ! i = fl_byte fl f (off + i)"
  by (simp add: fl_range_def)

lemma hdr_of_bytes_alive:
  "length bs = 32 \<Longrightarrow> hdr_of_bytes (bs[4 := b]) = (hdr_of_bytes bs)\<lparr>rh_alive := b\<rparr>"
  by (simp add: hdr_of_bytes_def bslice_list_update_other del: bslice_0)

lemma tombstone_byte:
  assumes "flash_works fl" "o' + 32 \<le> fl_size fl" "a < fl_size fl"
  shows "fl_byte fl (tombstone_at fl o' f) a = (if a = o' + 4 then 0 else fl_byte fl f a)"
  using assms by (auto simp: tombstone_at_def STORE_ALIVE_OFFSET_def fl_write_byte)

lemma tombstone_agree:
  assumes "flash_works fl" "o' + 32 \<le> fl_size fl" "b \<le> fl_size fl" "o' + 4 < a \<or> b \<le> o' + 4"
  shows "fl_agree fl f (tombstone_at fl o' f) a b"
  using assms by (auto simp: fl_agree_def tombstone_byte)

definition kill :: "nat \<Rightarrow> nat \<times> store_record_hdr \<Rightarrow> nat \<times> store_record_hdr" where
  "kill o' r = (if fst r = o' then (o', (snd r)\<lparr>rh_alive := 0\<rparr>) else r)"

lemma kill_simps [simp]:
  "kill o' (o', h) = (o', h\<lparr>rh_alive := 0\<rparr>)" "o1 \<noteq> o' \<Longrightarrow> kill o' (o1, h) = (o1, h)"
  by (simp_all add: kill_def)

lemma rec_len_alive [simp]: "rec_len (h\<lparr>rh_alive := a\<rparr>) = rec_len h"
  by (simp add: rec_len_def)

lemma rec_payload_alive [simp]: "rec_payload fl f off (h\<lparr>rh_alive := a\<rparr>) = rec_payload fl f off h"
  by (simp add: rec_payload_def)

lemma rec_atD:
  assumes "rec_at fl crc f off h"
  shows "rh_magic h = STORE_RECORD_MAGIC" "rh_payload_len h \<noteq> 0"
    "unat (rh_payload_len h) \<le> BITLE_STORE_PAYLOAD_MAX" "record_crc crc h (rec_payload fl f off h) = rh_crc h"
  using assms unfolding rec_at_def by blast+

lemma rec_at_tombstone:
  assumes "flash_works fl" "rec_at fl crc f o' h" "o' + rec_len h \<le> fl_size fl"
  shows "rec_at fl crc (tombstone_at fl o' f) o' (h\<lparr>rh_alive := 0\<rparr>)"
    "rec_payload fl (tombstone_at fl o' f) o' h = rec_payload fl f o' h"
proof -
  let ?f = "tombstone_at fl o' f"
  have sz: "o' + 32 \<le> fl_size fl" using assms(3) rec_len_ge [of h] by linarith
  have "fl_range fl ?f o' 32 = (fl_range fl f o' 32)[4 := 0]"
    using sz by (intro nth_equalityI) (auto simp: nth_fl_range nth_upd tombstone_byte [OF assms(1) sz])
  then have "hdr_of_bytes (fl_range fl ?f o' 32) = h\<lparr>rh_alive := 0\<rparr>"
    using assms(2) by (simp add: hdr_of_bytes_alive rec_at_def)
  moreover show p: "rec_payload fl ?f o' h = rec_payload fl f o' h"
    unfolding rec_payload_def
    by (rule fl_range_cong, rule tombstone_agree [OF assms(1) sz]) (use assms(3) in \<open>auto simp: rec_len_def\<close>)
  moreover note rec_atD [OF assms(2)]
  ultimately show "rec_at fl crc ?f o' (h\<lparr>rh_alive := 0\<rparr>)"
    by (simp add: rec_at_def)
qed

lemma lseg_tombstone:
  assumes "flash_works fl" "e \<le> fl_size fl"
  shows "lseg fl crc f off rs e \<Longrightarrow> (o', h) \<in> set rs \<Longrightarrow>
    lseg fl crc (tombstone_at fl o' f) off (map (kill o') rs) e"
proof (induction rs arbitrary: off)
  case (Cons r rs)
  obtain h' where r: "r = (off, h')" "rec_at fl crc f off h'" using Cons.prems(1) by (cases r) auto
  then have tl: "lseg fl crc f (off + rec_len h') rs e" using Cons.prems(1) by simp
  note le = lseg_le [OF tl]
  have in_sz: "o' + 32 \<le> fl_size fl"
    using lseg_mem [OF Cons.prems] rec_len_ge [of h] assms(2) by linarith
  show ?case
  proof (cases "o' = off")
    case True
    have a: "fl_agree fl f (tombstone_at fl o' f) (off + rec_len h') e"
      using assms in_sz True rec_len_ge [of h'] by (intro tombstone_agree) linarith+
    have "fst x \<noteq> o'" if "x \<in> set rs" for x
      using lseg_mem [OF tl, of "fst x" "snd x"] that True rec_len_ge [of h'] by (simp del: rec_len_ge)
    then have "map (kill o') rs = rs" by (intro map_idI) (auto simp: kill_def)
    then show ?thesis
      using lseg_cong [OF tl a] rec_at_tombstone(1) [OF assms(1) r(2)] le assms(2) True r(1) by simp
  next
    case False
    then have m: "(o', h) \<in> set rs" using Cons.prems(2) r(1) by auto
    have "off + rec_len h' \<le> o'" using lseg_mem [OF tl m] by simp
    then have "rec_at fl crc (tombstone_at fl o' f) off h'"
      using assms in_sz le by (intro rec_at_cong [OF tombstone_agree r(2)]) auto
    then show ?thesis using Cons.IH [OF tl m] r(1) False by simp
  qed
qed simp

section \<open>The invariant\<close>

text \<open>
  Every sector that carries the sector magic holds a log; the index holds exactly the live records
  of the logs, except records that had already expired at some earlier time \<open>T\<close> (the boot scan
  skips those without deleting them); the write head stands at the end of its sector's log.
\<close>

definition has_magic :: "'f flash \<Rightarrow> 'f \<Rightarrow> nat \<Rightarrow> bool" where
  "has_magic fl f base \<longleftrightarrow> sh_magic (shdr_of_bytes (fl_range fl f base sector_hdr_len)) = STORE_SECTOR_MAGIC"

definition entry_matches :: "store_index_entry \<Rightarrow> store_record_hdr \<Rightarrow> bool" where
  "entry_matches e h \<longleftrightarrow> ie_key e = rh_key h \<and> ie_expiry e = rh_expiry h \<and> rh_alive h = 0xFF"

definition log_indexed ::
  "u32 \<Rightarrow> store_index_entry set \<Rightarrow> nat \<Rightarrow> (nat \<times> store_record_hdr) list \<Rightarrow> bool" where
  "log_indexed T idx base rs \<longleftrightarrow>
     (\<forall>e \<in> idx. sector_base (ie_offset e) = base \<longrightarrow> (\<exists>h. (ie_offset e, h) \<in> set rs \<and> entry_matches e h)) \<and>
     (\<forall>(o', h) \<in> set rs. rh_alive h = 0xFF \<longrightarrow> entry_expired T (rh_expiry h) \<or> (\<exists>e \<in> idx. ie_offset e = o'))"

definition sector_inv ::
  "'f flash \<Rightarrow> crc_fun \<Rightarrow> u32 \<Rightarrow> 'f \<Rightarrow> store_index_entry set \<Rightarrow> nat \<Rightarrow> bool" where
  "sector_inv fl crc T f idx base \<longleftrightarrow>
     (if has_magic fl f base then \<exists>rs e. log_ok fl crc f base rs e \<and> log_indexed T idx base rs
      else \<forall>e \<in> idx. sector_base (ie_offset e) \<noteq> base)"

definition head_inv :: "'f flash \<Rightarrow> crc_fun \<Rightarrow> 'f \<Rightarrow> nat \<Rightarrow> bool" where
  "head_inv fl crc f wo \<longleftrightarrow> wo \<le> fl_size fl \<and>
     (wo mod STORE_SECTOR_SIZE \<noteq> 0 \<longrightarrow> has_magic fl f (sector_base wo) \<and>
        (\<exists>rs. log_ok fl crc f (sector_base wo) rs wo))"

definition core_inv ::
  "'f flash \<Rightarrow> crc_fun \<Rightarrow> u32 \<Rightarrow> 'f \<Rightarrow> store_index_entry list \<Rightarrow> nat \<Rightarrow> bool" where
  "core_inv fl crc T f idx wo \<longleftrightarrow>
     length idx \<le> BITLE_STORE_MAX_RECORDS \<and> distinct (map ie_key idx) \<and>
     (\<forall>e \<in> set idx. ie_offset e < fl_size fl) \<and>
     (\<forall>base \<in> set (sector_bases fl). sector_inv fl crc T f (set idx) base) \<and> head_inv fl crc f wo"

definition store_inv :: "'f flash \<Rightarrow> crc_fun \<Rightarrow> u32 \<Rightarrow> 'f store \<Rightarrow> bool" where
  "store_inv fl crc T s \<longleftrightarrow> s_part s \<and> \<not> s_locked s \<and>
     core_inv fl crc T (s_flash s) (s_index s) (s_write_off s)"

text \<open>What the mailbox holds: for each key the expiry, the flags and the payload.\<close>

definition store_view :: "'f flash \<Rightarrow> 'f \<Rightarrow> store_index_entry list \<Rightarrow> bytes \<rightharpoonup> u32 \<times> u8 \<times> bytes" where
  "store_view fl f idx key =
     (case index_find key idx of
        None \<Rightarrow> None
      | Some i \<Rightarrow> map_option (\<lambda>(h, p). (rh_expiry h, rh_flags h, p)) (read_record fl f (ie_offset (idx ! i))))"

subsection \<open>Sectors\<close>

lemma sector_bases_iff:
  assumes "flash_works fl"
  shows "base \<in> set (sector_bases fl) \<longleftrightarrow> base mod STORE_SECTOR_SIZE = 0 \<and> base < fl_size fl"
proof -
  obtain n where n: "fl_size fl = 4096 * n" using assms by (auto simp: flash_works_def STORE_SECTOR_SIZE_def)
  have "(fl_size fl + STORE_SECTOR_SIZE - 1) div STORE_SECTOR_SIZE = n"
    by (simp add: n STORE_SECTOR_SIZE_def)
  then show ?thesis by (auto simp: sector_bases_def n STORE_SECTOR_SIZE_def image_iff)
qed

lemma sector_base_props:
  "sector_base off mod STORE_SECTOR_SIZE = 0" "sector_base off \<le> off" "off < sector_base off + STORE_SECTOR_SIZE"
  by (simp_all add: sector_base_def STORE_SECTOR_SIZE_def minus_mod_eq_div_mult)

lemma sector_base_eqI:
  "base mod STORE_SECTOR_SIZE = 0 \<Longrightarrow> base \<le> off \<Longrightarrow> off < base + STORE_SECTOR_SIZE \<Longrightarrow> sector_base off = base"
proof -
  assume b: "base mod STORE_SECTOR_SIZE = 0" and le: "base \<le> off" "off < base + STORE_SECTOR_SIZE"
  obtain d where d: "off = base + d" using le(1) le_iff_add by blast
  have "off mod STORE_SECTOR_SIZE = (base mod STORE_SECTOR_SIZE + d) mod STORE_SECTOR_SIZE"
    unfolding d by (simp only: mod_add_left_eq)
  then have "off mod STORE_SECTOR_SIZE = d" using b le(2) d by simp
  then show ?thesis by (simp add: sector_base_def d)
qed

lemma sector_end_le:
  assumes "flash_works fl" "base mod STORE_SECTOR_SIZE = 0" "base < fl_size fl"
  shows "base + STORE_SECTOR_SIZE \<le> fl_size fl"
proof -
  obtain n where "fl_size fl = 4096 * n" using assms(1) by (auto simp: flash_works_def STORE_SECTOR_SIZE_def)
  moreover obtain m where "base = 4096 * m" using assms(2) by (auto simp: STORE_SECTOR_SIZE_def)
  ultimately show ?thesis using assms(3) by (simp add: STORE_SECTOR_SIZE_def)
qed

lemma sectors_apart:
  assumes "base mod STORE_SECTOR_SIZE = 0" "b mod STORE_SECTOR_SIZE = 0" "base \<noteq> b"
  shows "base + STORE_SECTOR_SIZE \<le> b \<or> b + STORE_SECTOR_SIZE \<le> base"
proof -
  obtain n m where "base = 4096 * n" "b = 4096 * m"
    using assms(1,2) by (metis STORE_SECTOR_SIZE_def mod_0_imp_dvd dvd_def)
  then show ?thesis using assms(3) by (auto simp: STORE_SECTOR_SIZE_def)
qed

lemma sector_base_in:
  assumes "flash_works fl" "off < fl_size fl"
  shows "sector_base off \<in> set (sector_bases fl)"
  using assms sector_base_props [of off] by (simp add: sector_bases_iff)

lemma sector_base_base [simp]: "base mod STORE_SECTOR_SIZE = 0 \<Longrightarrow> sector_base base = base"
  by (simp add: sector_base_def)

subsection \<open>Logs and sectors\<close>

lemma log_ok_mem:
  assumes "log_ok fl crc f base rs e" "(o', h) \<in> set rs"
  shows "rec_at fl crc f o' h" "base + 8 \<le> o'" "o' + rec_len h \<le> e" "o' + rec_len h \<le> base + STORE_SECTOR_SIZE"
  using assms lseg_mem [of fl crc f "base + 8" rs e o' h] by (auto simp: log_ok_def)

lemma log_ok_sector:
  assumes "log_ok fl crc f base rs e" "(o', h) \<in> set rs" "base mod STORE_SECTOR_SIZE = 0"
  shows "sector_base o' = base"
  using log_ok_mem [OF assms(1,2)] rec_len_ge [of h] by (intro sector_base_eqI [OF assms(3)]) linarith+

lemma log_ok_unique:
  "log_ok fl crc f base rs e \<Longrightarrow> log_ok fl crc f base rs' e' \<Longrightarrow> rs = rs' \<and> e = e'"
  by (rule lseg_unique [of fl crc f "base + 8" rs e "base + STORE_SECTOR_SIZE"]) (auto simp: log_ok_def)

lemma log_ok_cong:
  assumes "log_ok fl crc f base rs e" "fl_agree fl f f' base (base + STORE_SECTOR_SIZE)"
  shows "log_ok fl crc f' base rs e"
proof -
  have l: "lseg fl crc f (base + 8) rs e" and e: "e \<le> base + STORE_SECTOR_SIZE"
    and b: "fl_blank fl f e (base + STORE_SECTOR_SIZE)" using assms(1) by (auto simp: log_ok_def)
  have "fl_agree fl f f' (base + 8) e" "fl_agree fl f f' e (base + STORE_SECTOR_SIZE)"
    using e lseg_le [OF l] by (auto intro: fl_agree_sub [OF assms(2)])
  then show ?thesis using lseg_cong [OF l] fl_blank_cong [OF _ b] e by (simp add: log_ok_def)
qed

lemma has_magic_cong:
  "fl_agree fl f f' base (base + 8) \<Longrightarrow> has_magic fl f' base = has_magic fl f base"
  by (simp add: has_magic_def fl_range_cong)

lemma sector_inv_frame:
  assumes "sector_inv fl crc T f idx base" "fl_agree fl f f' base (base + STORE_SECTOR_SIZE)"
    "base mod STORE_SECTOR_SIZE = 0"
    "\<And>e. sector_base (ie_offset e) = base \<Longrightarrow> e \<in> idx' \<longleftrightarrow> e \<in> idx"
  shows "sector_inv fl crc T f' idx' base"
proof -
  have m: "has_magic fl f' base = has_magic fl f base"
    using assms(2) by (intro has_magic_cong) (auto intro: fl_agree_sub simp: STORE_SECTOR_SIZE_def)
  show ?thesis
  proof (cases "has_magic fl f base")
    case True
    then obtain rs e where rs: "log_ok fl crc f base rs e" "log_indexed T idx base rs"
      using assms(1) by (auto simp: sector_inv_def)
    have "log_indexed T idx' base rs"
      using rs(2) assms(4) log_ok_sector [OF rs(1) _ assms(3)] unfolding log_indexed_def by fastforce
    then show ?thesis using True m log_ok_cong [OF rs(1) assms(2)] by (auto simp: sector_inv_def)
  next
    case False
    then show ?thesis using assms(1,4) m by (auto simp: sector_inv_def)
  qed
qed

lemma head_inv_frame:
  assumes "head_inv fl crc f wo" "fl_agree fl f f' (sector_base wo) (sector_base wo + STORE_SECTOR_SIZE)"
  shows "head_inv fl crc f' wo"
proof -
  have "has_magic fl f' (sector_base wo) = has_magic fl f (sector_base wo)"
    using assms(2) by (intro has_magic_cong) (auto intro: fl_agree_sub simp: STORE_SECTOR_SIZE_def)
  then show ?thesis using assms log_ok_cong [of fl crc f _ _ wo f'] by (auto simp: head_inv_def)
qed

subsection \<open>Indexed records\<close>

lemma core_distinct: "core_inv fl crc T f idx wo \<Longrightarrow> distinct (map ie_key idx)"
  by (simp add: core_inv_def)

lemma core_entry:
  assumes "flash_works fl" "core_inv fl crc T f idx wo" "e \<in> set idx"
  obtains rs n h where "log_ok fl crc f (sector_base (ie_offset e)) rs n" "(ie_offset e, h) \<in> set rs"
    "entry_matches e h" "rec_at fl crc f (ie_offset e) h" "ie_offset e + rec_len h \<le> fl_size fl"
    "log_indexed T (set idx) (sector_base (ie_offset e)) rs" "has_magic fl f (sector_base (ie_offset e))"
proof -
  let ?b = "sector_base (ie_offset e)"
  have b: "?b \<in> set (sector_bases fl)"
    using assms by (intro sector_base_in) (auto simp: core_inv_def)
  then have i: "sector_inv fl crc T f (set idx) ?b" using assms(2) by (simp add: core_inv_def)
  have m: "has_magic fl f ?b"
    using i assms(3) unfolding sector_inv_def by (cases "has_magic fl f ?b") auto
  then obtain rs n where rs: "log_ok fl crc f ?b rs n" "log_indexed T (set idx) ?b rs"
    using i by (auto simp: sector_inv_def)
  then obtain h where h: "(ie_offset e, h) \<in> set rs" "entry_matches e h"
    using assms(3) by (auto simp: log_indexed_def)
  have "?b + STORE_SECTOR_SIZE \<le> fl_size fl"
    using b sector_end_le [OF assms(1)] by (simp add: sector_bases_iff [OF assms(1)])
  then have "ie_offset e + rec_len h \<le> fl_size fl"
    using log_ok_mem(4) [OF rs(1) h(1)] by linarith
  then show thesis using that [OF rs(1) h log_ok_mem(1) [OF rs(1) h(1)] _ rs(2) m] by blast
qed

lemma read_record_works:
  assumes "flash_works fl" "rec_at fl crc f off h" "off + rec_len h \<le> fl_size fl"
  shows "read_record fl f off = Some (h, rec_payload fl f off h)"
proof -
  have "off + 32 \<le> fl_size fl" using assms(3) rec_len_ge [of h] by linarith
  then have "read_hdr fl f off = Some h" using assms(1,2) by (simp add: read_hdr_works rec_at_def)
  then show ?thesis
    using rec_atD [OF assms(2)] assms(1,3)
    by (simp add: read_record_def fl_read_works rec_payload_def fl_range_def rec_len_def add.assoc)
qed

lemma store_view_None: "store_view fl f idx k = None" if "k \<notin> ie_key ` set idx"
  using that by (simp add: store_view_def index_find_None [symmetric])

lemma store_view_entry:
  assumes "distinct (map ie_key idx)" "e \<in> set idx"
  shows "store_view fl f idx (ie_key e) =
    map_option (\<lambda>(h, p). (rh_expiry h, rh_flags h, p)) (read_record fl f (ie_offset e))"
proof -
  obtain i where "i < length idx" "e = idx ! i" using assms(2) by (metis in_set_conv_nth)
  then have "index_find (ie_key e) idx = Some i" by (simp add: index_find_Some [OF assms(1)])
  then show ?thesis using \<open>e = idx ! i\<close> by (simp add: store_view_def)
qed

lemma store_view_rec:
  assumes "flash_works fl" "distinct (map ie_key idx)" "e \<in> set idx"
    "rec_at fl crc f (ie_offset e) h" "ie_offset e + rec_len h \<le> fl_size fl"
  shows "store_view fl f idx (ie_key e) = Some (rh_expiry h, rh_flags h, rec_payload fl f (ie_offset e) h)"
  using assms by (simp add: store_view_entry read_record_works)

lemma store_view_dom:
  assumes "flash_works fl" "core_inv fl crc T f idx wo"
  shows "store_view fl f idx k \<noteq> None \<longleftrightarrow> k \<in> ie_key ` set idx"
proof
  assume "k \<in> ie_key ` set idx"
  then obtain e where e: "e \<in> set idx" "k = ie_key e" by auto
  obtain h where "rec_at fl crc f (ie_offset e) h" "ie_offset e + rec_len h \<le> fl_size fl"
    using core_entry [OF assms e(1)] by metis
  then show "store_view fl f idx k \<noteq> None"
    using store_view_rec [OF assms(1) core_distinct [OF assms(2)] e(1)] e(2) by simp
qed (rule ccontr, simp add: store_view_None)

text \<open>The records that stay in the index keep their content when their bytes are not touched.\<close>

lemma rec_payload_cong:
  "fl_agree fl f f' off (off + rec_len h) \<Longrightarrow> rec_payload fl f' off h = rec_payload fl f off h"
  unfolding rec_payload_def by (rule fl_range_cong, erule fl_agree_sub) (simp_all add: rec_len_def)

lemma store_view_frame:
  assumes fw: "flash_works fl" and inv: "core_inv fl crc T f idx wo"
    and d: "distinct (map ie_key idx')" and sub: "set idx' \<subseteq> set idx"
    and agree: "\<And>e h. e \<in> set idx' \<Longrightarrow> rec_at fl crc f (ie_offset e) h \<Longrightarrow>
       fl_agree fl f f' (ie_offset e) (ie_offset e + rec_len h)"
  shows "store_view fl f' idx' k = (if k \<in> ie_key ` set idx' then store_view fl f idx k else None)"
proof (cases "k \<in> ie_key ` set idx'")
  case True
  then obtain e where e: "e \<in> set idx'" "k = ie_key e" by auto
  then have e': "e \<in> set idx" using sub by blast
  obtain h where h: "rec_at fl crc f (ie_offset e) h" "ie_offset e + rec_len h \<le> fl_size fl"
    using core_entry [OF fw inv e'] by metis
  show ?thesis
    using store_view_rec [OF fw d e(1) rec_at_cong [OF agree [OF e(1) h(1)] h(1)] h(2)]
      store_view_rec [OF fw core_distinct [OF inv] e' h] e rec_payload_cong [OF agree [OF e(1) h(1)]]
    by simp
qed (simp add: store_view_None)

lemma record_in_sector:
  assumes "flash_works fl" "core_inv fl crc T f idx wo" "e \<in> set idx" "rec_at fl crc f (ie_offset e) h"
  shows "sector_base (ie_offset e) + 8 \<le> ie_offset e"
    "ie_offset e + rec_len h \<le> sector_base (ie_offset e) + STORE_SECTOR_SIZE"
    "sector_base (ie_offset e) + STORE_SECTOR_SIZE \<le> fl_size fl"
proof -
  obtain rs n h' where c: "log_ok fl crc f (sector_base (ie_offset e)) rs n" "(ie_offset e, h') \<in> set rs"
    "rec_at fl crc f (ie_offset e) h'" using core_entry [OF assms(1-3)] by metis
  have "h' = h" by (rule rec_at_unique [OF c(3) assms(4)])
  then show "sector_base (ie_offset e) + 8 \<le> ie_offset e"
    "ie_offset e + rec_len h \<le> sector_base (ie_offset e) + STORE_SECTOR_SIZE"
    using log_ok_mem [OF c(1,2)] by auto
  show "sector_base (ie_offset e) + STORE_SECTOR_SIZE \<le> fl_size fl"
    using assms by (intro sector_end_le) (auto simp: core_inv_def sector_base_props intro: le_less_trans [OF sector_base_props(2)])
qed

subsection \<open>Changing one sector\<close>

definition same_elsewhere :: "'f flash \<Rightarrow> nat \<Rightarrow> 'f \<Rightarrow> 'f \<Rightarrow> bool" where
  "same_elsewhere fl b f f' \<longleftrightarrow> (\<forall>base \<in> set (sector_bases fl). base \<noteq> b \<longrightarrow>
     fl_agree fl f f' base (base + STORE_SECTOR_SIZE))"

lemma same_elsewhere_trans:
  "same_elsewhere fl b f f' \<Longrightarrow> same_elsewhere fl b f' f'' \<Longrightarrow> same_elsewhere fl b f f''"
  unfolding same_elsewhere_def by (blast intro: fl_agree_trans)

lemma write_same_elsewhere:
  assumes "flash_works fl" "b \<in> set (sector_bases fl)" "b \<le> off" "off + length bs \<le> b + STORE_SECTOR_SIZE"
  shows "same_elsewhere fl b f (snd (fl_write fl f off bs))"
  unfolding same_elsewhere_def
proof (intro ballI impI)
  fix base assume "base \<in> set (sector_bases fl)" "base \<noteq> b"
  then show "fl_agree fl f (snd (fl_write fl f off bs)) base (base + STORE_SECTOR_SIZE)"
    using assms sectors_apart [of base b] sector_end_le [OF assms(1), of base] sector_end_le [OF assms(1), of b]
    by (intro fl_write_agree) (auto simp: sector_bases_iff)
qed

lemma erase_same_elsewhere:
  assumes "flash_works fl" "b \<in> set (sector_bases fl)"
  shows "same_elsewhere fl b f (snd (fl_erase fl f b STORE_SECTOR_SIZE))"
  unfolding same_elsewhere_def
proof (intro ballI impI)
  fix base assume "base \<in> set (sector_bases fl)" "base \<noteq> b"
  then show "fl_agree fl f (snd (fl_erase fl f b STORE_SECTOR_SIZE)) base (base + STORE_SECTOR_SIZE)"
    using assms sectors_apart [of base b] sector_end_le [OF assms(1), of base] sector_end_le [OF assms(1), of b]
    by (intro fl_erase_agree) (auto simp: sector_bases_iff)
qed

lemma size_mod: "flash_works fl \<Longrightarrow> fl_size fl mod STORE_SECTOR_SIZE = 0"
  by (simp add: flash_works_def)

lemma core_head: "core_inv fl crc T f idx wo \<Longrightarrow> head_inv fl crc f wo"
  by (simp add: core_inv_def)

lemma core_update:
  assumes "flash_works fl" "core_inv fl crc T f idx wo" "same_elsewhere fl b f f'"
    "length idx' \<le> BITLE_STORE_MAX_RECORDS" "distinct (map ie_key idx')"
    "\<forall>e \<in> set idx'. ie_offset e < fl_size fl"
    "\<And>e. sector_base (ie_offset e) \<noteq> b \<Longrightarrow> e \<in> set idx' \<longleftrightarrow> e \<in> set idx"
    "sector_inv fl crc T f' (set idx') b" "head_inv fl crc f' wo'"
  shows "core_inv fl crc T f' idx' wo'"
proof -
  have "sector_inv fl crc T f' (set idx') base" if base: "base \<in> set (sector_bases fl)" for base
  proof (cases "base = b")
    case False
    then show ?thesis
      using assms(2,3,7) base sector_inv_frame [of fl crc T f "set idx" base f' "set idx'"]
      by (auto simp: core_inv_def same_elsewhere_def sector_bases_iff [OF assms(1)])
  qed (use assms(8) in simp)
  then show ?thesis using assms by (auto simp: core_inv_def)
qed

lemma core_offset_inj:
  assumes "flash_works fl" "core_inv fl crc T f idx wo" "e1 \<in> set idx" "e2 \<in> set idx"
    "ie_offset e1 = ie_offset e2"
  shows "e1 = e2"
proof -
  obtain h1 where h1: "rec_at fl crc f (ie_offset e1) h1" "entry_matches e1 h1"
    using core_entry [OF assms(1,2,3)] by metis
  obtain h2 where h2: "rec_at fl crc f (ie_offset e2) h2" "entry_matches e2 h2"
    using core_entry [OF assms(1,2,4)] by metis
  have "h1 = h2" using h1(1) h2(1) assms(5) rec_at_unique by metis
  then have "ie_key e1 = ie_key e2" using h1(2) h2(2) by (simp add: entry_matches_def)
  then show ?thesis using core_distinct [OF assms(2)] assms(3,4) by (auto simp: distinct_map inj_on_def)
qed

text \<open>Deleting a record tombstones it and takes it out of the index.\<close>

lemma set_remove_at:
  "core_inv fl crc T f idx wo \<Longrightarrow> i < length idx \<Longrightarrow> set (index_remove_at i idx) = set idx - {idx ! i}"
  using core_distinct [of fl crc T f idx wo] by (intro set_index_remove_at_distinct) (auto simp: distinct_map)

lemma log_indexed_kill:
  assumes fw: "flash_works fl" and inv: "core_inv fl crc T f idx wo" and e: "e \<in> set idx"
    and li: "log_indexed T (set idx) (sector_base (ie_offset e)) rs"
  shows "log_indexed T (set idx - {e}) (sector_base (ie_offset e)) (map (kill (ie_offset e)) rs)"
  unfolding log_indexed_def
proof (intro conjI ballI impI)
  fix d assume d: "d \<in> set idx - {e}" "sector_base (ie_offset d) = sector_base (ie_offset e)"
  then obtain h where h: "(ie_offset d, h) \<in> set rs" "entry_matches d h"
    using li by (auto simp: log_indexed_def)
  have "ie_offset d \<noteq> ie_offset e" using core_offset_inj [OF fw inv _ e] d(1) by auto
  then have "(ie_offset d, h) \<in> set (map (kill (ie_offset e)) rs)"
    using h(1) by (auto intro!: image_eqI [where x = "(ie_offset d, h)"])
  then show "\<exists>h. (ie_offset d, h) \<in> set (map (kill (ie_offset e)) rs) \<and> entry_matches d h"
    using h(2) by blast
next
  fix r assume "r \<in> set (map (kill (ie_offset e)) rs)"
  then obtain o1 h1 where r: "(o1, h1) \<in> set rs" "r = kill (ie_offset e) (o1, h1)" by auto
  show "case r of (o', h) \<Rightarrow> rh_alive h = 0xFF \<longrightarrow>
    entry_expired T (rh_expiry h) \<or> (\<exists>d \<in> set idx - {e}. ie_offset d = o')"
  proof (cases "o1 = ie_offset e")
    case False
    then show ?thesis using li r by (fastforce simp: log_indexed_def)
  qed (use r in simp)
qed

lemma log_ok_tombstone:
  assumes "flash_works fl" "log_ok fl crc f base rs n" "(o', h) \<in> set rs" "base + STORE_SECTOR_SIZE \<le> fl_size fl"
  shows "log_ok fl crc (tombstone_at fl o' f) base (map (kill o') rs) n"
    "has_magic fl (tombstone_at fl o' f) base = has_magic fl f base"
proof -
  note m = log_ok_mem [OF assms(2,3)]
  have sz: "o' + 32 \<le> fl_size fl" using m(4) assms(4) rec_len_ge [of h] by linarith
  have n: "n \<le> base + STORE_SECTOR_SIZE" "fl_blank fl f n (base + STORE_SECTOR_SIZE)"
    using assms(2) by (auto simp: log_ok_def)
  have "fl_agree fl f (tombstone_at fl o' f) n (base + STORE_SECTOR_SIZE)"
    using sz m(3) rec_len_ge [of h] assms(4) by (intro tombstone_agree [OF assms(1)]) linarith+
  then show "log_ok fl crc (tombstone_at fl o' f) base (map (kill o') rs) n"
    using lseg_tombstone [OF assms(1) _ _ assms(3)] assms(2,4) n fl_blank_cong by (auto simp: log_ok_def)
  show "has_magic fl (tombstone_at fl o' f) base = has_magic fl f base"
    using sz m(2) assms(4) by (intro has_magic_cong tombstone_agree [OF assms(1)]) (auto simp: STORE_SECTOR_SIZE_def)
qed

lemma core_tombstone:
  assumes fw: "flash_works fl" and inv: "core_inv fl crc T f idx wo" and i: "i < length idx"
  shows "core_inv fl crc T (tombstone_at fl (ie_offset (idx ! i)) f) (index_remove_at i idx) wo"
proof -
  let ?e = "idx ! i"
  let ?b = "sector_base (ie_offset ?e)" and ?f = "tombstone_at fl (ie_offset (idx ! i)) f"
  have e: "?e \<in> set idx" using i by simp
  obtain rs n h where c: "log_ok fl crc f ?b rs n" "(ie_offset ?e, h) \<in> set rs" "rec_at fl crc f (ie_offset ?e) h"
    "log_indexed T (set idx) ?b rs" "has_magic fl f ?b" using core_entry [OF fw inv e] by metis
  note ris = record_in_sector [OF fw inv e c(3)]
  have b: "?b \<in> set (sector_bases fl)" using inv e by (intro sector_base_in [OF fw]) (auto simp: core_inv_def)
  have se: "same_elsewhere fl ?b f ?f"
    unfolding tombstone_at_def using ris rec_len_ge [of h]
    by (intro write_same_elsewhere [OF fw b]) (simp_all add: STORE_ALIVE_OFFSET_def del: rec_len_ge)
  note lt = log_ok_tombstone [OF fw c(1,2) ris(3)]
  have si: "sector_inv fl crc T ?f (set (index_remove_at i idx)) ?b"
    using lt c(5) log_indexed_kill [OF fw inv e c(4)] by (auto simp: sector_inv_def set_remove_at [OF inv i])
  have hi: "head_inv fl crc ?f wo"
  proof (cases "sector_base wo = ?b \<or> wo = fl_size fl")
    case True
    then show ?thesis
      using core_head [OF inv] lt log_ok_unique [OF c(1)] c(5) size_mod [OF fw] by (auto simp: head_inv_def)
  next
    case False
    then have "sector_base wo \<in> set (sector_bases fl)"
      using core_head [OF inv] by (intro sector_base_in [OF fw]) (simp add: head_inv_def)
    then show ?thesis
      using False se by (intro head_inv_frame [OF core_head [OF inv]]) (simp add: same_elsewhere_def)
  qed
  show ?thesis
    by (rule core_update [OF fw inv se _ distinct_index_remove_at [OF core_distinct [OF inv] i] _ _ si hi])
       (use inv in \<open>auto simp: set_remove_at [OF inv i] core_inv_def\<close>)
qed

subsection \<open>Erasing and opening sectors\<close>

abbreviation core :: "'f flash \<Rightarrow> crc_fun \<Rightarrow> u32 \<Rightarrow> 'f store \<Rightarrow> bool" where
  "core fl crc T s \<equiv> core_inv fl crc T (s_flash s) (s_index s) (s_write_off s)"

abbreviation view :: "'f flash \<Rightarrow> 'f store \<Rightarrow> bytes \<rightharpoonup> u32 \<times> u8 \<times> bytes" where
  "view fl s \<equiv> store_view fl (s_flash s) (s_index s)"

text \<open>A step that may only lose records: those that stay are unchanged.\<close>

definition shrinks :: "'f flash \<Rightarrow> 'f store \<Rightarrow> 'f store \<Rightarrow> bool" where
  "shrinks fl s s' \<longleftrightarrow> set (s_index s') \<subseteq> set (s_index s) \<and> length (s_index s') \<le> length (s_index s) \<and>
     view fl s' = view fl s |` (ie_key ` set (s_index s')) \<and> s_part s' = s_part s \<and> s_locked s' = s_locked s"

lemma shrinks_refl: "shrinks fl s s"
  by (auto simp: shrinks_def restrict_map_def store_view_None)

lemma shrinks_trans:
  assumes "shrinks fl s s'" "shrinks fl s' s''"
  shows "shrinks fl s s''"
proof -
  have "ie_key ` set (s_index s'') \<subseteq> ie_key ` set (s_index s')" using assms(2) by (auto simp: shrinks_def)
  then show ?thesis using assms by (auto simp: shrinks_def inf_absorb2)
qed

lemma store_view_restrict:
  assumes "flash_works fl" "core_inv fl crc T f idx wo"
    "distinct (map ie_key idx')" "set idx' \<subseteq> {e \<in> set idx. sector_base (ie_offset e) \<noteq> b}" "same_elsewhere fl b f f'"
  shows "store_view fl f' idx' = store_view fl f idx |` (ie_key ` set idx')"
proof
  fix k
  have "store_view fl f' idx' k = (if k \<in> ie_key ` set idx' then store_view fl f idx k else None)"
  proof (rule store_view_frame [OF assms(1,2,3)])
    fix e h assume e: "e \<in> set idx'" "rec_at fl crc f (ie_offset e) h"
    then have e': "e \<in> set idx" "sector_base (ie_offset e) \<noteq> b" using assms(4) by auto
    have "sector_base (ie_offset e) \<in> set (sector_bases fl)"
      using e'(1) assms(2) by (intro sector_base_in [OF assms(1)]) (auto simp: core_inv_def)
    then have a: "fl_agree fl f f' (sector_base (ie_offset e)) (sector_base (ie_offset e) + STORE_SECTOR_SIZE)"
      using e'(2) assms(5) by (auto simp: same_elsewhere_def)
    show "fl_agree fl f f' (ie_offset e) (ie_offset e + rec_len h)"
      using record_in_sector [OF assms(1,2) e'(1) e(2)] by (intro fl_agree_sub [OF a]) auto
  qed (use assms(4) in auto)
  then show "store_view fl f' idx' k = (store_view fl f idx |` (ie_key ` set idx')) k"
    by (simp add: restrict_map_def)
qed

lemma blank_no_magic:
  assumes "fl_blank fl f base (base + 8)"
  shows "\<not> has_magic fl f base"
proof -
  have "fl_range fl f base 8 = replicate 8 0xFF"
    using assms by (intro nth_equalityI) (auto simp: fl_range_def fl_blank_def)
  moreover have "sh_magic (shdr_of_bytes (replicate 8 0xFF)) \<noteq> STORE_SECTOR_MAGIC" by code_simp
  ultimately show ?thesis by (simp add: has_magic_def)
qed

lemma core_erase:
  assumes fw: "flash_works fl" and inv: "core_inv fl crc T f idx wo" and b: "b \<in> set (sector_bases fl)"
    and idx': "set idx' = {e \<in> set idx. sector_base (ie_offset e) \<noteq> b}" "distinct (map ie_key idx')"
      "length idx' \<le> length idx"
    and f': "f' = snd (fl_erase fl f b STORE_SECTOR_SIZE)" and wo: "sector_base wo' \<noteq> b \<Longrightarrow> wo' = wo"
      "sector_base wo' = b \<Longrightarrow> wo' = b"
  shows "core_inv fl crc T f' idx' wo'"
proof -
  have se: "same_elsewhere fl b f f'" unfolding f' by (rule erase_same_elsewhere [OF fw b])
  have be: "b + STORE_SECTOR_SIZE \<le> fl_size fl" "b mod STORE_SECTOR_SIZE = 0"
    using b sector_end_le [OF fw, of b] by (auto simp: sector_bases_iff [OF fw])
  have nm: "\<not> has_magic fl f' b"
    unfolding f' by (rule blank_no_magic, rule fl_blank_sub [OF fl_erase_blank [OF fw be(1)]])
      (simp_all add: STORE_SECTOR_SIZE_def)
  then have si: "sector_inv fl crc T f' (set idx') b" by (simp add: sector_inv_def idx'(1))
  have hi: "head_inv fl crc f' wo'"
  proof (cases "sector_base wo' = b")
    case True
    then show ?thesis using be wo(2) by (simp add: head_inv_def)
  next
    case False
    note h = core_head [OF inv]
    show ?thesis
    proof (cases "wo = fl_size fl")
      case True
      then show ?thesis using wo(1) [OF False] size_mod [OF fw] by (simp add: head_inv_def)
    next
      case wo_lt: False
      then have "sector_base wo \<in> set (sector_bases fl)"
        using h by (intro sector_base_in [OF fw]) (simp add: head_inv_def)
      then show ?thesis
        using False se wo(1) [OF False] head_inv_frame [OF h] by (simp add: same_elsewhere_def)
    qed
  qed
  show ?thesis
    by (rule core_update [OF fw inv se _ idx'(2) _ _ si hi]) (use inv idx'(1,3) in \<open>auto simp: core_inv_def\<close>)
qed

lemma read_shdr_magic:
  assumes "flash_works fl" "b \<in> set (sector_bases fl)"
  shows "\<exists>h. read_shdr fl f b = Some h \<and> (sh_magic h = STORE_SECTOR_MAGIC \<longleftrightarrow> has_magic fl f b)"
proof -
  have "b + 8 \<le> fl_size fl"
    using assms sector_end_le [OF assms(1), of b] by (auto simp: sector_bases_iff STORE_SECTOR_SIZE_def)
  then show ?thesis by (simp add: read_shdr_works [OF assms(1)] has_magic_def)
qed

lemma write_shdr:
  assumes fw: "flash_works fl" and b: "b \<in> set (sector_bases fl)" and bl: "fl_blank fl f b (b + STORE_SECTOR_SIZE)"
    and f': "f' = snd (fl_write fl f b (shdr_bytes \<lparr> sh_magic = STORE_SECTOR_MAGIC, sh_seq = q \<rparr>))"
  shows "has_magic fl f' b" "log_ok fl crc f' b [] (b + 8)" "same_elsewhere fl b f f'"
    "sh_seq (shdr_of_bytes (fl_range fl f' b 8)) = q"
proof -
  let ?h = "\<lparr> sh_magic = STORE_SECTOR_MAGIC, sh_seq = q \<rparr>"
  have be: "b + STORE_SECTOR_SIZE \<le> fl_size fl" "b + 8 \<le> fl_size fl"
    using b sector_end_le [OF fw, of b] by (auto simp: sector_bases_iff [OF fw] STORE_SECTOR_SIZE_def)
  have "fl_range fl f' b 8 = shdr_bytes ?h"
    using fl_range_write [OF fw, of b "shdr_bytes ?h" f] be bl
    by (simp add: f' fl_blank_sub STORE_SECTOR_SIZE_def)
  then show "has_magic fl f' b" "sh_seq (shdr_of_bytes (fl_range fl f' b 8)) = q"
    by (simp_all add: has_magic_def shdr_roundtrip)
  have "fl_agree fl f f' (b + 8) (b + STORE_SECTOR_SIZE)"
    unfolding f' using be by (intro fl_write_agree [OF fw]) auto
  then show "log_ok fl crc f' b [] (b + 8)"
    using fl_blank_cong fl_blank_sub [OF bl, of "b + 8" "b + STORE_SECTOR_SIZE"]
    by (simp add: log_ok_def STORE_SECTOR_SIZE_def)
  show "same_elsewhere fl b f f'"
    unfolding f' by (rule write_same_elsewhere [OF fw b]) (simp_all add: STORE_SECTOR_SIZE_def)
qed

lemma open_sector_works:
  assumes fw: "flash_works fl" and inv: "core fl crc T s" and b: "b \<in> set (sector_bases fl)"
  obtains s' where "open_sector fl b s = (ESP_OK, s')" "core fl crc T s'" "s_write_off s' = b + 8"
    "shrinks fl s s'" "s_next_seq s' = s_next_seq s + 1"
    "set (s_index s') = {e \<in> set (s_index s). sector_base (ie_offset e) \<noteq> b}"
proof -
  let ?f = "s_flash s" and ?idx = "s_index s"
  obtain h where h: "read_shdr fl ?f b = Some h" "sh_magic h = STORE_SECTOR_MAGIC \<longleftrightarrow> has_magic fl ?f b"
    using read_shdr_magic [OF fw b] by blast
  define idx' where "idx' = (if has_magic fl ?f b then index_drop_sector b ?idx else ?idx)"
  define f1 where "f1 = snd (fl_erase fl ?f b STORE_SECTOR_SIZE)"
  define f2 where "f2 = snd (fl_write fl f1 b (shdr_bytes \<lparr> sh_magic = STORE_SECTOR_MAGIC, sh_seq = s_next_seq s \<rparr>))"
  define s' where "s' = s \<lparr> s_index := idx', s_flash := f2, s_next_seq := s_next_seq s + 1,
     s_head_seq := s_next_seq s, s_write_off := b + 8 \<rparr>"
  have be: "b + STORE_SECTOR_SIZE \<le> fl_size fl" "b mod STORE_SECTOR_SIZE = 0" "b < fl_size fl"
    using b sector_end_le [OF fw, of b] by (auto simp: sector_bases_iff [OF fw])
  have "sector_inv fl crc T ?f (set ?idx) b" using inv b by (auto simp: core_inv_def)
  then have set': "set idx' = {e \<in> set ?idx. sector_base (ie_offset e) \<noteq> b}"
    by (auto simp: idx'_def sector_inv_def)
  have d': "distinct (map ie_key idx')" and l': "length idx' \<le> length ?idx"
    using core_distinct [OF inv]
    by (auto simp: idx'_def distinct_index_drop_sector length_index_drop_sector)
  have e1: "fst (fl_erase fl ?f b STORE_SECTOR_SIZE) = ESP_OK"
    "fst (fl_write fl f1 b (shdr_bytes \<lparr> sh_magic = STORE_SECTOR_MAGIC, sh_seq = s_next_seq s \<rparr>)) = ESP_OK"
    using be by (auto intro!: fl_erase_ok [OF fw] fl_write_ok [OF fw] simp: STORE_SECTOR_SIZE_def)
  have op: "open_sector fl b s = (ESP_OK, s')"
    using e1 by (simp add: open_sector_def h s'_def idx'_def f2_def f1_def split_beta Let_def)
  have c1: "core_inv fl crc T f1 idx' b"
    using be by (intro core_erase [OF fw inv b set' d' l' f1_def]) (auto simp: sector_base_base)
  have "fl_blank fl f1 b (b + STORE_SECTOR_SIZE)" unfolding f1_def by (rule fl_erase_blank [OF fw be(1)])
  note w = write_shdr [OF fw b this f2_def]
  have sb: "sector_base (b + 8) = b" using be(2) by (intro sector_base_eqI) (simp_all add: STORE_SECTOR_SIZE_def)
  have "log_indexed T (set idx') b []" by (auto simp: log_indexed_def set')
  then have si: "sector_inv fl crc T f2 (set idx') b" using w(1) w(2) [of crc] by (auto simp: sector_inv_def)
  have hi: "head_inv fl crc f2 (b + 8)" using w(1) w(2) [of crc] be sb by (auto simp: head_inv_def STORE_SECTOR_SIZE_def)
  have c2: "core_inv fl crc T f2 idx' (b + 8)"
    by (rule core_update [OF fw c1 w(3) _ d' _ _ si hi]) (use c1 in \<open>auto simp: core_inv_def\<close>)
  have se: "same_elsewhere fl b ?f f2"
    using erase_same_elsewhere [OF fw b, of ?f] w(3) same_elsewhere_trans by (auto simp: f1_def)
  have "shrinks fl s s'"
    using store_view_restrict [OF fw inv d' _ se] set' l' by (auto simp: shrinks_def s'_def)
  then show thesis using that [OF op] c2 set' by (auto simp: s'_def)
qed

definition reclaimable :: "'f flash \<Rightarrow> 'f store \<Rightarrow> nat \<Rightarrow> bool" where
  "reclaimable fl s b \<longleftrightarrow> b \<in> set (sector_bases fl) \<and> b \<noteq> sector_base (s_write_off s) \<and>
     (\<exists>h. read_shdr fl (s_flash s) b = Some h \<and> sh_magic h = STORE_SECTOR_MAGIC)"

lemma oldest_step_props:
  "b \<in> set (sector_bases fl) \<Longrightarrow> snd (oldest_step fl s b acc) = snd acc \<or>
     snd (oldest_step fl s b acc) = Some b \<and> reclaimable fl s b"
  by (cases "read_shdr fl (s_flash s) b") (auto simp: oldest_step_def reclaimable_def)

lemma oldest_fold_props:
  "set bs \<subseteq> set (sector_bases fl) \<Longrightarrow> (\<forall>b. snd acc = Some b \<longrightarrow> reclaimable fl s b) \<Longrightarrow>
   snd (fold (oldest_step fl s) bs acc) = Some b \<Longrightarrow> reclaimable fl s b"
proof (induction bs arbitrary: acc)
  case (Cons c bs)
  have "\<forall>b. snd (oldest_step fl s c acc) = Some b \<longrightarrow> reclaimable fl s b"
    using oldest_step_props [of c fl s acc] Cons.prems(1,2) by auto
  then show ?case using Cons.IH [of "oldest_step fl s c acc"] Cons.prems(1,3) by simp
qed simp

lemma oldest_sector_props: "oldest_sector fl s = Some b \<Longrightarrow> reclaimable fl s b"
  unfolding oldest_sector_def by (rule oldest_fold_props [OF subset_refl]) simp_all

lemma reclaim_works:
  assumes fw: "flash_works fl" and inv: "core fl crc T s" and r: "reclaim_oldest_sector fl s = (True, s')"
  obtains b where "b \<in> set (sector_bases fl)" "has_magic fl (s_flash s) b" "\<not> has_magic fl (s_flash s') b"
    "same_elsewhere fl b (s_flash s) (s_flash s')"
    "core fl crc T s'" "shrinks fl s s'" "s_write_off s' = s_write_off s"
proof -
  let ?f = "s_flash s" and ?idx = "s_index s"
  obtain b where b: "oldest_sector fl s = Some b"
    and s': "s' = s \<lparr> s_index := index_drop_sector b ?idx, s_flash := snd (fl_erase fl ?f b STORE_SECTOR_SIZE) \<rparr>"
    using r by (auto simp: reclaim_oldest_sector_def split: option.splits)
  have o: "b \<in> set (sector_bases fl)" "b \<noteq> sector_base (s_write_off s)"
    "\<exists>h. read_shdr fl ?f b = Some h \<and> sh_magic h = STORE_SECTOR_MAGIC"
    using oldest_sector_props [OF b] by (auto simp: reclaimable_def)
  have m: "has_magic fl ?f b" using o(3) read_shdr_magic [OF fw o(1), of ?f] by auto
  have d': "distinct (map ie_key (index_drop_sector b ?idx))"
    by (rule distinct_index_drop_sector [OF core_distinct [OF inv]])
  have be: "b + STORE_SECTOR_SIZE \<le> fl_size fl"
    using o(1) sector_end_le [OF fw, of b] by (auto simp: sector_bases_iff [OF fw])
  have nm: "\<not> has_magic fl (s_flash s') b"
    unfolding s' by (simp, rule blank_no_magic, rule fl_blank_sub [OF fl_erase_blank [OF fw be]])
      (simp_all add: STORE_SECTOR_SIZE_def)
  have se: "same_elsewhere fl b ?f (s_flash s')" using erase_same_elsewhere [OF fw o(1)] by (simp add: s')
  have "core fl crc T s'"
    using o(2) by (simp add: s') (rule core_erase [OF fw inv o(1) _ d' length_index_drop_sector refl]; simp)
  moreover have "shrinks fl s s'"
    using store_view_restrict [OF fw inv d' _ se] length_index_drop_sector [of b ?idx]
    by (auto simp: shrinks_def s')
  ultimately show thesis using that [OF o(1) m nm se] by (simp add: s')
qed

subsection \<open>The loops of an insertion end\<close>

definition magic_sectors :: "'f flash \<Rightarrow> 'f \<Rightarrow> nat set" where
  "magic_sectors fl f = {b \<in> set (sector_bases fl). has_magic fl f b}"

lemma magic_sectors_less:
  assumes "flash_works fl" "b \<in> set (sector_bases fl)" "has_magic fl f b" "\<not> has_magic fl f' b" "same_elsewhere fl b f f'"
  shows "card (magic_sectors fl f') < card (magic_sectors fl f)"
proof (rule psubset_card_mono)
  have "has_magic fl f' c = has_magic fl f c" if "c \<in> set (sector_bases fl)" "c \<noteq> b" for c
    using assms(5) that
    by (intro has_magic_cong) (auto simp: same_elsewhere_def STORE_SECTOR_SIZE_def intro: fl_agree_sub)
  then show "magic_sectors fl f' \<subset> magic_sectors fl f"
    using assms(2-4) unfolding magic_sectors_def by blast
qed (simp add: magic_sectors_def)

text \<open>On a working flash every round of the quota loop erases a sector that was in use.\<close>

lemma evict_works:
  assumes "flash_works fl" "core fl crc T s"
  shows "\<exists>room s'. evict_loop fl s = Some (room, s') \<and> core fl crc T s' \<and> shrinks fl s s' \<and>
    (room \<longrightarrow> length (s_index s') < BITLE_STORE_MAX_RECORDS) \<and> s_write_off s' = s_write_off s \<and>
    (length (s_index s) < BITLE_STORE_MAX_RECORDS \<longrightarrow> room \<and> s' = s)"
  using assms(2)
proof (induction "card (magic_sectors fl (s_flash s))" arbitrary: s rule: less_induct)
  case less
  show ?case
  proof (cases "length (s_index s) < BITLE_STORE_MAX_RECORDS")
    case True
    then show ?thesis
      using less.prems by (intro exI [of _ True] exI [of _ s]) (simp add: evict_loop.simps [of fl s] shrinks_refl)
  next
    case full: False
    obtain more s1 where r: "reclaim_oldest_sector fl s = (more, s1)" by fastforce
    show ?thesis
    proof (cases more)
      case True
      then have "reclaim_oldest_sector fl s = (True, s1)" using r by simp
      then obtain b where b: "b \<in> set (sector_bases fl)" "has_magic fl (s_flash s) b"
        "\<not> has_magic fl (s_flash s1) b" "same_elsewhere fl b (s_flash s) (s_flash s1)"
        and c1: "core fl crc T s1" "shrinks fl s s1" "s_write_off s1 = s_write_off s"
        using reclaim_works [OF assms(1) less.prems] by metis
      obtain room s' where "evict_loop fl s1 = Some (room, s')" "core fl crc T s'" "shrinks fl s1 s'"
        "room \<longrightarrow> length (s_index s') < BITLE_STORE_MAX_RECORDS" "s_write_off s' = s_write_off s1"
        using less.hyps [OF magic_sectors_less [OF assms(1) b] c1(1)] by blast
      then show ?thesis
        using full r True shrinks_trans [OF c1(2)] c1(3) by (auto simp: evict_loop.simps [of fl s])
    next
      case False
      then have "s1 = s" using r by (auto simp: reclaim_oldest_sector_def split: option.splits)
      then show ?thesis
        using full r False less.prems
        by (intro exI [of _ False] exI [of _ s]) (simp add: evict_loop.simps [of fl s] shrinks_refl)
    qed
  qed
qed

lemma open_fits:
  assumes "s_write_off s = b + 8" "b mod STORE_SECTOR_SIZE = 0" "need \<le> 552"
  shows "head_fits need s"
proof -
  have "sector_base (b + 8) = b" using assms(2) by (intro sector_base_eqI) (simp_all add: STORE_SECTOR_SIZE_def)
  then show ?thesis using assms by (simp add: head_fits_def STORE_SECTOR_SIZE_def)
qed

lemma wrap_head_works:
  assumes fw: "flash_works fl" and inv: "core fl crc T s"
  obtains s' where "wrap_head fl s = (ESP_OK, s')" "core fl crc T s'" "shrinks fl s s'" "s_write_off s' < fl_size fl"
    "s_write_off s < fl_size fl \<longrightarrow> s' = s"
proof (cases "fl_size fl \<le> s_write_off s")
  case True
  have z: "0 \<in> set (sector_bases fl)" using fw by (simp add: sector_bases_iff flash_works_def)
  have "8 < fl_size fl"
    using fw sector_end_le [OF fw, of 0] by (simp add: flash_works_def STORE_SECTOR_SIZE_def)
  moreover obtain s' where s': "open_sector fl 0 s = (ESP_OK, s')" "core fl crc T s'" "s_write_off s' = 0 + 8" "shrinks fl s s'"
    using open_sector_works [OF fw inv z] by metis
  ultimately show thesis using that [of s'] True by (simp add: wrap_head_def)
next
  case False
  then show thesis using that [of s] inv by (simp add: wrap_head_def shrinks_refl)
qed

lemma next_base_in:
  assumes "flash_works fl"
  shows "next_base fl s \<in> set (sector_bases fl)"
proof -
  have "(sector_base (s_write_off s) + STORE_SECTOR_SIZE) mod STORE_SECTOR_SIZE = 0"
    using sector_base_props(1) [of "s_write_off s"] by simp
  then show ?thesis
    using assms sector_base_props(1) [of "s_write_off s"]
    by (auto simp: next_base_def Let_def sector_bases_iff flash_works_def)
qed

lemma head_works:
  assumes fw: "flash_works fl" and inv: "core fl crc T s" and need: "need \<le> 552"
  obtains s' where "head_loop fl need s = Some (ESP_OK, s')" "core fl crc T s'" "shrinks fl s s'"
    "head_fits need s'" "s_write_off s' < fl_size fl"
    "s_write_off s < fl_size fl \<and> head_fits need s \<longrightarrow> s' = s"
proof -
  obtain s1 where s1: "wrap_head fl s = (ESP_OK, s1)" "core fl crc T s1" "shrinks fl s s1"
    "s_write_off s1 < fl_size fl" "s_write_off s < fl_size fl \<longrightarrow> s1 = s"
    using wrap_head_works [OF fw inv] by metis
  show thesis
  proof (cases "head_fits need s1")
    case True
    then show thesis using that [of s1] s1 by (simp add: head_loop.simps [of fl need s])
  next
    case False
    let ?b = "next_base fl s1"
    note b = next_base_in [OF fw, of s1]
    obtain s2 where s2: "open_sector fl ?b s1 = (ESP_OK, s2)" "core fl crc T s2" "s_write_off s2 = ?b + 8" "shrinks fl s1 s2"
      using open_sector_works [OF fw s1(2) b] by metis
    have bm: "?b mod STORE_SECTOR_SIZE = 0" "?b + 8 < fl_size fl"
      using b sector_end_le [OF fw, of ?b] by (auto simp: sector_bases_iff [OF fw] STORE_SECTOR_SIZE_def)
    have fits: "head_fits need s2" by (rule open_fits [OF s2(3) bm(1) need])
    have "wrap_head fl s2 = (ESP_OK, s2)" using s2(3) bm(2) by (simp add: wrap_head_def)
    then have "head_loop fl need s2 = Some (ESP_OK, s2)" using fits by (simp add: head_loop.simps [of fl need s2])
    then have "head_loop fl need s = Some (ESP_OK, s2)"
      using s1(1) s2(1) False by (simp add: head_loop.simps [of fl need s])
    then show thesis
      using that [of s2] s2 fits bm(2) shrinks_trans [OF s1(3) s2(4)] s1(5) False by auto
  qed
qed

subsection \<open>Appending and deleting\<close>

lemma log_ok_append:
  assumes fw: "flash_works fl" and b: "base \<in> set (sector_bases fl)" and l: "log_ok fl crc f base rs wo"
    and fit: "wo + (32 + length p) \<le> base + STORE_SECTOR_SIZE" and k: "length k = 16" and p: "p \<noteq> []" "length p \<le> 520"
    and h: "h = new_hdr crc k x g p"
    and f1: "f1 = snd (fl_write fl f wo (hdr_bytes h))" and f2: "f2 = snd (fl_write fl f1 (wo + 32) p)"
  shows "log_ok fl crc f2 base (rs @ [(wo, h)]) (wo + (32 + length p))" "rec_at fl crc f2 wo h"
    "rec_payload fl f2 wo h = p" "same_elsewhere fl base f f2" "fl_agree fl f f2 base wo"
    "has_magic fl f2 base = has_magic fl f base"
proof -
  have be: "base + STORE_SECTOR_SIZE \<le> fl_size fl"
    using b sector_end_le [OF fw, of base] by (auto simp: sector_bases_iff [OF fw])
  have lh: "length (hdr_bytes h) = 32" using k h by simp
  have ls: "lseg fl crc f (base + 8) rs wo" "wo \<le> base + STORE_SECTOR_SIZE" "fl_blank fl f wo (base + STORE_SECTOR_SIZE)"
    using l by (auto simp: log_ok_def)
  note bw = lseg_le [OF ls(1)]
  have bl: "fl_blank fl f wo (wo + (32 + length p))" using fit by (intro fl_blank_sub [OF ls(3)]) auto
  have sz: "wo + (32 + length p) \<le> fl_size fl" using fit be by linarith
  show w: "rec_at fl crc f2 wo h" "rec_payload fl f2 wo h = p"
    by (rule written_record [OF fw k p sz bl h f1 f2])+
  have ag: "fl_agree fl f f2 a c" if "c \<le> fl_size fl" "c \<le> wo \<or> wo + (32 + length p) \<le> a" for a c
    unfolding f2 f1 by (rule fl_agree_trans; rule fl_write_agree [OF fw]) (use that sz lh in auto)
  show "fl_agree fl f f2 base wo" using ls(2) be by (intro ag) auto
  show "has_magic fl f2 base = has_magic fl f base" using bw ls(2) be by (intro has_magic_cong ag) auto
  show "same_elsewhere fl base f f2"
    unfolding f2 f1 by (rule same_elsewhere_trans; rule write_same_elsewhere [OF fw b]) (use bw fit lh in auto)
  have "lseg fl crc f2 (base + 8) rs wo" using bw ls(2) be by (intro lseg_cong [OF ls(1)] ag) auto
  from lseg_snoc [OF this w(1)] show "log_ok fl crc f2 base (rs @ [(wo, h)]) (wo + (32 + length p))"
    using fl_blank_cong [OF ag fl_blank_sub [OF ls(3)]] fit be p(2)
    by (simp add: log_ok_def h rec_len_new_hdr)
qed

lemma core_head_log:
  assumes fw: "flash_works fl" and inv: "core_inv fl crc T f idx wo" and wo: "wo < fl_size fl" "wo mod STORE_SECTOR_SIZE \<noteq> 0"
  obtains rs where "has_magic fl f (sector_base wo)" "log_ok fl crc f (sector_base wo) rs wo"
    "log_indexed T (set idx) (sector_base wo) rs"
proof -
  obtain rs where hm: "has_magic fl f (sector_base wo)" and l: "log_ok fl crc f (sector_base wo) rs wo"
    using core_head [OF inv] wo by (auto simp: head_inv_def)
  have "sector_inv fl crc T f (set idx) (sector_base wo)"
    using inv sector_base_in [OF fw wo(1)] by (simp add: core_inv_def)
  then obtain rs' n where "log_ok fl crc f (sector_base wo) rs' n" "log_indexed T (set idx) (sector_base wo) rs'"
    using hm by (auto simp: sector_inv_def)
  then show thesis using that [OF hm l] log_ok_unique [OF l] by blast
qed

lemma store_view_append:
  assumes fw: "flash_works fl" and inv: "core_inv fl crc T f idx wo" and d: "distinct (map ie_key (idx @ [ie]))"
    and l: "log_ok fl crc f b rs wo" and ag: "fl_agree fl f f' b wo" and se: "same_elsewhere fl b f f'"
    and k: "k \<noteq> ie_key ie"
  shows "store_view fl f' (idx @ [ie]) k = store_view fl f idx k"
proof (cases "k \<in> ie_key ` set idx")
  case True
  then obtain e where e: "e \<in> set idx" "k = ie_key e" by auto
  obtain rs' n h where c: "log_ok fl crc f (sector_base (ie_offset e)) rs' n" "(ie_offset e, h) \<in> set rs'"
    "rec_at fl crc f (ie_offset e) h" "ie_offset e + rec_len h \<le> fl_size fl"
    using core_entry [OF fw inv e(1)] by metis
  have a: "fl_agree fl f f' (ie_offset e) (ie_offset e + rec_len h)"
  proof (cases "sector_base (ie_offset e) = b")
    case True
    then have "rs' = rs" using c(1) log_ok_unique [OF l] by auto
    then show ?thesis
      using log_ok_mem [OF l, of "ie_offset e" h] c(2) by (intro fl_agree_sub [OF ag]) auto
  next
    case False
    have "sector_base (ie_offset e) \<in> set (sector_bases fl)"
      using e(1) inv by (intro sector_base_in [OF fw]) (auto simp: core_inv_def)
    then have "fl_agree fl f f' (sector_base (ie_offset e)) (sector_base (ie_offset e) + STORE_SECTOR_SIZE)"
      using se False by (auto simp: same_elsewhere_def)
    then show ?thesis using record_in_sector [OF fw inv e(1) c(3)] by (auto elim: fl_agree_sub)
  qed
  show ?thesis
    using store_view_rec [OF fw d _ rec_at_cong [OF a c(3)] c(4)] e
      store_view_rec [OF fw core_distinct [OF inv] e(1) c(3,4)] rec_payload_cong [OF a] by simp
qed (use k in \<open>simp add: store_view_None\<close>)

text \<open>A tombstone touches no other indexed record.\<close>

lemma tombstone_other:
  assumes fw: "flash_works fl" and inv: "core_inv fl crc T f idx wo"
    and e: "e \<in> set idx" and d: "d \<in> set idx" "d \<noteq> e" "rec_at fl crc f (ie_offset d) h"
  shows "fl_agree fl f (tombstone_at fl (ie_offset e) f) (ie_offset d) (ie_offset d + rec_len h)"
proof -
  obtain rs n he where r: "log_ok fl crc f (sector_base (ie_offset e)) rs n"
    "(ie_offset e, he) \<in> set rs" "rec_at fl crc f (ie_offset e) he"
    using core_entry [OF fw inv e] by metis
  obtain rs' n' h' where r': "log_ok fl crc f (sector_base (ie_offset d)) rs' n'"
    "(ie_offset d, h') \<in> set rs'" "rec_at fl crc f (ie_offset d) h'"
    using core_entry [OF fw inv d(1)] by metis
  have h': "h' = h" by (rule rec_at_unique [OF r'(3) d(3)])
  note in1 = record_in_sector [OF fw inv e r(3)] and in2 = record_in_sector [OF fw inv d(1,3)]
  have "ie_offset d \<noteq> ie_offset e" using core_offset_inj [OF fw inv d(1) e] d(2) by blast
  moreover have "sector_base (ie_offset d) = sector_base (ie_offset e) \<Longrightarrow> rs' = rs"
    using r(1) r'(1) log_ok_unique by metis
  ultimately have "ie_offset d + rec_len h \<le> ie_offset e \<or> ie_offset e + rec_len he \<le> ie_offset d"
    using lseg_disjoint [of fl crc f _ rs n "ie_offset d" h "ie_offset e" he] r r' h' in1 in2
      sectors_apart [OF sector_base_props(1) sector_base_props(1), of "ie_offset d" "ie_offset e"]
    by (cases "sector_base (ie_offset d) = sector_base (ie_offset e)") (auto simp: log_ok_def)
  then show ?thesis
    using in1 in2 rec_len_ge [of he] by (intro tombstone_agree [OF fw]) linarith+
qed

lemma append_works:
  assumes fw: "flash_works fl" and inv: "core fl crc T s" and fits: "head_fits (32 + length p) s"
    and wo: "s_write_off s < fl_size fl" and room: "length (s_index s) < BITLE_STORE_MAX_RECORDS"
    and fresh: "k \<notin> ie_key ` set (s_index s)" and k: "length k = 16" and p: "p \<noteq> []" "length p \<le> 520"
  obtains s' where "append_record fl crc k x g p s = (ESP_OK, s')" "core fl crc T s'"
    "view fl s' = (view fl s)(k \<mapsto> (x, g, p))" "s_part s' = s_part s" "s_locked s' = s_locked s"
    "length (s_index s') = Suc (length (s_index s))"
proof -
  let ?wo = "s_write_off s" and ?f = "s_flash s" and ?idx = "s_index s"
  let ?b = "sector_base ?wo"
  define h where "h = new_hdr crc k x g p"
  define f1 where "f1 = snd (fl_write fl ?f ?wo (hdr_bytes h))"
  define f2 where "f2 = snd (fl_write fl f1 (?wo + 32) p)"
  define ie where "ie = \<lparr> ie_key = k, ie_offset = ?wo, ie_expiry = x, ie_seq = s_head_seq s \<rparr>"
  define s' where "s' = s \<lparr> s_flash := f2, s_write_off := ?wo + (32 + length p), s_index := ?idx @ [ie] \<rparr>"
  have fit: "?wo \<noteq> ?b" "?wo + (32 + length p) \<le> ?b + STORE_SECTOR_SIZE" using fits by (auto simp: head_fits_def Let_def)
  then have md: "?wo mod STORE_SECTOR_SIZE \<noteq> 0" by (auto simp: sector_base_def)
  have b: "?b \<in> set (sector_bases fl)" by (rule sector_base_in [OF fw wo])
  have be: "?b + STORE_SECTOR_SIZE \<le> fl_size fl"
    using b sector_end_le [OF fw, of ?b] by (auto simp: sector_bases_iff [OF fw])
  obtain rs where hm: "has_magic fl ?f ?b" and l: "log_ok fl crc ?f ?b rs ?wo" and li: "log_indexed T (set ?idx) ?b rs"
    using core_head_log [OF fw inv wo md] by blast
  note la = log_ok_append [OF fw b l fit(2) k p h_def f1_def f2_def]
  have "length (hdr_bytes h) = 32" using k by (simp add: h_def)
  then have wok: "fst (fl_write fl ?f ?wo (hdr_bytes h)) = ESP_OK" "fst (fl_write fl f1 (?wo + 32) p) = ESP_OK"
    using fit(2) be by (auto intro!: fl_write_ok [OF fw])
  have ap: "append_record fl crc k x g p s = (ESP_OK, s')"
    using wok by (simp add: append_record_def s'_def ie_def h_def [symmetric] f1_def f2_def split_beta Let_def)
  have sb: "sector_base (ie_offset ie) = ?b" by (simp add: ie_def)
  have "entry_matches ie h" by (simp add: entry_matches_def ie_def h_def)
  then have "log_indexed T (insert ie (set ?idx)) ?b (rs @ [(?wo, h)])"
    using li by (fastforce simp: log_indexed_def ie_def)
  then have si: "sector_inv fl crc T f2 (set (?idx @ [ie])) ?b" using la(1,6) hm by (auto simp: sector_inv_def)
  have hi: "head_inv fl crc f2 (?wo + (32 + length p))"
  proof (cases "?wo + (32 + length p) < ?b + STORE_SECTOR_SIZE")
    case True
    then have "sector_base (?wo + (32 + length p)) = ?b"
      using sector_base_props [of ?wo] by (intro sector_base_eqI) auto
    then show ?thesis using la(1,6) hm fit(2) be by (auto simp: head_inv_def)
  next
    case False
    then have eq: "?wo + (32 + length p) = ?b + STORE_SECTOR_SIZE" using fit(2) by linarith
    show ?thesis unfolding eq using be sector_base_props(1) [of ?wo] by (simp add: head_inv_def)
  qed
  have d: "distinct (map ie_key (?idx @ [ie]))" using core_distinct [OF inv] fresh by (auto simp: ie_def)
  have c: "core_inv fl crc T f2 (?idx @ [ie]) (?wo + (32 + length p))"
    by (rule core_update [OF fw inv la(4) _ d _ _ si hi]) (use inv room wo sb in \<open>auto simp: core_inv_def ie_def\<close>)
  have rl: "rec_len h = 32 + length p" using p(2) by (simp add: h_def rec_len_new_hdr)
  have "store_view fl f2 (?idx @ [ie]) (ie_key ie) = Some (rh_expiry h, rh_flags h, p)"
    using store_view_rec [OF fw d, of ie crc f2 h] la(2,3) rl fit(2) be by (simp add: ie_def)
  moreover have "store_view fl f2 (?idx @ [ie]) k' = store_view fl ?f ?idx k'" if "k' \<noteq> k" for k'
    using store_view_append [OF fw inv d l la(5,4)] that by (simp add: ie_def)
  ultimately have "view fl s' = (view fl s)(k \<mapsto> (x, g, p))"
    by (intro ext) (auto simp: s'_def ie_def h_def)
  then show thesis using that [OF ap] c by (simp add: s'_def)
qed

lemma drop_key_works:
  assumes fw: "flash_works fl" and inv: "core fl crc T s"
  shows "core fl crc T (drop_key fl k s)" "view fl (drop_key fl k s) = (view fl s)(k := None)"
    "k \<notin> ie_key ` set (s_index (drop_key fl k s))" "s_part (drop_key fl k s) = s_part s"
    "s_locked (drop_key fl k s) = s_locked s" "s_write_off (drop_key fl k s) = s_write_off s"
    "length (s_index (drop_key fl k s)) = length (s_index s) - (if k \<in> ie_key ` set (s_index s) then 1 else 0)"
proof -
  let ?idx = "s_index s" and ?f = "s_flash s"
  have "core fl crc T (drop_key fl k s) \<and> view fl (drop_key fl k s) = (view fl s)(k := None) \<and>
    k \<notin> ie_key ` set (s_index (drop_key fl k s)) \<and> s_part (drop_key fl k s) = s_part s \<and>
    s_locked (drop_key fl k s) = s_locked s \<and> s_write_off (drop_key fl k s) = s_write_off s \<and>
    length (s_index (drop_key fl k s)) = length ?idx - (if k \<in> ie_key ` set ?idx then 1 else 0)"
  proof (cases "index_find k ?idx")
    case None
    then have n: "k \<notin> ie_key ` set ?idx" by (simp add: index_find_None)
    then have "view fl s = (view fl s)(k := None)" using store_view_None by fastforce
    then show ?thesis using n None inv by (simp add: drop_key_def)
  next
    case (Some i)
    then have i: "i < length ?idx" "ie_key (?idx ! i) = k" by (auto simp: index_find_Some [OF core_distinct [OF inv]])
    then have e: "?idx ! i \<in> set ?idx" by simp
    let ?f' = "tombstone_at fl (ie_offset (?idx ! i)) ?f" and ?idx' = "index_remove_at i ?idx"
    have c: "core_inv fl crc T ?f' ?idx' (s_write_off s)" by (rule core_tombstone [OF fw inv i(1)])
    have set': "set ?idx' = {e \<in> set ?idx. ie_key e \<noteq> k}"
      using set_index_remove_at [OF core_distinct [OF inv] i(1)] i(2) by simp
    have "store_view fl ?f' ?idx' k' = (if k' \<in> ie_key ` set ?idx' then view fl s k' else None)" for k'
      using set' i(2) distinct_index_remove_at [OF core_distinct [OF inv] i(1)]
      by (intro store_view_frame [OF fw inv] tombstone_other [OF fw inv e]) auto
    then have "store_view fl ?f' ?idx' k' = ((view fl s)(k := None)) k'" for k'
      using store_view_None [of k' ?idx fl ?f] by (cases "k' \<in> ie_key ` set ?idx") (auto simp: set')
    then have "store_view fl ?f' ?idx' = (view fl s)(k := None)" by (rule ext)
    moreover have "k \<in> ie_key ` set ?idx" using e i(2) by auto
    moreover have "k \<notin> ie_key ` set ?idx'" by (auto simp: set')
    moreover have "drop_key fl k s = s \<lparr> s_flash := ?f', s_index := ?idx' \<rparr>" using Some by (simp add: drop_key_def)
    ultimately show ?thesis using c by simp
  qed
  then show "core fl crc T (drop_key fl k s)" "view fl (drop_key fl k s) = (view fl s)(k := None)"
    "k \<notin> ie_key ` set (s_index (drop_key fl k s))" "s_part (drop_key fl k s) = s_part s"
    "s_locked (drop_key fl k s) = s_locked s" "s_write_off (drop_key fl k s) = s_write_off s"
    "length (s_index (drop_key fl k s)) = length ?idx - (if k \<in> ie_key ` set ?idx then 1 else 0)"
    by blast+
qed

section \<open>The operations refine a map\<close>

lemma shrinks_fresh: "shrinks fl s s' \<Longrightarrow> k \<notin> ie_key ` set (s_index s) \<Longrightarrow> k \<notin> ie_key ` set (s_index s')"
  by (auto simp: shrinks_def)

lemma put_works:
  assumes fw: "flash_works fl" and inv: "store_inv fl crc T s" and k: "length k = BITLE_STORE_KEY_LEN"
    and p: "p \<noteq> []" "length p \<le> BITLE_STORE_PAYLOAD_MAX"
  obtains (stored) s' A where "bitle_store_put fl crc k x g p s = Some (ESP_OK, s')" "store_inv fl crc T s'"
      "view fl s' = (view fl s |` A)(k \<mapsto> (x, g, p))"
      "length (s_index s) < BITLE_STORE_MAX_RECORDS \<and> s_write_off s < fl_size fl \<and> head_fits (rec_hdr_len + length p) s
        \<longrightarrow> A = UNIV"
    | (no_room) s' A where "bitle_store_put fl crc k x g p s = Some (ESP_ERR_NO_MEM, s')" "store_inv fl crc T s'"
      "view fl s' = (view fl s)(k := None) |` A"
      "k \<notin> ie_key ` set (s_index s)" "length (s_index s) = BITLE_STORE_MAX_RECORDS"
proof -
  let ?s0 = "drop_key fl k s" and ?need = "32 + length p"
  have c: "core fl crc T s" "s_part s" "\<not> s_locked s" using inv by (auto simp: store_inv_def)
  note d = drop_key_works [OF fw c(1), of k]
  obtain room s1 where e: "evict_loop fl ?s0 = Some (room, s1)" "core fl crc T s1" "shrinks fl ?s0 s1"
    "room \<longrightarrow> length (s_index s1) < BITLE_STORE_MAX_RECORDS" "s_write_off s1 = s_write_off ?s0"
    "length (s_index ?s0) < BITLE_STORE_MAX_RECORDS \<longrightarrow> room \<and> s1 = ?s0"
    using evict_works [OF fw d(1)] by blast
  have le: "length (s_index s) \<le> BITLE_STORE_MAX_RECORDS" using c(1) by (simp add: core_inv_def)
  have f1: "s_part s1" "\<not> s_locked s1" using e(3) d(4,5) c(2,3) by (auto simp: shrinks_def)
  show thesis
  proof (cases room)
    case False
    then have "bitle_store_put fl crc k x g p s = Some (ESP_ERR_NO_MEM, s1)"
      using c p e(1) by (simp add: bitle_store_put_def)
    moreover have "k \<notin> ie_key ` set (s_index s)" "length (s_index s) = BITLE_STORE_MAX_RECORDS"
      using False e(6) d(7) le by (auto split: if_splits simp: BITLE_STORE_MAX_RECORDS_def)
    moreover have "view fl s1 = (view fl s)(k := None) |` (ie_key ` set (s_index s1))"
      using e(3) d(2) by (simp add: shrinks_def)
    ultimately show thesis using no_room [of s1] e(2) f1 by (auto simp: store_inv_def)
  next
    case True
    obtain s2 where h: "head_loop fl ?need s1 = Some (ESP_OK, s2)" "core fl crc T s2" "shrinks fl s1 s2"
      "head_fits ?need s2" "s_write_off s2 < fl_size fl"
      "s_write_off s1 < fl_size fl \<and> head_fits ?need s1 \<longrightarrow> s2 = s1"
      using head_works [OF fw e(2), of ?need] p(2) by (auto simp: BITLE_STORE_PAYLOAD_MAX_def)
    have sh: "shrinks fl ?s0 s2" by (rule shrinks_trans [OF e(3) h(3)])
    have "length (s_index s2) < BITLE_STORE_MAX_RECORDS" using h(3) e(4) True by (auto simp: shrinks_def)
    then obtain s' where a: "append_record fl crc k x g p s2 = (ESP_OK, s')" "core fl crc T s'"
      "view fl s' = (view fl s2)(k \<mapsto> (x, g, p))" "s_part s' = s_part s2" "s_locked s' = s_locked s2"
      using append_works [OF fw h(2,4,5) _ shrinks_fresh [OF sh d(3)]] k p
      by (metis BITLE_STORE_KEY_LEN_def BITLE_STORE_PAYLOAD_MAX_def)
    have put: "bitle_store_put fl crc k x g p s = Some (ESP_OK, s')"
      using c p e(1) True h(1) a(1) by (simp add: bitle_store_put_def)
    have si: "store_inv fl crc T s'" using a h(3) f1 by (auto simp: store_inv_def shrinks_def)
    show thesis
    proof (cases "length (s_index s) < BITLE_STORE_MAX_RECORDS \<and> s_write_off s < fl_size fl \<and> head_fits ?need s")
      case room_now: True
      then have "s1 = ?s0" using e(6) d(7) by auto
      then have "s2 = ?s0" using h(6) room_now d(6) by (simp add: head_fits_def)
      then have "view fl s' = (view fl s |` UNIV)(k \<mapsto> (x, g, p))" using a(3) d(2) by (auto simp: restrict_map_def)
      then show thesis using stored [OF put si] by blast
    next
      case False
      have "view fl s2 = (view fl s)(k := None) |` (ie_key ` set (s_index s2))"
        using sh d(2) by (simp add: shrinks_def)
      then have "view fl s' = (view fl s |` (ie_key ` set (s_index s2)))(k \<mapsto> (x, g, p))"
        using a(3) by (auto simp: restrict_map_def)
      then show thesis using stored [OF put si] False by blast
    qed
  qed
qed

lemma delete_works:
  assumes "flash_works fl" "store_inv fl crc T s"
  obtains s' where "bitle_store_delete fl k s = Some s'" "store_inv fl crc T s'" "view fl s' = (view fl s)(k := None)"
  using assms drop_key_works [OF assms(1), of crc T s k] that [of "drop_key fl k s"]
  by (simp add: store_inv_def bitle_store_delete_def)

lemma contains_works:
  assumes "flash_works fl" "store_inv fl crc T s"
  shows "bitle_store_contains k s = Some (view fl s k \<noteq> None)"
proof -
  have c: "core fl crc T s" using assms(2) by (simp add: store_inv_def)
  have "(index_find k (s_index s) \<noteq> None) = (view fl s k \<noteq> None)"
    unfolding store_view_dom [OF assms(1) c] index_find_None by simp
  then show ?thesis using assms(2) by (simp only: store_inv_def bitle_store_contains_def if_False if_True simp_thms)
qed

lemma count_works:
  assumes "flash_works fl" "store_inv fl crc T s"
  shows "finite (dom (view fl s))" "card (dom (view fl s)) = bitle_store_count s"
proof -
  have c: "core fl crc T s" using assms(2) by (simp add: store_inv_def)
  have "dom (view fl s) = ie_key ` set (s_index s)"
    by (auto simp only: dom_def store_view_dom [OF assms(1) c])
  then show "finite (dom (view fl s))" "card (dom (view fl s)) = bitle_store_count s"
    using core_distinct [OF c] distinct_card [of "map ie_key (s_index s)"]
    by (auto simp: bitle_store_count_def)
qed

section \<open>Iteration\<close>

text \<open>
  A callback that always wants to go on and whose work does not depend on the locked store is
  folded over the records that are left after the expired ones have been purged.
\<close>

definition on_record :: "'f flash \<Rightarrow> 'f store \<Rightarrow> (bytes \<Rightarrow> u32 \<Rightarrow> u8 \<Rightarrow> bytes \<Rightarrow> 'a \<Rightarrow> 'a option) \<Rightarrow>
    bytes \<Rightarrow> 'a \<Rightarrow> 'a option" where
  "on_record fl s cb k a = (case view fl s k of None \<Rightarrow> None | Some (x, g, p) \<Rightarrow> cb k x g p a)"

definition cb_simple :: "('f, 'a) store_cb \<Rightarrow> (bytes \<Rightarrow> u32 \<Rightarrow> u8 \<Rightarrow> bytes \<Rightarrow> 'a \<Rightarrow> 'a option) \<Rightarrow> bool" where
  "cb_simple cb cb' \<longleftrightarrow> (\<forall>k x g p s a. s_locked s \<and> s_part s \<longrightarrow> cb k x g p s a = map_option (Pair True) (cb' k x g p a))"

definition purges :: "'f flash \<Rightarrow> u32 \<Rightarrow> 'f store \<Rightarrow> 'f store \<Rightarrow> bool" where
  "purges fl now s s' \<longleftrightarrow> set (s_index s') = {e \<in> set (s_index s). \<not> entry_expired now (ie_expiry e)} \<and>
     shrinks fl s s' \<and> s_write_off s' = s_write_off s"

lemma drop_key_shrinks:
  assumes "flash_works fl" "core fl crc T s"
  shows "shrinks fl s (drop_key fl k s)" "set (s_index (drop_key fl k s)) = {e \<in> set (s_index s). ie_key e \<noteq> k}"
proof -
  note d = drop_key_works [OF assms, of k]
  show set': "set (s_index (drop_key fl k s)) = {e \<in> set (s_index s). ie_key e \<noteq> k}"
  proof (cases "index_find k (s_index s)")
    case None
    then have "drop_key fl k s = s" "k \<notin> ie_key ` set (s_index s)" by (simp_all add: drop_key_def index_find_None [symmetric])
    then show ?thesis by auto
  next
    case (Some i)
    then have "i < length (s_index s)" "ie_key (s_index s ! i) = k"
      by (auto simp: index_find_Some [OF core_distinct [OF assms(2)]])
    then show ?thesis using Some set_index_remove_at [OF core_distinct [OF assms(2)]] by (simp add: drop_key_def)
  qed
  have "(view fl s)(k := None) = view fl s |` (ie_key ` set (s_index (drop_key fl k s)))"
  proof
    fix k'
    show "((view fl s)(k := None)) k' = (view fl s |` (ie_key ` set (s_index (drop_key fl k s)))) k'"
      using store_view_None [of k' "s_index s" fl "s_flash s"] by (auto simp: set' restrict_map_def)
  qed
  then show "shrinks fl s (drop_key fl k s)" using d set' by (auto simp: shrinks_def)
qed

lemma drop_key_at:
  assumes "core fl crc T s" "i < length (s_index s)"
  shows "drop_key fl (ie_key (s_index s ! i)) s =
    s \<lparr> s_flash := tombstone_at fl (ie_offset (s_index s ! i)) (s_flash s), s_index := index_remove_at i (s_index s) \<rparr>"
proof -
  have "index_find (ie_key (s_index s ! i)) (s_index s) = Some i"
    using assms(2) by (simp add: index_find_Some [OF core_distinct [OF assms(1)]])
  then show ?thesis by (simp add: drop_key_def)
qed

lemma take_index_remove_at: "i < length idx \<Longrightarrow> take i (index_remove_at i idx) = take i idx"
  by (simp add: index_remove_at_def take_butlast)

lemma iterate_loop_works:
  assumes fw: "flash_works fl" and cb: "cb_simple cb cb'" and "core fl crc T s" "s_locked s" "s_part s"
    "i \<le> length (s_index s)" "\<forall>e \<in> set (take i (s_index s)). \<not> entry_expired now (ie_expiry e)"
  shows "\<exists>s'. core fl crc T s' \<and> purges fl now s s' \<and> take i (s_index s') = take i (s_index s) \<and>
    (\<forall>arg. iterate_loop fl now cb i s arg =
       map_option (Pair s') (fold_opt (on_record fl s' cb') (map ie_key (drop i (s_index s'))) arg))"
  using assms(3-)
proof (induction "length (s_index s) - i" arbitrary: i s rule: less_induct)
  case less
  note inv = less.prems(1)
  show ?case
  proof (cases "i < length (s_index s)")
    case False
    then have "purges fl now s s" using less.prems(4,5) by (auto simp: purges_def shrinks_refl)
    then show ?thesis using False inv by (intro exI [of _ s]) (simp add: iterate_loop.simps [of fl now cb i s])
  next
    case True
    let ?e = "s_index s ! i"
    have e: "?e \<in> set (s_index s)" using True by simp
    show ?thesis
    proof (cases "entry_expired now (ie_expiry ?e)")
      case exp: True
      let ?s1 = "drop_key fl (ie_key ?e) s"
      note d = drop_key_works [OF fw inv, of "ie_key ?e"] drop_key_shrinks [OF fw inv, of "ie_key ?e"]
        and s1 = drop_key_at [OF inv True]
      have "length (s_index ?s1) - i < length (s_index s) - i" "i \<le> length (s_index ?s1)" using True by (auto simp: s1)
      moreover have t: "take i (s_index ?s1) = take i (s_index s)" using True by (simp add: s1 take_index_remove_at)
      ultimately obtain s' where s': "core fl crc T s'" "purges fl now ?s1 s'" "take i (s_index s') = take i (s_index ?s1)"
        "\<forall>arg. iterate_loop fl now cb i ?s1 arg =
           map_option (Pair s') (fold_opt (on_record fl s' cb') (map ie_key (drop i (s_index s'))) arg)"
        using less.hyps [of ?s1 i] d(1,4,5) less.prems(2,3,5) by auto
      have "\<And>e'. e' \<in> set (s_index s) \<Longrightarrow> ie_key e' = ie_key ?e \<Longrightarrow> e' = ?e"
        using core_distinct [OF inv] e by (auto simp: distinct_map inj_on_def)
      then have "purges fl now s s'"
        using s'(2) d(9) shrinks_trans [OF d(8)] exp d(6) by (auto simp: purges_def)
      then show ?thesis
        using s' t exp True by (intro exI [of _ s']) (simp add: iterate_loop.simps [of fl now cb i s] Let_def s1)
    next
      case False
      obtain h where h: "rec_at fl crc (s_flash s) (ie_offset ?e) h" "ie_offset ?e + rec_len h \<le> fl_size fl"
        using core_entry [OF fw inv e] by metis
      let ?p = "rec_payload fl (s_flash s) (ie_offset ?e) h"
      have v: "view fl s (ie_key ?e) = Some (rh_expiry h, rh_flags h, ?p)"
        by (rule store_view_rec [OF fw core_distinct [OF inv] e h])
      have m: "length (s_index s) - Suc i < length (s_index s) - i" "Suc i \<le> length (s_index s)"
        "\<forall>e \<in> set (take (Suc i) (s_index s)). \<not> entry_expired now (ie_expiry e)"
        using True False less.prems(5) by (auto simp: take_Suc_conv_app_nth)
      obtain s' where s': "core fl crc T s'" "purges fl now s s'" "take (Suc i) (s_index s') = take (Suc i) (s_index s)"
        "\<forall>arg. iterate_loop fl now cb (Suc i) s arg =
           map_option (Pair s') (fold_opt (on_record fl s' cb') (map ie_key (drop (Suc i) (s_index s'))) arg)"
        using less.hyps [OF m(1) less.prems(1-3) m(2,3)] by blast
      have len: "length (take (Suc i) (s_index s')) = Suc i" unfolding s'(3) using True by simp
      then have i': "i < length (s_index s')" by simp
      then have nth: "s_index s' ! i = ?e"
        using arg_cong [OF s'(3), of "\<lambda>xs. xs ! i"] True by simp
      then have "ie_key ?e \<in> ie_key ` set (s_index s')" using i' by (metis image_eqI nth_mem)
      then have v': "view fl s' (ie_key ?e) = Some (rh_expiry h, rh_flags h, ?p)"
        using v s'(2) by (simp add: purges_def shrinks_def restrict_map_def)
      have "iterate_loop fl now cb i s arg =
         map_option (Pair s') (fold_opt (on_record fl s' cb') (map ie_key (drop i (s_index s'))) arg)" for arg
        using True False read_record_works [OF fw h] cb less.prems(2,3) s'(4) Cons_nth_drop_Suc [OF i', symmetric] v' nth
        by (cases "cb' (ie_key ?e) (rh_expiry h) (rh_flags h) ?p arg")
          (simp_all add: iterate_loop.simps [of fl now cb i s] Let_def cb_simple_def on_record_def)
      moreover have "take i (s_index s') = take i (s_index s)"
        using arg_cong [OF s'(3), of "take i"] by (simp add: min_def)
      ultimately show ?thesis using s'(1,2) by blast
    qed
  qed
qed

lemma iterate_works:
  assumes fw: "flash_works fl" and cb: "cb_simple cb cb'" and inv: "store_inv fl crc T s"
  obtains s' where "store_inv fl crc T s'" "purges fl (now_unix_s now) s s'"
    "\<And>arg. bitle_store_iterate fl now cb s arg =
      map_option (Pair s') (fold_opt (on_record fl s' cb') (map ie_key (s_index s')) arg)"
proof -
  let ?l = "s \<lparr> s_locked := True \<rparr>"
  obtain s1 where s1: "core fl crc T s1" "purges fl (now_unix_s now) ?l s1"
    "\<And>arg. iterate_loop fl (now_unix_s now) cb 0 ?l arg =
       map_option (Pair s1) (fold_opt (on_record fl s1 cb') (map ie_key (s_index s1)) arg)"
    using iterate_loop_works [OF fw cb, of crc T ?l 0] inv by (auto simp: store_inv_def)
  let ?s' = "s1 \<lparr> s_locked := False \<rparr>"
  have "on_record fl ?s' cb' = on_record fl s1 cb'" by (simp add: on_record_def fun_eq_iff)
  then have "bitle_store_iterate fl now cb s arg =
      map_option (Pair ?s') (fold_opt (on_record fl ?s' cb') (map ie_key (s_index ?s')) arg)" for arg
    using inv s1(3) by (simp add: bitle_store_iterate_def store_inv_def option.map_comp comp_def)
  moreover have "store_inv fl crc T ?s'" "purges fl (now_unix_s now) s ?s'"
    using s1 inv by (auto simp: store_inv_def purges_def shrinks_def)
  ultimately show thesis using that by blast
qed

section \<open>Restart\<close>

subsection \<open>The boot scan reads the logs\<close>

lemma scan_hdr_works:
  assumes "flash_works fl" "rec_at fl crc f off h" "off + rec_len h \<le> fl_size fl"
  shows "scan_hdr fl f off = Some h" "scan_record fl crc f off = Some h"
proof -
  have "off + 32 \<le> fl_size fl" using assms(3) rec_len_ge [of h] by linarith
  then have "read_hdr fl f off = Some h" using assms(1,2) by (simp add: read_hdr_works rec_at_def)
  then show s: "scan_hdr fl f off = Some h" using rec_atD [OF assms(2)] by (simp add: scan_hdr_def)
  have "off + 32 + unat (rh_payload_len h) \<le> fl_size fl" using assms(3) by (simp add: rec_len_def)
  then show "scan_record fl crc f off = Some h"
    using rec_atD(4) [OF assms(2)] s
    by (simp add: scan_record_def fl_read_works [OF assms(1)] rec_payload_def fl_range_def)
qed

lemma scan_blank:
  assumes "flash_works fl" "fl_blank fl f off b" "off + 32 \<le> b" "b \<le> fl_size fl"
  shows "scan_hdr fl f off = None" "scan_record fl crc f off = None"
proof -
  have "off + 32 \<le> fl_size fl" "off + 2 \<le> b" using assms(3,4) by linarith+
  then show "scan_hdr fl f off = None"
    using blank_no_rec(2) [OF assms(2)] assms(1) by (simp add: scan_hdr_def read_hdr_works)
  then show "scan_record fl crc f off = None" by (simp add: scan_record_def)
qed

lemma walk_lseg:
  assumes fw: "flash_works fl" and sz: "base + STORE_SECTOR_SIZE \<le> fl_size fl"
    and e: "e \<le> base + STORE_SECTOR_SIZE" "fl_blank fl f e (base + STORE_SECTOR_SIZE)"
  shows "lseg fl crc f off rs e \<Longrightarrow>
    rebuild_walk fl crc f now base q off idx = fold (\<lambda>(o', h). index_record now q o' h) rs idx \<and>
    resume_walk fl f base off = e"
proof (induction rs arbitrary: off idx)
  case Nil
  then have off: "off = e" by simp
  show ?case
  proof (cases "e + 32 \<le> base + STORE_SECTOR_SIZE")
    case True
    then show ?thesis
      using scan_blank [OF fw e(2) True sz] off
      by (simp add: rebuild_walk.simps [of fl crc f now base q e] resume_walk.simps [of fl f base e])
  next
    case False
    then show ?thesis
      using off by (simp add: rebuild_walk.simps [of fl crc f now base q e] resume_walk.simps [of fl f base e])
  qed
next
  case (Cons r rs)
  obtain h where r: "r = (off, h)" "rec_at fl crc f off h" using Cons.prems by (cases r) auto
  then have tl: "lseg fl crc f (off + rec_len h) rs e" using Cons.prems by simp
  have le: "off + rec_len h \<le> base + STORE_SECTOR_SIZE" using lseg_le [OF tl] e(1) by linarith
  then have "off + 32 \<le> base + STORE_SECTOR_SIZE" using rec_len_ge [of h] by linarith
  then show ?case
    using scan_hdr_works [OF fw r(2)] le sz Cons.IH [OF tl] r(1)
    by (simp add: rebuild_walk.simps [of fl crc f now base q off] resume_walk.simps [of fl f base off] rec_len_def)
qed

lemma walk_log:
  assumes "flash_works fl" "base \<in> set (sector_bases fl)" "log_ok fl crc f base rs e"
  shows "rebuild_walk fl crc f now base q (base + 8) idx = fold (\<lambda>(o', h). index_record now q o' h) rs idx"
    "resume_walk fl f base (base + 8) = e"
proof -
  have "base + STORE_SECTOR_SIZE \<le> fl_size fl"
    using assms(2) sector_end_le [OF assms(1), of base] by (auto simp: sector_bases_iff [OF assms(1)])
  then show "rebuild_walk fl crc f now base q (base + 8) idx = fold (\<lambda>(o', h). index_record now q o' h) rs idx"
    "resume_walk fl f base (base + 8) = e"
    using walk_lseg [OF assms(1)] assms(3) unfolding log_ok_def by blast+
qed

subsection \<open>The index is rebuilt\<close>

text \<open>What the index says of a record, apart from the sequence number.\<close>

definition ie_core :: "store_index_entry \<Rightarrow> bytes \<times> nat \<times> u32" where
  "ie_core e = (ie_key e, ie_offset e, ie_expiry e)"

definition unexpired :: "u32 \<Rightarrow> store_index_entry list \<Rightarrow> store_index_entry set" where
  "unexpired now idx = {e \<in> set idx. \<not> entry_expired now (ie_expiry e)}"

definition rebuilt :: "u32 \<Rightarrow> store_index_entry list \<Rightarrow> store_index_entry list \<Rightarrow> bool" where
  "rebuilt now idx R \<longleftrightarrow> distinct (map ie_key R) \<and> ie_core ` set R \<subseteq> ie_core ` unexpired now idx"

lemma entry_expired_mono: "entry_expired T x \<Longrightarrow> T \<le> now \<Longrightarrow> entry_expired now x"
  by (auto simp: entry_expired_def)

lemma rebuilt_length:
  assumes d: "distinct (map ie_key idx)" and R: "rebuilt now idx R" and e: "e \<in> set idx" "ie_key e \<notin> ie_key ` set R"
  shows "length R < length idx"
proof -
  have "ie_key ` set R \<subseteq> ie_key ` set idx - {ie_key e}"
  proof
    fix k assume k: "k \<in> ie_key ` set R"
    then obtain r where r: "r \<in> set R" "k = ie_key r" by auto
    then obtain d where "d \<in> unexpired now idx" "ie_core r = ie_core d" using R by (auto simp: rebuilt_def)
    then show "k \<in> ie_key ` set idx - {ie_key e}" using r e(2) k by (auto simp: unexpired_def ie_core_def)
  qed
  then have "card (ie_key ` set R) \<le> card (ie_key ` set idx - {ie_key e})" by (intro card_mono) auto
  also have "\<dots> < card (ie_key ` set idx)" using e(1) by (intro card_Diff1_less) auto
  finally show ?thesis
    using distinct_card [OF d] distinct_card [of "map ie_key R"] R by (simp add: rebuilt_def)
qed

lemma index_record_rebuilt:
  assumes d: "distinct (map ie_key idx)" and len: "length idx \<le> BITLE_STORE_MAX_RECORDS" and R: "rebuilt now idx R"
    and e: "e \<in> set idx" "entry_matches e h" "ie_offset e = o'" "\<not> entry_expired now (rh_expiry h)"
  shows "rebuilt now idx (index_record now q o' h R)"
    "ie_core ` set (index_record now q o' h R) = insert (ie_core e) (ie_core ` set R)"
proof -
  let ?n = "\<lparr> ie_key = rh_key h, ie_offset = o', ie_expiry = rh_expiry h, ie_seq = q \<rparr>"
  have m: "ie_key e = rh_key h" "ie_expiry e = rh_expiry h" "rh_alive h = 0xFF" using e(2) by (auto simp: entry_matches_def)
  have n: "ie_core ?n = ie_core e" using m e(3) by (simp add: ie_core_def)
  have u: "e \<in> unexpired now idx" using e m by (simp add: unexpired_def)
  have dR: "distinct (map ie_key R)" using R by (simp add: rebuilt_def)
  have "rebuilt now idx (index_record now q o' h R) \<and>
    ie_core ` set (index_record now q o' h R) = insert (ie_core e) (ie_core ` set R)"
  proof (cases "index_find (rh_key h) R")
    case None
    then have f: "rh_key h \<notin> ie_key ` set R" by (simp add: index_find_None)
    then have "length R < length idx" using rebuilt_length [OF d R e(1)] m(1) by simp
    then have "index_record now q o' h R = R @ [?n]"
      using None m(3) e(4) len by (simp add: index_record_def)
    then show ?thesis using f dR R n u by (auto simp: rebuilt_def)
  next
    case (Some i)
    then have i: "i < length R" "ie_key (R ! i) = rh_key h" by (auto simp: index_find_Some [OF dR])
    then obtain c where c: "c \<in> unexpired now idx" "ie_core (R ! i) = ie_core c"
      using R by (auto simp: rebuilt_def dest!: subsetD [of _ _ "ie_core (R ! i)"])
    then have "ie_key c = ie_key e" using i(2) m(1) by (simp add: ie_core_def)
    then have "c = e" using d c(1) e(1) by (auto simp: distinct_map inj_on_def unexpired_def)
    then have ci: "ie_core (R ! i) = ie_core e" using c by simp
    then have mem: "ie_core e \<in> ie_core ` set R" using i(1) by (metis image_eqI nth_mem)
    have "map ie_core (R[i := ?n]) = map ie_core R" "map ie_key (R[i := ?n]) = map ie_key R"
      using i ci n by (auto simp: map_update list_update_same_conv)
    then have "ie_core ` set (R[i := ?n]) = ie_core ` set R" "distinct (map ie_key (R[i := ?n]))"
      using dR by (metis set_map, simp)
    then show ?thesis using Some m(3) e(4) R mem by (auto simp: index_record_def rebuilt_def)
  qed
  then show "rebuilt now idx (index_record now q o' h R)"
    "ie_core ` set (index_record now q o' h R) = insert (ie_core e) (ie_core ` set R)" by blast+
qed

text \<open>The records of one log add exactly the unexpired entries of its sector.\<close>

lemma rebuild_log:
  assumes d: "distinct (map ie_key idx)" and len: "length idx \<le> BITLE_STORE_MAX_RECORDS" and T: "T \<le> now"
    and ok: "\<forall>(o', h) \<in> set rs. rh_alive h = 0xFF \<longrightarrow> entry_expired T (rh_expiry h) \<or>
      (\<exists>e \<in> set idx. ie_offset e = o' \<and> entry_matches e h)"
    and R: "rebuilt now idx R"
  shows "rebuilt now idx (fold (\<lambda>(o', h). index_record now q o' h) rs R) \<and>
    ie_core ` set (fold (\<lambda>(o', h). index_record now q o' h) rs R) = ie_core ` set R \<union>
      {(rh_key h, o', rh_expiry h) | o' h. (o', h) \<in> set rs \<and> rh_alive h = 0xFF \<and> \<not> entry_expired now (rh_expiry h)}"
  using ok R
proof (induction rs arbitrary: R)
  case (Cons r rs)
  obtain o' h where r: "r = (o', h)" by fastforce
  show ?case
  proof (cases "rh_alive h = 0xFF \<and> \<not> entry_expired now (rh_expiry h)")
    case True
    then obtain e where e: "e \<in> set idx" "ie_offset e = o'" "entry_matches e h"
      using Cons.prems(1) r entry_expired_mono [OF _ T] by auto
    note s = index_record_rebuilt [OF d len Cons.prems(2) e(1,3,2), of q]
    have "ie_core e = (rh_key h, o', rh_expiry h)" using e by (simp add: ie_core_def entry_matches_def)
    then show ?thesis using Cons.IH [OF _ s(1)] s(2) True Cons.prems(1) r by auto
  next
    case False
    then have "index_record now q o' h R = R" by (auto simp: index_record_def)
    then show ?thesis using Cons.IH [OF _ Cons.prems(2)] Cons.prems(1) r False by auto
  qed
qed simp

lemma sector_live:
  assumes fw: "flash_works fl" and inv: "core_inv fl crc T f idx wo" and b: "base \<in> set (sector_bases fl)"
    and l: "log_ok fl crc f base rs n" "log_indexed T (set idx) base rs"
  shows "\<forall>(o', h) \<in> set rs. rh_alive h = 0xFF \<longrightarrow> entry_expired T (rh_expiry h) \<or>
      (\<exists>e \<in> set idx. ie_offset e = o' \<and> entry_matches e h)"
    "T \<le> now \<Longrightarrow>
     {(rh_key h, o', rh_expiry h) | o' h. (o', h) \<in> set rs \<and> rh_alive h = 0xFF \<and> \<not> entry_expired now (rh_expiry h)} =
     ie_core ` {e \<in> unexpired now idx. sector_base (ie_offset e) = base}"
proof -
  have match: "entry_matches e h" if e: "e \<in> set idx" "(ie_offset e, h) \<in> set rs" for e h
  proof -
    obtain h' where h': "rec_at fl crc f (ie_offset e) h'" "entry_matches e h'"
      using core_entry [OF fw inv e(1)] by metis
    have "h' = h" by (rule rec_at_unique [OF h'(1) log_ok_mem(1) [OF l(1) e(2)]])
    then show ?thesis using h'(2) by simp
  qed
  show live: "\<forall>(o', h) \<in> set rs. rh_alive h = 0xFF \<longrightarrow> entry_expired T (rh_expiry h) \<or>
      (\<exists>e \<in> set idx. ie_offset e = o' \<and> entry_matches e h)"
  proof (intro ballI, clarify)
    fix o' h assume a: "(o', h) \<in> set rs" "rh_alive h = 0xFF" "\<not> (\<exists>e \<in> set idx. ie_offset e = o' \<and> entry_matches e h)"
    then have "\<not> (\<exists>e \<in> set idx. ie_offset e = o')" using match by blast
    then show "entry_expired T (rh_expiry h)" using l(2) a(1,2) by (auto simp: log_indexed_def)
  qed
  have bm: "base mod STORE_SECTOR_SIZE = 0" using b by (simp add: sector_bases_iff [OF fw])
  assume T: "T \<le> now"
  show "{(rh_key h, o', rh_expiry h) | o' h. (o', h) \<in> set rs \<and> rh_alive h = 0xFF \<and> \<not> entry_expired now (rh_expiry h)} =
     ie_core ` {e \<in> unexpired now idx. sector_base (ie_offset e) = base}" (is "?A = ?B")
  proof
    show "?A \<subseteq> ?B"
    proof
      fix x assume "x \<in> ?A"
      then obtain o' h where x: "x = (rh_key h, o', rh_expiry h)" "(o', h) \<in> set rs" "rh_alive h = 0xFF"
        "\<not> entry_expired now (rh_expiry h)" by blast
      then obtain e where e: "e \<in> set idx" "ie_offset e = o'" "entry_matches e h"
        using live entry_expired_mono [OF _ T] by blast
      then have "e \<in> {e \<in> unexpired now idx. sector_base (ie_offset e) = base}" "x = ie_core e"
        using x log_ok_sector [OF l(1) x(2) bm] by (auto simp: unexpired_def entry_matches_def ie_core_def)
      then show "x \<in> ?B" by blast
    qed
    show "?B \<subseteq> ?A"
    proof
      fix x assume "x \<in> ?B"
      then obtain e where e: "e \<in> unexpired now idx" "sector_base (ie_offset e) = base" "x = ie_core e" by blast
      then obtain h where "(ie_offset e, h) \<in> set rs" "entry_matches e h"
        using l(2) by (auto simp: log_indexed_def unexpired_def)
      then show "x \<in> ?A" using e(1,3) by (auto simp: unexpired_def ie_core_def entry_matches_def)
    qed
  qed
qed

definition newest_ok :: "'f flash \<Rightarrow> 'f \<Rightarrow> nat list \<Rightarrow> nat option \<Rightarrow> bool" where
  "newest_ok fl f bs nb \<longleftrightarrow> (case nb of None \<Rightarrow> \<forall>b \<in> set bs. \<not> has_magic fl f b
     | Some b \<Rightarrow> b \<in> set (sector_bases fl) \<and> has_magic fl f b)"

lemma rebuild_sectors:
  assumes fw: "flash_works fl" and inv: "core_inv fl crc T f idx wo" and T: "T \<le> now"
  shows "set bs \<subseteq> set (sector_bases fl) \<Longrightarrow>
    case fold (rebuild_sector fl crc f now) bs (0, None, []) of (q, nb, R) \<Rightarrow>
      newest_ok fl f bs nb \<and> (nb = None \<longrightarrow> q = 0) \<and> rebuilt now idx R \<and>
      ie_core ` set R = ie_core ` {e \<in> unexpired now idx. sector_base (ie_offset e) \<in> set bs}"
proof (induction bs rule: rev_induct)
  case Nil
  then show ?case by (simp add: newest_ok_def rebuilt_def)
next
  case (snoc b bs)
  obtain q nb R where acc: "fold (rebuild_sector fl crc f now) bs (0, None, []) = (q, nb, R)" by (metis prod.exhaust)
  have IH: "newest_ok fl f bs nb" "nb = None \<longrightarrow> q = 0" "rebuilt now idx R"
    "ie_core ` set R = ie_core ` {e \<in> unexpired now idx. sector_base (ie_offset e) \<in> set bs}"
    using snoc acc by auto
  have b: "b \<in> set (sector_bases fl)" using snoc.prems by simp
  obtain sh where sh: "read_shdr fl f b = Some sh" "sh_magic sh = STORE_SECTOR_MAGIC \<longleftrightarrow> has_magic fl f b"
    using read_shdr_magic [OF fw b] by blast
  have si: "sector_inv fl crc T f (set idx) b" using inv b by (simp add: core_inv_def)
  have st: "fold (rebuild_sector fl crc f now) (bs @ [b]) (0, None, []) = rebuild_sector fl crc f now b (q, nb, R)"
    by (simp add: acc)
  show ?case
  proof (cases "has_magic fl f b")
    case False
    then have "{e \<in> unexpired now idx. sector_base (ie_offset e) \<in> set (bs @ [b])} =
        {e \<in> unexpired now idx. sector_base (ie_offset e) \<in> set bs}"
      using si by (auto simp: sector_inv_def unexpired_def)
    moreover have "rebuild_sector fl crc f now b (q, nb, R) = (q, nb, R)"
      using False sh by (simp add: rebuild_sector_def)
    ultimately show ?thesis
      unfolding st using False IH by (simp add: newest_ok_def split: option.splits)
  next
    case True
    then obtain rs n where l: "log_ok fl crc f b rs n" "log_indexed T (set idx) b rs"
      using si by (auto simp: sector_inv_def)
    let ?R = "fold (\<lambda>(o', h). index_record now (sh_seq sh) o' h) rs R"
    have d: "distinct (map ie_key idx)" "length idx \<le> BITLE_STORE_MAX_RECORDS" using inv by (auto simp: core_inv_def)
    note live = sector_live [OF fw inv b l]
    note r = rebuild_log [OF d T live(1) IH(3), of "sh_seq sh", unfolded live(2) [OF T]]
    have "{e \<in> unexpired now idx. sector_base (ie_offset e) \<in> set (bs @ [b])} =
        {e \<in> unexpired now idx. sector_base (ie_offset e) \<in> set bs} \<union>
        {e \<in> unexpired now idx. sector_base (ie_offset e) = b}" by auto
    then have "ie_core ` set ?R = ie_core ` {e \<in> unexpired now idx. sector_base (ie_offset e) \<in> set (bs @ [b])}"
      using r IH(4) by (simp only: image_Un)
    moreover have "rebuild_sector fl crc f now b (q, nb, R) =
        (if q \<le> sh_seq sh then (sh_seq sh, Some b, ?R) else (q, nb, ?R))"
      using True sh walk_log(1) [OF fw b l(1)] by (simp add: rebuild_sector_def)
    moreover have "nb = None \<Longrightarrow> q \<le> sh_seq sh" using IH(2) by simp
    ultimately show ?thesis
      unfolding st using r True b IH(1) by (auto simp: newest_ok_def split: option.splits)
  qed
qed

lemma log_indexed_rebuilt:
  assumes T: "T \<le> now" and l: "log_indexed T (set idx) base rs"
    and m: "\<And>e h. e \<in> set idx \<Longrightarrow> (ie_offset e, h) \<in> set rs \<Longrightarrow> entry_matches e h"
    and R: "ie_core ` set R = ie_core ` unexpired now idx"
  shows "log_indexed now (set R) base rs"
  unfolding log_indexed_def
proof (intro conjI ballI impI)
  fix r assume r: "r \<in> set R" "sector_base (ie_offset r) = base"
  then obtain e where e: "e \<in> unexpired now idx" "ie_core r = ie_core e" using R by (metis image_eqI image_iff)
  then have "e \<in> set idx" "sector_base (ie_offset e) = base" using r(2) by (auto simp: unexpired_def ie_core_def)
  then obtain h where "(ie_offset e, h) \<in> set rs" "entry_matches e h" using l by (auto simp: log_indexed_def)
  then show "\<exists>h. (ie_offset r, h) \<in> set rs \<and> entry_matches r h"
    using e(2) by (auto simp: ie_core_def entry_matches_def)
next
  fix x assume x: "x \<in> set rs"
  show "case x of (o', h) \<Rightarrow> rh_alive h = 0xFF \<longrightarrow> entry_expired now (rh_expiry h) \<or> (\<exists>e \<in> set R. ie_offset e = o')"
  proof (cases x)
    case (Pair o' h)
    have "\<exists>e \<in> set R. ie_offset e = o'" if a: "rh_alive h = 0xFF" "\<not> entry_expired now (rh_expiry h)"
    proof -
      obtain e where e: "e \<in> set idx" "ie_offset e = o'"
        using l x Pair a entry_expired_mono [OF _ T] by (auto simp: log_indexed_def)
      then have "ie_expiry e = rh_expiry h" using m [of e h] x Pair by (simp add: entry_matches_def)
      then have "ie_core e \<in> ie_core ` set R" using e a unfolding R by (simp add: unexpired_def)
      then show ?thesis using e(2) by (auto simp: ie_core_def)
    qed
    then show ?thesis using Pair by auto
  qed
qed

lemma core_rebuilt:
  assumes fw: "flash_works fl" and inv: "core_inv fl crc T f idx wo" and T: "T \<le> now"
    and R: "rebuilt now idx R" "ie_core ` set R = ie_core ` unexpired now idx" and wo: "head_inv fl crc f wo'"
  shows "core_inv fl crc now f R wo'"
proof -
  have off: "\<exists>e \<in> set idx. ie_offset e = ie_offset r \<and> ie_key e = ie_key r" if "r \<in> set R" for r
  proof -
    have "ie_core r \<in> ie_core ` unexpired now idx" using that R(2) by blast
    then show ?thesis by (auto simp: unexpired_def ie_core_def)
  qed
  have "ie_key ` set R \<subseteq> ie_key ` set idx" using off by (metis image_eqI image_subsetI)
  then have "card (ie_key ` set R) \<le> card (ie_key ` set idx)" by (intro card_mono) auto
  then have len: "length R \<le> length idx"
    using distinct_card [of "map ie_key R"] distinct_card [OF core_distinct [OF inv]] R(1) by (simp add: rebuilt_def)
  have "sector_inv fl crc now f (set R) base" if b: "base \<in> set (sector_bases fl)" for base
  proof -
    have si: "sector_inv fl crc T f (set idx) base" using inv b by (simp add: core_inv_def)
    show ?thesis
    proof (cases "has_magic fl f base")
      case True
      then obtain rs n where l: "log_ok fl crc f base rs n" "log_indexed T (set idx) base rs"
        using si by (auto simp: sector_inv_def)
      have "entry_matches e h" if e: "e \<in> set idx" "(ie_offset e, h) \<in> set rs" for e h
      proof -
        obtain h' where h': "rec_at fl crc f (ie_offset e) h'" "entry_matches e h'"
          using core_entry [OF fw inv e(1)] by metis
        have "h' = h" by (rule rec_at_unique [OF h'(1) log_ok_mem(1) [OF l(1) e(2)]])
        then show ?thesis using h'(2) by simp
      qed
      then show ?thesis using True l(1) log_indexed_rebuilt [OF T l(2) _ R(2)] by (auto simp: sector_inv_def)
    next
      case False
      then show ?thesis using si off by (fastforce simp: sector_inv_def)
    qed
  qed
  moreover have "\<forall>r \<in> set R. ie_offset r < fl_size fl" using off inv by (fastforce simp: core_inv_def)
  ultimately show ?thesis using R(1) wo len inv by (auto simp: core_inv_def rebuilt_def)
qed

definition still_valid :: "u32 \<Rightarrow> (bytes \<rightharpoonup> u32 \<times> u8 \<times> bytes) \<Rightarrow> bytes \<rightharpoonup> u32 \<times> u8 \<times> bytes" where
  "still_valid now m k = (case m k of None \<Rightarrow> None
     | Some v \<Rightarrow> if entry_expired now (fst v) then None else Some v)"

lemma view_rebuilt:
  assumes fw: "flash_works fl" and inv: "core_inv fl crc T f idx wo"
    and R: "rebuilt now idx R" "ie_core ` set R = ie_core ` unexpired now idx"
  shows "store_view fl f R = still_valid now (store_view fl f idx)"
proof
  fix k
  note d = core_distinct [OF inv]
  have dR: "distinct (map ie_key R)" using R(1) by (simp add: rebuilt_def)
  show "store_view fl f R k = still_valid now (store_view fl f idx) k"
  proof (cases "k \<in> ie_key ` set idx")
    case False
    then have "k \<notin> ie_key ` set R"
      using R(2) by (force simp: ie_core_def unexpired_def dest: equalityD1)
    then show ?thesis using False by (simp add: store_view_None still_valid_def)
  next
    case True
    then obtain e where e: "e \<in> set idx" "k = ie_key e" by auto
    obtain h where h: "rec_at fl crc f (ie_offset e) h" "ie_offset e + rec_len h \<le> fl_size fl" "entry_matches e h"
      using core_entry [OF fw inv e(1)] by metis
    note v = store_view_rec [OF fw d e(1) h(1,2)]
    show ?thesis
    proof (cases "entry_expired now (ie_expiry e)")
      case exp: True
      have "k \<notin> ie_key ` set R"
      proof
        assume "k \<in> ie_key ` set R"
        then obtain r where r: "r \<in> set R" "k = ie_key r" by auto
        then have "ie_core r \<in> ie_core ` unexpired now idx" using R(2) by blast
        then obtain e' where "e' \<in> unexpired now idx" "ie_key e' = k" using r(2) by (auto simp: ie_core_def)
        then have "e' = e" using d e by (auto simp: distinct_map inj_on_def unexpired_def)
        then show False using exp \<open>e' \<in> unexpired now idx\<close> by (simp add: unexpired_def)
      qed
      then show ?thesis using v e(2) h(3) exp by (simp add: store_view_None still_valid_def entry_matches_def)
    next
      case False
      then have "ie_core e \<in> ie_core ` set R" using e(1) unfolding R(2) by (simp add: unexpired_def)
      then obtain r where r: "r \<in> set R" "ie_key r = ie_key e" "ie_offset r = ie_offset e" by (auto simp: ie_core_def)
      have "store_view fl f R (ie_key r) = store_view fl f idx (ie_key e)"
        using store_view_rec [OF fw dR r(1), of crc f h] h(1,2) r(3) v by simp
      then show ?thesis using r(2) e(2) v False h(3) by (simp add: still_valid_def entry_matches_def)
    qed
  qed
qed

lemma resume_head:
  assumes fw: "flash_works fl" and inv: "core_inv fl crc T f idx wo" and b: "b \<in> set (sector_bases fl)" "has_magic fl f b"
  shows "head_inv fl crc f (resume_walk fl f b (b + 8))"
proof -
  have "sector_inv fl crc T f (set idx) b" using inv b(1) by (simp add: core_inv_def)
  then obtain rs n where l: "log_ok fl crc f b rs n" using b(2) by (auto simp: sector_inv_def)
  have bm: "b mod STORE_SECTOR_SIZE = 0" "b + STORE_SECTOR_SIZE \<le> fl_size fl"
    using b(1) sector_end_le [OF fw, of b] by (auto simp: sector_bases_iff [OF fw])
  have n: "b \<le> n" "n \<le> b + STORE_SECTOR_SIZE" using l lseg_le by (fastforce simp: log_ok_def)+
  have "head_inv fl crc f n"
  proof (cases "n = b + STORE_SECTOR_SIZE")
    case True
    then show ?thesis using bm by (simp add: head_inv_def)
  next
    case False
    then have "sector_base n = b" using bm n by (intro sector_base_eqI) auto
    then show ?thesis using l b(2) n bm by (auto simp: head_inv_def)
  qed
  then show ?thesis by (simp add: walk_log(2) [OF fw b(1) l])
qed

lemma restart_works:
  assumes fw: "flash_works fl" and inv: "core_inv fl crc T f idx wo" and T: "T \<le> now_unix_s now"
  obtains s' where "bitle_store_init fl crc True True now (store_static f) = (ESP_OK, s')"
    "store_inv fl crc (now_unix_s now) s'" "view fl s' = still_valid (now_unix_s now) (store_view fl f idx)"
proof -
  let ?now = "now_unix_s now"
  obtain q nb R where acc: "fold (rebuild_sector fl crc f ?now) (sector_bases fl) (0, None, []) = (q, nb, R)"
    by (metis prod.exhaust)
  have "{e \<in> unexpired ?now idx. sector_base (ie_offset e) \<in> set (sector_bases fl)} = unexpired ?now idx"
    using inv sector_base_in [OF fw] by (auto simp: unexpired_def core_inv_def)
  then have R: "newest_ok fl f (sector_bases fl) nb" "rebuilt ?now idx R" "ie_core ` set R = ie_core ` unexpired ?now idx"
    using rebuild_sectors [OF fw inv T subset_refl] by (auto simp: acc)
  note vw = view_rebuilt [OF fw inv R(2,3)]
  show thesis
  proof (cases nb)
    case (Some b)
    let ?s = "(store_static f) \<lparr> s_part := True, s_index := R, s_next_seq := q + 1,
       s_write_off := resume_walk fl f b (b + 8), s_head_seq := q \<rparr>"
    have b: "b \<in> set (sector_bases fl)" "has_magic fl f b" using R(1) Some by (auto simp: newest_ok_def)
    have "bitle_store_init fl crc True True now (store_static f) = (ESP_OK, ?s)"
      using acc Some by (simp add: bitle_store_init_def store_static_def)
    then show thesis
      using that [of ?s] core_rebuilt [OF fw inv T R(2,3) resume_head [OF fw inv b]] vw
      by (simp add: store_inv_def store_static_def)
  next
    case None
    let ?s = "(store_static f) \<lparr> s_part := True, s_index := R, s_next_seq := q + 1 \<rparr>"
    have "head_inv fl crc f 0" by (simp add: head_inv_def)
    then have c: "core fl crc ?now ?s"
      using core_rebuilt [OF fw inv T R(2,3)] by (simp add: store_static_def)
    have z: "0 \<in> set (sector_bases fl)" using fw by (simp add: sector_bases_iff flash_works_def)
    have "\<not> has_magic fl f 0" using R(1) None z by (simp add: newest_ok_def)
    then have nz: "\<forall>e \<in> set R. sector_base (ie_offset e) \<noteq> 0"
      using c z by (auto simp: core_inv_def sector_inv_def store_static_def)
    obtain s' where s': "open_sector fl 0 ?s = (ESP_OK, s')" "core fl crc ?now s'" "s_write_off s' = 0 + 8"
      "shrinks fl ?s s'" "s_next_seq s' = s_next_seq ?s + 1"
      "set (s_index s') = {e \<in> set (s_index ?s). sector_base (ie_offset e) \<noteq> 0}"
      by (rule open_sector_works [OF fw c z])
    have "set (s_index s') = set R" using nz s'(6) by auto
    then have "view fl s' = store_view fl f R"
      using s'(4) store_view_None [of _ R fl f]
      by (auto simp: shrinks_def store_static_def restrict_map_def fun_eq_iff)
    moreover have "bitle_store_init fl crc True True now (store_static f) = (ESP_OK, s')"
      using acc None s'(1) by (simp add: bitle_store_init_def store_static_def)
    ultimately show thesis
      using that [of s'] s'(2,4) vw by (simp add: store_inv_def shrinks_def store_static_def)
  qed
qed

section \<open>The store is a mailbox\<close>

definition store_fits :: "bytes \<Rightarrow> bytes \<Rightarrow> bool" where
  "store_fits k p \<longleftrightarrow> length k = BITLE_STORE_KEY_LEN \<and> p \<noteq> [] \<and> length p \<le> BITLE_STORE_PAYLOAD_MAX"

interpretation mb: mailbox "\<lambda>s. flash_works fl \<and> store_inv fl crc T s" "view fl" "bitle_store_put fl crc"
  "bitle_store_delete fl" bitle_store_contains bitle_store_count BITLE_STORE_MAX_RECORDS store_fits
  for fl :: "'f flash" and crc T
proof (unfold_locales, goal_cases)
  case (3 s k p x g)
  then have r: "flash_works fl" "store_inv fl crc T s" "length k = BITLE_STORE_KEY_LEN" "p \<noteq> []"
    "length p \<le> BITLE_STORE_PAYLOAD_MAX" "length (s_index s) < BITLE_STORE_MAX_RECORDS"
    by (auto simp: store_fits_def bitle_store_count_def)
  show ?case
    by (rule put_works [OF r(1-5), of x g]) (use r(1,6) in auto)
next
  case (4 s k)
  then show ?case by (metis delete_works)
qed (use count_works contains_works in auto)

section \<open>A concrete flash\<close>

text \<open>A NOR flash of \<open>n\<close> sectors, to instantiate the parameters.\<close>

definition nor_flash :: "nat \<Rightarrow> (nat \<Rightarrow> u8) flash" where
  "nor_flash n = \<lparr> fl_size = n * STORE_SECTOR_SIZE,
     fl_read = (\<lambda>f off k. if off + k \<le> n * STORE_SECTOR_SIZE then Some (map f [off..<off + k]) else None),
     fl_write = (\<lambda>f off bs. if off + length bs \<le> n * STORE_SECTOR_SIZE
        then (ESP_OK, \<lambda>a. if off \<le> a \<and> a < off + length bs then f a AND bs ! (a - off) else f a)
        else (ESP_ERR_INVALID_ARG, f)),
     fl_erase = (\<lambda>f off k. if off + k \<le> n * STORE_SECTOR_SIZE
        then (ESP_OK, \<lambda>a. if off \<le> a \<and> a < off + k then 0xFF else f a) else (ESP_ERR_INVALID_ARG, f)) \<rparr>"

lemma nor_flash_byte: "a < n * STORE_SECTOR_SIZE \<Longrightarrow> fl_byte (nor_flash n) f a = f a"
  by (simp add: fl_byte_def nor_flash_def)

lemma nor_flash_size [simp]: "fl_size (nor_flash n) = n * STORE_SECTOR_SIZE"
  by (simp add: nor_flash_def)

lemma nor_flash_works: "0 < n \<Longrightarrow> flash_works (nor_flash n)"
  unfolding flash_works_def
proof (intro conjI allI impI, goal_cases)
  case (3 f off k)
  then have "map f [off..<off + k] = map (fl_byte (nor_flash n) f) [off..<off + k]"
    by (intro map_cong) (auto simp: nor_flash_byte)
  then show ?case using 3 by (simp add: nor_flash_def)
next
  case (5 f off bs a)
  then have "a < n * STORE_SECTOR_SIZE" by (simp add: nor_flash_def)
  then show ?case using 5 by (simp add: nor_flash_byte) (simp add: nor_flash_def)
next
  case (7 f off k a)
  then have "a < n * STORE_SECTOR_SIZE" by (simp add: nor_flash_def)
  then show ?case using 7 by (simp add: nor_flash_byte) (simp add: nor_flash_def)
qed (simp_all add: nor_flash_def STORE_SECTOR_SIZE_def)

lemma blank_core:
  assumes fw: "flash_works fl" and "fl_blank fl f 0 (fl_size fl)"
  shows "core_inv fl crc T f [] 0"
proof -
  have "\<not> has_magic fl f b" if "b \<in> set (sector_bases fl)" for b
    using that assms sector_end_le [OF fw, of b]
    by (intro blank_no_magic fl_blank_sub [OF assms(2)]) (auto simp: sector_bases_iff STORE_SECTOR_SIZE_def)
  then show ?thesis by (simp add: core_inv_def sector_inv_def head_inv_def)
qed

abbreviation demo_flash :: "(nat \<Rightarrow> u8) flash" where "demo_flash \<equiv> nor_flash 96"

definition demo_crc :: crc_fun where
  "demo_crc c bs = fold (\<lambda>b c. 31 * c + ucast b) bs c"

definition demo_store :: "(nat \<Rightarrow> u8) store" where
  "demo_store = snd (bitle_store_init demo_flash demo_crc True True 0 (store_static (\<lambda>_. 0xFF)))"

lemma demo_store_ok:
  "store_inv demo_flash demo_crc 0 demo_store" "view demo_flash demo_store = Map.empty"
proof -
  have fw: "flash_works demo_flash" by (simp add: nor_flash_works)
  have "fl_blank demo_flash (\<lambda>_. 0xFF) 0 (fl_size demo_flash)"
    by (simp add: fl_blank_def nor_flash_byte)
  then have c: "core_inv demo_flash demo_crc 0 (\<lambda>_. 0xFF) [] 0" by (rule blank_core [OF fw])
  obtain s' where "bitle_store_init demo_flash demo_crc True True 0 (store_static (\<lambda>_. 0xFF)) = (ESP_OK, s')"
    "store_inv demo_flash demo_crc (now_unix_s 0) s'"
    "view demo_flash s' = still_valid (now_unix_s 0) (store_view demo_flash (\<lambda>_. 0xFF) [])"
    by (rule restart_works [OF fw c, of 0]) simp
  moreover have "now_unix_s 0 = 0" by (simp add: now_unix_s_def)
  ultimately show "store_inv demo_flash demo_crc 0 demo_store" "view demo_flash demo_store = Map.empty"
    by (auto simp: demo_store_def still_valid_def store_view_None fun_eq_iff)
qed

section \<open>Properties\<close>

text \<open>
  C15: On a working flash an insertion always returns. Either it reports success: the record is then
  stored under its key, every other record is unchanged or has been evicted with its sector, and
  nothing at all is evicted when the index has a free entry and the record fits behind the write
  head. Or the index was full with no reclaimable sector, which is reported as such, and no record
  has changed. Every invariant of the flash layout and of the index is preserved.
\<close>

theorem store_put_refines_map:
  assumes "flash_works fl" "store_inv fl crc T s" "length k = BITLE_STORE_KEY_LEN"
    "p \<noteq> []" "length p \<le> BITLE_STORE_PAYLOAD_MAX"
  shows "\<exists>err s'. bitle_store_put fl crc k x g p s = Some (err, s') \<and> store_inv fl crc T s' \<and>
    (if err = ESP_OK
     then \<exists>A. view fl s' = (view fl s |` A)(k \<mapsto> (x, g, p)) \<and>
       (length (s_index s) < BITLE_STORE_MAX_RECORDS \<and> s_write_off s < fl_size fl \<and>
        head_fits (rec_hdr_len + length p) s \<longrightarrow> A = UNIV)
     else err = ESP_ERR_NO_MEM \<and> length (s_index s) = BITLE_STORE_MAX_RECORDS \<and> view fl s' \<subseteq>\<^sub>m view fl s)"
proof (rule put_works [OF assms, of x g], goal_cases)
  case (1 s' A)
  then show ?case by auto
next
  case (2 s' A)
  then have "view fl s' \<subseteq>\<^sub>m view fl s" by (auto simp: map_le_def restrict_map_def dom_def)
  then show ?case using 2 by auto
qed

theorem store_put_refines_map_witness:
  "\<exists>err s'. bitle_store_put demo_flash demo_crc (replicate 16 7) 0 2 [1, 2, 3] demo_store = Some (err, s') \<and>
    err = ESP_OK \<and> view demo_flash s' (replicate 16 7) = Some (0, 2, [1, 2, 3])"
proof -
  have fw: "flash_works demo_flash" by (simp add: nor_flash_works)
  have "length (s_index demo_store) = 0"
    using count_works(2) [OF fw demo_store_ok(1)] demo_store_ok(2) by (simp add: bitle_store_count_def)
  then show ?thesis
    using store_put_refines_map [OF fw demo_store_ok(1), of "replicate 16 7" "[1, 2, 3]" 0 2]
    by (auto simp: BITLE_STORE_KEY_LEN_def BITLE_STORE_PAYLOAD_MAX_def BITLE_STORE_MAX_RECORDS_def split: if_splits)
qed

text \<open>
  C11: The mailbox survives a restart: scanning the flash of a running node rebuilds a store that
  again satisfies the invariant and holds exactly the records the node held, except those that
  have expired meanwhile. The clock may not have gone back behind the time \<open>T\<close> of the last
  scan.
\<close>

theorem store_survives_restart:
  assumes "flash_works fl" "store_inv fl crc T s" "T \<le> now_unix_s now"
  shows "\<exists>s'. bitle_store_init fl crc True True now (store_static (s_flash s)) = (ESP_OK, s') \<and>
    store_inv fl crc (now_unix_s now) s' \<and> view fl s' = still_valid (now_unix_s now) (view fl s)"
proof -
  have "core fl crc T s" using assms(2) by (simp add: store_inv_def)
  from restart_works [OF assms(1) this assms(3)] show ?thesis by metis
qed

theorem store_survives_restart_witness:
  "\<exists>s'. bitle_store_init demo_flash demo_crc True True 5000 (store_static (s_flash demo_store)) = (ESP_OK, s') \<and>
    store_inv demo_flash demo_crc 5 s'"
  using store_survives_restart [OF _ demo_store_ok(1), of 5000] nor_flash_works [of 96]
  by (auto simp: now_unix_s_def)

text \<open>
  Deleting takes exactly one record out of the mailbox, the membership test answers for
  exactly the records it holds, and the count is their number, at most 256.
\<close>

lemma store_delete_contains_count:
  assumes "flash_works fl" "store_inv fl crc T s"
  shows "(\<exists>s'. bitle_store_delete fl k s = Some s' \<and> store_inv fl crc T s' \<and> view fl s' = (view fl s)(k := None) \<and>
      bitle_store_contains k s' = Some False) \<and>
    bitle_store_contains k s = Some (view fl s k \<noteq> None) \<and>
    bitle_store_count s = card (dom (view fl s)) \<and> bitle_store_count s \<le> BITLE_STORE_MAX_RECORDS"
proof (intro conjI)
  obtain s' where s': "bitle_store_delete fl k s = Some s'" "store_inv fl crc T s'" "view fl s' = (view fl s)(k := None)"
    using mb.del_law [of fl crc T s k] assms by blast
  then show "\<exists>s'. bitle_store_delete fl k s = Some s' \<and> store_inv fl crc T s' \<and> view fl s' = (view fl s)(k := None) \<and>
      bitle_store_contains k s' = Some False"
    using mb.has_law [of fl crc T s' k] assms(1) by simp
  show "bitle_store_contains k s = Some (view fl s k \<noteq> None)" using mb.has_law assms by blast
  show "bitle_store_count s = card (dom (view fl s))" using mb.look_card [of fl crc T s] assms by simp
  show "bitle_store_count s \<le> BITLE_STORE_MAX_RECORDS"
    using assms(2) by (simp add: store_inv_def core_inv_def bitle_store_count_def)
qed

text \<open>
  A full index over a sector that cannot be erased and holds none of the indexed records makes the
  quota loop of an insertion run forever: it ignores the failed erase and picks the same sector again.
\<close>

lemma evict_diverges:
  assumes "reclaim_oldest_sector fl s = (True, s)" "BITLE_STORE_MAX_RECORDS \<le> length (s_index s)"
  shows "evict_loop fl s = None"
proof (rule ccontr)
  assume "evict_loop fl s \<noteq> None"
  then obtain r where "evict_loop fl s = Some r" by blast
  then have "\<not> (reclaim_oldest_sector fl s = (True, s) \<and> BITLE_STORE_MAX_RECORDS \<le> length (s_index s))"
  proof (rule evict_loop.raw_induct [rotated], goal_cases)
    case (1 loop fl s r)
    show ?case
    proof
      assume a: "reclaim_oldest_sector fl s = (True, s) \<and> BITLE_STORE_MAX_RECORDS \<le> length (s_index s)"
      then have "loop fl s = Some r" using 1(2) by simp
      then show False using 1(1) a by blast
    qed
  qed
  then show False using assms by blast
qed

end
