(* ===== verification/Noise_Packet.thy ===== *)
theory Noise_Packet
  imports Packet_Codec Link_Registry Clock
begin

text \<open>
  The packets this node originates, from \<open>main/noise_handshake.c\<close>: the canonical bytes that are
  signed, the announce and identity payloads and their parsers, and the sending functions. Ed25519 is
  a vendored library and hence a parameter, the record \<open>sign_alg\<close>; the predicate
  \<open>signs_verify\<close> states what the code relies on. The node's keys and nickname are the record
  \<open>node_id\<close>, the static variables \<open>load_identity\<close> and \<open>load_nickname\<close> fill
  in at boot.
\<close>

section \<open>Keys\<close>

record sign_alg =
  ed25519_sign :: "bytes \<Rightarrow> bytes \<Rightarrow> bytes \<Rightarrow> bytes"
  ed25519_sign_open :: "bytes \<Rightarrow> bytes \<Rightarrow> bytes \<Rightarrow> bool"

record node_id =
  ni_static_public :: bytes
  ni_peer_id :: bytes
  ni_ed25519_private :: bytes
  ni_ed25519_public :: bytes
  ni_nickname :: bytes

definition BITCHAT_BLE_MAX_PACKET_SIZE :: nat where "BITCHAT_BLE_MAX_PACKET_SIZE = 520"
definition NOISE_PACKET_TTL :: u8 where "NOISE_PACKET_TTL = 7"
definition NOISE_MESSAGE_MAX :: nat where "NOISE_MESSAGE_MAX = 256"
definition BITLE_FW_VERSION :: u32 where "BITLE_FW_VERSION = 5"
definition NODE_CAPABILITY_VERSION :: u8 where "NODE_CAPABILITY_VERSION = 0x01"
definition NODE_ROLE_INFRA_RELAY :: u8 where "NODE_ROLE_INFRA_RELAY = 0x03"
definition NODE_FLAG_RELAY :: u8 where "NODE_FLAG_RELAY = 0x01"
definition NODE_FLAG_LONG_RANGE :: u8 where "NODE_FLAG_LONG_RANGE = 0x10"

section \<open>Canonical bytes and signatures\<close>

definition choose_padding_block :: "nat \<Rightarrow> nat" where
  "choose_padding_block payload_len =
     (if payload_len + 16 \<le> 256 then 256 else if payload_len + 16 \<le> 512 then 512
      else if payload_len + 16 \<le> 1024 then 1024 else if payload_len + 16 \<le> 2048 then 2048 else 0)"

definition apply_pkcs7_padding :: "bytes \<Rightarrow> nat \<Rightarrow> nat \<Rightarrow> bytes" where
  "apply_pkcs7_padding buf buffer_len block_size =
     (if block_size = 0 \<or> length buf \<ge> block_size \<or> block_size > buffer_len then buf
      else let pad_len = block_size - length buf
           in if pad_len > 255 then buf else buf @ replicate pad_len (of_nat pad_len))"

definition canonical_header :: "packet \<Rightarrow> bytes" where
  "canonical_header p = [pk_version p, pk_type p, 0] @ be_enc 8 (pk_timestamp_ms p) @
     [if pk_has_recipient p then 0x01 else 0] @ be_enc 2 (pk_payload_len p) @ take 8 (pk_sender_id p) @
     (if pk_has_recipient p then take 8 (pk_recipient_id p) else [])"

definition build_canonical_packet :: "packet \<Rightarrow> nat \<Rightarrow> bytes option" where
  "build_canonical_packet p max_len =
     (let header = canonical_header p
      in if length header + unat (pk_payload_len p) > max_len then None
         else let body = header @ take (unat (pk_payload_len p)) (case pk_payload p of Some b \<Rightarrow> b | None \<Rightarrow> [])
              in Some (apply_pkcs7_padding body max_len (choose_padding_block (length body))))"

definition sign_packet :: "sign_alg \<Rightarrow> node_id \<Rightarrow> packet \<Rightarrow> packet option" where
  "sign_packet alg nid p =
     map_option (\<lambda>c. p \<lparr> pk_signature := ed25519_sign alg c (ni_ed25519_private nid) (ni_ed25519_public nid),
                         pk_has_signature := True \<rparr>)
       (build_canonical_packet p BITCHAT_BLE_MAX_PACKET_SIZE)"

definition noise_verify_packet_signature :: "sign_alg \<Rightarrow> packet \<Rightarrow> bytes \<Rightarrow> bool" where
  "noise_verify_packet_signature alg p sign_key =
     (if \<not> pk_has_signature p then False
      else case build_canonical_packet p BITCHAT_BLE_MAX_PACKET_SIZE of
             None \<Rightarrow> False
           | Some c \<Rightarrow> ed25519_sign_open alg c sign_key (pk_signature p))"

section \<open>Announce payload\<close>

definition build_announce_payload :: "node_id \<Rightarrow> bool \<Rightarrow> nat \<Rightarrow> bytes option" where
  "build_announce_payload nid authoritative buffer_len =
     (let nickname_len = min (length (ni_nickname nid)) 255
      in if buffer_len < 2 + nickname_len + 2 + 32 + 2 + 32 then None
         else Some ([0x01, of_nat nickname_len] @ take nickname_len (ni_nickname nid) @
                [0x02, 32] @ ni_static_public nid @ [0x03, 32] @ ni_ed25519_public nid @
                [0xB0, 4] @ be_enc 4 BITLE_FW_VERSION @
                [0xB1, 1, 0x01 OR (if authoritative then 0x02 else 0)]))"

record noise_identity =
  id_valid :: bool
  id_verified :: bool
  id_is_infra :: bool
  id_is_authoritative :: bool
  id_timestamp_ms :: u64
  id_fw_version :: u32
  id_nickname :: bytes
  id_peer_id :: bytes
  id_noise_key :: bytes
  id_sign_key :: bytes

definition zero_identity :: noise_identity where
  "zero_identity = \<lparr> id_valid = False, id_verified = False, id_is_infra = False,
     id_is_authoritative = False, id_timestamp_ms = 0, id_fw_version = 0, id_nickname = [],
     id_peer_id = replicate 8 0, id_noise_key = replicate 32 0, id_sign_key = replicate 32 0 \<rparr>"

text \<open>One field; the flags tell which mandatory fields have been seen.\<close>

definition announce_field ::
  "u8 \<Rightarrow> bytes \<Rightarrow> noise_identity \<times> bool \<times> bool \<times> bool \<Rightarrow> (noise_identity \<times> bool \<times> bool \<times> bool) option" where
  "announce_field t v acc = (case acc of (r, nick, noise, sign) \<Rightarrow>
     if t = 0x01 then (if v = [] then None else Some (r \<lparr> id_nickname := take 31 v \<rparr>, True, noise, sign))
     else if t = 0x02 then
       (if length v \<noteq> 32 then None else Some (r \<lparr> id_noise_key := v \<rparr>, nick, True, sign))
     else if t = 0x03 then
       (if length v \<noteq> 32 then None else Some (r \<lparr> id_sign_key := v \<rparr>, nick, noise, True))
     else if t = 0xB0 then
       Some (if length v = 4 then r \<lparr> id_fw_version := be_val v \<rparr> else r, nick, noise, sign)
     else if t = 0xB1 then
       Some (if length v \<ge> 1 then r \<lparr> id_is_infra := (v ! 0 AND 0x01 \<noteq> 0),
               id_is_authoritative := (v ! 0 AND 0x02 \<noteq> 0) \<rparr> else r, nick, noise, sign)
     else Some (r, nick, noise, sign))"

function announce_fields ::
  "bytes \<Rightarrow> noise_identity \<times> bool \<times> bool \<times> bool \<Rightarrow> (noise_identity \<times> bool \<times> bool \<times> bool) option" where
  "announce_fields p acc =
     (if length p < 2 then Some acc
      else let n = unat (p ! 1); rest = drop 2 p
           in if n > length rest then None
              else Option.bind (announce_field (p ! 0) (take n rest) acc) (announce_fields (drop n rest)))"
  by pat_completeness auto
termination
  by (relation "measure (\<lambda>(p, acc). length p)") auto

definition parse_announce_tlv :: "bytes \<Rightarrow> noise_identity option" where
  "parse_announce_tlv p =
     (case announce_fields p (zero_identity, False, False, False) of
        None \<Rightarrow> None
      | Some (r, nick, noise, sign) \<Rightarrow> if nick \<and> noise \<and> sign then Some r else None)"

section \<open>Identity payload\<close>

definition hex_digit :: "u8 \<Rightarrow> u8" where
  "hex_digit d = (if d < 10 then 0x30 + d else 0x61 + (d - 10))"

definition hex_of :: "bytes \<Rightarrow> bytes" where
  "hex_of bs = concat (map (\<lambda>b. [hex_digit (drop_bit 4 b), hex_digit (b AND 0x0F)]) bs)"

fun dec_of :: "nat \<Rightarrow> bytes" where
  "dec_of n = (if n < 10 then [0x30 + of_nat n] else dec_of (n div 10) @ [0x30 + of_nat (n mod 10)])"

declare dec_of.simps [simp del]

text \<open>The string \<open>bitchat-announce-v1\<close>.\<close>

definition IDENTITY_BINDING_PREFIX :: bytes where
  "IDENTITY_BINDING_PREFIX = [0x62, 0x69, 0x74, 0x63, 0x68, 0x61, 0x74, 0x2D, 0x61, 0x6E, 0x6E, 0x6F,
     0x75, 0x6E, 0x63, 0x65, 0x2D, 0x76, 0x31]"

definition identity_binding :: "node_id \<Rightarrow> u64 \<Rightarrow> bytes" where
  "identity_binding nid timestamp_ms = IDENTITY_BINDING_PREFIX @ hex_of (ni_peer_id nid) @
     hex_of (ni_static_public nid) @ dec_of (unat timestamp_ms)"

definition build_identity_payload :: "sign_alg \<Rightarrow> node_id \<Rightarrow> u64 \<Rightarrow> nat \<Rightarrow> bytes option" where
  "build_identity_payload alg nid timestamp_ms buffer_len =
     (let nickname_len = min (length (ni_nickname nid)) 255
      in if buffer_len < 1 + 8 + 1 + 32 + 1 + 32 + 1 + nickname_len + 1 + 8 + 1 + 64 then None
         else let signature = ed25519_sign alg (identity_binding nid timestamp_ms)
                    (ni_ed25519_private nid) (ni_ed25519_public nid)
              in Some ([0x00] @ ni_peer_id nid @ [32] @ ni_static_public nid @ [32] @ ni_ed25519_public nid @
                   [of_nat nickname_len] @ take nickname_len (ni_nickname nid) @ [0x00] @
                   be_enc 8 timestamp_ms @ [64] @ signature))"

text \<open>A length byte and that many bytes.\<close>

definition take_len8 :: "bytes \<Rightarrow> (bytes \<times> bytes) option" where
  "take_len8 p = (case p of [] \<Rightarrow> None
     | n # rest \<Rightarrow> if unat n > length rest then None else Some (take (unat n) rest, drop (unat n) rest))"

text \<open>The record, and the timestamp the parser reports to the clock.\<close>

definition parse_identity_payload :: "bytes \<Rightarrow> (noise_identity \<times> u64) option" where
  "parse_identity_payload p =
     (if length p < 1 + 8 then None
      else Option.bind (take_len8 (drop 9 p)) (\<lambda>(static, p1).
           Option.bind (take_len8 p1) (\<lambda>(sign, p2).
           Option.bind (take_len8 p2) (\<lambda>(nick, p3).
             if nick = [] \<or> length nick \<ge> 32 then None
             else Option.bind (take_len8 p3) (\<lambda>(previous, p4).
               if length p4 < 8 then None
               else Option.bind (take_len8 (drop 8 p4)) (\<lambda>(sig, p5).
                 let timestamp = be_val (take 8 p4)
                 in Some (zero_identity \<lparr> id_peer_id := bslice 1 8 p, id_nickname := nick,
                            id_timestamp_ms := timestamp, id_valid := True \<rparr>, timestamp)))))))"

section \<open>Sending\<close>

text \<open>
  \<open>now\<close> is the value of \<open>bitchat_time_now_ms\<close>; the links and their world are those of the
  link registry.
\<close>

definition own_packet :: "node_id \<Rightarrow> u64 \<Rightarrow> u8 \<Rightarrow> u8 \<Rightarrow> bytes option \<Rightarrow> bytes \<Rightarrow> packet" where
  "own_packet nid now type ttl recipient payload =
     zero_packet \<lparr> pk_version := 1, pk_type := type, pk_ttl := ttl, pk_timestamp_ms := now,
       pk_sender_id := ni_peer_id nid,
       pk_recipient_id := (case recipient of Some r \<Rightarrow> r | None \<Rightarrow> replicate 8 0),
       pk_has_recipient := (recipient \<noteq> None),
       pk_payload := (if payload = [] then None else Some payload),
       pk_payload_len := of_nat (length payload) \<rparr>"

definition noise_send_packet ::
  "sign_alg \<Rightarrow> node_id \<Rightarrow> u64 \<Rightarrow> ('f, 'w) link_driver \<Rightarrow> 'f links \<Rightarrow> u16 \<Rightarrow> u8 \<Rightarrow> bytes option \<Rightarrow> bytes \<Rightarrow>
     u8 \<Rightarrow> bool \<Rightarrow> 'w \<Rightarrow> esp_err \<times> 'w" where
  "noise_send_packet alg nid now drv ls conn type recipient payload ttl sign w =
     (if now = 0 then (ESP_ERR_INVALID_STATE, w)
      else let p = own_packet nid now type ttl recipient payload
           in case (if sign then sign_packet alg nid p else Some p) of
                None \<Rightarrow> (ESP_FAIL, w)
              | Some q \<Rightarrow>
                  (case bitchat_packet_encode q BITCHAT_BLE_MAX_PACKET_SIZE of
                     None \<Rightarrow> (ESP_FAIL, w)
                   | Some frame \<Rightarrow> bitle_link_send drv ls conn frame w))"

text \<open>Unlike \<open>noise_send_packet\<close>, this one sends unsigned when it cannot sign.\<close>

definition encode_and_send ::
  "sign_alg \<Rightarrow> node_id \<Rightarrow> u64 \<Rightarrow> ('f, 'w) link_driver \<Rightarrow> 'f links \<Rightarrow> u16 \<Rightarrow> u8 \<Rightarrow> bytes option \<Rightarrow> bytes \<Rightarrow>
     bool \<Rightarrow> 'w \<Rightarrow> esp_err \<times> 'w" where
  "encode_and_send alg nid now drv ls conn type recipient payload sign w =
     (if now = 0 then (ESP_ERR_INVALID_STATE, w)
      else let p = own_packet nid now type NOISE_PACKET_TTL recipient payload;
               q = (if sign then (case sign_packet alg nid p of Some q \<Rightarrow> q | None \<Rightarrow> p) else p)
           in case bitchat_packet_encode q BITCHAT_BLE_MAX_PACKET_SIZE of
                None \<Rightarrow> (ESP_FAIL, w)
              | Some frame \<Rightarrow> bitle_link_send drv ls conn frame w)"

definition noise_send_raw ::
  "sign_alg \<Rightarrow> node_id \<Rightarrow> u64 \<Rightarrow> ('f, 'w) link_driver \<Rightarrow> 'f links \<Rightarrow> u16 \<Rightarrow> u8 \<Rightarrow> bytes option \<Rightarrow> bytes \<Rightarrow> 'w \<Rightarrow> esp_err \<times> 'w" where
  "noise_send_raw alg nid now drv ls conn type recipient payload w =
     encode_and_send alg nid now drv ls conn type recipient payload False w"

definition noise_announce_link ::
  "sign_alg \<Rightarrow> node_id \<Rightarrow> u64 \<Rightarrow> clock \<Rightarrow> ('f, 'w) link_driver \<Rightarrow> 'f links \<Rightarrow> u16 \<Rightarrow> 'w \<Rightarrow> bool \<times> 'w" where
  "noise_announce_link alg nid mt ck drv ls link w =
     (if \<not> bitchat_time_is_valid ck then (False, w)
      else case build_announce_payload nid (bitchat_time_is_authoritative ck) 128 of
             None \<Rightarrow> (False, w)
           | Some payload \<Rightarrow>
               (case sign_packet alg nid (own_packet nid (bitchat_time_now_ms mt ck) BITCHAT_MSG_ANNOUNCE
                       NOISE_PACKET_TTL None payload) of
                  None \<Rightarrow> (False, w)
                | Some q \<Rightarrow>
                    (case bitchat_packet_encode q BITCHAT_BLE_MAX_PACKET_SIZE of
                       None \<Rightarrow> (False, w)
                     | Some frame \<Rightarrow> (case bitle_link_send drv ls link frame w of (e, w') \<Rightarrow> (e = ESP_OK, w')))))"

definition noise_send_node_capability ::
  "sign_alg \<Rightarrow> node_id \<Rightarrow> u64 \<Rightarrow> ('f, 'w) link_driver \<Rightarrow> 'f links \<Rightarrow> u16 \<Rightarrow> bool \<Rightarrow> 'w \<Rightarrow> bool \<times> 'w" where
  "noise_send_node_capability alg nid now drv ls link has_long_range_trunk w =
     (case noise_send_packet alg nid now drv ls link BITCHAT_MSG_NODE_CAPABILITY None
             [NODE_CAPABILITY_VERSION, NODE_ROLE_INFRA_RELAY,
              NODE_FLAG_RELAY OR (if has_long_range_trunk then NODE_FLAG_LONG_RANGE else 0)]
             NOISE_PACKET_TTL True w of (e, w') \<Rightarrow> (e = ESP_OK, w'))"

text \<open>
  The check of an announce: \<open>None\<close> when the sender is not derived from the announced key,
  otherwise whether the signature verifies.
\<close>

definition verify_announce ::
  "sign_alg \<Rightarrow> psa_hash \<Rightarrow> bytes \<Rightarrow> u64 \<Rightarrow> bool \<Rightarrow> bytes \<Rightarrow> bytes \<Rightarrow> noise_identity \<Rightarrow> bool option" where
  "verify_announce alg psa peer_id timestamp_ms has_signature signature payload r =
     (if take 8 (bitle_sha256 psa (id_noise_key r)) \<noteq> peer_id then None
      else if \<not> has_signature then Some False
      else let p = zero_packet \<lparr> pk_version := 1, pk_type := BITCHAT_MSG_ANNOUNCE, pk_timestamp_ms := timestamp_ms,
                     pk_sender_id := peer_id, pk_payload := (if payload = [] then None else Some payload),
                     pk_payload_len := of_nat (length payload) \<rparr>
           in case build_canonical_packet p BITCHAT_BLE_MAX_PACKET_SIZE of
                None \<Rightarrow> Some False
              | Some c \<Rightarrow> Some (ed25519_sign_open alg c (id_sign_key r) signature))"

declare announce_fields.simps [simp del]

section \<open>Signatures\<close>

text \<open>What the code relies on of Ed25519 and of the node's own keys.\<close>

definition signs_verify :: "sign_alg \<Rightarrow> node_id \<Rightarrow> bool" where
  "signs_verify alg nid \<longleftrightarrow> (\<forall>m. length (ed25519_sign alg m (ni_ed25519_private nid) (ni_ed25519_public nid)) = 64 \<and>
     ed25519_sign_open alg m (ni_ed25519_public nid)
       (ed25519_sign alg m (ni_ed25519_private nid) (ni_ed25519_public nid)))"

definition node_id_wf :: "node_id \<Rightarrow> bool" where
  "node_id_wf nid \<longleftrightarrow> length (ni_peer_id nid) = 8 \<and> length (ni_static_public nid) = 32 \<and>
     length (ni_ed25519_public nid) = 32 \<and> 0 < length (ni_nickname nid) \<and> length (ni_nickname nid) < 32"

definition pk_body :: "packet \<Rightarrow> bytes" where
  "pk_body p = (case pk_payload p of Some b \<Rightarrow> b | None \<Rightarrow> [])"

definition pk_rcpt :: "packet \<Rightarrow> bytes" where
  "pk_rcpt p = (if pk_has_recipient p then pk_recipient_id p else [])"

lemma pkt_wf_body: "pkt_wf p \<Longrightarrow> length (pk_body p) = unat (pk_payload_len p)"
  by (cases "pk_payload p") (auto simp: pkt_wf_def pk_body_def)

lemma padding_suffix: "\<exists>pad. apply_pkcs7_padding b m k = b @ pad"
  by (auto simp: apply_pkcs7_padding_def Let_def)

lemma canonical_layout:
  assumes "pkt_wf p" "build_canonical_packet p m = Some c"
  obtains pad where "c = [pk_version p, pk_type p, 0] @ be_enc 8 (pk_timestamp_ms p) @
     [if pk_has_recipient p then 0x01 else 0] @ be_enc 2 (pk_payload_len p) @ pk_sender_id p @
     pk_rcpt p @ pk_body p @ pad"
proof -
  have t: "take (unat (pk_payload_len p)) (pk_body p) = pk_body p"
    "take 8 (pk_sender_id p) = pk_sender_id p" "take 8 (pk_recipient_id p) = pk_recipient_id p"
    using assms(1) pkt_wf_body [OF assms(1)] by (auto simp: pkt_wf_def)
  have "c = apply_pkcs7_padding (canonical_header p @ pk_body p) m
      (choose_padding_block (length (canonical_header p @ pk_body p)))"
    using assms(2) t(1) by (auto simp: build_canonical_packet_def Let_def pk_body_def split: if_splits)
  then obtain pad where "c = (canonical_header p @ pk_body p) @ pad" using padding_suffix by metis
  then show thesis using that [of pad] t by (simp add: canonical_header_def pk_rcpt_def)
qed

text \<open>The canonical bytes do not depend on what a relay may change, nor on the signature.\<close>

lemma canonical_indep:
  assumes "pk_version q = pk_version p" "pk_type q = pk_type p" "pk_timestamp_ms q = pk_timestamp_ms p"
    "pk_has_recipient q = pk_has_recipient p" "pk_recipient_id q = pk_recipient_id p"
    "pk_payload_len q = pk_payload_len p" "pk_sender_id q = pk_sender_id p" "pk_payload q = pk_payload p"
  shows "build_canonical_packet q m = build_canonical_packet p m"
  using assms by (simp add: build_canonical_packet_def canonical_header_def)

lemma sign_verify:
  assumes "signs_verify alg nid" "sign_packet alg nid p = Some q"
  shows "noise_verify_packet_signature alg (q \<lparr> pk_ttl := t \<rparr>) (ni_ed25519_public nid)"
proof -
  obtain c where c: "build_canonical_packet p BITCHAT_BLE_MAX_PACKET_SIZE = Some c"
    and q: "q = p \<lparr> pk_signature := ed25519_sign alg c (ni_ed25519_private nid) (ni_ed25519_public nid), pk_has_signature := True \<rparr>"
    using assms(2) by (auto simp: sign_packet_def)
  have "build_canonical_packet (q \<lparr> pk_ttl := t \<rparr>) BITCHAT_BLE_MAX_PACKET_SIZE = Some c"
    using c by (subst canonical_indep [where p = p]) (simp_all add: q)
  then show ?thesis using assms(1) by (simp add: noise_verify_packet_signature_def signs_verify_def q)
qed

lemma own_packet_wf:
  assumes "node_id_wf nid" "length payload < 65536" "\<forall>r. rcpt = Some r \<longrightarrow> length r = 8"
  shows "pkt_wf (own_packet nid now type ttl rcpt payload)" "pkt_v1_plain (own_packet nid now type ttl rcpt payload)"
proof -
  have "unat (word_of_nat (length payload) :: u16) = length payload" using assms(2) by (simp add: unat_of_nat_small)
  moreover from this have "(word_of_nat (length payload) :: u16) = 0 \<longleftrightarrow> payload = []"
    by (metis length_0_conv unat_eq_0)
  ultimately show "pkt_wf (own_packet nid now type ttl rcpt payload)"
    using assms by (auto simp: pkt_wf_def own_packet_def node_id_wf_def zero_packet_def split: option.split)
  show "pkt_v1_plain (own_packet nid now type ttl rcpt payload)"
    by (simp add: pkt_v1_plain_def own_packet_def zero_packet_def)
qed

lemma sign_packet_wf:
  assumes "signs_verify alg nid" "sign_packet alg nid p = Some q" "pkt_wf p" "pkt_v1_plain p"
  shows "pkt_wf q" "pkt_v1_plain q"
  using assms by (auto simp: sign_packet_def signs_verify_def pkt_wf_def pkt_v1_plain_def)

section \<open>Announce and identity payloads\<close>

lemma announce_fields_step:
  "length v < 256 \<Longrightarrow> announce_fields (t # of_nat (length v) # v @ rest) acc =
     Option.bind (announce_field t v acc) (announce_fields rest)"
  by (subst announce_fields.simps) (simp add: Let_def unat_of_nat_small)

lemma announce_fields_Nil: "announce_fields [] acc = Some acc"
  by (subst announce_fields.simps) simp

definition announce_record :: "node_id \<Rightarrow> bool \<Rightarrow> noise_identity" where
  "announce_record nid authoritative = zero_identity \<lparr> id_nickname := ni_nickname nid,
     id_noise_key := ni_static_public nid, id_sign_key := ni_ed25519_public nid,
     id_fw_version := BITLE_FW_VERSION, id_is_infra := True, id_is_authoritative := authoritative \<rparr>"

lemma announce_build_parse:
  assumes "node_id_wf nid" "build_announce_payload nid a n = Some p"
  shows "parse_announce_tlv p = Some (announce_record nid a)"
    "length p = length (ni_nickname nid) + 79"
proof -
  have l: "length (ni_nickname nid) < 256" "length (ni_static_public nid) < 256" "length (ni_ed25519_public nid) < 256"
    "length (be_enc 4 BITLE_FW_VERSION) < 256"
    using assms(1) by (auto simp: node_id_wf_def)
  let ?f = "0x01 OR (if a then 0x02 else 0) :: u8"
  have p: "p = 0x01 # of_nat (length (ni_nickname nid)) # ni_nickname nid @
      0x02 # of_nat (length (ni_static_public nid)) # ni_static_public nid @
      0x03 # of_nat (length (ni_ed25519_public nid)) # ni_ed25519_public nid @
      0xB0 # of_nat (length (be_enc 4 BITLE_FW_VERSION)) # be_enc 4 BITLE_FW_VERSION @
      0xB1 # of_nat (length [?f]) # [?f] @ []"
    using assms by (auto simp: build_announce_payload_def Let_def node_id_wf_def split: if_splits)
  show "length p = length (ni_nickname nid) + 79" using assms(1) by (simp add: p node_id_wf_def)
  have s1: "announce_fields (0x01 # of_nat (length (ni_nickname nid)) # ni_nickname nid @ R) (r, F1, F2, F3) =
      announce_fields R (r \<lparr> id_nickname := ni_nickname nid \<rparr>, True, F2, F3)" for R r F1 F2 F3
    using assms(1) by (subst announce_fields_step) (auto simp: announce_field_def node_id_wf_def)
  have s2: "announce_fields (0x02 # of_nat (length (ni_static_public nid)) # ni_static_public nid @ R) (r, F1, F2, F3) =
      announce_fields R (r \<lparr> id_noise_key := ni_static_public nid \<rparr>, F1, True, F3)" for R r F1 F2 F3
    using assms(1) by (subst announce_fields_step) (auto simp: announce_field_def node_id_wf_def)
  have s3: "announce_fields (0x03 # of_nat (length (ni_ed25519_public nid)) # ni_ed25519_public nid @ R) (r, F1, F2, F3) =
      announce_fields R (r \<lparr> id_sign_key := ni_ed25519_public nid \<rparr>, F1, F2, True)" for R r F1 F2 F3
    using assms(1) by (subst announce_fields_step) (auto simp: announce_field_def node_id_wf_def)
  have s4: "announce_fields (0xB0 # of_nat (length (be_enc 4 BITLE_FW_VERSION)) # be_enc 4 BITLE_FW_VERSION @ R) (r, F1, F2, F3) =
      announce_fields R (r \<lparr> id_fw_version := BITLE_FW_VERSION \<rparr>, F1, F2, F3)" for R r F1 F2 F3
    by (subst announce_fields_step) (auto simp: announce_field_def)
  have s5: "announce_fields (0xB1 # of_nat (length [?f]) # [?f] @ R) (r, F1, F2, F3) =
      announce_fields R (r \<lparr> id_is_infra := True, id_is_authoritative := a \<rparr>, F1, F2, F3)" for R r F1 F2 F3
    by (subst announce_fields_step) (auto simp: announce_field_def)
  show "parse_announce_tlv p = Some (announce_record nid a)"
    unfolding parse_announce_tlv_def p s1 s2 s3 s4 s5 announce_fields_Nil by (simp add: announce_record_def)
qed

lemma identity_build_parse:
  assumes wf: "node_id_wf nid" and sg: "signs_verify alg nid" and b: "build_identity_payload alg nid ts n = Some p"
  shows "parse_identity_payload p = Some (zero_identity \<lparr> id_peer_id := ni_peer_id nid, id_nickname := ni_nickname nid,
     id_timestamp_ms := ts, id_valid := True \<rparr>, ts)"
proof -
  define sg where "sg = ed25519_sign alg (identity_binding nid ts) (ni_ed25519_private nid) (ni_ed25519_public nid)"
  have lsg: "length sg = 64" using assms(2) by (simp add: sg_def signs_verify_def)
  have l: "length (ni_peer_id nid) = 8" "length (ni_static_public nid) = 32" "length (ni_ed25519_public nid) = 32"
    "length (ni_nickname nid) < 32" "ni_nickname nid \<noteq> []" using wf by (auto simp: node_id_wf_def)
  define p1 where "p1 = of_nat (length (ni_ed25519_public nid)) # ni_ed25519_public nid @
     of_nat (length (ni_nickname nid)) # ni_nickname nid @ of_nat (length ([] :: bytes)) # [] @ be_enc 8 ts @ of_nat (length sg) # sg @ []"
  have p: "p = ([0] @ ni_peer_id nid) @ of_nat (length (ni_static_public nid)) # ni_static_public nid @ p1"
    using b l lsg by (auto simp: build_identity_payload_def Let_def p1_def sg_def [symmetric] split: if_splits)
  have "drop 9 p = of_nat (length (ni_static_public nid)) # ni_static_public nid @ p1" "bslice 1 8 p = ni_peer_id nid"
    "9 \<le> length p" using l by (simp_all add: p bslice_def)
  then show ?thesis
    using l lsg unfolding parse_identity_payload_def
    by (simp add: take_len8_def p1_def unat_of_nat_small)
qed

section \<open>Properties\<close>

lemma sign_own_packet:
  assumes "node_id_wf nid" "22 + (if rcpt \<noteq> None then 8 else 0) + length payload \<le> 520" "\<forall>r. rcpt = Some r \<longrightarrow> length r = 8"
  shows "sign_packet alg nid (own_packet nid now type ttl rcpt payload) \<noteq> None"
proof -
  have "unat (word_of_nat (length payload) :: u16) = length payload" using assms(2) by (simp add: unat_of_nat_small)
  then show ?thesis
    using assms by (auto simp: sign_packet_def build_canonical_packet_def Let_def canonical_header_def own_packet_def
        BITCHAT_BLE_MAX_PACKET_SIZE_def node_id_wf_def split: if_splits)
qed

lemma sign_packet_fields:
  assumes "sign_packet alg nid p = Some q"
  shows "pk_has_signature q" "pk_version q = pk_version p" "pk_type q = pk_type p" "pk_ttl q = pk_ttl p"
    "pk_has_recipient q = pk_has_recipient p" "pk_recipient_id q = pk_recipient_id p"
    "pk_payload_len q = pk_payload_len p" "pk_sender_id q = pk_sender_id p" "pk_payload q = pk_payload p"
    "pk_timestamp_ms q = pk_timestamp_ms p"
  using assms by (auto simp: sign_packet_def)

text \<open>
  C19: Sending a signed packet: without a clock it is refused, a packet that would not fit into 520
  bytes with its signature is refused, and otherwise one frame goes to the link. Whatever TTL the
  relays on the way leave in that frame, a receiver decodes it to a packet with the given type,
  sender, recipient and payload whose signature verifies under this node's signing key.
\<close>

theorem signed_packet_verifies_at_receiver:
  assumes "node_id_wf nid" "signs_verify alg nid" "length payload < 65536"
    "\<forall>r. rcpt = Some r \<longrightarrow> length r = 8" "\<forall>n. malloc_ok env n"
  shows "\<exists>frame. noise_send_packet alg nid now drv ls conn type rcpt payload ttl True w =
      (if now = 0 then (ESP_ERR_INVALID_STATE, w)
       else if 520 < 86 + (if rcpt \<noteq> None then 8 else 0) + length payload then (ESP_FAIL, w)
       else bitle_link_send drv ls conn frame w) \<and>
    (86 + (if rcpt \<noteq> None then 8 else 0) + length payload \<le> 520 \<longrightarrow>
      (\<forall>t. \<exists>r. bitchat_packet_decode env (frame[2 := t]) = Some r \<and>
         noise_verify_packet_signature alg r (ni_ed25519_public nid) \<and> pk_type r = type \<and> pk_ttl r = t \<and>
         pk_sender_id r = ni_peer_id nid \<and> pk_body r = payload \<and> pk_has_recipient r = (rcpt \<noteq> None) \<and>
         (\<forall>rc. rcpt = Some rc \<longrightarrow> pk_recipient_id r = rc)))"
proof -
  let ?p = "own_packet nid now type ttl rcpt payload" and ?len = "86 + (if rcpt \<noteq> None then 8 else 0) + length payload"
  have u: "unat (word_of_nat (length payload) :: u16) = length payload" using assms(3) by (simp add: unat_of_nat_small)
  note wf = own_packet_wf [OF assms(1,3,4), of now type ttl]
  have enc: "bitchat_packet_encode q 520 = None \<longleftrightarrow> 520 < ?len" if q: "sign_packet alg nid ?p = Some q" for q
  proof -
    note f = sign_packet_fields [OF q]
    have "encoded_len q = ?len" "pk_version q = 1"
      using f u by (simp_all add: encoded_len_def own_packet_def)
    moreover have "pk_payload q = None \<longleftrightarrow> pk_payload_len q = 0"
      using sign_packet_wf(1) [OF assms(2) q wf] by (simp add: pkt_wf_def)
    ultimately show ?thesis by (auto simp: bitchat_packet_encode_def)
  qed
  show ?thesis
  proof (cases "520 < ?len")
    case True
    have "noise_send_packet alg nid now drv ls conn type rcpt payload ttl True w =
        (if now = 0 then (ESP_ERR_INVALID_STATE, w) else (ESP_FAIL, w))"
      using enc True
      by (cases "sign_packet alg nid ?p") (auto simp: noise_send_packet_def Let_def BITCHAT_BLE_MAX_PACKET_SIZE_def)
    then show ?thesis using True by auto
  next
    case False
    then obtain q where q: "sign_packet alg nid ?p = Some q"
      using sign_own_packet [OF assms(1) _ assms(4), of payload alg now type ttl] by fastforce
    then obtain frame where fr: "bitchat_packet_encode q 520 = Some frame" using enc [OF q] False by blast
    have sn: "noise_send_packet alg nid now drv ls conn type rcpt payload ttl True w =
        (if now = 0 then (ESP_ERR_INVALID_STATE, w) else bitle_link_send drv ls conn frame w)"
      using q fr by (simp add: noise_send_packet_def Let_def BITCHAT_BLE_MAX_PACKET_SIZE_def)
    have "bitchat_packet_decode env (frame @ replicate 0 (word_of_nat 0)) = Some q"
      by (rule encode_decode_padded [OF sign_packet_wf [OF assms(2) q wf] fr]) (use assms(5) in auto)
    then have d: "bitchat_packet_decode env (frame[2 := t]) = Some (q \<lparr> pk_ttl := t \<rparr>)" for t
      by (simp add: decode_ttl)
    note f = sign_packet_fields [OF q]
    have "pk_body (q \<lparr> pk_ttl := t \<rparr>) = payload" for t using f by (simp add: pk_body_def own_packet_def)
    then show ?thesis
      using d sn f False sign_verify [OF assms(2) q]
      by (intro exI [of _ frame]) (auto simp: own_packet_def zero_packet_def)
  qed
qed

definition demo_alg :: sign_alg where
  "demo_alg = \<lparr> ed25519_sign = (\<lambda>m sk pk. take 64 (pk @ m @ replicate 64 0)),
     ed25519_sign_open = (\<lambda>m pk s. s = take 64 (pk @ m @ replicate 64 0)) \<rparr>"

definition demo_id :: node_id where
  "demo_id = \<lparr> ni_static_public = replicate 32 1, ni_peer_id = replicate 8 0xAA, ni_ed25519_private = replicate 32 3,
     ni_ed25519_public = replicate 32 2, ni_nickname = [0x42, 0x69] \<rparr>"

lemma demo_id_ok: "node_id_wf demo_id" "signs_verify demo_alg demo_id"
  by (auto simp: node_id_wf_def demo_id_def signs_verify_def demo_alg_def)

theorem signed_packet_verifies_at_receiver_witness:
  "\<exists>frame r. noise_send_packet demo_alg demo_id 1700000000000 memory_driver [] 5 4 None [1, 2, 3] 7 True Map.empty =
      bitle_link_send memory_driver [] 5 frame Map.empty \<and>
    bitchat_packet_decode stored_env (frame[2 := 3]) = Some r \<and> pk_body r = [1, 2, 3]"
proof -
  have "\<forall>n. malloc_ok stored_env n" by (simp add: stored_env_def)
  from signed_packet_verifies_at_receiver [OF demo_id_ok, of "[1, 2, 3]" None stored_env 1700000000000
      memory_driver "[]" 5 4 7 Map.empty] this
  obtain frame where fr: "noise_send_packet demo_alg demo_id 1700000000000 memory_driver [] 5 4 None [1, 2, 3] 7 True Map.empty =
      bitle_link_send memory_driver [] 5 frame Map.empty"
    "\<forall>t. \<exists>r. bitchat_packet_decode stored_env (frame[2 := t]) = Some r \<and> pk_body r = [1, 2, 3]"
    by fastforce
  then show ?thesis by blast
qed

text \<open>What equal canonical bytes of two well-formed packets tell.\<close>

lemma canonical_bytes_inj:
  assumes "pkt_wf p" "pkt_wf q" "build_canonical_packet p m = Some c" "build_canonical_packet q m = Some c"
  shows "pk_version p = pk_version q \<and> pk_type p = pk_type q \<and> pk_timestamp_ms p = pk_timestamp_ms q \<and>
    pk_sender_id p = pk_sender_id q \<and> pk_has_recipient p = pk_has_recipient q \<and>
    pk_recipient_id p = pk_recipient_id q \<and> pk_body p = pk_body q"
proof -
  obtain x where x: "c = [pk_version p, pk_type p, 0] @ be_enc 8 (pk_timestamp_ms p) @
     [if pk_has_recipient p then 0x01 else 0] @ be_enc 2 (pk_payload_len p) @ pk_sender_id p @ pk_rcpt p @ pk_body p @ x"
    using canonical_layout [OF assms(1,3)] by blast
  obtain y where y: "c = [pk_version q, pk_type q, 0] @ be_enc 8 (pk_timestamp_ms q) @
     [if pk_has_recipient q then 0x01 else 0] @ be_enc 2 (pk_payload_len q) @ pk_sender_id q @ pk_rcpt q @ pk_body q @ y"
    using canonical_layout [OF assms(2,4)] by blast
  have l: "length (pk_sender_id p) = length (pk_sender_id q)" using assms(1,2) by (simp add: pkt_wf_def)
  have e: "pk_version p = pk_version q" "pk_type p = pk_type q" "be_enc 8 (pk_timestamp_ms p) = be_enc 8 (pk_timestamp_ms q)"
    "pk_has_recipient p = pk_has_recipient q" "be_enc 2 (pk_payload_len p) = be_enc 2 (pk_payload_len q)"
    "pk_sender_id p = pk_sender_id q" "pk_rcpt p @ pk_body p @ x = pk_rcpt q @ pk_body q @ y"
    using x y l by (auto simp: append_eq_append_conv split: if_splits)
  have ts: "pk_timestamp_ms p = pk_timestamp_ms q" using arg_cong [OF e(3), of be_val] by (metis be_val_enc_fields(3))
  have pl: "pk_payload_len p = pk_payload_len q" using arg_cong [OF e(5), of be_val] by (metis be_val_enc_fields(1))
  have "length (pk_rcpt p) = length (pk_rcpt q)" using assms(1,2) e(4) by (simp add: pk_rcpt_def pkt_wf_def)
  then have r: "pk_rcpt p = pk_rcpt q" "pk_body p = pk_body q"
    using e(7) pl pkt_wf_body [OF assms(1)] pkt_wf_body [OF assms(2)] by (auto simp: append_eq_append_conv)
  then have "pk_recipient_id p = pk_recipient_id q"
    using assms(1,2) e(4) by (cases "pk_has_recipient p") (auto simp: pk_rcpt_def pkt_wf_def)
  then show ?thesis using e(1,2,4,6) ts r(2) by blast
qed

lemma pkt_wf_payload:
  assumes "pkt_wf p" "pkt_wf q" "pk_body p = pk_body q"
  shows "pk_payload p = pk_payload q" "pk_payload_len p = pk_payload_len q"
proof -
  have l: "length (pk_body x) = unat (pk_payload_len x)" if "pkt_wf x" for x
    using that pkt_wf_body by auto
  then have "unat (pk_payload_len p) = unat (pk_payload_len q)" using l [OF assms(1)] l [OF assms(2)] assms(3) by simp
  then show len: "pk_payload_len p = pk_payload_len q" by (rule word_unat_eq_iff [THEN iffD2])
  show "pk_payload p = pk_payload q"
  proof (cases "pk_payload_len p = 0")
    case True
    then show ?thesis using assms(1,2) len by (simp add: pkt_wf_def)
  next
    case False
    then obtain x y where "pk_payload p = Some x" "pk_payload q = Some y" using assms(1,2) len by (auto simp: pkt_wf_def)
    then show ?thesis using assms(3) by (simp add: pk_body_def)
  qed
qed

text \<open>
  C32: What a signature binds: two well-formed packets have the same signed bytes exactly when they agree in version,
  type, timestamp, sender, recipient (or its absence) and payload. Changing any of these invalidates the signature; the
  TTL and the flags for RSR, compression and opaqueness are not covered.
\<close>

theorem canonical_bytes_bind_packet:
  assumes "pkt_wf p" "pkt_wf q" "build_canonical_packet p m = Some c" "build_canonical_packet q m = Some d"
  shows "c = d \<longleftrightarrow> pk_version p = pk_version q \<and> pk_type p = pk_type q \<and> pk_timestamp_ms p = pk_timestamp_ms q \<and>
    pk_sender_id p = pk_sender_id q \<and> pk_has_recipient p = pk_has_recipient q \<and>
    pk_recipient_id p = pk_recipient_id q \<and> pk_body p = pk_body q"
proof
  assume "c = d"
  then have "build_canonical_packet q m = Some c" using assms(4) by simp
  from canonical_bytes_inj [OF assms(1-3) this]
  show "pk_version p = pk_version q \<and> pk_type p = pk_type q \<and> pk_timestamp_ms p = pk_timestamp_ms q \<and>
    pk_sender_id p = pk_sender_id q \<and> pk_has_recipient p = pk_has_recipient q \<and>
    pk_recipient_id p = pk_recipient_id q \<and> pk_body p = pk_body q" by blast
next
  assume f: "pk_version p = pk_version q \<and> pk_type p = pk_type q \<and> pk_timestamp_ms p = pk_timestamp_ms q \<and>
    pk_sender_id p = pk_sender_id q \<and> pk_has_recipient p = pk_has_recipient q \<and>
    pk_recipient_id p = pk_recipient_id q \<and> pk_body p = pk_body q"
  then have "build_canonical_packet p m = build_canonical_packet q m"
    using pkt_wf_payload [OF assms(1,2)] by (intro canonical_indep) simp_all
  then show "c = d" using assms(3,4) by simp
qed

theorem canonical_bytes_bind_packet_witness:
  "build_canonical_packet (own_packet demo_id 1 4 7 None [9]) 520 \<noteq> build_canonical_packet (own_packet demo_id 1 4 7 None [8]) 520 \<and>
   build_canonical_packet (own_packet demo_id 1 4 7 None [9]) 520 = build_canonical_packet (own_packet demo_id 1 4 2 None [9]) 520"
proof -
  have wf: "pkt_wf (own_packet demo_id 1 4 t None [b])" for t b by (rule own_packet_wf(1) [OF demo_id_ok(1)]) simp_all
  have "\<exists>c. build_canonical_packet (own_packet demo_id 1 4 t None [b]) 520 = Some c" for t b
    by (simp add: build_canonical_packet_def canonical_header_def own_packet_def demo_id_def)
  then obtain c d e where c: "build_canonical_packet (own_packet demo_id 1 4 7 None [9]) 520 = Some c"
    "build_canonical_packet (own_packet demo_id 1 4 7 None [8]) 520 = Some d"
    "build_canonical_packet (own_packet demo_id 1 4 2 None [9]) 520 = Some e" by metis
  have "c \<noteq> d" "c = e"
    using canonical_bytes_bind_packet [OF wf wf c(1,2)] canonical_bytes_bind_packet [OF wf wf c(1,3)]
    by (simp_all add: own_packet_def pk_body_def)
  then show ?thesis using c by simp
qed

text \<open>
  This node's announce is understood and accepted by a peer running the same firmware: the
  payload fits the 128-byte buffer, its parser recovers the nickname, both keys, the firmware
  version and the role flags, and the announce check binds the sender identifier to the Noise key
  and verifies the signature, at any TTL.
\<close>

lemma announce_accepted_by_peers:
  assumes "node_id_wf nid" "signs_verify alg nid" "take 8 (bitle_sha256 psa (ni_static_public nid)) = ni_peer_id nid"
  shows "\<exists>payload q. build_announce_payload nid a 128 = Some payload \<and> length payload \<le> 128 \<and>
    parse_announce_tlv payload = Some (announce_record nid a) \<and>
    sign_packet alg nid (own_packet nid now BITCHAT_MSG_ANNOUNCE NOISE_PACKET_TTL None payload) = Some q \<and>
    verify_announce alg psa (pk_sender_id q) (pk_timestamp_ms q) (pk_has_signature q) (pk_signature q) payload
      (announce_record nid a) = Some True"
proof -
  have nl: "length (ni_nickname nid) < 32" using assms(1) by (simp add: node_id_wf_def)
  then obtain payload where b: "build_announce_payload nid a 128 = Some payload" by (auto simp: build_announce_payload_def Let_def)
  note r = announce_build_parse [OF assms(1) b]
  let ?p = "own_packet nid now BITCHAT_MSG_ANNOUNCE NOISE_PACKET_TTL None payload"
  obtain q where q: "sign_packet alg nid ?p = Some q"
    using sign_own_packet [OF assms(1), of None payload alg now BITCHAT_MSG_ANNOUNCE NOISE_PACKET_TTL] r(2) nl by fastforce
  then obtain c where c: "build_canonical_packet ?p 520 = Some c"
    and sg: "pk_signature q = ed25519_sign alg c (ni_ed25519_private nid) (ni_ed25519_public nid)"
    by (auto simp: sign_packet_def BITCHAT_BLE_MAX_PACKET_SIZE_def)
  let ?v = "zero_packet \<lparr> pk_version := 1, pk_type := BITCHAT_MSG_ANNOUNCE, pk_timestamp_ms := pk_timestamp_ms q,
     pk_sender_id := pk_sender_id q, pk_payload := (if payload = [] then None else Some payload),
     pk_payload_len := of_nat (length payload) \<rparr>"
  note f = sign_packet_fields [OF q]
  have "build_canonical_packet ?v 520 = Some c"
    using c f by (subst canonical_indep [where p = ?p]) (simp_all add: own_packet_def zero_packet_def)
  then have "verify_announce alg psa (pk_sender_id q) (pk_timestamp_ms q) (pk_has_signature q) (pk_signature q) payload
      (announce_record nid a) = Some True"
    using assms(2,3) f sg
    by (simp add: verify_announce_def announce_record_def own_packet_def signs_verify_def BITCHAT_BLE_MAX_PACKET_SIZE_def)
  then show ?thesis using b r q nl by auto
qed

end
