(* ===== verification/Courier.thy ===== *)
theory Courier
  imports Mailbox_Store Noise_Packet
begin

text \<open>
  The courier of \<open>main/bitle_courier.c\<close>: it accepts sealed envelopes for absent recipients into
  the flash mailbox, hands them over when the recipient (recognised by a rotating HMAC tag)
  announces itself, floods a copy towards a recipient heard through the mesh, and shares spare
  copies with other carriers. Sending goes through \<open>noise_send_packet\<close> and the link registry,
  so the state of the links is threaded through. A call that never returns is \<open>None\<close>.
\<close>

section \<open>Envelopes\<close>

definition TAG_LEN :: nat where "TAG_LEN = 16"
definition MAX_LIFETIME_S :: u64 where "MAX_LIFETIME_S = 25 * 60 * 60"
definition REMOTE_COOLDOWN_S :: u32 where "REMOTE_COOLDOWN_S = 600"
definition MAX_COPIES :: u8 where "MAX_COPIES = 8"
definition DEPOSITOR_LEN :: nat where "DEPOSITOR_LEN = 8"
definition ANNOUNCE_MAX_DELIVER :: nat where "ANNOUNCE_MAX_DELIVER = 8"
definition ANNOUNCE_MAX_SPRAY :: nat where "ANNOUNCE_MAX_SPRAY = 6"
definition BITLE_COURIER_MAX_ENVELOPES :: nat where "BITLE_COURIER_MAX_ENVELOPES = 128"
definition BITLE_COURIER_MAX_PER_DEPOSITOR :: nat where "BITLE_COURIER_MAX_PER_DEPOSITOR = 8"

text \<open>The string \<open>bitchat-courier-tag-v1\<close>.\<close>

definition TAG_CONTEXT :: bytes where
  "TAG_CONTEXT = [0x62, 0x69, 0x74, 0x63, 0x68, 0x61, 0x74, 0x2D, 0x63, 0x6F, 0x75, 0x72, 0x69, 0x65,
     0x72, 0x2D, 0x74, 0x61, 0x67, 0x2D, 0x76, 0x31]"

record envelope =
  en_recipient_tag :: bytes
  en_expiry_ms :: u64
  en_ciphertext :: bytes
  en_copies :: u8
  en_has_prekey_id :: bool
  en_prekey_id :: u32

definition empty_envelope :: envelope where
  "empty_envelope = \<lparr> en_recipient_tag = replicate TAG_LEN 0, en_expiry_ms = 0, en_ciphertext = [],
     en_copies = 1, en_has_prekey_id = False, en_prekey_id = 0 \<rparr>"

definition clamp_copies :: "u8 \<Rightarrow> u8" where
  "clamp_copies c = (if c < 1 then 1 else if c > MAX_COPIES then MAX_COPIES else c)"

definition envelope_field ::
  "u8 \<Rightarrow> bytes \<Rightarrow> envelope \<times> bool \<times> bool \<times> bool \<Rightarrow> (envelope \<times> bool \<times> bool \<times> bool) option" where
  "envelope_field t v acc = (case acc of (env, have_tag, have_expiry, have_ct) \<Rightarrow>
     if t = 0x01 then
       (if length v \<noteq> TAG_LEN then None else Some (env \<lparr> en_recipient_tag := v \<rparr>, True, have_expiry, have_ct))
     else if t = 0x02 then
       (if length v \<noteq> 8 then None else Some (env \<lparr> en_expiry_ms := be_val v \<rparr>, have_tag, True, have_ct))
     else if t = 0x03 then
       (if v = [] then None else Some (env \<lparr> en_ciphertext := v \<rparr>, have_tag, have_expiry, True))
     else if t = 0x04 then
       (if length v \<noteq> 1 then None
        else Some (env \<lparr> en_copies := clamp_copies (v ! 0) \<rparr>, have_tag, have_expiry, have_ct))
     else if t = 0x05 then
       (if length v \<noteq> 4 then None
        else Some (env \<lparr> en_prekey_id := be_val v, en_has_prekey_id := True \<rparr>, have_tag, have_expiry, have_ct))
     else Some acc)"

function envelope_fields ::
  "bytes \<Rightarrow> envelope \<times> bool \<times> bool \<times> bool \<Rightarrow> (envelope \<times> bool \<times> bool \<times> bool) option" where
  "envelope_fields p acc =
     (if length p < 3 then Some acc
      else let l = unat (be_val (bslice 1 2 p) :: u16); rest = drop 3 p
           in if l > length rest then None
              else Option.bind (envelope_field (p ! 0) (take l rest) acc) (envelope_fields (drop l rest)))"
  by pat_completeness auto
termination
  by (relation "measure (\<lambda>(p, acc). length p)") auto

definition parse_envelope :: "bytes \<Rightarrow> envelope option" where
  "parse_envelope p =
     (case envelope_fields p (empty_envelope, False, False, False) of
        None \<Rightarrow> None
      | Some (env, have_tag, have_expiry, have_ct) \<Rightarrow>
          if have_tag \<and> have_expiry \<and> have_ct then Some env else None)"

text \<open>The encoder computes the needed room in a 16-bit variable; it returns 0 when it is too much.\<close>

definition encode_envelope :: "envelope \<Rightarrow> u8 \<Rightarrow> nat \<Rightarrow> bytes option" where
  "encode_envelope env copies out_max =
     (let need = 3 + TAG_LEN + 3 + 8 + 3 + length (en_ciphertext env) +
            (if copies > 1 then 4 else 0) + (if en_has_prekey_id env then 7 else 0)
      in if unat (of_nat need :: u16) > out_max then None
         else Some ([0x01, 0, 16] @ en_recipient_tag env @ [0x02, 0, 8] @ be_enc 8 (en_expiry_ms env) @
                [0x03] @ be_enc 2 (of_nat (length (en_ciphertext env)) :: u16) @ en_ciphertext env @
                (if copies > 1 then [0x04, 0, 1, copies] else []) @
                (if en_has_prekey_id env then [0x05, 0, 4] @ be_enc 4 (en_prekey_id env) else [])))"

definition tag_for_day :: "psa_hash \<Rightarrow> bytes \<Rightarrow> u32 \<Rightarrow> bytes" where
  "tag_for_day psa noise_key epoch_day =
     take TAG_LEN (bitle_hmac_sha256 psa noise_key (TAG_CONTEXT @ be_enc 4 epoch_day))"

definition candidate_tags :: "psa_hash \<Rightarrow> bytes \<Rightarrow> u64 \<Rightarrow> bytes list" where
  "candidate_tags psa noise_key now_ms =
     (let day = ucast ((now_ms div 1000) div 86400) :: u32
      in [tag_for_day psa noise_key (if day = 0 then 0 else day - 1), tag_for_day psa noise_key day,
          tag_for_day psa noise_key (day + 1)])"

definition envelope_key :: "psa_hash \<Rightarrow> envelope \<Rightarrow> bytes" where
  "envelope_key psa env = take BITLE_STORE_KEY_LEN (bitle_sha256 psa (en_ciphertext env))"

definition tag_matches :: "envelope \<Rightarrow> bytes list \<Rightarrow> bool" where
  "tag_matches env tags = list_ex (\<lambda>t. en_recipient_tag env = t) tags"

section \<open>Side state\<close>

record side_state =
  sd_in_use :: bool
  sd_key :: bytes
  sd_sprayed_mask :: u32
  sd_last_remote_s :: u32

definition fresh_side :: "bytes \<Rightarrow> side_state" where
  "fresh_side key = \<lparr> sd_in_use = True, sd_key = key, sd_sprayed_mask = 0, sd_last_remote_s = 0 \<rparr>"

definition empty_sides :: "side_state list" where
  "empty_sides = replicate BITLE_COURIER_MAX_ENVELOPES
     \<lparr> sd_in_use = False, sd_key = replicate 16 0, sd_sprayed_mask = 0, sd_last_remote_s = 0 \<rparr>"

text \<open>The search for a slot whose envelope has left the store; each test takes the store's mutex.\<close>

fun reclaim_side :: "'f store \<Rightarrow> side_state list \<Rightarrow> nat option option" where
  "reclaim_side st [] = Some None"
| "reclaim_side st (d # ds) =
     (case bitle_store_contains (sd_key d) st of
        None \<Rightarrow> None
      | Some False \<Rightarrow> Some (Some 0)
      | Some True \<Rightarrow> map_option (map_option Suc) (reclaim_side st ds))"

definition side_get ::
  "bytes \<Rightarrow> bool \<Rightarrow> 'f store \<Rightarrow> side_state list \<Rightarrow> (nat option \<times> side_state list) option" where
  "side_get key create st sides =
     (case find_slot sd_in_use sd_key key sides of
        Some i \<Rightarrow> Some (Some i, sides)
      | None \<Rightarrow>
          if \<not> create then Some (None, sides)
          else case find_index (\<lambda>d. \<not> sd_in_use d) sides of
                 Some i \<Rightarrow> Some (Some i, sides[i := fresh_side key])
               | None \<Rightarrow>
                   (case reclaim_side st sides of
                      None \<Rightarrow> None
                    | Some None \<Rightarrow> Some (None, sides)
                    | Some (Some i) \<Rightarrow> Some (Some i, sides[i := fresh_side key])))"

definition peer_bit :: "bytes \<Rightarrow> u32" where
  "peer_bit peer_id =
     push_bit (unat (foldl (\<lambda>h b. (h XOR ucast b) * 16777619) 2166136261 (take 8 peer_id) AND 31 :: u32)) 1"

section \<open>Announces\<close>

record ('l, 'w) courier_env =
  ce_alg :: sign_alg
  ce_nid :: node_id
  ce_psa :: psa_hash
  ce_drv :: "('l, 'w) link_driver"
  ce_links :: "'l links"

record spray_op =
  op_key :: bytes
  op_expiry_s :: u32
  op_copies :: u8
  op_payload :: bytes

record 'w announce_ctx =
  ac_deliver_keys :: "bytes list"
  ac_spray_ops :: "spray_op list"
  ac_sent :: u16
  ac_sides :: "side_state list"
  ac_world :: 'w

definition send_envelope ::
  "('l, 'w) courier_env \<Rightarrow> u64 \<Rightarrow> u16 \<Rightarrow> bytes \<Rightarrow> envelope \<Rightarrow> u8 \<Rightarrow> 'w \<Rightarrow> bool \<times> 'w" where
  "send_envelope ce now_ms conn recipient env copies w =
     (case encode_envelope env copies BITLE_STORE_PAYLOAD_MAX of
        None \<Rightarrow> (False, w)
      | Some payload \<Rightarrow>
          (case noise_send_packet (ce_alg ce) (ce_nid ce) now_ms (ce_drv ce) (ce_links ce) conn
                  BITCHAT_MSG_COURIER_ENVELOPE (Some recipient) payload 7 True w of
             (err, w') \<Rightarrow> (err = ESP_OK, w')))"

text \<open>The recipient has a direct link: hand the mail over, and note its key.\<close>

definition announce_deliver ::
  "('l, 'w) courier_env \<Rightarrow> u64 \<Rightarrow> u16 \<Rightarrow> bytes \<Rightarrow> bytes \<Rightarrow> envelope \<Rightarrow> 'w announce_ctx \<Rightarrow> 'w announce_ctx" where
  "announce_deliver ce now_ms conn peer key env ctx =
     (if length (ac_deliver_keys ctx) < ANNOUNCE_MAX_DELIVER
      then case send_envelope ce now_ms conn peer env 1 (ac_world ctx) of
             (True, w) \<Rightarrow> ctx \<lparr> ac_deliver_keys := ac_deliver_keys ctx @ [key], ac_sent := ac_sent ctx + 1, ac_world := w \<rparr>
           | (False, w) \<Rightarrow> ctx \<lparr> ac_world := w \<rparr>
      else ctx)"

text \<open>The recipient was heard through the mesh: flood one copy, at most every ten minutes.\<close>

definition announce_remote ::
  "('l, 'w) courier_env \<Rightarrow> u64 \<Rightarrow> u16 \<Rightarrow> bytes \<Rightarrow> bytes \<Rightarrow> envelope \<Rightarrow> 'f store \<Rightarrow> 'w announce_ctx \<Rightarrow> 'w announce_ctx option" where
  "announce_remote ce now_ms conn peer key env st ctx =
     (case side_get key True st (ac_sides ctx) of
        None \<Rightarrow> None
      | Some (None, sides) \<Rightarrow> Some (ctx \<lparr> ac_sides := sides \<rparr>)
      | Some (Some i, sides) \<Rightarrow>
          (let now_s = ucast (now_ms div 1000) :: u32
           in if now_s - sd_last_remote_s (sides ! i) \<ge> REMOTE_COOLDOWN_S
              then let sides' = sides[i := (sides ! i) \<lparr> sd_last_remote_s := now_s \<rparr>]
                   in case send_envelope ce now_ms conn peer env 1 (ac_world ctx) of
                        (ok, w) \<Rightarrow> Some (ctx \<lparr> ac_sides := sides', ac_world := w,
                                               ac_sent := (if ok then ac_sent ctx + 1 else ac_sent ctx) \<rparr>)
              else Some (ctx \<lparr> ac_sides := sides \<rparr>)))"

text \<open>Another carrier: give it half of the copies, and note the rewrite of the record.\<close>

definition announce_spray ::
  "('l, 'w) courier_env \<Rightarrow> u64 \<Rightarrow> u16 \<Rightarrow> bytes \<Rightarrow> bytes \<Rightarrow> u32 \<Rightarrow> u8 \<Rightarrow> bytes \<Rightarrow> envelope \<Rightarrow> 'f store \<Rightarrow> 'w announce_ctx \<Rightarrow>
     'w announce_ctx option" where
  "announce_spray ce now_ms conn peer key expiry_s copies payload env st ctx =
     (case side_get key True st (ac_sides ctx) of
        None \<Rightarrow> None
      | Some (None, sides) \<Rightarrow> Some (ctx \<lparr> ac_sides := sides \<rparr>)
      | Some (Some i, sides) \<Rightarrow>
          if sd_sprayed_mask (sides ! i) AND peer_bit peer \<noteq> 0 then Some (ctx \<lparr> ac_sides := sides \<rparr>)
          else let give = copies div 2
               in case send_envelope ce now_ms conn peer env give (ac_world ctx) of
                    (False, w) \<Rightarrow> Some (ctx \<lparr> ac_sides := sides, ac_world := w \<rparr>)
                  | (True, w) \<Rightarrow>
                      (let sides' = sides[i := (sides ! i) \<lparr> sd_sprayed_mask :=
                              sd_sprayed_mask (sides ! i) OR peer_bit peer \<rparr>];
                           ctx' = ctx \<lparr> ac_sides := sides', ac_world := w, ac_sent := ac_sent ctx + 1 \<rparr>;
                           keep = copies - give
                       in case encode_envelope env keep (BITLE_STORE_PAYLOAD_MAX - DEPOSITOR_LEN) of
                            None \<Rightarrow> Some ctx'
                          | Some body \<Rightarrow>
                              Some (ctx' \<lparr> ac_spray_ops := ac_spray_ops ctx @
                                 [\<lparr> op_key = key, op_expiry_s = expiry_s, op_copies = keep,
                                    op_payload = take DEPOSITOR_LEN payload @ body \<rparr>] \<rparr>)))"

definition announce_iter ::
  "('l, 'w) courier_env \<Rightarrow> u64 \<Rightarrow> u16 \<Rightarrow> bytes \<Rightarrow> bytes list \<Rightarrow> bool \<Rightarrow> bool \<Rightarrow> ('f, 'w announce_ctx) store_cb" where
  "announce_iter ce now_ms conn peer tags is_direct verified key expiry_s flags payload st ctx =
     (if length payload \<le> DEPOSITOR_LEN then Some (True, ctx)
      else case parse_envelope (drop DEPOSITOR_LEN payload) of
             None \<Rightarrow> Some (True, ctx)
           | Some env \<Rightarrow>
               (let copies = (if flags \<noteq> 0 then flags else 1)
                in if tag_matches env tags
                   then if is_direct
                        then Some (True, announce_deliver ce now_ms conn peer key env ctx)
                        else map_option (Pair True) (announce_remote ce now_ms conn peer key env st ctx)
                   else if is_direct \<and> verified \<and> copies > 1 \<and> length (ac_spray_ops ctx) < ANNOUNCE_MAX_SPRAY \<and>
                           take DEPOSITOR_LEN payload \<noteq> peer
                        then map_option (Pair True)
                               (announce_spray ce now_ms conn peer key expiry_s copies payload env st ctx)
                        else Some (True, ctx)))"

definition apply_spray :: "'f flash \<Rightarrow> crc_fun \<Rightarrow> spray_op \<Rightarrow> 'f store \<Rightarrow> 'f store option" where
  "apply_spray fl crc op st =
     map_option snd (bitle_store_put fl crc (op_key op) (op_expiry_s op) (op_copies op) (op_payload op) st)"

definition bitle_courier_peer_announced ::
  "('l, 'w) courier_env \<Rightarrow> 'f flash \<Rightarrow> crc_fun \<Rightarrow> u16 \<Rightarrow> bytes \<Rightarrow> bytes \<Rightarrow> bool \<Rightarrow> bool \<Rightarrow> u64 \<Rightarrow>
     'f store \<Rightarrow> side_state list \<Rightarrow> 'w \<Rightarrow> ('f store \<times> side_state list \<times> 'w) option" where
  "bitle_courier_peer_announced ce fl crc conn peer noise_key verified is_direct now_ms st sides w =
     (if \<not> verified \<or> bitle_store_count st = 0 then Some (st, sides, w)
      else let tags = candidate_tags (ce_psa ce) noise_key now_ms;
               ctx = \<lparr> ac_deliver_keys = [], ac_spray_ops = [], ac_sent = 0, ac_sides = sides, ac_world = w \<rparr>
           in Option.bind (bitle_store_iterate fl now_ms
                  (announce_iter ce now_ms conn peer tags is_direct verified) st ctx) (\<lambda>(st1, ctx1).
              Option.bind (fold_opt (bitle_store_delete fl) (ac_deliver_keys ctx1) st1) (\<lambda>st2.
              Option.bind (fold_opt (apply_spray fl crc) (ac_spray_ops ctx1) st2) (\<lambda>st3.
                Some (st3, ac_sides ctx1, ac_world ctx1)))))"

section \<open>Deposits\<close>

definition depositor_count_iter :: "bytes \<Rightarrow> ('f, nat) store_cb" where
  "depositor_count_iter depositor key expiry_s flags payload st n =
     Some (True, if length payload > DEPOSITOR_LEN \<and> take DEPOSITOR_LEN payload = depositor
                 then Suc n else n)"

definition bitle_courier_accept ::
  "psa_hash \<Rightarrow> 'f flash \<Rightarrow> crc_fun \<Rightarrow> bytes \<Rightarrow> bool \<Rightarrow> bytes \<Rightarrow> u64 \<Rightarrow> 'f store \<Rightarrow> (bool \<times> 'f store) option" where
  "bitle_courier_accept psa fl crc depositor verified payload now_ms st =
     (if \<not> verified then Some (False, st)
      else case parse_envelope payload of
             None \<Rightarrow> Some (False, st)
           | Some env \<Rightarrow>
               if now_ms \<ge> en_expiry_ms env then Some (False, st)
               else if en_expiry_ms env > now_ms + MAX_LIFETIME_S * 1000 then Some (False, st)
               else if length payload + DEPOSITOR_LEN > BITLE_STORE_PAYLOAD_MAX then Some (False, st)
               else if bitle_store_count st \<ge> BITLE_COURIER_MAX_ENVELOPES then Some (False, st)
               else let key = envelope_key psa env
                    in Option.bind (bitle_store_contains key st) (\<lambda>known.
                       if known then Some (True, st)
                       else Option.bind (bitle_store_iterate fl now_ms (depositor_count_iter depositor) st 0) (\<lambda>(st1, n).
                            if n \<ge> BITLE_COURIER_MAX_PER_DEPOSITOR then Some (False, st1)
                            else map_option (\<lambda>(err, st2). (err = ESP_OK, st2))
                                   (bitle_store_put fl crc key (ucast (en_expiry_ms env div 1000)) (en_copies env)
                                      (take DEPOSITOR_LEN depositor @ payload) st1))))"

definition bitle_courier_init ::
  "'f flash \<Rightarrow> crc_fun \<Rightarrow> bool \<Rightarrow> bool \<Rightarrow> u64 \<Rightarrow> 'f store \<Rightarrow> side_state list \<times> esp_err \<times> 'f store" where
  "bitle_courier_init fl crc found lock_ok now_ms st =
     (empty_sides, bitle_store_init fl crc found lock_ok now_ms st)"

declare envelope_fields.simps [simp del]

section \<open>Envelopes\<close>

lemma be_enc_2_small: "n < 256 \<Longrightarrow> be_enc 2 (word_of_nat n :: u16) = [0, word_of_nat n]"
proof -
  assume n: "n < 256"
  have "drop_bit 8 (word_of_nat n :: u16) = 0"
    using n by (simp add: drop_bit_eq_div word_arith_nat_div unat_of_nat_small)
  moreover have "ucast (word_of_nat n :: u16) = (word_of_nat n :: u8)"
    using n by (simp add: word_unat_eq_iff unsigned_ucast_eq unat_of_nat_small take_bit_nat_eq_self)
  ultimately show ?thesis by (simp add: be_enc_Suc be_enc_0 numeral_2_eq_2)
qed

lemma envelope_fields_step:
  assumes "length v < 65536"
  shows "envelope_fields (t # be_enc 2 (of_nat (length v) :: u16) @ v @ rest) acc =
    Option.bind (envelope_field t v acc) (envelope_fields rest)"
proof -
  let ?p = "t # be_enc 2 (of_nat (length v) :: u16) @ v @ rest"
  have "bslice 1 2 ?p = be_enc 2 (of_nat (length v) :: u16)" "drop 3 ?p = v @ rest" "\<not> length ?p < 3"
    by (simp_all add: bslice_def numeral_3_eq_3 numeral_2_eq_2)
  then show ?thesis using assms by (subst envelope_fields.simps) (simp add: Let_def unat_of_nat_small)
qed

lemma envelope_fields_Nil: "envelope_fields [] acc = Some acc"
  by (subst envelope_fields.simps) simp

definition envelope_wf :: "envelope \<Rightarrow> bool" where
  "envelope_wf env \<longleftrightarrow> length (en_recipient_tag env) = TAG_LEN \<and> en_ciphertext env \<noteq> [] \<and>
     length (en_ciphertext env) < 65000 \<and> (\<not> en_has_prekey_id env \<longrightarrow> en_prekey_id env = 0)"

text \<open>The room an envelope takes.\<close>

definition envelope_need :: "envelope \<Rightarrow> u8 \<Rightarrow> nat" where
  "envelope_need env copies = 33 + length (en_ciphertext env) + (if copies > 1 then 4 else 0) +
     (if en_has_prekey_id env then 7 else 0)"

lemma encode_envelope_Some:
  assumes "envelope_wf env"
  shows "encode_envelope env c n = None \<longleftrightarrow> envelope_need env c > n"
    "encode_envelope env c n = Some bs \<Longrightarrow> length bs = envelope_need env c"
proof -
  have "unat (of_nat (envelope_need env c) :: u16) = envelope_need env c"
    using assms by (intro unat_of_nat_small) (auto simp: envelope_wf_def envelope_need_def)
  moreover have "3 + TAG_LEN + 3 + 8 + 3 + length (en_ciphertext env) +
      (if c > 1 then 4 else 0) + (if en_has_prekey_id env then 7 else 0) = envelope_need env c"
    by (simp add: envelope_need_def TAG_LEN_def)
  ultimately show "encode_envelope env c n = None \<longleftrightarrow> envelope_need env c > n"
    "encode_envelope env c n = Some bs \<Longrightarrow> length bs = envelope_need env c"
    using assms by (auto simp: encode_envelope_def envelope_need_def envelope_wf_def TAG_LEN_def Let_def split: if_splits)
qed

lemma clamp_id: "1 \<le> c \<Longrightarrow> c \<le> 8 \<Longrightarrow> clamp_copies c = c"
  by (auto simp: clamp_copies_def MAX_COPIES_def)

lemma envelope_encode_parse:
  assumes wf: "envelope_wf env" and c: "1 \<le> c" "c \<le> 8" and e: "encode_envelope env c n = Some bs"
  shows "parse_envelope bs = Some (env \<lparr> en_copies := c \<rparr>)"
proof -
  let ?ct = "en_ciphertext env" and ?tag = "en_recipient_tag env"
  let ?k = "if c > 1 then 0x04 # be_enc 2 (of_nat (length [c]) :: u16) @ [c] @
      (if en_has_prekey_id env then 0x05 # be_enc 2 (of_nat (length (be_enc 4 (en_prekey_id env))) :: u16) @ be_enc 4 (en_prekey_id env) @ [] else [])
    else (if en_has_prekey_id env then 0x05 # be_enc 2 (of_nat (length (be_enc 4 (en_prekey_id env))) :: u16) @ be_enc 4 (en_prekey_id env) @ [] else [])"
  have l: "length ?tag = 16" "?ct \<noteq> []" "length ?ct < 65536" using wf by (auto simp: envelope_wf_def TAG_LEN_def)
  have bs: "bs = 0x01 # be_enc 2 (of_nat (length ?tag) :: u16) @ ?tag @
      0x02 # be_enc 2 (of_nat (length (be_enc 8 (en_expiry_ms env))) :: u16) @ be_enc 8 (en_expiry_ms env) @
      0x03 # be_enc 2 (of_nat (length ?ct) :: u16) @ ?ct @ ?k"
    using e l(1) be_enc_2_small [of 16] be_enc_2_small [of 8] be_enc_2_small [of 1] be_enc_2_small [of 4]
    by (auto simp: encode_envelope_def Let_def split: if_splits)
  have s1: "envelope_fields (0x01 # be_enc 2 (of_nat (length ?tag) :: u16) @ ?tag @ R) (r, F1, F2, F3) =
      envelope_fields R (r \<lparr> en_recipient_tag := ?tag \<rparr>, True, F2, F3)" for R r F1 F2 F3
    using l by (subst envelope_fields_step) (auto simp: envelope_field_def TAG_LEN_def)
  have s2: "envelope_fields (0x02 # be_enc 2 (of_nat (length (be_enc 8 (en_expiry_ms env))) :: u16) @ be_enc 8 (en_expiry_ms env) @ R) (r, F1, F2, F3) =
      envelope_fields R (r \<lparr> en_expiry_ms := en_expiry_ms env \<rparr>, F1, True, F3)" for R r F1 F2 F3
    by (subst envelope_fields_step) (auto simp: envelope_field_def)
  have s3: "envelope_fields (0x03 # be_enc 2 (of_nat (length ?ct) :: u16) @ ?ct @ R) (r, F1, F2, F3) =
      envelope_fields R (r \<lparr> en_ciphertext := ?ct \<rparr>, F1, F2, True)" for R r F1 F2 F3
    using l by (subst envelope_fields_step) (auto simp: envelope_field_def)
  have s4: "envelope_fields (0x04 # be_enc 2 (of_nat (length [c]) :: u16) @ [c] @ R) (r, F1, F2, F3) =
      envelope_fields R (r \<lparr> en_copies := c \<rparr>, F1, F2, F3)" for R r F1 F2 F3
    using c by (subst envelope_fields_step) (auto simp: envelope_field_def clamp_id)
  have s5: "envelope_fields (0x05 # be_enc 2 (of_nat (length (be_enc 4 (en_prekey_id env))) :: u16) @ be_enc 4 (en_prekey_id env) @ R) (r, F1, F2, F3) =
      envelope_fields R (r \<lparr> en_prekey_id := en_prekey_id env, en_has_prekey_id := True \<rparr>, F1, F2, F3)" for R r F1 F2 F3
    by (subst envelope_fields_step) (auto simp: envelope_field_def)
  have "\<not> c > 1 \<Longrightarrow> c = 1" using c(1) by simp
  then show ?thesis
    unfolding parse_envelope_def bs s1 s2 s3 using wf
    by (cases "c > 1"; cases "en_has_prekey_id env")
       (simp_all only: s4 s5 if_True if_False envelope_fields_Nil,
        auto simp: empty_envelope_def envelope_wf_def intro!: envelope.equality)
qed

text \<open>What the parser returns is well-formed, and its canonical encoding is no longer than the input.\<close>

definition env_acc_ok :: "nat \<Rightarrow> envelope \<times> bool \<times> bool \<times> bool \<Rightarrow> bool" where
  "env_acc_ok n acc = (case acc of (env, ht, he, hc) \<Rightarrow>
     length (en_recipient_tag env) = TAG_LEN \<and> (hc \<longrightarrow> en_ciphertext env \<noteq> []) \<and>
     1 \<le> en_copies env \<and> en_copies env \<le> 8 \<and> (\<not> en_has_prekey_id env \<longrightarrow> en_prekey_id env = 0) \<and>
     (if ht then 19 else 0) + (if he then 11 else 0) + (if hc then 3 + length (en_ciphertext env) else 0) +
     (if en_copies env > 1 then 4 else 0) + (if en_has_prekey_id env then 7 else 0) \<le> n)"

lemma clamp_range: "1 \<le> clamp_copies c" "clamp_copies c \<le> 8"
  by (auto simp: clamp_copies_def MAX_COPIES_def not_less word_le_nat_alt Suc_le_eq unat_gt_0)

lemma envelope_field_ok:
  assumes "env_acc_ok n acc" "envelope_field t v acc = Some acc'"
  shows "env_acc_ok (n + 3 + length v) acc'"
proof -
  obtain env ht he hc where acc: "acc = (env, ht, he, hc)" by (metis prod.exhaust)
  have ok: "length (en_recipient_tag env) = 16" "hc \<longrightarrow> en_ciphertext env \<noteq> []" "1 \<le> en_copies env" "en_copies env \<le> 8"
    "\<not> en_has_prekey_id env \<longrightarrow> en_prekey_id env = 0"
    and n: "(if ht then 19 else 0) + (if he then 11 else 0) + (if hc then 3 + length (en_ciphertext env) else 0) +
     (if en_copies env > 1 then 4 else 0) + (if en_has_prekey_id env then 7 else 0) \<le> n"
    using assms(1) by (auto simp: acc env_acc_ok_def TAG_LEN_def)
  consider "t = 1" | "t = 2" | "t = 3" | "t = 4" | "t = 5" | "t \<notin> {1, 2, 3, 4, 5}" by auto
  then show ?thesis
  proof cases
    case 1
    then have "acc' = (env \<lparr> en_recipient_tag := v \<rparr>, True, he, hc)" "length v = 16"
      using assms(2) by (auto simp: envelope_field_def acc TAG_LEN_def split: if_splits)
    then show ?thesis using ok n by (auto simp: env_acc_ok_def TAG_LEN_def)
  next
    case 2
    then have "acc' = (env \<lparr> en_expiry_ms := be_val v \<rparr>, ht, True, hc)" "length v = 8"
      using assms(2) by (auto simp: envelope_field_def acc split: if_splits)
    then show ?thesis using ok n by (auto simp: env_acc_ok_def TAG_LEN_def)
  next
    case 3
    then have "acc' = (env \<lparr> en_ciphertext := v \<rparr>, ht, he, True)" "v \<noteq> []"
      using assms(2) by (auto simp: envelope_field_def acc split: if_splits)
    then show ?thesis using ok n by (auto simp: env_acc_ok_def TAG_LEN_def split: if_splits)
  next
    case 4
    then have "acc' = (env \<lparr> en_copies := clamp_copies (v ! 0) \<rparr>, ht, he, hc)" "length v = 1"
      using assms(2) by (auto simp: envelope_field_def acc split: if_splits)
    then show ?thesis using ok n clamp_range [of "v ! 0"] by (auto simp: env_acc_ok_def TAG_LEN_def)
  next
    case 5
    then have "acc' = (env \<lparr> en_prekey_id := be_val v, en_has_prekey_id := True \<rparr>, ht, he, hc)" "length v = 4"
      using assms(2) by (auto simp: envelope_field_def acc split: if_splits)
    then show ?thesis using ok n by (auto simp: env_acc_ok_def TAG_LEN_def)
  next
    case 6
    then have "acc' = acc" using assms(2) by (auto simp: envelope_field_def acc)
    then show ?thesis using ok n by (auto simp: acc env_acc_ok_def TAG_LEN_def)
  qed
qed

lemma envelope_fields_ok:
  "envelope_fields p acc = Some acc' \<Longrightarrow> env_acc_ok n acc \<Longrightarrow> env_acc_ok (n + length p) acc'"
proof (induction p acc arbitrary: n rule: envelope_fields.induct)
  case (1 p acc)
  show ?case
  proof (cases "length p < 3")
    case True
    then show ?thesis using "1.prems" by (auto simp: envelope_fields.simps [of p] env_acc_ok_def)
  next
    case False
    let ?l = "unat (be_val (bslice 1 2 p) :: u16)" and ?rest = "drop 3 p"
    have l: "?l \<le> length ?rest" using "1.prems"(1) False by (auto simp: envelope_fields.simps [of p] Let_def split: if_splits)
    obtain acc1 where a: "envelope_field (p ! 0) (take ?l ?rest) acc = Some acc1" "envelope_fields (drop ?l ?rest) acc1 = Some acc'"
      using "1.prems"(1) False l by (auto simp: envelope_fields.simps [of p] Let_def bind_eq_Some_conv)
    have "\<not> length ?rest < ?l" using l by simp
    from "1.IH" [OF False refl refl this a envelope_field_ok [OF "1.prems"(2) a(1)]]
    have "env_acc_ok (n + 3 + length (take ?l ?rest) + length (drop ?l ?rest)) acc'" .
    moreover have "n + 3 + length (take ?l ?rest) + length (drop ?l ?rest) = n + length p" using l False by simp
    ultimately show ?thesis by (simp only:)
  qed
qed

lemma parse_envelope_ok:
  assumes "parse_envelope p = Some env" "length p < 65000"
  shows "envelope_wf env" "1 \<le> en_copies env" "en_copies env \<le> 8" "envelope_need env (en_copies env) \<le> length p"
proof -
  obtain ht he hc where f: "envelope_fields p (empty_envelope, False, False, False) = Some (env, ht, he, hc)" "ht" "he" "hc"
    using assms(1) by (auto simp: parse_envelope_def split: option.splits if_splits)
  have "env_acc_ok 0 (empty_envelope, False, False, False)" by (simp add: env_acc_ok_def empty_envelope_def)
  from envelope_fields_ok [OF f(1) this] show "envelope_wf env" "1 \<le> en_copies env" "en_copies env \<le> 8"
    "envelope_need env (en_copies env) \<le> length p"
    using f(2-4) assms(2) by (auto simp: env_acc_ok_def envelope_wf_def envelope_need_def)
qed

section \<open>The mailbox of the courier\<close>

text \<open>
  What every stored record is: the depositor, an envelope the parser accepts, filed under the hash
  of its ciphertext with its remaining copies; and the two quotas.
\<close>

definition mail_rec :: "psa_hash \<Rightarrow> bytes \<Rightarrow> u32 \<times> u8 \<times> bytes \<Rightarrow> bool" where
  "mail_rec psa k v = (case v of (x, g, p) \<Rightarrow> DEPOSITOR_LEN < length p \<and> length p \<le> BITLE_STORE_PAYLOAD_MAX \<and>
     (\<exists>env. parse_envelope (drop DEPOSITOR_LEN p) = Some env \<and> k = envelope_key psa env \<and> g = en_copies env \<and>
        x = ucast (en_expiry_ms env div 1000)))"

definition mail_from :: "(bytes \<rightharpoonup> u32 \<times> u8 \<times> bytes) \<Rightarrow> bytes \<Rightarrow> bytes set" where
  "mail_from m d = {k. \<exists>x g p. m k = Some (x, g, p) \<and> take DEPOSITOR_LEN p = d}"

definition mail_inv :: "psa_hash \<Rightarrow> (bytes \<rightharpoonup> u32 \<times> u8 \<times> bytes) \<Rightarrow> bool" where
  "mail_inv psa m \<longleftrightarrow> (\<forall>k v. m k = Some v \<longrightarrow> mail_rec psa k v) \<and> finite (dom m) \<and>
     card (dom m) \<le> BITLE_COURIER_MAX_ENVELOPES \<and> (\<forall>d. card (mail_from m d) \<le> BITLE_COURIER_MAX_PER_DEPOSITOR)"

lemma mail_from_dom: "mail_from m d \<subseteq> dom m"
  by (auto simp: mail_from_def)

lemma map_le_Some: "m' \<subseteq>\<^sub>m m \<Longrightarrow> m' k = Some v \<Longrightarrow> m k = Some v"
  by (metis domI map_le_def)

lemma mail_inv_le:
  assumes "m' \<subseteq>\<^sub>m m" "mail_inv psa m"
  shows "mail_inv psa m'"
proof -
  have d: "dom m' \<subseteq> dom m" using assms(1) by (auto dest: map_le_Some)
  have f: "finite (dom m)" using assms(2) by (simp add: mail_inv_def)
  have "mail_from m' d \<subseteq> mail_from m d" for d using map_le_Some [OF assms(1)] by (fastforce simp: mail_from_def)
  then have "card (mail_from m' d) \<le> card (mail_from m d)" for d
    using f mail_from_dom [of m d] by (meson card_mono finite_subset)
  moreover have "card (dom m') \<le> card (dom m)" using d f by (rule card_mono [rotated])
  ultimately show ?thesis
    using assms(2) finite_subset [OF d f] map_le_Some [OF assms(1)] unfolding mail_inv_def by (meson le_trans)
qed

lemma still_valid_le: "still_valid now m \<subseteq>\<^sub>m m"
  by (auto simp: map_le_def still_valid_def split: option.splits if_splits)

lemma purge_view:
  assumes fw: "flash_works fl" and inv: "core fl crc T s" and p: "purges fl now s s'"
  shows "view fl s' = still_valid now (view fl s)"
proof
  fix k
  have v: "view fl s' = view fl s |` (ie_key ` set (s_index s'))" using p by (simp add: purges_def shrinks_def)
  show "view fl s' k = still_valid now (view fl s) k"
  proof (cases "k \<in> ie_key ` set (s_index s)")
    case False
    then have "k \<notin> ie_key ` set (s_index s')" using p by (auto simp: purges_def)
    then show ?thesis using False by (simp add: store_view_None still_valid_def)
  next
    case True
    then obtain e where e: "e \<in> set (s_index s)" "k = ie_key e" by auto
    obtain h where h: "rec_at fl crc (s_flash s) (ie_offset e) h" "ie_offset e + rec_len h \<le> fl_size fl" "entry_matches e h"
      using core_entry [OF fw inv e(1)] by metis
    note r = store_view_rec [OF fw core_distinct [OF inv] e(1) h(1,2)]
    have u: "e' = e" if "e' \<in> set (s_index s)" "ie_key e' = ie_key e" for e'
      using that e(1) core_distinct [OF inv] by (auto simp: distinct_map inj_on_def)
    have "k \<in> ie_key ` set (s_index s') \<longleftrightarrow> \<not> entry_expired now (ie_expiry e)"
    proof
      assume "k \<in> ie_key ` set (s_index s')"
      then obtain e' where e': "e' \<in> set (s_index s')" "ie_key e' = ie_key e" using e(2) by auto
      have "e' \<in> set (s_index s) \<and> \<not> entry_expired now (ie_expiry e')" using e'(1) p by (simp add: purges_def)
      then show "\<not> entry_expired now (ie_expiry e)" using u e'(2) by metis
    next
      assume "\<not> entry_expired now (ie_expiry e)"
      then have "e \<in> set (s_index s')" using p e(1) by (simp add: purges_def)
      then show "k \<in> ie_key ` set (s_index s')" using e(2) by simp
    qed
    then show ?thesis using r v e(2) h(3) by (auto simp: still_valid_def restrict_map_def entry_matches_def)
  qed
qed

section \<open>Deposits\<close>

definition is_from :: "bytes \<Rightarrow> u32 \<times> u8 \<times> bytes \<Rightarrow> bool" where
  "is_from d v = (case v of (x, g, p) \<Rightarrow> length p > DEPOSITOR_LEN \<and> take DEPOSITOR_LEN p = d)"

lemma count_iter_fold:
  assumes "\<forall>k \<in> set ks. view fl s k \<noteq> None"
  shows "fold_opt (on_record fl s (\<lambda>k x g p n. Some (if is_from d (x, g, p) then Suc n else n))) ks n =
    Some (n + length (filter (\<lambda>k. is_from d (the (view fl s k))) ks))"
  using assms by (induction ks arbitrary: n) (auto simp: on_record_def split: option.splits)

lemma depositor_cb: "cb_simple (depositor_count_iter d) (\<lambda>k x g p n. Some (if is_from d (x, g, p) then Suc n else n))"
  by (simp add: cb_simple_def depositor_count_iter_def is_from_def)

lemma depositor_count_works:
  assumes fw: "flash_works fl" and inv: "store_inv fl crc T s" and m: "mail_inv psa (view fl s)"
  obtains s' where "bitle_store_iterate fl now (depositor_count_iter d) s 0 =
      Some (s', card (mail_from (still_valid (now_unix_s now) (view fl s)) d))"
    "store_inv fl crc T s'" "view fl s' = still_valid (now_unix_s now) (view fl s)"
proof -
  obtain s' where s': "store_inv fl crc T s'" "purges fl (now_unix_s now) s s'"
    "\<And>arg. bitle_store_iterate fl now (depositor_count_iter d) s arg =
      map_option (Pair s') (fold_opt (on_record fl s' (\<lambda>k x g p n. Some (if is_from d (x, g, p) then Suc n else n)))
        (map ie_key (s_index s')) arg)"
    by (rule iterate_works [OF fw depositor_cb [of d] inv, of now]) blast
  have c: "core fl crc T s" "core fl crc T s'" using inv s'(1) by (simp_all add: store_inv_def)
  note v = purge_view [OF fw c(1) s'(2)]
  let ?ks = "map ie_key (s_index s')"
  have dm: "set ?ks = dom (view fl s')" using store_view_dom [OF fw c(2)] by (auto simp only: dom_def set_map)
  have long: "DEPOSITOR_LEN < length p" if "view fl s' k = Some (x, g, p)" for k x g p
    using that m map_le_Some [OF still_valid_le, of "now_unix_s now" "view fl s" k "(x, g, p)"] v
    by (auto simp: mail_inv_def mail_rec_def)
  have "length (filter (\<lambda>k. is_from d (the (view fl s' k))) ?ks) = card (set (filter (\<lambda>k. is_from d (the (view fl s' k))) ?ks))"
    using distinct_card [OF distinct_filter [OF core_distinct [OF c(2)]]] by simp
  also have "set (filter (\<lambda>k. is_from d (the (view fl s' k))) ?ks) = mail_from (view fl s') d"
    using dm long by (fastforce simp: mail_from_def is_from_def simp del: set_map)
  finally have len: "length (filter (\<lambda>k. is_from d (the (view fl s' k))) ?ks) = card (mail_from (view fl s') d)" .
  have "\<forall>k \<in> set ?ks. view fl s' k \<noteq> None" using dm by blast
  then have "bitle_store_iterate fl now (depositor_count_iter d) s 0 = Some (s', card (mail_from (view fl s') d))"
    using s'(3) count_iter_fold [of ?ks fl s' d 0] len by (simp only: option.map add_0)
  then show thesis using that s'(1) v by simp
qed

text \<open>When a deposit is accepted.\<close>

definition deposit_ok ::
  "psa_hash \<Rightarrow> u64 \<Rightarrow> bytes \<Rightarrow> bool \<Rightarrow> bytes \<Rightarrow> (bytes \<rightharpoonup> u32 \<times> u8 \<times> bytes) \<Rightarrow> bool" where
  "deposit_ok psa now depositor verified payload m \<longleftrightarrow> verified \<and>
     (\<exists>env. parse_envelope payload = Some env \<and> now < en_expiry_ms env \<and>
        en_expiry_ms env \<le> now + MAX_LIFETIME_S * 1000 \<and> length payload + DEPOSITOR_LEN \<le> BITLE_STORE_PAYLOAD_MAX \<and>
        card (dom m) < BITLE_COURIER_MAX_ENVELOPES \<and>
        (m (envelope_key psa env) \<noteq> None \<or>
         card (mail_from (still_valid (now_unix_s now) m) depositor) < BITLE_COURIER_MAX_PER_DEPOSITOR))"

lemma parse_nonempty: "parse_envelope p = Some env \<Longrightarrow> p \<noteq> []"
  by (auto simp: parse_envelope_def envelope_fields_Nil)

lemma mail_inv_insert:
  assumes m: "mail_inv psa m" and A: "m' = (m |` A)(k \<mapsto> v)" and r: "mail_rec psa k v"
    and c: "card (dom m) < BITLE_COURIER_MAX_ENVELOPES"
    and q: "card (mail_from m d) < BITLE_COURIER_MAX_PER_DEPOSITOR" and d: "take DEPOSITOR_LEN (snd (snd v)) = d"
  shows "mail_inv psa m'"
proof -
  have f: "finite (dom m)" using m by (simp add: mail_inv_def)
  have dm: "dom m' \<subseteq> insert k (dom m)" using A by auto
  then have "card (dom m') \<le> card (insert k (dom m))" using f by (intro card_mono) auto
  also have "\<dots> \<le> Suc (card (dom m))" using f by (simp add: card_insert_if)
  finally have "card (dom m') \<le> BITLE_COURIER_MAX_ENVELOPES" using c by simp
  moreover have "card (mail_from m' e) \<le> BITLE_COURIER_MAX_PER_DEPOSITOR" for e
  proof -
    have fe: "finite (mail_from m e)" using f mail_from_dom finite_subset by metis
    have sub: "mail_from m' e \<subseteq> (if e = d then insert k (mail_from m e) else mail_from m e)"
      using A d by (auto simp: mail_from_def restrict_map_def split: if_splits)
    then have "card (mail_from m' e) \<le> card (if e = d then insert k (mail_from m e) else mail_from m e)"
      using fe by (intro card_mono) auto
    then show ?thesis using q m fe by (auto simp: mail_inv_def card_insert_if split: if_splits intro: le_trans)
  qed
  moreover have "m' k' = Some v' \<Longrightarrow> mail_rec psa k' v'" for k' v'
  proof -
    assume k': "m' k' = Some v'"
    show ?thesis
    proof (cases "k' = k")
      case True
      then show ?thesis using k' A r by (simp only: fun_upd_same option.inject)
    next
      case False
      then have "m k' = Some v'" using k' A by (simp add: restrict_map_def split: if_splits)
      then show ?thesis using m unfolding mail_inv_def by blast
    qed
  qed
  ultimately show ?thesis using finite_subset [OF dm] f by (auto simp: mail_inv_def)
qed

lemma length_envelope_key [simp]: "length (envelope_key psa env) = BITLE_STORE_KEY_LEN"
  by (simp add: envelope_key_def BITLE_STORE_KEY_LEN_def)

lemma accept_rejects:
  assumes "\<not> (verified \<and> (\<exists>env. parse_envelope payload = Some env \<and> now < en_expiry_ms env \<and>
        en_expiry_ms env \<le> now + MAX_LIFETIME_S * 1000 \<and> length payload + DEPOSITOR_LEN \<le> BITLE_STORE_PAYLOAD_MAX \<and>
        bitle_store_count s < BITLE_COURIER_MAX_ENVELOPES))"
  shows "bitle_courier_accept psa fl crc depositor verified payload now s = Some (False, s)"
  using assms by (cases "parse_envelope payload") (auto simp: bitle_courier_accept_def not_less not_le)

lemma accept_works:
  assumes fw: "flash_works fl" and inv: "store_inv fl crc T s" and m: "mail_inv psa (view fl s)"
    and d: "length depositor = DEPOSITOR_LEN"
  shows "\<exists>s'. bitle_courier_accept psa fl crc depositor verified payload now s =
      Some (deposit_ok psa now depositor verified payload (view fl s), s') \<and> store_inv fl crc T s' \<and>
    (if \<not> deposit_ok psa now depositor verified payload (view fl s) then view fl s' \<subseteq>\<^sub>m view fl s
     else \<exists>env k. parse_envelope payload = Some env \<and> k = envelope_key psa env \<and>
       (if view fl s k \<noteq> None then s' = s
        else \<exists>A. view fl s' = (still_valid (now_unix_s now) (view fl s) |` A)
             (k \<mapsto> (ucast (en_expiry_ms env div 1000), en_copies env, depositor @ payload))))"
proof (cases "verified \<and> (\<exists>env. parse_envelope payload = Some env \<and> now < en_expiry_ms env \<and>
    en_expiry_ms env \<le> now + MAX_LIFETIME_S * 1000 \<and> length payload + DEPOSITOR_LEN \<le> BITLE_STORE_PAYLOAD_MAX \<and>
    bitle_store_count s < BITLE_COURIER_MAX_ENVELOPES)")
  case False
  then have "\<not> deposit_ok psa now depositor verified payload (view fl s)"
    using count_works(2) [OF fw inv] by (auto simp: deposit_ok_def)
  then show ?thesis using accept_rejects [OF False] inv by auto
next
  case True
  then obtain env where g: "verified" "parse_envelope payload = Some env" "now < en_expiry_ms env"
    "en_expiry_ms env \<le> now + MAX_LIFETIME_S * 1000" "length payload + DEPOSITOR_LEN \<le> BITLE_STORE_PAYLOAD_MAX"
    "bitle_store_count s < BITLE_COURIER_MAX_ENVELOPES" by blast
  let ?k = "envelope_key psa env" and ?m = "view fl s"
  let ?sv = "still_valid (now_unix_s now) ?m"
  have ok: "deposit_ok psa now depositor verified payload ?m \<longleftrightarrow>
      ?m ?k \<noteq> None \<or> card (mail_from ?sv depositor) < BITLE_COURIER_MAX_PER_DEPOSITOR"
    using g count_works(2) [OF fw inv] by (auto simp: deposit_ok_def)
  have ac: "bitle_courier_accept psa fl crc depositor verified payload now s =
     (if ?m ?k \<noteq> None then Some (True, s)
      else Option.bind (bitle_store_iterate fl now (depositor_count_iter depositor) s 0) (\<lambda>(st1, n).
        if n \<ge> BITLE_COURIER_MAX_PER_DEPOSITOR then Some (False, st1)
        else map_option (\<lambda>(err, st2). (err = ESP_OK, st2))
           (bitle_store_put fl crc ?k (ucast (en_expiry_ms env div 1000)) (en_copies env) (depositor @ payload) st1)))"
  proof -
    have n: "\<not> en_expiry_ms env \<le> now" "\<not> now + MAX_LIFETIME_S * 1000 < en_expiry_ms env"
      "\<not> BITLE_STORE_PAYLOAD_MAX < length payload + DEPOSITOR_LEN" "\<not> BITLE_COURIER_MAX_ENVELOPES \<le> bitle_store_count s"
      "take DEPOSITOR_LEN depositor = depositor" using g d by auto
    show ?thesis using g(1,2) n(1-4) contains_works [OF fw inv, of ?k]
      unfolding bitle_courier_accept_def n(5) by (simp add: Let_def)
  qed
  show ?thesis
  proof (cases "?m ?k = None")
    case False
    then show ?thesis using ac ok inv g(2) by auto
  next
    case new: True
    obtain s1 where s1: "bitle_store_iterate fl now (depositor_count_iter depositor) s 0 = Some (s1, card (mail_from ?sv depositor))"
      "store_inv fl crc T s1" "view fl s1 = ?sv" using depositor_count_works [OF fw inv m] by metis
    show ?thesis
    proof (cases "card (mail_from ?sv depositor) < BITLE_COURIER_MAX_PER_DEPOSITOR")
      case False
      then show ?thesis using ac ok new s1 still_valid_le [of "now_unix_s now" ?m] by auto
    next
      case q: True
      have le: "card (dom ?sv) \<le> card (dom ?m)"
        by (rule card_mono [OF count_works(1) [OF fw inv] map_le_implies_dom_le [OF still_valid_le]])
      have "length (s_index s1) < BITLE_STORE_MAX_RECORDS"
        using count_works(2) [OF fw s1(2)] count_works(2) [OF fw inv] g(6) le s1(3)
        by (simp add: bitle_store_count_def BITLE_STORE_MAX_RECORDS_def BITLE_COURIER_MAX_ENVELOPES_def)
      moreover have "store_fits ?k (depositor @ payload)"
        using parse_nonempty [OF g(2)] g(5) d by (simp add: store_fits_def)
      ultimately obtain s' A where "bitle_store_put fl crc ?k (ucast (en_expiry_ms env div 1000)) (en_copies env) (depositor @ payload) s1
          = Some (ESP_OK, s')" "store_inv fl crc T s'"
        "view fl s' = (view fl s1 |` A)(?k \<mapsto> (ucast (en_expiry_ms env div 1000), en_copies env, depositor @ payload))"
        using mb.put_law [of fl crc T s1 ?k "depositor @ payload"] fw s1(2) unfolding bitle_store_count_def by metis
      then show ?thesis using ac ok new s1 q g(2) by auto
    qed
  qed
qed

lemma accept_mail_inv:
  assumes fw: "flash_works fl" and inv: "store_inv fl crc T s" and m: "mail_inv psa (view fl s)"
    and d: "length depositor = DEPOSITOR_LEN"
    and a: "bitle_courier_accept psa fl crc depositor verified payload now s = Some (ok, s')"
  shows "mail_inv psa (view fl s')"
proof (cases "deposit_ok psa now depositor verified payload (view fl s)")
  case False
  then show ?thesis using accept_works [OF assms(1-4), of verified payload now] a mail_inv_le [OF _ m] by auto
next
  case True
  let ?sv = "still_valid (now_unix_s now) (view fl s)"
  obtain env where env: "parse_envelope payload = Some env" "length payload + DEPOSITOR_LEN \<le> BITLE_STORE_PAYLOAD_MAX"
    "card (dom (view fl s)) < BITLE_COURIER_MAX_ENVELOPES"
    "view fl s (envelope_key psa env) \<noteq> None \<or> card (mail_from ?sv depositor) < BITLE_COURIER_MAX_PER_DEPOSITOR"
    using True by (auto simp: deposit_ok_def)
  let ?k = "envelope_key psa env" and ?v = "(ucast (en_expiry_ms env div 1000) :: u32, en_copies env, depositor @ payload)"
  have w: "if view fl s ?k \<noteq> None then s' = s else \<exists>A. view fl s' = (?sv |` A)(?k \<mapsto> ?v)"
    using accept_works [OF assms(1-4), of verified payload now] a True env(1) by auto
  show ?thesis
  proof (cases "view fl s ?k = None")
    case False
    then show ?thesis using w m by simp
  next
    case new: True
    then obtain A where A: "view fl s' = (?sv |` A)(?k \<mapsto> ?v)" using w by auto
    have "card (dom ?sv) \<le> card (dom (view fl s))"
      by (rule card_mono [OF count_works(1) [OF fw inv] map_le_implies_dom_le [OF still_valid_le]])
    moreover have "mail_rec psa ?k ?v"
      using env(1,2) d parse_nonempty [OF env(1)] by (auto simp: mail_rec_def)
    ultimately show ?thesis
      using mail_inv_insert [OF mail_inv_le [OF still_valid_le m] A, of depositor] env(3,4) new d by simp
  qed
qed

section \<open>Side table\<close>

definition side_keys :: "side_state list \<Rightarrow> bytes set" where
  "side_keys sides = sd_key ` {d \<in> set sides. sd_in_use d}"

definition sides_inv :: "side_state list \<Rightarrow> bool" where
  "sides_inv sides \<longleftrightarrow> length sides = BITLE_COURIER_MAX_ENVELOPES \<and> slots_uniq sd_in_use sd_key sides"


lemma side_update:
  assumes "i < length sides" "sd_in_use d = sd_in_use (sides ! i)" "sd_key d = sd_key (sides ! i)"
  shows "sides_inv (sides[i := d]) = sides_inv sides" "side_keys (sides[i := d]) = side_keys sides"
proof -
  have n: "sd_in_use (sides[i := d] ! j) = sd_in_use (sides ! j)" "sd_key (sides[i := d] ! j) = sd_key (sides ! j)"
    if "j < length sides" for j using that assms by (auto simp: nth_upd)
  show "sides_inv (sides[i := d]) = sides_inv sides" using n by (simp add: sides_inv_def slots_uniq_nth)
  have "side_keys xs = {sd_key (xs ! j) | j. j < length xs \<and> sd_in_use (xs ! j)}" for xs
    by (auto simp: side_keys_def in_set_conv_nth)
  then show "side_keys (sides[i := d]) = side_keys sides" using n by (auto 4 3) metis+
qed



text \<open>
  The store's mutex is held while its records are walked, and it is not recursive: a search for a
  slot to reclaim never returns there.
\<close>

lemma reclaim_locked: "s_locked st \<Longrightarrow> s_part st \<Longrightarrow> sides \<noteq> [] \<Longrightarrow> reclaim_side st sides = None"
  by (cases sides) (simp_all add: bitle_store_contains_def)

lemma side_get_locked:
  assumes "s_locked st" "s_part st" "s_locked st'" "s_part st'"
  shows "side_get k c st sides = side_get k c st' sides"
  using reclaim_locked [OF assms(1,2)] reclaim_locked [OF assms(3,4)]
  by (cases "sides = []") (auto simp: side_get_def split: option.splits)

lemma side_get_full:
  assumes "s_locked st" "s_part st" "\<forall>d \<in> set sides. sd_in_use d" "k \<notin> side_keys sides" "sides \<noteq> []"
  shows "side_get k True st sides = None"
proof -
  have "find_slot sd_in_use sd_key k sides = None" "find_index (\<lambda>d. \<not> sd_in_use d) sides = None"
    using assms(3,4) by (auto simp: find_slot_None find_index_None side_keys_def)
  then show ?thesis using reclaim_locked [OF assms(1,2,5)] by (simp add: side_get_def)
qed

lemma announce_iter_locked:
  assumes "s_locked st" "s_part st" "s_locked st'" "s_part st'"
  shows "announce_iter ce now conn peer tags d v k x g p st ctx = announce_iter ce now conn peer tags d v k x g p st' ctx"
  by (simp only: announce_iter_def announce_remote_def announce_spray_def side_get_locked [OF assms])

lemma announce_iter_True:
  "announce_iter ce now conn peer tags d v k x g p st ctx = map_option (Pair True) (map_option snd (announce_iter ce now conn peer tags d v k x g p st ctx))"
  by (auto simp: announce_iter_def Let_def option.map_comp comp_def split: option.splits)

lemma announce_cb:
  fixes s :: "'f store"
  assumes "s_part s"
  shows "cb_simple (announce_iter ce now conn peer tags d v :: ('f, 'w announce_ctx) store_cb)
    (\<lambda>k x g p ctx. map_option snd (announce_iter ce now conn peer tags d v k x g p (s \<lparr> s_locked := True \<rparr>) ctx))"
proof -
  let ?f = "announce_iter ce now conn peer tags d v"
  have "?f k x g p st ctx = map_option (Pair True) (map_option snd (?f k x g p (s \<lparr> s_locked := True \<rparr>) ctx))"
    if "s_locked st \<and> s_part st" for k x g p ctx and st :: "'f store"
    by (rule trans [OF announce_iter_locked announce_iter_True]) (use that assms in simp_all)
  then show ?thesis unfolding cb_simple_def by blast
qed

section \<open>What an announce does to the mailbox\<close>

text \<open>
  The packets an announce makes the node send, in order: the key of the record, its envelope, the copies it carries and
  whether the send succeeded. Each send starts from the links as the previous one left them.
\<close>

type_synonym send_log = "(bytes \<times> envelope \<times> u8 \<times> bool) list"


text \<open>The records whose packet went out, to their owner or to another carrier.\<close>

definition handed_keys :: "bytes list \<Rightarrow> send_log \<Rightarrow> bytes set" where
  "handed_keys tags log = {k. \<exists>env c. (k, env, c, True) \<in> set log \<and> tag_matches env tags}"

definition shared_keys :: "bytes list \<Rightarrow> send_log \<Rightarrow> bytes set" where
  "shared_keys tags log = {k. \<exists>env c. (k, env, c, True) \<in> set log \<and> \<not> tag_matches env tags}"

text \<open>
  What is sent: no record twice, mail of the announcing peer as one copy, and to a directly linked carrier that is
  not the depositor half of the copies of a record that has several.
\<close>

definition log_ok :: "bytes \<Rightarrow> bytes list \<Rightarrow> bool \<Rightarrow> (bytes \<rightharpoonup> u32 \<times> u8 \<times> bytes) \<Rightarrow> send_log \<Rightarrow> bool" where
  "log_ok peer tags d m log \<longleftrightarrow> distinct (map fst log) \<and>
     (\<forall>(k, env, c, ok) \<in> set log. \<exists>x g p. m k = Some (x, g, p) \<and> parse_envelope (drop DEPOSITOR_LEN p) = Some env \<and>
        (if tag_matches env tags then c = 1 else d \<and> 1 < g \<and> c = g div 2 \<and> take DEPOSITOR_LEN p \<noteq> peer))"





lemma keys_Nil [simp]: "handed_keys tags [] = {}" "shared_keys tags [] = {}" "log_ok peer tags d m []"
  by (simp_all add: handed_keys_def shared_keys_def log_ok_def)























text \<open>An envelope of more than 426 bytes never leaves: signed and addressed it exceeds a packet.\<close>

lemma send_too_large:
  assumes wf: "envelope_wf env" and n: "426 < envelope_need env c"
  shows "\<not> fst (send_envelope ce now conn peer env c w)"
proof (cases "encode_envelope env c BITLE_STORE_PAYLOAD_MAX")
  case (Some p)
  have l: "length p = envelope_need env c" "envelope_need env c \<le> 520"
    using encode_envelope_Some [OF wf] Some by (auto simp: BITLE_STORE_PAYLOAD_MAX_def not_less)
      (metis not_less option.distinct(1))
  have u: "unat (word_of_nat (length p) :: u16) = length p" using l by (intro unat_of_nat_small) simp
  have "fst (noise_send_packet (ce_alg ce) (ce_nid ce) now (ce_drv ce) (ce_links ce) conn
      BITCHAT_MSG_COURIER_ENVELOPE (Some peer) p 7 True w) \<noteq> ESP_OK"
    using l n u by (auto simp: noise_send_packet_def Let_def sign_packet_def bitchat_packet_encode_def encoded_len_def
      own_packet_def BITCHAT_BLE_MAX_PACKET_SIZE_def split: option.splits)
  then show ?thesis using Some by (auto simp: send_envelope_def split: prod.splits)
qed (simp add: send_envelope_def)

section \<open>A full side table\<close>

lemma remote_full:
  assumes l: "s_locked st" "s_part st" and full: "\<forall>d \<in> set (ac_sides ctx). sd_in_use d" "ac_sides ctx \<noteq> []"
  shows "announce_remote ce now conn peer k env st ctx = None \<longleftrightarrow> k \<notin> side_keys (ac_sides ctx)"
    "announce_remote ce now conn peer k env st ctx = Some ctx' \<Longrightarrow>
       (\<forall>d \<in> set (ac_sides ctx'). sd_in_use d) \<and> side_keys (ac_sides ctx') = side_keys (ac_sides ctx) \<and> ac_sides ctx' \<noteq> []"
proof -
  note none = side_get_full [OF l full(1) _ full(2), of k]
  have some: "\<exists>i < length (ac_sides ctx). side_get k True st (ac_sides ctx) = Some (Some i, ac_sides ctx)" if "k \<in> side_keys (ac_sides ctx)"
    using that find_slot_exists [of sd_in_use sd_key k "ac_sides ctx"] find_index_bound
    by (auto simp: side_get_def side_keys_def find_slot_def)
  show iff: "announce_remote ce now conn peer k env st ctx = None \<longleftrightarrow> k \<notin> side_keys (ac_sides ctx)"
    using none some by (cases "k \<in> side_keys (ac_sides ctx)") (auto simp: announce_remote_def Let_def split: prod.splits)
  assume a: "announce_remote ce now conn peer k env st ctx = Some ctx'"
  then have "k \<in> side_keys (ac_sides ctx)" using iff by (metis option.distinct(1))
  then obtain i where i: "i < length (ac_sides ctx)" "side_get k True st (ac_sides ctx) = Some (Some i, ac_sides ctx)" using some by blast
  have "ac_sides ctx' = ac_sides ctx \<or> (\<exists>t. ac_sides ctx' = (ac_sides ctx)[i := (ac_sides ctx ! i) \<lparr> sd_last_remote_s := t \<rparr>])"
    using a i by (auto simp: announce_remote_def Let_def split: if_splits prod.splits)
  then show "(\<forall>d \<in> set (ac_sides ctx'). sd_in_use d) \<and> side_keys (ac_sides ctx') = side_keys (ac_sides ctx) \<and> ac_sides ctx' \<noteq> []"
  proof
    assume "\<exists>t. ac_sides ctx' = (ac_sides ctx)[i := (ac_sides ctx ! i) \<lparr> sd_last_remote_s := t \<rparr>]"
    then obtain t where t: "ac_sides ctx' = (ac_sides ctx)[i := (ac_sides ctx ! i) \<lparr> sd_last_remote_s := t \<rparr>]" by blast
    have "sd_in_use d" if "d \<in> set (ac_sides ctx')" for d
      using that full(1) i(1) set_update_subset_insert [of "ac_sides ctx" i] unfolding t by fastforce
    moreover have "side_keys (ac_sides ctx') = side_keys (ac_sides ctx)" unfolding t by (rule side_update(2) [OF i(1)]) simp_all
    ultimately show ?thesis using full(2) t by auto
  qed (use full in auto)
qed

definition flood_due :: "bytes list \<Rightarrow> u32 \<times> u8 \<times> bytes \<Rightarrow> bool" where
  "flood_due tags r = (case r of (x, g, p) \<Rightarrow> DEPOSITOR_LEN < length p \<and>
     (\<exists>env. parse_envelope (drop DEPOSITOR_LEN p) = Some env \<and> tag_matches env tags))"

lemma flood_iter:
  "announce_iter ce now conn peer tags False v k x g p st ctx =
     (if flood_due tags (x, g, p)
      then map_option (Pair True) (announce_remote ce now conn peer k (the (parse_envelope (drop DEPOSITOR_LEN p))) st ctx)
      else Some (True, ctx))"
  by (auto simp: announce_iter_def flood_due_def split: option.splits)

lemma flood_hangs:
  assumes l: "s_locked st" "s_part st"
  shows "\<forall>d \<in> set (ac_sides ctx). sd_in_use d \<Longrightarrow> ac_sides ctx \<noteq> [] \<Longrightarrow> set ks \<subseteq> dom (view fl s) \<Longrightarrow>
    k \<in> set ks \<Longrightarrow> view fl s k = Some r \<Longrightarrow> flood_due tags r \<Longrightarrow> k \<notin> side_keys (ac_sides ctx) \<Longrightarrow>
    fold_opt (on_record fl s (\<lambda>k x g p ctx. map_option snd (announce_iter ce now conn peer tags False v k x g p st ctx))) ks ctx = None"
proof (induction ks arbitrary: ctx)
  case (Cons a ks)
  obtain x g p where a: "view fl s a = Some (x, g, p)" using Cons.prems(3) by (auto simp: dom_def)
  let ?f = "on_record fl s (\<lambda>k x g p ctx. map_option snd (announce_iter ce now conn peer tags False v k x g p st ctx))"
  have f: "?f a ctx = (if flood_due tags (x, g, p)
      then announce_remote ce now conn peer a (the (parse_envelope (drop DEPOSITOR_LEN p))) st ctx else Some ctx)"
    by (simp add: on_record_def a flood_iter option.map_comp comp_def option.map_ident)
  note rf = remote_full [OF l Cons.prems(1,2), of ce now conn peer a "the (parse_envelope (drop DEPOSITOR_LEN p))"]
  show ?case
  proof (cases "?f a ctx")
    case (Some ctx')
    have n: "a \<noteq> k" using Some f rf(1) Cons.prems(5,6,7) a by auto
    have "(\<forall>d \<in> set (ac_sides ctx'). sd_in_use d) \<and> side_keys (ac_sides ctx') = side_keys (ac_sides ctx) \<and> ac_sides ctx' \<noteq> []"
      using Some f rf(2) Cons.prems(1,2) by (auto split: if_splits)
    then have "fold_opt ?f ks ctx' = None" using Cons.IH [of ctx'] Cons.prems n by auto
    then show ?thesis using Some by simp
  qed simp
qed simp

section \<open>A concrete courier\<close>

definition courier_psa :: psa_hash where
  "courier_psa m = Some (replicate 32 0)"

definition demo_envelope :: "nat \<Rightarrow> envelope" where
  "demo_envelope n = \<lparr> en_recipient_tag = replicate TAG_LEN 0, en_expiry_ms = 5000, en_ciphertext = replicate n 9,
     en_copies = 4, en_has_prekey_id = False, en_prekey_id = 0 \<rparr>"

definition demo_mail :: "nat \<Rightarrow> bytes" where
  "demo_mail n = the (encode_envelope (demo_envelope n) 4 BITLE_STORE_PAYLOAD_MAX)"

definition demo_box :: "(nat \<Rightarrow> u8) store" where
  "demo_box = snd (the (bitle_courier_accept courier_psa demo_flash demo_crc (replicate 8 5) True (demo_mail 3) 1000 demo_store))"

definition demo_courier :: "(memory_fn, memory_heap) courier_env" where
  "demo_courier = \<lparr> ce_alg = demo_alg, ce_nid = demo_id, ce_psa = courier_psa, ce_drv = memory_driver, ce_links = [] \<rparr>"

lemma demo_envelope_wf: "0 < n \<Longrightarrow> n < 65000 \<Longrightarrow> envelope_wf (demo_envelope n)"
  by (simp add: envelope_wf_def demo_envelope_def)

lemma demo_mail_parse:
  assumes "0 < n" "n \<le> 483"
  shows "parse_envelope (demo_mail n) = Some (demo_envelope n)" "length (demo_mail n) = 37 + n"
proof -
  have need: "envelope_need (demo_envelope n) 4 = 37 + n" by (simp add: envelope_need_def demo_envelope_def)
  have wf: "envelope_wf (demo_envelope n)" using assms by (simp add: demo_envelope_wf)
  have e: "encode_envelope (demo_envelope n) 4 BITLE_STORE_PAYLOAD_MAX = Some (demo_mail n)"
    using encode_envelope_Some(1) [OF wf, of 4 BITLE_STORE_PAYLOAD_MAX] assms(2)
    by (auto simp: need BITLE_STORE_PAYLOAD_MAX_def demo_mail_def)
  show "parse_envelope (demo_mail n) = Some (demo_envelope n)"
    using envelope_encode_parse [OF wf _ _ e] by (simp add: demo_envelope_def)
  show "length (demo_mail n) = 37 + n" using encode_envelope_Some(2) [OF wf e] need by simp
qed

lemma mail_inv_empty: "mail_inv psa Map.empty"
  by (simp add: mail_inv_def mail_from_def)

lemma demo_deposit_ok:
  assumes "0 < n" "n \<le> 475"
  shows "deposit_ok courier_psa 1000 (replicate 8 5) True (demo_mail n) Map.empty"
proof -
  have "mail_from (still_valid t Map.empty) d = {}" for t d by (auto simp: mail_from_def still_valid_def)
  then show ?thesis using demo_mail_parse [of n] assms
    by (simp add: deposit_ok_def demo_envelope_def MAX_LIFETIME_S_def BITLE_STORE_PAYLOAD_MAX_def
      DEPOSITOR_LEN_def BITLE_COURIER_MAX_ENVELOPES_def BITLE_COURIER_MAX_PER_DEPOSITOR_def)
qed

lemma demo_box_ok:
  "store_inv demo_flash demo_crc 0 demo_box" "mail_inv courier_psa (view demo_flash demo_box)"
  "view demo_flash demo_box = [replicate 16 0 \<mapsto> (5, 4, replicate 8 5 @ demo_mail 3)]"
proof -
  have fw: "flash_works demo_flash" by (simp add: nor_flash_works)
  have m: "mail_inv courier_psa (view demo_flash demo_store)" using demo_store_ok(2) by (simp add: mail_inv_empty)
  have l: "length (replicate 8 5 :: bytes) = DEPOSITOR_LEN" by (simp add: DEPOSITOR_LEN_def)
  have ok: "deposit_ok courier_psa 1000 (replicate 8 5) True (demo_mail 3) (view demo_flash demo_store)"
    using demo_deposit_ok [of 3] demo_store_ok(2) by simp
  obtain s' env k where s': "bitle_courier_accept courier_psa demo_flash demo_crc (replicate 8 5) True (demo_mail 3) 1000 demo_store = Some (True, s')"
    "store_inv demo_flash demo_crc 0 s'" "parse_envelope (demo_mail 3) = Some env" "k = envelope_key courier_psa env"
    "\<exists>A. view demo_flash s' = (still_valid (now_unix_s 1000) (view demo_flash demo_store) |` A)
             (k \<mapsto> (ucast (en_expiry_ms env div 1000), en_copies env, replicate 8 5 @ demo_mail 3))"
    using accept_works [OF fw demo_store_ok(1) m l, of True "demo_mail 3" 1000] ok demo_store_ok(2) by auto
  have b: "demo_box = s'" by (simp add: demo_box_def s'(1))
  have "env = demo_envelope 3" using demo_mail_parse(1) [of 3] s'(3) by simp
  moreover have "(Map.empty :: bytes \<rightharpoonup> u32 \<times> u8 \<times> bytes) |` A = Map.empty" for A by simp
  moreover have "still_valid t Map.empty = Map.empty" for t by (auto simp: still_valid_def)
  ultimately show "store_inv demo_flash demo_crc 0 demo_box"
    "view demo_flash demo_box = [replicate 16 0 \<mapsto> (5, 4, replicate 8 5 @ demo_mail 3)]"
    using s'(2,4,5) demo_store_ok(2) unfolding b
    by (auto simp: demo_envelope_def envelope_key_def bitle_sha256_def courier_psa_def digest_or_ff_def BITLE_STORE_KEY_LEN_def)
  show "mail_inv courier_psa (view demo_flash demo_box)"
    unfolding b using accept_mail_inv [OF fw demo_store_ok(1) m l s'(1)] .
qed

lemma demo_tags: "length key \<le> 64 \<Longrightarrow> candidate_tags courier_psa key now = [replicate 16 0, replicate 16 0, replicate 16 0]"
  by (simp add: candidate_tags_def tag_for_day_def bitle_hmac_sha256_def courier_psa_def bitle_sha256_finish_def
    bitle_sha256_begin_def bitle_sha256_update_def digest_or_ff_def TAG_LEN_def Let_def split: option.splits)

section \<open>Properties\<close>

text \<open>
  Envelopes survive encoding: a well-formed envelope with one to eight copies is encoded exactly
  when it fits the buffer, and the parser reads back all its fields with that number of copies.
\<close>

lemma courier_envelope_roundtrip:
  assumes "envelope_wf env" "1 \<le> c" "c \<le> 8"
  shows "case encode_envelope env c n of
      None \<Rightarrow> n < envelope_need env c
    | Some bs \<Rightarrow> length bs = envelope_need env c \<and> length bs \<le> n \<and> parse_envelope bs = Some (env \<lparr> en_copies := c \<rparr>)"
proof (cases "encode_envelope env c n")
  case None
  moreover from this have "n < envelope_need env c" unfolding encode_envelope_Some(1) [OF assms(1)] .
  ultimately show ?thesis by (simp only: option.case)
next
  case (Some bs)
  moreover from this have "\<not> envelope_need env c > n" unfolding encode_envelope_Some(1) [OF assms(1), symmetric] by simp
  ultimately show ?thesis using encode_envelope_Some(2) [OF assms(1)] envelope_encode_parse [OF assms] by simp
qed

text \<open>
  C13: A deposit returns, and it is accepted exactly when the depositor is verified, the envelope
  parses, is not expired, does not outlive 25 hours, fits the mailbox, the mailbox holds fewer than
  128 envelopes, and the envelope is already held or the depositor has fewer than eight valid ones.
  An accepted new envelope is then filed under the hash of its ciphertext; a rejected one adds
  nothing. The mailbox invariant is kept: every record is a depositor and a parseable envelope filed
  under its hash with its copies, and both quotas hold.
\<close>

theorem courier_deposit:
  assumes "flash_works fl" "store_inv fl crc T s" "mail_inv psa (view fl s)" "length depositor = DEPOSITOR_LEN"
  shows "\<exists>s'. bitle_courier_accept psa fl crc depositor verified payload now s =
      Some (deposit_ok psa now depositor verified payload (view fl s), s') \<and>
    store_inv fl crc T s' \<and> mail_inv psa (view fl s') \<and>
    (if \<not> deposit_ok psa now depositor verified payload (view fl s) then view fl s' \<subseteq>\<^sub>m view fl s
     else \<exists>env k. parse_envelope payload = Some env \<and> k = envelope_key psa env \<and>
       (if view fl s k \<noteq> None then s' = s
        else \<exists>A. view fl s' = (still_valid (now_unix_s now) (view fl s) |` A)
             (k \<mapsto> (ucast (en_expiry_ms env div 1000), en_copies env, depositor @ payload))))"
  using accept_works [OF assms, of verified payload now] accept_mail_inv [OF assms, of verified payload now] by metis

theorem courier_deposit_witness:
  "\<exists>s'. bitle_courier_accept courier_psa demo_flash demo_crc (replicate 8 5) True (demo_mail 3) 1000 demo_store = Some (True, s') \<and>
     mail_inv courier_psa (view demo_flash s')"
proof -
  have ok: "deposit_ok courier_psa 1000 (replicate 8 5) True (demo_mail 3) (view demo_flash demo_store)"
    using demo_deposit_ok [of 3] demo_store_ok(2) by simp
  have fw: "flash_works demo_flash" by (simp add: nor_flash_works)
  have "mail_inv courier_psa (view demo_flash demo_store)" using demo_store_ok(2) by (simp add: mail_inv_empty)
  from courier_deposit [OF fw demo_store_ok(1) this, of "replicate 8 5" True "demo_mail 3" 1000] ok
  show ?thesis by (auto simp: DEPOSITOR_LEN_def)
qed






text \<open>
  C40: Side slots are only ever taken, never given back. Once all are taken, the mesh announce of an
  owner whose mail has no slot never returns: the search for a slot to reuse asks the store for its
  records from inside the walk over the store, where the store's mutex is held.
\<close>

theorem courier_full_side_table_hangs:
  assumes fw: "flash_works fl" and inv: "store_inv fl crc T s"
    and full: "\<forall>d \<in> set sides. sd_in_use d" "sides \<noteq> []"
    and k: "still_valid (now_unix_s now) (view fl s) k = Some r" "k \<notin> side_keys sides"
      "flood_due (candidate_tags (ce_psa ce) noise_key now) r"
  shows "bitle_courier_peer_announced ce fl crc conn peer noise_key True False now s sides w = None"
proof -
  let ?tags = "candidate_tags (ce_psa ce) noise_key now"
  let ?c0 = "\<lparr> ac_deliver_keys = [], ac_spray_ops = [], ac_sent = 0, ac_sides = sides, ac_world = w \<rparr>"
  have part: "s_part s" using inv by (simp add: store_inv_def)
  obtain s1 where s1: "store_inv fl crc T s1" "purges fl (now_unix_s now) s s1"
    "\<And>arg. bitle_store_iterate fl now (announce_iter ce now conn peer ?tags False True) s arg =
      map_option (Pair s1) (fold_opt (on_record fl s1 (\<lambda>k x g p ctx. map_option snd
        (announce_iter ce now conn peer ?tags False True k x g p (s \<lparr> s_locked := True \<rparr>) ctx))) (map ie_key (s_index s1)) arg)"
    by (rule iterate_works [OF fw announce_cb [OF part] inv]) blast
  have c: "core fl crc T s" "core fl crc T s1" using inv s1(1) by (simp_all add: store_inv_def)
  have v: "view fl s1 k = Some r" using k(1) purge_view [OF fw c(1) s1(2)] by simp
  have ks: "set (map ie_key (s_index s1)) = dom (view fl s1)"
    using store_view_dom [OF fw c(2)] by (auto simp only: dom_def set_map)
  have "fold_opt (on_record fl s1 (\<lambda>k x g p ctx. map_option snd
        (announce_iter ce now conn peer ?tags False True k x g p (s \<lparr> s_locked := True \<rparr>) ctx))) (map ie_key (s_index s1)) ?c0 = None"
    by (rule flood_hangs [OF _ _ _ _ eq_refl [OF ks] _ v k(3)]) (use full k(2) part v ks in auto)
  moreover have "bitle_store_count s \<noteq> 0"
  proof -
    have "view fl s k = Some r" by (rule map_le_Some [OF still_valid_le k(1)])
    then show ?thesis using count_works [OF fw inv] by (metis card_0_eq domI empty_iff)
  qed
  ultimately show ?thesis using s1(3) by (simp add: bitle_courier_peer_announced_def Let_def)
qed

definition full_sides :: "side_state list" where
  "full_sides = map (\<lambda>i. fresh_side (replicate 15 0 @ [of_nat (Suc i)])) [0..<BITLE_COURIER_MAX_ENVELOPES]"

lemma small_byte_inj: "i < 256 \<Longrightarrow> j < 256 \<Longrightarrow> (word_of_nat i :: u8) = word_of_nat j \<longleftrightarrow> i = j"
  by (auto simp: word_unat_eq_iff unat_of_nat_small)

lemma full_sides_inv: "sides_inv full_sides"
proof -
  have "(word_of_nat (Suc i) :: u8) = word_of_nat (Suc j) \<longleftrightarrow> i = j" if "i < 128" "j < 128" for i j
    using small_byte_inj [of "Suc i" "Suc j"] that by simp
  then show ?thesis
    by (auto simp: full_sides_def sides_inv_def slots_uniq_nth fresh_side_def BITLE_COURIER_MAX_ENVELOPES_def)
qed

theorem courier_full_side_table_hangs_witness:
  "sides_inv full_sides \<and>
   bitle_courier_peer_announced demo_courier demo_flash demo_crc 1 (replicate 8 7) (replicate 32 1) True False
      2000 demo_box full_sides Map.empty = None"
proof -
  have fw: "flash_works demo_flash" by (simp add: nor_flash_works)
  have k: "still_valid (now_unix_s 2000) (view demo_flash demo_box) (replicate 16 0) = Some (5, 4, replicate 8 5 @ demo_mail 3)"
    by (simp add: still_valid_def demo_box_ok(3) entry_expired_def now_unix_s_def)
  have "(word_of_nat (Suc i) :: u8) \<noteq> 0" if "i < 128" for i using small_byte_inj [of "Suc i" 0] that by simp
  then have n: "replicate 16 0 \<notin> side_keys full_sides"
    by (auto simp: side_keys_def full_sides_def fresh_side_def BITLE_COURIER_MAX_ENVELOPES_def numeral_eq_Suc
      simp del: of_nat_Suc)
  have d: "flood_due (candidate_tags (ce_psa demo_courier) (replicate 32 1) 2000) (5, 4, replicate 8 5 @ demo_mail 3)"
    using demo_mail_parse [of 3] by (simp add: flood_due_def demo_courier_def demo_tags DEPOSITOR_LEN_def
      tag_matches_def demo_envelope_def TAG_LEN_def)
  have f: "\<forall>d \<in> set full_sides. sd_in_use d" "full_sides \<noteq> []"
    by (auto simp: full_sides_def fresh_side_def BITLE_COURIER_MAX_ENVELOPES_def)
  show ?thesis using courier_full_side_table_hangs [OF fw demo_box_ok(1) f k n d] full_sides_inv by blast
qed

text \<open>
  An envelope can be too large to leave: the mailbox takes envelopes of up to 512 bytes, but an
  accepted one that needs more than 426 bytes is never sent to anybody, since the signed and
  addressed packet with it exceeds the 520 bytes of a packet.
\<close>

lemma courier_oversized_mail_stuck:
  assumes "deposit_ok psa t depositor verified payload m" "parse_envelope payload = Some env" "426 < envelope_need env 1"
  shows "\<not> fst (send_envelope ce now conn peer env c w)"
proof -
  have "length payload < 65000" using assms(1) by (auto simp: deposit_ok_def BITLE_STORE_PAYLOAD_MAX_def)
  then have wf: "envelope_wf env" by (rule parse_envelope_ok(1) [OF assms(2)])
  have "426 < envelope_need env c" using assms(3) by (auto simp: envelope_need_def)
  then show ?thesis by (rule send_too_large [OF wf])
qed

end
