(* ===== verification/Ota.thy ===== *)
theory Ota
  imports Noise_Packet
begin

text \<open>
  Firmware distribution between nodes, \<open>main/bitle_ota.c\<close>: signed manifests, the
  receiver-driven transfer of an image in chunks, serving the running image, and the health
  signal that cancels a rollback. Handlers run on one task, which takes its events from a queue;
  a handler reads the uptime once here. What a handler sends, and the calls that
  confirm the image or restart the node, are its list of outputs. The OTA driver of the platform is
  the record \<open>ota_api\<close> over its own state, the running partition and the NVS results are parameters
  too; what is assumed of the driver is in \<open>api_works\<close>, which lets a new transfer overwrite a partition that is already
  selected. A partition is far smaller than \<open>2\<^sup>32 - 1024\<close> bytes, so the offset of the hash loop is a number.
\<close>

section \<open>Manifests\<close>

definition OTA_MANIFEST_LEN :: nat where "OTA_MANIFEST_LEN = 110"
definition OTA_FIELDS_OFF :: nat where "OTA_FIELDS_OFF = 4"
definition OTA_FIELDS_LEN :: nat where "OTA_FIELDS_LEN = 42"
definition OTA_SIG_OFF :: nat where "OTA_SIG_OFF = 46"
definition OTA_CHUNK_MAX :: nat where "OTA_CHUNK_MAX = 480"
definition OTA_QUEUE_DEPTH :: nat where "OTA_QUEUE_DEPTH = 6"
definition OTA_OFFER_INTERVAL_MS :: u64 where "OTA_OFFER_INTERVAL_MS = 60000"

text \<open>The strings \<open>BOTA\<close> and \<open>bitle-fw-v1\<close>.\<close>

definition OTA_MAGIC :: bytes where "OTA_MAGIC = [0x42, 0x4F, 0x54, 0x41]"

definition OTA_SIGN_CONTEXT :: bytes where
  "OTA_SIGN_CONTEXT = [0x62, 0x69, 0x74, 0x6C, 0x65, 0x2D, 0x66, 0x77, 0x2D, 0x76, 0x31]"

definition BITLE_OTA_OWNER_PUBKEY :: bytes where
  "BITLE_OTA_OWNER_PUBKEY =
     [0xee, 0xac, 0xde, 0x04, 0xad, 0xd1, 0xbf, 0xf1, 0x29, 0x34, 0x23, 0x0d, 0x82, 0xde, 0x01, 0x3c,
      0x3f, 0xdb, 0x6b, 0x74, 0x23, 0xea, 0x29, 0xef, 0x0f, 0xa4, 0x82, 0xda, 0x73, 0x8f, 0xd5, 0x56]"

record ota_manifest =
  mf_version :: u32
  mf_size :: u32
  mf_sha256 :: bytes
  mf_chunk_size :: u16
  mf_raw :: bytes

definition zero_manifest :: ota_manifest where
  "zero_manifest = \<lparr> mf_version = 0, mf_size = 0, mf_sha256 = replicate 32 0, mf_chunk_size = 0, mf_raw = replicate 110 0 \<rparr>"

definition parse_manifest :: "sign_alg \<Rightarrow> bytes \<Rightarrow> ota_manifest option" where
  "parse_manifest alg data =
     (if length data \<noteq> OTA_MANIFEST_LEN \<or> take 4 data \<noteq> OTA_MAGIC then None
      else if \<not> ed25519_sign_open alg (OTA_SIGN_CONTEXT @ bslice OTA_FIELDS_OFF OTA_FIELDS_LEN data)
                  BITLE_OTA_OWNER_PUBKEY (bslice OTA_SIG_OFF 64 data) then None
      else let p = drop OTA_FIELDS_OFF data;
               m = \<lparr> mf_version = be_val (bslice 0 4 p), mf_size = be_val (bslice 4 4 p), mf_sha256 = bslice 8 32 p,
                     mf_chunk_size = be_val (bslice 40 2 p), mf_raw = data \<rparr>
           in if mf_size m = 0 \<or> mf_chunk_size m < 64 \<or> unat (mf_chunk_size m) > OTA_CHUNK_MAX then None
              else Some m)"

section \<open>State\<close>

record esp_part =
  ep_size :: nat
  ep_read :: "nat \<Rightarrow> nat \<Rightarrow> bytes option"

record 'o ota_api =
  oa_begin :: "'o \<Rightarrow> esp_err \<times> nat \<times> 'o"
  oa_write :: "nat \<Rightarrow> bytes \<Rightarrow> 'o \<Rightarrow> esp_err \<times> 'o"
  oa_end :: "nat \<Rightarrow> 'o \<Rightarrow> esp_err \<times> 'o"
  oa_set_boot :: "'o \<Rightarrow> esp_err \<times> 'o"
  oa_abort :: "nat \<Rightarrow> 'o \<Rightarrow> 'o"

text \<open>
  \<open>oe_next\<close> is the size of the partition for the next update, \<open>oe_pending\<close> whether the running
  image awaits verification, \<open>oe_fw_manifest\<close> the partition with the flashed manifest and
  what reading it gives.
\<close>

record 'o ota_env =
  oe_alg :: sign_alg
  oe_psa :: psa_hash
  oe_running :: "esp_part option"
  oe_next :: "nat option"
  oe_api :: "'o ota_api"
  oe_nvs :: nvs_io
  oe_pending :: bool
  oe_fw_manifest :: "bytes option option"
  oe_queue_ok :: bool
  oe_task_ok :: bool

record ota_event =
  ev_type :: u8
  ev_conn_handle :: u16
  ev_peer :: bytes
  ev_payload :: bytes

record ota_rx =
  rx_active :: bool
  rx_manifest :: ota_manifest
  rx_next_chunk :: u32
  rx_total_chunks :: u32
  rx_handle :: nat
  rx_conn_handle :: u16
  rx_peer :: bytes
  rx_last_activity_ms :: u64
  rx_retries :: u32
  rx_sha :: sha256_ctx

definition zero_rx :: ota_rx where
  "zero_rx = \<lparr> rx_active = False, rx_manifest = zero_manifest, rx_next_chunk = 0, rx_total_chunks = 0,
     rx_handle = 0, rx_conn_handle = 0, rx_peer = replicate 8 0, rx_last_activity_ms = 0, rx_retries = 0, rx_sha = None \<rparr>"

record 'o ota =
  ot_rx :: ota_rx
  ot_serve_manifest :: ota_manifest
  ot_can_serve :: bool
  ot_pending_verify :: bool
  ot_health_signal :: bool
  ot_reboot_at_ms :: u64
  ot_last_offer_ms :: "u64 list"
  ot_queue :: "ota_event list option"
  ot_nvs :: "bytes option"
  ot_api :: 'o

datatype ota_out =
    Send_Raw u16 u8 bytes bytes
  | Mark_Valid
  | Restart

section \<open>Serving manifests\<close>

definition store_serve_manifest :: "'o ota_env \<Rightarrow> ota_manifest \<Rightarrow> 'o ota \<Rightarrow> 'o ota" where
  "store_serve_manifest env m s =
     (if \<not> nvs_open_ok (oe_nvs env) then s
      else s \<lparr> ot_nvs := (if nvs_set_ok (oe_nvs env) then Some (mf_raw m) else ot_nvs s),
               ot_serve_manifest := m, ot_can_serve := True \<rparr>)"

function hash_blocks :: "esp_part \<Rightarrow> nat \<Rightarrow> nat \<Rightarrow> sha256_ctx \<Rightarrow> sha256_ctx option" where
  "hash_blocks part sz off ctx =
     (if off < sz
      then case ep_read part off (min (sz - off) 1024) of
             None \<Rightarrow> None
           | Some buf \<Rightarrow> hash_blocks part sz (off + 1024) (bitle_sha256_update ctx buf)
      else Some ctx)"
  by pat_completeness auto
termination
  by (relation "measure (\<lambda>(part, sz, off, ctx). sz - off)") auto

definition hash_matches_running_image :: "'o ota_env \<Rightarrow> ota_manifest \<Rightarrow> bool" where
  "hash_matches_running_image env m =
     (case oe_running env of
        None \<Rightarrow> False
      | Some running \<Rightarrow>
          if unat (mf_size m) > ep_size running then False
          else case hash_blocks running (unat (mf_size m)) 0 bitle_sha256_begin of
                 None \<Rightarrow> False
               | Some ctx \<Rightarrow> bitle_sha256_finish (oe_psa env) ctx = mf_sha256 m)"

definition send_req :: "u32 \<Rightarrow> ota_rx \<Rightarrow> ota_out" where
  "send_req chunk_index rx =
     Send_Raw (rx_conn_handle rx) BITLE_MSG_OTA_REQ (rx_peer rx)
       (be_enc 4 (mf_version (rx_manifest rx)) @ be_enc 4 chunk_index)"

definition send_status :: "u16 \<Rightarrow> bytes \<Rightarrow> u8 \<Rightarrow> ota_out" where
  "send_status conn peer code = Send_Raw conn BITLE_MSG_OTA_STATUS peer [code]"

section \<open>Receiving\<close>

definition abort_receive :: "'o ota_env \<Rightarrow> 'o ota \<Rightarrow> 'o ota" where
  "abort_receive env s =
     (if \<not> rx_active (ot_rx s) then s
      else s \<lparr> ot_api := oa_abort (oe_api env) (rx_handle (ot_rx s)) (ot_api s), ot_rx := zero_rx \<rparr>)"

definition begin_receive :: "'o ota_env \<Rightarrow> u64 \<Rightarrow> ota_event \<Rightarrow> ota_manifest \<Rightarrow> 'o ota \<Rightarrow> ota_out list \<times> 'o ota" where
  "begin_receive env now evt m s =
     (case oe_next env of
        None \<Rightarrow> ([], s)
      | Some part_size \<Rightarrow>
          if unat (mf_size m) > part_size then ([], s)
          else case oa_begin (oe_api env) (ot_api s) of
                 (err, h, o') \<Rightarrow>
                   if err \<noteq> ESP_OK then ([], s \<lparr> ot_api := o' \<rparr>)
                   else let rx = \<lparr> rx_active = True, rx_manifest = m, rx_next_chunk = 0,
                              rx_total_chunks = (mf_size m + ucast (mf_chunk_size m) - 1) div ucast (mf_chunk_size m),
                              rx_handle = h, rx_conn_handle = ev_conn_handle evt, rx_peer = ev_peer evt,
                              rx_last_activity_ms = now, rx_retries = 0, rx_sha = bitle_sha256_begin \<rparr>
                        in ([send_req 0 rx], s \<lparr> ot_rx := rx, ot_api := o' \<rparr>))"

definition handle_manifest :: "'o ota_env \<Rightarrow> u64 \<Rightarrow> ota_event \<Rightarrow> 'o ota \<Rightarrow> ota_out list \<times> 'o ota" where
  "handle_manifest env now evt s =
     (case parse_manifest (oe_alg env) (ev_payload evt) of
        None \<Rightarrow> ([], s)
      | Some m \<Rightarrow>
          if mf_version m = BITLE_FW_VERSION then
            (if \<not> ot_can_serve s \<and> hash_matches_running_image env m
             then ([send_status (ev_conn_handle evt) (ev_peer evt) 0x01], store_serve_manifest env m s)
             else ([], s))
          else if mf_version m < BITLE_FW_VERSION then ([], s)
          else if rx_active (ot_rx s) \<and> mf_version m \<le> mf_version (rx_manifest (ot_rx s)) then ([], s)
          else begin_receive env now evt m (abort_receive env s))"

definition finish_receive :: "'o ota_env \<Rightarrow> u64 \<Rightarrow> 'o ota \<Rightarrow> ota_out list \<times> 'o ota" where
  "finish_receive env now s =
     (let rx = ot_rx s; status = send_status (rx_conn_handle rx) (rx_peer rx)
      in if bitle_sha256_finish (oe_psa env) (rx_sha rx) \<noteq> mf_sha256 (rx_manifest rx)
         then ([status 0xE1], s \<lparr> ot_api := oa_abort (oe_api env) (rx_handle rx) (ot_api s), ot_rx := zero_rx \<rparr>)
         else case oa_end (oe_api env) (rx_handle rx) (ot_api s) of
                (err, o1) \<Rightarrow>
                  if err \<noteq> ESP_OK then ([status 0xE2], s \<lparr> ot_api := o1, ot_rx := zero_rx \<rparr>)
                  else case oa_set_boot (oe_api env) o1 of
                         (err2, o2) \<Rightarrow>
                           if err2 \<noteq> ESP_OK then ([status 0xE2], s \<lparr> ot_api := o2, ot_rx := zero_rx \<rparr>)
                           else ([status 0x00], (store_serve_manifest env (rx_manifest rx) (s \<lparr> ot_api := o2 \<rparr>))
                                   \<lparr> ot_rx := zero_rx, ot_reboot_at_ms := now + 3000 \<rparr>))"

definition chunk_len :: "ota_manifest \<Rightarrow> u32 \<Rightarrow> u32" where
  "chunk_len m index =
     (let expected = mf_size m - index * ucast (mf_chunk_size m)
      in if expected > ucast (mf_chunk_size m) then ucast (mf_chunk_size m) else expected)"

definition handle_chunk :: "'o ota_env \<Rightarrow> u64 \<Rightarrow> ota_event \<Rightarrow> 'o ota \<Rightarrow> ota_out list \<times> 'o ota" where
  "handle_chunk env now evt s =
     (if \<not> rx_active (ot_rx s) \<or> length (ev_payload evt) < 9 then ([], s)
      else let p = ev_payload evt; version = be_val (bslice 0 4 p) :: u32; index = be_val (bslice 4 4 p) :: u32;
               data = drop 8 p
           in if version \<noteq> mf_version (rx_manifest (ot_rx s)) then ([], s)
              else let s1 = s \<lparr> ot_rx := (ot_rx s) \<lparr> rx_last_activity_ms := now \<rparr> \<rparr>; rx = ot_rx s1
                   in if index \<noteq> rx_next_chunk rx then ([send_req (rx_next_chunk rx) rx], s1)
                      else if length data \<noteq> unat (chunk_len (rx_manifest rx) index) then ([], s1)
                      else case oa_write (oe_api env) (rx_handle rx) data (ot_api s1) of
                             (err, o') \<Rightarrow>
                               let s2 = s1 \<lparr> ot_api := o' \<rparr>
                               in if err \<noteq> ESP_OK then ([], abort_receive env s2)
                                  else let rx' = rx \<lparr> rx_sha := bitle_sha256_update (rx_sha rx) data,
                                                      rx_next_chunk := rx_next_chunk rx + 1, rx_retries := 0 \<rparr>;
                                           s3 = s2 \<lparr> ot_rx := rx' \<rparr>
                                       in if rx_next_chunk rx' \<ge> rx_total_chunks rx' then finish_receive env now s3
                                          else ([send_req (rx_next_chunk rx') rx'], s3))"

section \<open>Serving\<close>

definition handle_req :: "'o ota_env \<Rightarrow> ota_event \<Rightarrow> 'o ota \<Rightarrow> ota_out list" where
  "handle_req env evt s =
     (if \<not> ot_can_serve s \<or> length (ev_payload evt) < 8 then []
      else let p = ev_payload evt; version = be_val (bslice 0 4 p) :: u32; index = be_val (bslice 4 4 p) :: u32;
               m = ot_serve_manifest s; offset = index * ucast (mf_chunk_size m) :: u32
           in if version \<noteq> mf_version m then []
              else if offset \<ge> mf_size m then []
              else let left = mf_size m - offset;
                       len = (if left > ucast (mf_chunk_size m) then ucast (mf_chunk_size m) else left)
                   in case oe_running env of
                        None \<Rightarrow> []
                      | Some running \<Rightarrow>
                          (case ep_read running (unat offset) (unat len) of
                             None \<Rightarrow> []
                           | Some data \<Rightarrow>
                               [Send_Raw (ev_conn_handle evt) BITLE_MSG_OTA_CHUNK (ev_peer evt) (take 8 p @ data)]))"

definition handle_offer :: "u64 \<Rightarrow> ota_event \<Rightarrow> 'o ota \<Rightarrow> ota_out list \<times> 'o ota" where
  "handle_offer now evt s =
     (if \<not> ot_can_serve s \<or> rx_active (ot_rx s) then ([], s)
      else let slot = unat (ev_conn_handle evt mod 8); last = ot_last_offer_ms s ! slot
           in if last \<noteq> 0 \<and> now - last < OTA_OFFER_INTERVAL_MS then ([], s)
              else ([Send_Raw (ev_conn_handle evt) BITLE_MSG_OTA_MANIFEST (ev_peer evt) (mf_raw (ot_serve_manifest s))],
                    s \<lparr> ot_last_offer_ms := (ot_last_offer_ms s)[slot := now] \<rparr>))"

section \<open>The task\<close>

definition ota_dispatch :: "'o ota_env \<Rightarrow> u64 \<Rightarrow> ota_event \<Rightarrow> 'o ota \<Rightarrow> ota_out list \<times> 'o ota" where
  "ota_dispatch env now evt s =
     (if ev_type evt = BITLE_MSG_OTA_MANIFEST then handle_manifest env now evt s
      else if ev_type evt = BITLE_MSG_OTA_CHUNK then handle_chunk env now evt s
      else if ev_type evt = BITLE_MSG_OTA_REQ then (handle_req env evt s, s)
      else if ev_type evt = 0xFF then handle_offer now evt s
      else ([], s))"




section \<open>Entry points\<close>

definition queue_send :: "ota_event \<Rightarrow> 'o ota \<Rightarrow> 'o ota" where
  "queue_send evt s =
     (case ot_queue s of
        None \<Rightarrow> s
      | Some q \<Rightarrow> if length q < OTA_QUEUE_DEPTH then s \<lparr> ot_queue := Some (q @ [evt]) \<rparr> else s)"




definition bitle_ota_can_serve :: "'o ota \<Rightarrow> bool" where
  "bitle_ota_can_serve s = ot_can_serve s"

definition bitle_ota_busy :: "'o ota \<Rightarrow> bool" where
  "bitle_ota_busy s = rx_active (ot_rx s)"

definition adopt_manifest_from_partition :: "'o ota_env \<Rightarrow> 'o ota \<Rightarrow> 'o ota" where
  "adopt_manifest_from_partition env s =
     (case oe_fw_manifest env of
        Some (Some raw) \<Rightarrow>
          if take 4 raw \<noteq> OTA_MAGIC then s
          else (case parse_manifest (oe_alg env) raw of
                  None \<Rightarrow> s
                | Some m \<Rightarrow>
                    if mf_version m \<noteq> BITLE_FW_VERSION then s
                    else if hash_matches_running_image env m then store_serve_manifest env m s else s)
      | _ \<Rightarrow> s)"

definition drop_manifest :: "'o ota_env \<Rightarrow> 'o ota \<Rightarrow> 'o ota" where
  "drop_manifest env s = s \<lparr> ot_nvs := (if nvs_set_ok (oe_nvs env) then None else ot_nvs s) \<rparr>"

definition load_serve_manifest :: "'o ota_env \<Rightarrow> 'o ota \<Rightarrow> 'o ota" where
  "load_serve_manifest env s =
     (if \<not> nvs_open_ok (oe_nvs env) \<or> \<not> nvs_get_ok (oe_nvs env) then s
      else case ot_nvs s of
             None \<Rightarrow> s
           | Some raw \<Rightarrow>
               if length raw \<noteq> OTA_MANIFEST_LEN then s
               else (case parse_manifest (oe_alg env) raw of
                       None \<Rightarrow> drop_manifest env s
                     | Some m \<Rightarrow>
                         if mf_version m = BITLE_FW_VERSION \<and> hash_matches_running_image env m
                         then s \<lparr> ot_serve_manifest := m, ot_can_serve := True \<rparr>
                         else drop_manifest env s))"

definition ota_static :: "bytes option \<Rightarrow> 'o \<Rightarrow> 'o ota" where
  "ota_static nvs api = \<lparr> ot_rx = zero_rx, ot_serve_manifest = zero_manifest, ot_can_serve = False,
     ot_pending_verify = False, ot_health_signal = False, ot_reboot_at_ms = 0, ot_last_offer_ms = replicate 8 0,
     ot_queue = None, ot_nvs = nvs, ot_api = api \<rparr>"


declare hash_blocks.simps [simp del]

section \<open>Manifests\<close>

text \<open>A manifest the parser accepts: signed by the owner, with a usable chunk size.\<close>

definition manifest_ok :: "sign_alg \<Rightarrow> ota_manifest \<Rightarrow> bool" where
  "manifest_ok alg m \<longleftrightarrow> parse_manifest alg (mf_raw m) = Some m"

lemma parse_manifest_ok:
  assumes "parse_manifest alg data = Some m"
  shows "manifest_ok alg m" "mf_raw m = data" "mf_size m \<noteq> 0" "64 \<le> unat (mf_chunk_size m)" "unat (mf_chunk_size m) \<le> 480"
    "length (mf_sha256 m) = 32"
    "ed25519_sign_open alg (OTA_SIGN_CONTEXT @ bslice OTA_FIELDS_OFF OTA_FIELDS_LEN data) BITLE_OTA_OWNER_PUBKEY (bslice OTA_SIG_OFF 64 data)"
proof -
  show r: "mf_raw m = data" using assms by (auto simp: parse_manifest_def Let_def split: if_splits)
  show "manifest_ok alg m" using assms by (simp add: manifest_ok_def r)
  show "mf_size m \<noteq> 0" "64 \<le> unat (mf_chunk_size m)" "unat (mf_chunk_size m) \<le> 480" "length (mf_sha256 m) = 32"
    using assms by (auto simp: parse_manifest_def Let_def OTA_CHUNK_MAX_def not_less word_le_nat_alt bslice_def OTA_MANIFEST_LEN_def OTA_FIELDS_OFF_def
      split: if_splits)
  show "ed25519_sign_open alg (OTA_SIGN_CONTEXT @ bslice OTA_FIELDS_OFF OTA_FIELDS_LEN data) BITLE_OTA_OWNER_PUBKEY (bslice OTA_SIG_OFF 64 data)"
    using assms by (auto simp: parse_manifest_def Let_def split: if_splits)
qed

section \<open>Chunks\<close>

text \<open>
  The number of chunks and the length of a chunk over numbers; a partition has at most 16 MB, so the
  32-bit sums do not wrap.
\<close>

abbreviation mf_len :: "ota_manifest \<Rightarrow> nat" where "mf_len m \<equiv> unat (mf_size m)"
abbreviation mf_chunk :: "ota_manifest \<Rightarrow> nat" where "mf_chunk m \<equiv> unat (mf_chunk_size m)"

definition chunks_of :: "ota_manifest \<Rightarrow> nat" where
  "chunks_of m = (mf_len m + mf_chunk m - 1) div mf_chunk m"

definition total_word :: "ota_manifest \<Rightarrow> u32" where
  "total_word m = (mf_size m + ucast (mf_chunk_size m) - 1) div ucast (mf_chunk_size m)"

lemma chunk_ucast: "unat (ucast (mf_chunk_size m) :: u32) = mf_chunk m"
  by (simp add: unat_ucast_up)

lemma total_word_unat:
  assumes "mf_len m \<le> 2 ^ 24" "0 < mf_len m"
  shows "unat (total_word m) = chunks_of m"
proof -
  have c: "mf_chunk m < 65536" by (rule unat_less_65536)
  have s: "unat (mf_size m + ucast (mf_chunk_size m)) = mf_len m + mf_chunk m"
    using assms c by (subst unat_add_lem [THEN iffD1]) (simp_all add: chunk_ucast)
  then have "unat (mf_size m + ucast (mf_chunk_size m) - 1) = mf_len m + mf_chunk m - 1"
    using assms(2) by (subst unat_sub) (simp_all add: word_le_nat_alt)
  then show ?thesis by (simp add: total_word_def chunks_of_def unat_div chunk_ucast)
qed

lemma chunk_before_end:
  assumes "k < chunks_of m"
  shows "k * mf_chunk m < mf_len m"
proof -
  have "Suc k * mf_chunk m \<le> chunks_of m * mf_chunk m" using assms by (intro mult_le_mono1) simp
  also have "\<dots> \<le> mf_len m + mf_chunk m - 1" by (simp add: chunks_of_def)
  finally show ?thesis using assms by (cases "mf_chunk m") (auto simp: chunks_of_def)
qed

lemma last_chunk:
  assumes "Suc k = chunks_of m" "0 < mf_chunk m"
  shows "mf_len m \<le> Suc k * mf_chunk m"
proof -
  have "mf_len m + mf_chunk m - 1 < Suc (chunks_of m) * mf_chunk m"
    unfolding chunks_of_def using assms(2) by (metis div_less_iff_less_mult lessI)
  then show ?thesis using assms by simp
qed

lemma small_index:
  assumes "k < chunks_of m" "mf_len m \<le> 2 ^ 24"
  shows "unat (word_of_nat k :: u32) = k"
proof -
  have "k \<le> k * mf_chunk m" using assms(1) by (cases "mf_chunk m") (auto simp: chunks_of_def)
  also have "\<dots> < mf_len m" by (rule chunk_before_end [OF assms(1)])
  finally have "k < 2 ^ 32" using assms(2) by simp
  then show ?thesis by (intro unat_of_nat_small) simp
qed

lemma offset_word:
  assumes "k < chunks_of m" "mf_len m \<le> 2 ^ 24"
  shows "unat (word_of_nat k * ucast (mf_chunk_size m) :: u32) = k * mf_chunk m"
  using chunk_before_end [OF assms(1)] assms(2)
  by (subst unat_mult_lem [THEN iffD1]) (simp_all add: small_index [OF assms] chunk_ucast)

lemma chunk_len_unat:
  assumes "k < chunks_of m" "mf_len m \<le> 2 ^ 24"
  shows "unat (chunk_len m (word_of_nat k)) = min (mf_chunk m) (mf_len m - k * mf_chunk m)"
proof -
  note o = offset_word [OF assms] chunk_before_end [OF assms(1)]
  have "unat (mf_size m - word_of_nat k * ucast (mf_chunk_size m)) = mf_len m - k * mf_chunk m"
    using o by (subst unat_sub) (simp_all add: word_le_nat_alt)
  then show ?thesis by (simp add: chunk_len_def Let_def word_less_nat_alt chunk_ucast min_def)
qed

section \<open>The update driver\<close>

text \<open>
  What the code relies on, in terms of three observations: the bytes written through a handle, the completed
  image in the update partition (none from the moment a transfer into it begins until it is ended), and
  whether that partition is selected for the next boot. Beginning and writing do not look at the selection:
  they overwrite a selected partition as well, and then nothing is known of what the node would boot.
\<close>

record 'o ota_obs =
  ob_image :: "'o \<Rightarrow> nat \<Rightarrow> bytes"
  ob_part :: "'o \<Rightarrow> bytes option"
  ob_selected :: "'o \<Rightarrow> bool"

text \<open>The completed image a node would boot from the update partition.\<close>

definition ob_boot :: "'o ota_obs \<Rightarrow> 'o \<Rightarrow> bytes option" where
  "ob_boot ob x = (if ob_selected ob x then ob_part ob x else None)"

definition api_works :: "'o ota_api \<Rightarrow> 'o ota_obs \<Rightarrow> bool" where
  "api_works api ob \<longleftrightarrow>
     (\<forall>x e h y. oa_begin api x = (e, h, y) \<longrightarrow> ob_selected ob y = ob_selected ob x \<and>
        (if e = ESP_OK then ob_part ob y = None \<and> ob_image ob y h = [] else ob_part ob y \<in> {ob_part ob x, None})) \<and>
     (\<forall>h d x e y. oa_write api h d x = (e, y) \<longrightarrow> ob_selected ob y = ob_selected ob x \<and> ob_part ob y = None \<and>
        (e = ESP_OK \<longrightarrow> ob_image ob y h = ob_image ob x h @ d)) \<and>
     (\<forall>h x e y. oa_end api h x = (e, y) \<longrightarrow> ob_selected ob y = ob_selected ob x \<and>
        ob_part ob y = (if e = ESP_OK then Some (ob_image ob x h) else None)) \<and>
     (\<forall>x e y. oa_set_boot api x = (e, y) \<longrightarrow> ob_part ob y = ob_part ob x \<and> ob_selected ob y = (e = ESP_OK \<or> ob_selected ob x)) \<and>
     (\<forall>h x. ob_selected ob (oa_abort api h x) = ob_selected ob x \<and> ob_part ob (oa_abort api h x) \<in> {ob_part ob x, None})"

lemma api_worksD:
  assumes "api_works api ob"
  shows "oa_begin api x = (e, h, y) \<Longrightarrow> ob_selected ob y = ob_selected ob x \<and>
      (if e = ESP_OK then ob_part ob y = None \<and> ob_image ob y h = [] else ob_part ob y \<in> {ob_part ob x, None})"
    "oa_write api h d x = (e, y) \<Longrightarrow> ob_selected ob y = ob_selected ob x \<and> ob_part ob y = None \<and>
      (e = ESP_OK \<longrightarrow> ob_image ob y h = ob_image ob x h @ d)"
    "oa_end api h x = (e, y) \<Longrightarrow> ob_selected ob y = ob_selected ob x \<and>
      ob_part ob y = (if e = ESP_OK then Some (ob_image ob x h) else None)"
    "oa_set_boot api x = (e, y) \<Longrightarrow> ob_part ob y = ob_part ob x \<and> ob_selected ob y = (e = ESP_OK \<or> ob_selected ob x)"
    "ob_selected ob (oa_abort api h x) = ob_selected ob x \<and> ob_part ob (oa_abort api h x) \<in> {ob_part ob x, None}"
  using assms unfolding api_works_def by blast+

text \<open>The image an accepted manifest of a newer version describes, and the same with the owner's signature written out.\<close>

definition image_ok :: "'o ota_env \<Rightarrow> bytes \<Rightarrow> bool" where
  "image_ok env b \<longleftrightarrow> (\<exists>m. manifest_ok (oe_alg env) m \<and> BITLE_FW_VERSION < mf_version m \<and>
     length b = mf_len m \<and> bitle_sha256 (oe_psa env) b = mf_sha256 m)"



definition rx_inv :: "'o ota_env \<Rightarrow> 'o ota_obs \<Rightarrow> 'o ota \<Rightarrow> bool" where
  "rx_inv env ob s \<longleftrightarrow> (let rx = ot_rx s; m = rx_manifest rx; img = ob_image ob (ot_api s) (rx_handle rx) in
     rx_active rx \<longrightarrow> manifest_ok (oe_alg env) m \<and> BITLE_FW_VERSION < mf_version m \<and>
       mf_len m \<le> 2 ^ 24 \<and> rx_total_chunks rx = total_word m \<and> rx_sha rx = Some img \<and>
       (\<exists>k < chunks_of m. rx_next_chunk rx = word_of_nat k \<and> length img = k * mf_chunk m))"

definition boot_inv :: "'o ota_env \<Rightarrow> 'o ota_obs \<Rightarrow> bytes option \<Rightarrow> 'o ota \<Rightarrow> bool" where
  "boot_inv env ob b0 s \<longleftrightarrow> (\<forall>b. ob_boot ob (ot_api s) = Some b \<longrightarrow> b0 = Some b \<or> image_ok env b)"

text \<open>A step that selects the update partition, reports success, or schedules the restart.\<close>

definition selects :: "'o ota_obs \<Rightarrow> 'o ota \<Rightarrow> ota_out list \<times> 'o ota \<Rightarrow> bool" where
  "selects ob s r \<longleftrightarrow> (\<exists>c p. Send_Raw c BITLE_MSG_OTA_STATUS p [0] \<in> set (fst r)) \<or>
     ot_reboot_at_ms (snd r) \<noteq> ot_reboot_at_ms s \<or> ob_selected ob (ot_api (snd r)) \<and> \<not> ob_selected ob (ot_api s)"

definition select_ok :: "'o ota_env \<Rightarrow> 'o ota_obs \<Rightarrow> 'o ota \<Rightarrow> ota_out list \<times> 'o ota \<Rightarrow> bool" where
  "select_ok env ob s r \<longleftrightarrow> selects ob s r \<longrightarrow>
     (\<exists>b. ob_boot ob (ot_api (snd r)) = Some b \<and> image_ok env b) \<and> \<not> rx_active (ot_rx (snd r))"



lemma zero_rx_inv [simp]: "rx_inv env ob (s \<lparr> ot_rx := zero_rx \<rparr>)"
  by (simp add: rx_inv_def zero_rx_def)


lemma serve_same [simp]:
  "ot_rx (store_serve_manifest env m s) = ot_rx s" "ot_api (store_serve_manifest env m s) = ot_api s"
  by (simp_all add: store_serve_manifest_def)







lemma chunks_small: "mf_len m \<le> 2 ^ 24 \<Longrightarrow> 0 < mf_len m \<Longrightarrow> chunks_of m < 2 ^ 32"
  using unsigned_less [of "total_word m", where 'a = nat] total_word_unat [of m] by simp

text \<open>The chunk after the \<open>k\<close>-th one, and when it is the last.\<close>

lemma next_chunk:
  assumes k: "k < chunks_of m" and sz: "mf_len m \<le> 2 ^ 24" "0 < mf_len m" "0 < mf_chunk m"
  shows "(word_of_nat k + 1 :: u32) = word_of_nat (Suc k)"
    "total_word m \<le> (word_of_nat k + 1 :: u32) \<longleftrightarrow> Suc k = chunks_of m"
    "k * mf_chunk m + unat (chunk_len m (word_of_nat k)) = (if Suc k = chunks_of m then mf_len m else Suc k * mf_chunk m)"
proof -
  show w: "(word_of_nat k + 1 :: u32) = word_of_nat (Suc k)" by simp
  have "unat (word_of_nat (Suc k) :: u32) = Suc k" using k chunks_small [OF sz(1,2)] by (intro unat_of_nat_small) simp
  then show "total_word m \<le> (word_of_nat k + 1 :: u32) \<longleftrightarrow> Suc k = chunks_of m"
    unfolding w word_le_nat_alt total_word_unat [OF sz(1,2)] using k by auto
  show "k * mf_chunk m + unat (chunk_len m (word_of_nat k)) = (if Suc k = chunks_of m then mf_len m else Suc k * mf_chunk m)"
  proof (cases "Suc k = chunks_of m")
    case True
    have "mf_len m \<le> mf_chunk m + k * mf_chunk m" using last_chunk [OF True sz(3)] by (simp only: mult_Suc)
    then show ?thesis using True chunk_before_end [OF k] chunk_len_unat [OF k sz(1)] by simp
  next
    case False
    then show ?thesis using chunk_before_end [of "Suc k" m] k chunk_len_unat [OF k sz(1)] by simp
  qed
qed








section \<open>Reachable states\<close>


lemma nvs_inv [simp]: "rx_inv (env \<lparr> oe_nvs := io \<rparr>) ob s = rx_inv env ob s" "boot_inv (env \<lparr> oe_nvs := io \<rparr>) ob b0 s = boot_inv env ob b0 s"
  "select_ok (env \<lparr> oe_nvs := io \<rparr>) ob s r = select_ok env ob s r"
  by (simp_all add: rx_inv_def boot_inv_def image_ok_def select_ok_def)

lemma queue_same [simp]: "ot_rx (queue_send e s) = ot_rx s" "ot_api (queue_send e s) = ot_api s"
  by (simp_all add: queue_send_def split: option.splits)

lemma load_same [simp]:
  "ot_rx (load_serve_manifest env s) = ot_rx s" "ot_api (load_serve_manifest env s) = ot_api s"
  "ot_rx (adopt_manifest_from_partition env s) = ot_rx s" "ot_api (adopt_manifest_from_partition env s) = ot_api s"
  by (simp_all add: load_serve_manifest_def drop_manifest_def adopt_manifest_from_partition_def split: option.splits)



section \<open>A transfer between two nodes\<close>

text \<open>What one node sends is an event of the other, on its own link and with the sender's id.\<close>

definition delivered :: "u16 \<Rightarrow> bytes \<Rightarrow> ota_out list \<Rightarrow> ota_event list" where
  "delivered conn sender outs = concat (map (\<lambda>x. case x of
     Send_Raw c t peer payload \<Rightarrow> [\<lparr> ev_type = t, ev_conn_handle = conn, ev_peer = sender, ev_payload = payload \<rparr>]
   | _ \<Rightarrow> []) outs)"

fun run_events :: "'o ota_env \<Rightarrow> u64 \<Rightarrow> ota_event list \<Rightarrow> 'o ota \<Rightarrow> ota_out list \<times> 'o ota" where
  "run_events env now [] s = ([], s)"
| "run_events env now (e # es) s =
     (case ota_dispatch env now e s of (o1, s1) \<Rightarrow> case run_events env now es s1 of (o2, s2) \<Rightarrow> (o1 @ o2, s2))"

text \<open>The requests of the receiver go to the server, its answers back.\<close>

definition exchange_round ::
  "'a ota_env \<Rightarrow> 'b ota_env \<Rightarrow> (u16 \<times> bytes) \<Rightarrow> (u16 \<times> bytes) \<Rightarrow> u64 \<Rightarrow>
     ota_out list \<times> 'a ota \<times> 'b ota \<Rightarrow> ota_out list \<times> 'a ota \<times> 'b ota" where
  "exchange_round es er at_server at_receiver now st = (case st of (reqs, sv, r) \<Rightarrow>
     case run_events es now (delivered (fst at_server) (snd at_server) reqs) sv of
     (answers, sv') \<Rightarrow> case run_events er now (delivered (fst at_receiver) (snd at_receiver) answers) r of
     (reqs', r') \<Rightarrow> (reqs', sv', r'))"

definition serves_image :: "'a ota_env \<Rightarrow> 'a ota \<Rightarrow> ota_manifest \<Rightarrow> bytes \<Rightarrow> bool" where
  "serves_image es sv m img \<longleftrightarrow> ot_can_serve sv \<and> ot_serve_manifest sv = m \<and> length img = mf_len m \<and>
     (\<exists>part. oe_running es = Some part \<and> (\<forall>off n. off + n \<le> mf_len m \<longrightarrow> ep_read part off n = Some (bslice off n img)))"

definition api_never_fails :: "'o ota_api \<Rightarrow> bool" where
  "api_never_fails api \<longleftrightarrow> (\<forall>x. fst (oa_begin api x) = ESP_OK) \<and> (\<forall>h d x. fst (oa_write api h d x) = ESP_OK) \<and>
     (\<forall>h x. fst (oa_end api h x) = ESP_OK) \<and> (\<forall>x. fst (oa_set_boot api x) = ESP_OK)"

lemma req_payload: "be_val (bslice 0 4 (be_enc 4 (v :: u32) @ be_enc 4 (i :: u32) @ d)) = v"
  "be_val (bslice 4 4 (be_enc 4 v @ be_enc 4 i @ d)) = i" "take 8 (be_enc 4 v @ be_enc 4 i @ d) = be_enc 4 v @ be_enc 4 i"
  "drop 8 (be_enc 4 v @ be_enc 4 i @ d) = d"
  by (simp_all add: bslice_def)

lemma serve_chunk:
  assumes sv: "serves_image es sv m img" and k: "k < chunks_of m" and sz: "mf_len m \<le> 2 ^ 24"
    and p: "ev_payload evt = be_enc 4 (mf_version m) @ be_enc 4 (word_of_nat k :: u32)"
  shows "handle_req es evt sv = [Send_Raw (ev_conn_handle evt) BITLE_MSG_OTA_CHUNK (ev_peer evt)
      (be_enc 4 (mf_version m) @ be_enc 4 (word_of_nat k :: u32) @ bslice (k * mf_chunk m) (unat (chunk_len m (word_of_nat k))) img)]"
proof -
  note o = offset_word [OF k sz] chunk_before_end [OF k] chunk_len_unat [OF k sz]
  have lt: "\<not> mf_size m \<le> word_of_nat k * ucast (mf_chunk_size m)" using o by (simp add: word_le_nat_alt)
  obtain part where part: "oe_running es = Some part" "\<And>off n. off + n \<le> mf_len m \<Longrightarrow> ep_read part off n = Some (bslice off n img)"
    using sv by (auto simp: serves_image_def)
  have cl: "chunk_len m (word_of_nat k) = (if ucast (mf_chunk_size m) < mf_size m - word_of_nat k * ucast (mf_chunk_size m)
      then ucast (mf_chunk_size m) else mf_size m - word_of_nat k * ucast (mf_chunk_size m))" by (simp add: chunk_len_def Let_def)
  have rd: "ep_read part (k * mf_chunk m) (unat (chunk_len m (word_of_nat k))) =
      Some (bslice (k * mf_chunk m) (unat (chunk_len m (word_of_nat k))) img)"
    using o by (intro part(2)) simp
  show ?thesis
    using sv part(1) lt rd req_payload [of "mf_version m" "word_of_nat k :: u32" "[]"]
    by (simp add: handle_req_def Let_def p serves_image_def cl [symmetric] o(1))
qed

definition recv_at :: "'o ota_obs \<Rightarrow> ota_manifest \<Rightarrow> bytes \<Rightarrow> nat \<Rightarrow> 'o ota \<Rightarrow> bool" where
  "recv_at ob m img k r \<longleftrightarrow> rx_active (ot_rx r) \<and> rx_manifest (ot_rx r) = m \<and> rx_next_chunk (ot_rx r) = word_of_nat k \<and>
     rx_total_chunks (ot_rx r) = total_word m \<and> rx_sha (ot_rx r) = Some (take (k * mf_chunk m) img) \<and>
     ob_image ob (ot_api r) (rx_handle (ot_rx r)) = take (k * mf_chunk m) img"

definition recv_done :: "'o ota_obs \<Rightarrow> bytes \<Rightarrow> u64 \<Rightarrow> 'o ota \<Rightarrow> bool" where
  "recv_done ob img now r \<longleftrightarrow> ob_boot ob (ot_api r) = Some img \<and> \<not> bitle_ota_busy r \<and> ot_reboot_at_ms r = now + 3000"

lemma finish_done:
  assumes api: "api_works (oe_api env) ob" "api_never_fails (oe_api env)"
    and rx: "rx_sha (ot_rx r) = Some img" "ob_image ob (ot_api r) (rx_handle (ot_rx r)) = img"
    and h: "bitle_sha256 (oe_psa env) img = mf_sha256 (rx_manifest (ot_rx r))"
  shows "recv_done ob img now (snd (finish_receive env now r)) \<and>
    fst (finish_receive env now r) = [send_status (rx_conn_handle (ot_rx r)) (rx_peer (ot_rx r)) 0]"
proof -
  obtain y1 where e: "oa_end (oe_api env) (rx_handle (ot_rx r)) (ot_api r) = (ESP_OK, y1)"
    using api(2) unfolding api_never_fails_def by (metis prod.collapse)
  obtain y2 where b: "oa_set_boot (oe_api env) y1 = (ESP_OK, y2)"
    using api(2) unfolding api_never_fails_def by (metis prod.collapse)
  have "ob_boot ob y2 = Some img" using api_worksD(3) [OF api(1) e] api_worksD(4) [OF api(1) b] rx(2) by (simp add: ob_boot_def)
  then show ?thesis using e b rx h by (simp add: finish_receive_def Let_def recv_done_def bitle_ota_busy_def zero_rx_def)
qed

lemma recv_chunk:
  assumes api: "api_works (oe_api env) ob" "api_never_fails (oe_api env)"
    and m: "manifest_ok (oe_alg env) m" "mf_len m \<le> 2 ^ 24" "length img = mf_len m" "bitle_sha256 (oe_psa env) img = mf_sha256 m"
    and r: "recv_at ob m img k r" "k < chunks_of m"
    and evt: "ev_payload evt = be_enc 4 (mf_version m) @ be_enc 4 (word_of_nat k :: u32) @
        bslice (k * mf_chunk m) (unat (chunk_len m (word_of_nat k))) img"
  shows "if Suc k = chunks_of m then recv_done ob img now (snd (handle_chunk env now evt r)) \<and>
       fst (handle_chunk env now evt r) = [send_status (rx_conn_handle (ot_rx r)) (rx_peer (ot_rx r)) 0]
    else recv_at ob m img (Suc k) (snd (handle_chunk env now evt r)) \<and>
      fst (handle_chunk env now evt r) = [send_req (word_of_nat (Suc k)) (ot_rx (snd (handle_chunk env now evt r)))]"
proof -
  let ?rx = "ot_rx r" and ?len = "unat (chunk_len m (word_of_nat k))"
  let ?data = "bslice (k * mf_chunk m) ?len img"
  have pm: "parse_manifest (oe_alg env) (mf_raw m) = Some m" using m(1) by (simp add: manifest_ok_def)
  from parse_manifest_ok(3,4) [OF pm] have sz: "0 < mf_len m" "0 < mf_chunk m" by (auto simp: unat_gt_0)
  note n = next_chunk [OF r(2) m(2) sz] and cl = chunk_len_unat [OF r(2) m(2)] and b = chunk_before_end [OF r(2)]
  have len: "length ?data = ?len" "0 < ?len" using cl b sz m(3) by (simp_all add: bslice_def)
  have app: "take (k * mf_chunk m) img @ ?data = take (k * mf_chunk m + ?len) img" by (simp add: bslice_def take_add)
  obtain y where w: "oa_write (oe_api env) (rx_handle ?rx) ?data (ot_api r) = (ESP_OK, y)"
    using api(2) unfolding api_never_fails_def by (metis prod.collapse)
  have y: "ob_image ob y (rx_handle ?rx) = take (k * mf_chunk m + ?len) img"
    using api_worksD(2) [OF api(1) w] r(1) app by (simp add: recv_at_def)
  define r3 where "r3 = r \<lparr> ot_api := y, ot_rx := ?rx \<lparr> rx_last_activity_ms := now, rx_sha := Some (take (k * mf_chunk m + ?len) img),
      rx_next_chunk := word_of_nat k + 1, rx_retries := 0 \<rparr> \<rparr>"
  have hc: "handle_chunk env now evt r = (if Suc k = chunks_of m then finish_receive env now r3
      else ([send_req (word_of_nat (Suc k)) (ot_rx r3)], r3))"
    unfolding n(1) [symmetric] using r(1) len w app n(2) req_payload [of "mf_version m" "word_of_nat k :: u32" ?data]
    by (simp add: handle_chunk_def Let_def evt recv_at_def r3_def)
  show ?thesis
  proof (cases "Suc k = chunks_of m")
    case True
    then have "take (k * mf_chunk m + ?len) img = img" using n(3) m(3) by simp
    then have "recv_done ob img now (snd (finish_receive env now r3)) \<and>
        fst (finish_receive env now r3) = [send_status (rx_conn_handle (ot_rx r3)) (rx_peer (ot_rx r3)) 0]"
      using m(4) r(1) y by (intro finish_done [OF api]) (simp_all add: r3_def recv_at_def)
    then show ?thesis using True hc by (simp add: r3_def)
  next
    case False
    then have "recv_at ob m img (Suc k) r3" using r(1) y n(3) by (simp add: recv_at_def r3_def add.commute)
    then show ?thesis using False hc by simp
  qed
qed

lemma chunk_types: "BITLE_MSG_OTA_CHUNK \<noteq> BITLE_MSG_OTA_MANIFEST" "BITLE_MSG_OTA_REQ \<noteq> BITLE_MSG_OTA_MANIFEST" "BITLE_MSG_OTA_REQ \<noteq> BITLE_MSG_OTA_CHUNK"
  by (simp_all add: msg_type_defs)

lemma round_step:
  assumes api: "api_works (oe_api er) ob" "api_never_fails (oe_api er)"
    and m: "manifest_ok (oe_alg er) m" "mf_len m \<le> 2 ^ 24" "bitle_sha256 (oe_psa er) img = mf_sha256 m"
    and sv: "serves_image es sv m img" and r: "recv_at ob m img k r" "k < chunks_of m"
  shows "\<exists>outs r'. exchange_round es er a c now ([send_req (word_of_nat k) (ot_rx r)], sv, r) = (outs, sv, r') \<and>
    (if Suc k = chunks_of m then recv_done ob img now r' \<and> outs = [send_status (rx_conn_handle (ot_rx r)) (rx_peer (ot_rx r)) 0]
     else recv_at ob m img (Suc k) r' \<and> outs = [send_req (word_of_nat (Suc k)) (ot_rx r')])"
proof -
  let ?p = "be_enc 4 (mf_version m) @ be_enc 4 (word_of_nat k :: u32)"
  let ?e = "\<lparr> ev_type = BITLE_MSG_OTA_REQ, ev_conn_handle = fst a, ev_peer = snd a, ev_payload = ?p \<rparr>"
  let ?q = "?p @ bslice (k * mf_chunk m) (unat (chunk_len m (word_of_nat k))) img"
  let ?f = "\<lparr> ev_type = BITLE_MSG_OTA_CHUNK, ev_conn_handle = fst c, ev_peer = snd c, ev_payload = ?q \<rparr>"
  have mr: "rx_manifest (ot_rx r) = m" using r(1) by (simp add: recv_at_def)
  have 1: "delivered (fst a) (snd a) [send_req (word_of_nat k) (ot_rx r)] = [?e]" by (simp add: delivered_def send_req_def mr)
  have 2: "handle_req es ?e sv = [Send_Raw (fst a) BITLE_MSG_OTA_CHUNK (snd a) ?q]"
    using serve_chunk [OF sv r(2) m(2), of ?e] by simp
  have r1: "run_events es now [?e] sv = ([Send_Raw (fst a) BITLE_MSG_OTA_CHUNK (snd a) ?q], sv)"
    using 2 by (simp add: ota_dispatch_def chunk_types)
  have r2: "run_events er now [?f] r = handle_chunk er now ?f r" by (simp add: ota_dispatch_def chunk_types split: prod.splits)
  have d2: "delivered (fst c) (snd c) [Send_Raw (fst a) BITLE_MSG_OTA_CHUNK (snd a) ?q] = [?f]" by (simp add: delivered_def)
  have 3: "exchange_round es er a c now ([send_req (word_of_nat k) (ot_rx r)], sv, r) =
      (fst (handle_chunk er now ?f r), sv, snd (handle_chunk er now ?f r))"
    unfolding exchange_round_def prod.case 1 r1 d2 r2 by (simp add: case_prod_beta)
  have "length img = mf_len m" using sv by (simp add: serves_image_def)
  from recv_chunk [OF api m(1,2) this m(3) r, of ?f now] show ?thesis unfolding 3 by (auto split: if_splits)
qed

lemma manifest_starts:
  assumes api: "api_works (oe_api er) ob" "api_never_fails (oe_api er)"
    and m: "parse_manifest (oe_alg er) (ev_payload evt) = Some m" "BITLE_FW_VERSION < mf_version m"
    and part: "oe_next er = Some n" "mf_len m \<le> n" and r: "\<not> bitle_ota_busy r"
  shows "fst (handle_manifest er now evt r) = [send_req (word_of_nat 0) (ot_rx (snd (handle_manifest er now evt r)))] \<and>
    recv_at ob m img 0 (snd (handle_manifest er now evt r))"
proof -
  obtain h y where b: "oa_begin (oe_api er) (ot_api r) = (ESP_OK, h, y)"
    using api(2) unfolding api_never_fails_def by (metis prod.collapse)
  have y: "ob_image ob y h = []" using api_worksD(1) [OF api(1) b] by simp
  have "handle_manifest er now evt r = begin_receive er now evt m r"
    using m r by (auto simp: handle_manifest_def bitle_ota_busy_def abort_receive_def)
  then show ?thesis using part b y by (simp add: begin_receive_def Let_def recv_at_def total_word_def)
qed

lemma rounds_done:
  assumes api: "api_works (oe_api er) ob" "api_never_fails (oe_api er)"
    and m: "manifest_ok (oe_alg er) m" "mf_len m \<le> 2 ^ 24" "bitle_sha256 (oe_psa er) img = mf_sha256 m"
    and sv: "serves_image es sv m img"
  shows "recv_at ob m img k r \<Longrightarrow> k + Suc n = chunks_of m \<Longrightarrow>
    \<exists>outs r'. (exchange_round es er a c now ^^ Suc n) ([send_req (word_of_nat k) (ot_rx r)], sv, r) = (outs, sv, r') \<and>
      recv_done ob img now r' \<and> (\<exists>conn peer. outs = [send_status conn peer 0])"
proof (induction n arbitrary: k r)
  case 0
  then show ?case using round_step [OF api m sv, of k r a c now] by auto
next
  case (Suc n)
  obtain r1 where r1: "exchange_round es er a c now ([send_req (word_of_nat k) (ot_rx r)], sv, r) =
      ([send_req (word_of_nat (Suc k)) (ot_rx r1)], sv, r1)" "recv_at ob m img (Suc k) r1"
    using round_step [OF api m sv Suc.prems(1), of a c now] Suc.prems(2) by (auto simp del: of_nat_Suc)
  show ?case using Suc.IH [OF r1(2)] Suc.prems(2) by (simp add: funpow_swap1 r1(1) del: of_nat_Suc)
qed

section \<open>A concrete update\<close>

text \<open>A driver that keeps the image in memory, and an owner whose signature is the first byte of the message.\<close>

record mem_ota =
  mo_image :: bytes
  mo_part :: "bytes option"
  mo_selected :: bool

definition mem_api :: "mem_ota ota_api" where
  "mem_api = \<lparr> oa_begin = (\<lambda>x. (ESP_OK, 1, x \<lparr> mo_image := [], mo_part := None \<rparr>)),
     oa_write = (\<lambda>h d x. (ESP_OK, x \<lparr> mo_image := mo_image x @ d, mo_part := None \<rparr>)),
     oa_end = (\<lambda>h x. (ESP_OK, x \<lparr> mo_part := Some (mo_image x) \<rparr>)),
     oa_set_boot = (\<lambda>x. (ESP_OK, x \<lparr> mo_selected := True \<rparr>)), oa_abort = (\<lambda>h x. x) \<rparr>"

definition mem_obs :: "mem_ota ota_obs" where
  "mem_obs = \<lparr> ob_image = (\<lambda>x h. mo_image x), ob_part = mo_part, ob_selected = mo_selected \<rparr>"

definition mo_boot :: "mem_ota \<Rightarrow> bytes option" where
  "mo_boot x = (if mo_selected x then mo_part x else None)"

lemma mem_boot: "ob_boot mem_obs x = mo_boot x"
  by (simp add: ob_boot_def mo_boot_def mem_obs_def)

lemma mem_api_works: "api_works mem_api mem_obs" "api_never_fails mem_api"
  by (simp_all add: api_works_def api_never_fails_def mem_api_def mem_obs_def)

definition lax_alg :: sign_alg where
  "lax_alg = \<lparr> ed25519_sign = (\<lambda>m sk pk. take 64 (m @ replicate 64 0)), ed25519_sign_open = (\<lambda>m pk s. s ! 0 = m ! 0) \<rparr>"

definition pad_psa :: psa_hash where
  "pad_psa m = Some (take 32 (m @ replicate 32 0))"

definition demo_image :: bytes where
  "demo_image = replicate 150 7"

text \<open>The layout of a manifest.\<close>

definition manifest_bytes :: "u32 \<Rightarrow> u32 \<Rightarrow> bytes \<Rightarrow> u16 \<Rightarrow> bytes \<Rightarrow> bytes" where
  "manifest_bytes v sz sha c sig = OTA_MAGIC @ be_enc 4 v @ be_enc 4 sz @ sha @ be_enc 2 c @ sig"

lemma manifest_bytes_parse:
  assumes l: "length sha = 32" "length sig = 64" and c: "sz \<noteq> 0" "64 \<le> unat c" "unat c \<le> 480"
    and s: "ed25519_sign_open alg (OTA_SIGN_CONTEXT @ be_enc 4 v @ be_enc 4 sz @ sha @ be_enc 2 c) BITLE_OTA_OWNER_PUBKEY sig"
  shows "parse_manifest alg (manifest_bytes v sz sha c sig) =
    Some \<lparr> mf_version = v, mf_size = sz, mf_sha256 = sha, mf_chunk_size = c, mf_raw = manifest_bytes v sz sha c sig \<rparr>"
proof -
  let ?d = "manifest_bytes v sz sha c sig" and ?f = "be_enc 4 v @ be_enc 4 sz @ sha @ be_enc 2 c"
  have d: "length ?d = 110" "take 4 ?d = OTA_MAGIC" "bslice 4 42 ?d = ?f" "bslice 46 64 ?d = sig" "drop 4 ?d = ?f @ sig"
    using l by (simp_all add: manifest_bytes_def OTA_MAGIC_def bslice_def)
  have f: "bslice 0 4 (?f @ sig) = be_enc 4 v" "bslice 4 4 (?f @ sig) = be_enc 4 sz" "bslice 8 32 (?f @ sig) = sha"
    "bslice 40 2 (?f @ sig) = be_enc 2 c" using l by (simp_all add: bslice_def)
  have "\<not> c < 64" "\<not> OTA_CHUNK_MAX < unat c" using c by (simp_all add: word_less_nat_alt OTA_CHUNK_MAX_def)
  then show ?thesis
    using s c(1) unfolding parse_manifest_def OTA_MANIFEST_LEN_def OTA_FIELDS_OFF_def OTA_FIELDS_LEN_def OTA_SIG_OFF_def d f Let_def
    by simp
qed

definition demo_manifest_raw :: bytes where
  "demo_manifest_raw = manifest_bytes 6 150 (replicate 32 7) 64 (0x62 # replicate 63 0)"

definition demo_manifest :: ota_manifest where
  "demo_manifest = \<lparr> mf_version = 6, mf_size = 150, mf_sha256 = replicate 32 7, mf_chunk_size = 64, mf_raw = demo_manifest_raw \<rparr>"

definition demo_ota_env :: "mem_ota ota_env" where
  "demo_ota_env = \<lparr> oe_alg = lax_alg, oe_psa = pad_psa,
     oe_running = Some \<lparr> ep_size = 1000, ep_read = (\<lambda>off n. Some (bslice off n demo_image)) \<rparr>, oe_next = Some 1000,
     oe_api = mem_api, oe_nvs = nvs_works, oe_pending = False, oe_fw_manifest = None, oe_queue_ok = True, oe_task_ok = True \<rparr>"

definition demo_ota :: "mem_ota ota" where
  "demo_ota = ota_static None \<lparr> mo_image = [], mo_part = None, mo_selected = False \<rparr>"

lemma demo_manifest_parse: "parse_manifest lax_alg demo_manifest_raw = Some demo_manifest"
  unfolding demo_manifest_raw_def demo_manifest_def
  by (rule manifest_bytes_parse) (simp_all add: lax_alg_def OTA_SIGN_CONTEXT_def)

section \<open>Properties\<close>










text \<open>
  The selected image can be overwritten before the restart: a node that has selected an image is not busy, so any
  signed manifest of a version above the running one, the same one included, starts a transfer into the
  selected partition, and the first chunk is written there whatever its bytes are. The restart stays scheduled.
\<close>

lemma ota_manifest_reopens_selected:
  assumes api: "api_works (oe_api env) ob" "api_never_fails (oe_api env)"
    and m: "parse_manifest (oe_alg env) (ev_payload evt) = Some m" "BITLE_FW_VERSION < mf_version m"
    and part: "oe_next env = Some n" "mf_len m \<le> n" "n \<le> 2 ^ 24"
    and r: "\<not> bitle_ota_busy r" "ob_selected ob (ot_api r)" and c: "1 < chunks_of m" "length data = unat (chunk_len m 0)"
    and evt': "ev_payload evt' = be_enc 4 (mf_version m) @ be_enc 4 (0 :: u32) @ data"
  shows "\<exists>r1 r2. snd (handle_manifest env now evt r) = r1 \<and> snd (handle_chunk env now' evt' r1) = r2 \<and>
    ob_selected ob (ot_api r1) \<and> ob_part ob (ot_api r1) = None \<and> ot_reboot_at_ms r1 = ot_reboot_at_ms r \<and>
    ob_selected ob (ot_api r2) \<and> ob_image ob (ot_api r2) (rx_handle (ot_rx r2)) = data \<and> ot_reboot_at_ms r2 = ot_reboot_at_ms r"
proof -
  obtain h y where b: "oa_begin (oe_api env) (ot_api r) = (ESP_OK, h, y)"
    using api(2) unfolding api_never_fails_def by (metis prod.collapse)
  note y = api_worksD(1) [OF api(1) b]
  define r1 where "r1 = snd (handle_manifest env now evt r)"
  have "handle_manifest env now evt r = begin_receive env now evt m r"
    using m r by (auto simp: handle_manifest_def bitle_ota_busy_def abort_receive_def)
  then have r1: "ot_api r1 = y" "ot_reboot_at_ms r1 = ot_reboot_at_ms r" "rx_active (ot_rx r1)" "rx_manifest (ot_rx r1) = m"
    "rx_next_chunk (ot_rx r1) = 0" "rx_total_chunks (ot_rx r1) = total_word m" "rx_handle (ot_rx r1) = h"
    using part b by (simp_all add: r1_def begin_receive_def Let_def total_word_def)
  obtain z where w: "oa_write (oe_api env) h data y = (ESP_OK, z)"
    using api(2) unfolding api_never_fails_def by (metis prod.collapse)
  note z = api_worksD(2) [OF api(1) w]
  have "mf_size m \<noteq> 0" "64 \<le> mf_chunk m" using parse_manifest_ok(3,4) [OF m(1)] by simp_all
  then have sz: "0 < mf_len m" "0 < mf_chunk m" by (auto simp: unat_gt_0)
  have k: "(0 :: nat) < chunks_of m" "mf_len m \<le> 2 ^ 24" using c(1) part by simp_all
  note nx = next_chunk [OF k sz]
  have "0 < length data" using chunk_len_unat [OF k] sz by (simp add: c(2))
  then have pl: "\<not> length (ev_payload evt') < 9" by (simp add: evt')
  have l: "\<not> total_word m \<le> 1" using nx(2) c(1) by simp
  have "ot_api (snd (handle_chunk env now' evt' r1)) = z \<and> ot_reboot_at_ms (snd (handle_chunk env now' evt' r1)) = ot_reboot_at_ms r1 \<and>
      rx_handle (ot_rx (snd (handle_chunk env now' evt' r1))) = h"
    using r1 pl w l c(2) req_payload [of "mf_version m" "0 :: u32" data] by (simp add: handle_chunk_def Let_def evt')
  then show ?thesis using r1 r(2) y z unfolding r1_def [symmetric] by simp
qed

text \<open>
  C9: An update reaches the next node: a node that is not receiving, and is offered the manifest of a
  higher version by a node that serves the described image, requests the chunks one by one, and after
  as many exchanges as there are chunks it has selected exactly that image for its next boot, reported
  success, is no longer busy, and restarts three seconds later.
\<close>

theorem ota_transfer_completes:
  assumes api: "api_works (oe_api er) ob" "api_never_fails (oe_api er)"
    and m: "parse_manifest (oe_alg er) (ev_payload evt) = Some m" "BITLE_FW_VERSION < mf_version m"
    and part: "oe_next er = Some n" "unat (mf_size m) \<le> n" "n \<le> 2 ^ 24"
    and sv: "serves_image es sv m img" "bitle_sha256 (oe_psa er) img = mf_sha256 m" and r: "\<not> bitle_ota_busy r"
  shows "\<exists>outs r' conn peer.
    (exchange_round es er a c now ^^ chunks_of m)
      (fst (handle_manifest er now evt r), sv, snd (handle_manifest er now evt r)) = (outs, sv, r') \<and>
    ob_boot ob (ot_api r') = Some img \<and> \<not> bitle_ota_busy r' \<and> ot_reboot_at_ms r' = now + 3000 \<and>
    outs = [send_status conn peer 0]"
proof -
  note st = manifest_starts [OF api m part(1,2) r, of now img]
  have ok: "manifest_ok (oe_alg er) m" "mf_len m \<le> 2 ^ 24" using parse_manifest_ok(1) [OF m(1)] part by simp_all
  have "0 < mf_len m" "0 < mf_chunk m" using parse_manifest_ok(3,4) [OF m(1)] by (auto simp: unat_gt_0)
  then have "0 < chunks_of m" by (simp add: chunks_of_def div_greater_zero_iff)
  then obtain k where k: "chunks_of m = Suc k" by (metis gr0_conv_Suc)
  obtain outs r' conn peer where "(exchange_round es er a c now ^^ Suc k)
      ([send_req (word_of_nat 0) (ot_rx (snd (handle_manifest er now evt r)))], sv, snd (handle_manifest er now evt r)) = (outs, sv, r')"
    "recv_done ob img now r'" "outs = [send_status conn peer 0]"
    using rounds_done [OF api ok sv(2,1) conjunct2 [OF st], of k a c now] k by auto
  then show ?thesis using st unfolding k recv_done_def by auto
qed

theorem ota_transfer_completes_witness:
  "\<exists>outs r' conn peer.
    (exchange_round demo_ota_env demo_ota_env (1, [2]) (3, [4]) 9 ^^ chunks_of demo_manifest)
      (fst (handle_manifest demo_ota_env 9 \<lparr> ev_type = 0xA0, ev_conn_handle = 3, ev_peer = [4], ev_payload = demo_manifest_raw \<rparr> demo_ota),
       demo_ota \<lparr> ot_can_serve := True, ot_serve_manifest := demo_manifest \<rparr>,
       snd (handle_manifest demo_ota_env 9 \<lparr> ev_type = 0xA0, ev_conn_handle = 3, ev_peer = [4], ev_payload = demo_manifest_raw \<rparr> demo_ota)) =
      (outs, demo_ota \<lparr> ot_can_serve := True, ot_serve_manifest := demo_manifest \<rparr>, r') \<and>
    mo_boot (ot_api r') = Some demo_image"
proof -
  let ?sv = "demo_ota \<lparr> ot_can_serve := True, ot_serve_manifest := demo_manifest \<rparr>"
  have "serves_image demo_ota_env ?sv demo_manifest demo_image"
    by (simp add: serves_image_def demo_manifest_def demo_image_def demo_ota_env_def)
  moreover have "bitle_sha256 (oe_psa demo_ota_env) demo_image = mf_sha256 demo_manifest"
    by (simp add: bitle_sha256_def digest_or_ff_def pad_psa_def demo_ota_env_def demo_image_def demo_manifest_def)
  moreover have "api_works (oe_api demo_ota_env) mem_obs" "api_never_fails (oe_api demo_ota_env)"
    "parse_manifest (oe_alg demo_ota_env) demo_manifest_raw = Some demo_manifest" "oe_next demo_ota_env = Some 1000"
    by (simp_all add: demo_ota_env_def mem_api_works demo_manifest_parse)
  moreover have "BITLE_FW_VERSION < mf_version demo_manifest" "unat (mf_size demo_manifest) \<le> 1000" "\<not> bitle_ota_busy demo_ota"
    by (simp_all add: demo_manifest_def BITLE_FW_VERSION_def bitle_ota_busy_def demo_ota_def ota_static_def zero_rx_def)
  moreover note mem_boot
  ultimately show ?thesis
    using ota_transfer_completes [of demo_ota_env mem_obs "\<lparr> ev_type = 0xA0, ev_conn_handle = 3, ev_peer = [4], ev_payload = demo_manifest_raw \<rparr>"
        demo_manifest 1000 demo_ota_env ?sv demo_image demo_ota "(1, [2])" "(3, [4])" 9]
    by auto
qed

end
