(* ===== verification/Lora_Trunk.thy ===== *)
theory Lora_Trunk
  imports Complex_Main Noise_Packet
begin

text \<open>
  The LoRa trunk of \<open>main/bitle_lora.c\<close>: admission of packets by an airtime governor and a
  throttle for announces, trimming of padding, the queue of whole packets, their fragmentation into
  frames with acknowledgements, reassembly, and the task that drives the radio. The radio
  (\<open>sx1262.c\<close>) is the record \<open>radio\<close> over its own state; the events it reports in one pass
  of the task are a list. The arithmetic on \<open>double\<close> is exact here, on rational numbers. Packets for the mesh and
  beacons are outputs.
\<close>

section \<open>State\<close>

definition PKT_MIN_LEN :: nat where "PKT_MIN_LEN = 22"
definition THROTTLE_SLOTS :: nat where "THROTTLE_SLOTS = 8"
definition ANNOUNCE_MIN_INTERVAL_MS :: u64 where "ANNOUNCE_MIN_INTERVAL_MS = 30000"
definition GOV_BURST_MS :: rat where "GOV_BURST_MS = 5000"
definition TRUNK_MAGIC0 :: u8 where "TRUNK_MAGIC0 = 0xB7"
definition TRUNK_MAGIC1 :: u8 where "TRUNK_MAGIC1 = 0x1E"
definition TRUNK_VERSION :: u8 where "TRUNK_VERSION = 0x02"
definition TRUNK_HDR_LEN :: nat where "TRUNK_HDR_LEN = 16"
definition FTYPE_ACK :: u8 where "FTYPE_ACK = 0x01"
definition FTYPE_ACK_REQ :: u8 where "FTYPE_ACK_REQ = 0x02"
definition SX1262_MAX_PAYLOAD :: nat where "SX1262_MAX_PAYLOAD = 255"
definition TRUNK_CHUNK_MAX :: nat where "TRUNK_CHUNK_MAX = SX1262_MAX_PAYLOAD - TRUNK_HDR_LEN"
definition TRUNK_CHUNK_TX :: nat where "TRUNK_CHUNK_TX = 120"
definition TRUNK_MAX_FRAGS :: nat where
  "TRUNK_MAX_FRAGS = (BITCHAT_BLE_MAX_PACKET_SIZE + TRUNK_CHUNK_TX - 1) div TRUNK_CHUNK_TX"
definition ARQ_TRIES :: nat where "ARQ_TRIES = 3"
definition ARQ_MARGIN_MS :: u64 where "ARQ_MARGIN_MS = 1200"
definition TX_BATCH_QUEUE_DEPTH :: nat where "TX_BATCH_QUEUE_DEPTH = 5"
definition CAD_RETRIES :: nat where "CAD_RETRIES = 5"
definition RX_SLOTS :: nat where "RX_SLOTS = 2"
definition RX_TIMEOUT_MS :: u64 where "RX_TIMEOUT_MS = 10000"
definition ACK_OUTBOX :: nat where "ACK_OUTBOX = 4"
definition BEACON_FIRST_MS :: u64 where "BEACON_FIRST_MS = 5000"
definition BEACON_INTERVAL_MS :: u64 where "BEACON_INTERVAL_MS = 60000"
definition BITLE_LORA_LINK_HANDLE :: u16 where "BITLE_LORA_LINK_HANDLE = 0x4000"

record lora_frame =
  fr_want_ack :: bool
  fr_data :: bytes

record lora_batch =
  ba_seq :: u16
  ba_total :: u8
  ba_want_ack :: bool
  ba_data :: bytes

record throttle =
  th_in_use :: bool
  th_tag :: bytes
  th_last_ms :: u64

record rx_slot =
  rs_in_use :: bool
  rs_src :: bytes
  rs_seq :: u16
  rs_total :: u8
  rs_have_mask :: u8
  rs_started_ms :: u64
  rs_part :: "bytes list"

record ack_slot =
  ak_dst :: bytes
  ak_seq :: u16
  ak_idx :: u8
  ak_total :: u8

record lora =
  lo_active :: bool
  lo_tx_queue :: "lora_batch list"
  lo_tx_seq :: u16
  lo_src_tag :: bytes
  lo_ack_seen :: bool
  lo_ack_seq :: u16
  lo_ack_idx :: u8
  lo_sf :: u8
  lo_bw :: u32
  lo_cr :: u8
  lo_ota_over_trunk :: bool
  lo_gov_credit_ms :: rat
  lo_gov_refill_frac :: rat
  lo_gov_last_ms :: u64
  lo_throttle :: "throttle list"
  lo_rx_slots :: "rx_slot list"
  lo_ack_outbox :: "ack_slot list"
  lo_ack_head :: nat
  lo_ack_count :: nat

definition zero_throttle :: throttle where
  "zero_throttle = \<lparr> th_in_use = False, th_tag = replicate 8 0, th_last_ms = 0 \<rparr>"

definition zero_rx_slot :: rx_slot where
  "zero_rx_slot = \<lparr> rs_in_use = False, rs_src = replicate 4 0, rs_seq = 0, rs_total = 0, rs_have_mask = 0,
     rs_started_ms = 0, rs_part = replicate TRUNK_MAX_FRAGS [] \<rparr>"

definition lora_static :: lora where
  "lora_static = \<lparr> lo_active = False, lo_tx_queue = [], lo_tx_seq = 0, lo_src_tag = replicate 4 0, lo_ack_seen = False,
     lo_ack_seq = 0, lo_ack_idx = 0, lo_sf = 0, lo_bw = 0, lo_cr = 0, lo_ota_over_trunk = False, lo_gov_credit_ms = 0,
     lo_gov_refill_frac = 0, lo_gov_last_ms = 0, lo_throttle = replicate THROTTLE_SLOTS zero_throttle,
     lo_rx_slots = replicate RX_SLOTS zero_rx_slot,
     lo_ack_outbox = replicate ACK_OUTBOX \<lparr> ak_dst = replicate 4 0, ak_seq = 0, ak_idx = 0, ak_total = 0 \<rparr>,
     lo_ack_head = 0, lo_ack_count = 0 \<rparr>"

text \<open>
  Both tables are searched in one loop that yields the last matching slot, the first free one and the
  one with the least time.
\<close>

definition last_index :: "('a \<Rightarrow> bool) \<Rightarrow> 'a list \<Rightarrow> nat option" where
  "last_index P xs = fold (\<lambda>i acc. if P (xs ! i) then Some i else acc) [0..<length xs] None"

definition oldest_index :: "('a \<Rightarrow> u64) \<Rightarrow> 'a list \<Rightarrow> nat" where
  "oldest_index f xs = fold (\<lambda>i m. if f (xs ! i) < f (xs ! m) then i else m) [0..<length xs] 0"

section \<open>Admission\<close>

definition lora_airtime_ms :: "lora \<Rightarrow> nat \<Rightarrow> u32" where
  "lora_airtime_ms l payload_len =
     (let sf = of_nat (unat (lo_sf l)) :: rat;
          tsym = 2 ^ unat (lo_sf l) / of_nat (unat (lo_bw l)) :: rat;
          tpre = (49 / 4) * tsym;
          de = (if lo_sf l \<ge> 11 \<and> lo_bw l = 125000 \<or> lo_sf l \<ge> 12 \<and> lo_bw l = 250000 then 1 else 0);
          cr = int (unat (lo_cr l)) - 4;
          num = 8 * of_nat payload_len - 4 * sf + 28 + 16;
          den = 4 * (sf - 2 * de);
          n = of_int (\<lceil>num / den\<rceil> * (cr + 4));
          n = (if n < 0 then 0 else n);
          t = tpre + (8 + n) * tsym
      in word_of_int \<lfloor>t * 1000 + 1 / 2\<rfloor>)"

definition announce_throttled :: "bytes \<Rightarrow> u64 \<Rightarrow> throttle list \<Rightarrow> bool \<times> throttle list" where
  "announce_throttled sender now ts =
     (case last_index (\<lambda>t. th_in_use t \<and> th_tag t = sender) ts of
        Some i \<Rightarrow>
          if now - th_last_ms (ts ! i) < ANNOUNCE_MIN_INTERVAL_MS then (True, ts)
          else (False, ts[i := (ts ! i) \<lparr> th_last_ms := now \<rparr>])
      | None \<Rightarrow>
          (let i = (case find_index (\<lambda>t. \<not> th_in_use t) ts of Some f \<Rightarrow> f | None \<Rightarrow> oldest_index th_last_ms ts)
           in (False, ts[i := \<lparr> th_in_use = True, th_tag = take 8 sender, th_last_ms = now \<rparr>])))"

definition is_beacon_type :: "u8 \<Rightarrow> bool" where
  "is_beacon_type t \<longleftrightarrow> t = BITCHAT_MSG_ANNOUNCE \<or> t = BITCHAT_MSG_NOISE_IDENTITY_ANNOUNCE \<or> t = BITCHAT_MSG_NODE_CAPABILITY"

definition is_identity_announce :: "u8 \<Rightarrow> bool" where
  "is_identity_announce t \<longleftrightarrow> t = BITCHAT_MSG_ANNOUNCE \<or> t = BITCHAT_MSG_NOISE_IDENTITY_ANNOUNCE"

definition frag_count :: "nat \<Rightarrow> u8" where
  "frag_count len = word_of_nat ((len + TRUNK_CHUNK_TX - 1) div TRUNK_CHUNK_TX)"

definition packet_airtime :: "lora \<Rightarrow> nat \<Rightarrow> u32" where
  "packet_airtime l len =
     sum_list (map (\<lambda>i. lora_airtime_ms l (TRUNK_HDR_LEN + min (len - i * TRUNK_CHUNK_TX) TRUNK_CHUNK_TX))
       [0..<unat (frag_count len)])"

definition gov_refill :: "u64 \<Rightarrow> lora \<Rightarrow> lora" where
  "gov_refill now l =
     l \<lparr> lo_gov_credit_ms := min GOV_BURST_MS
           (lo_gov_credit_ms l + of_nat (unat (now - lo_gov_last_ms l)) * lo_gov_refill_frac l),
         lo_gov_last_ms := now \<rparr>"

definition gov_debit :: "u32 \<Rightarrow> lora \<Rightarrow> lora" where
  "gov_debit airtime l = l \<lparr> lo_gov_credit_ms := max (- GOV_BURST_MS) (lo_gov_credit_ms l - of_nat (unat airtime)) \<rparr>"

definition trunk_admit :: "u64 \<Rightarrow> bytes \<Rightarrow> lora \<Rightarrow> bool \<times> lora" where
  "trunk_admit now data l =
     (if length data < PKT_MIN_LEN then (False, l)
      else let type = data ! 1; ota = type \<ge> 0xA0 \<and> type \<le> 0xA3
           in if ota \<and> \<not> lo_ota_over_trunk l then (False, l)
              else let airtime = packet_airtime l (length data); l1 = gov_refill now l
                   in if is_beacon_type type
                      then if lo_gov_credit_ms l1 < of_nat (unat airtime) then (False, l1)
                           else if is_identity_announce type
                                then case announce_throttled (bslice 14 8 data) now (lo_throttle l1) of
                                       (True, ts) \<Rightarrow> (False, l1 \<lparr> lo_throttle := ts \<rparr>)
                                     | (False, ts) \<Rightarrow> (True, gov_debit airtime (l1 \<lparr> lo_throttle := ts \<rparr>))
                                else (True, gov_debit airtime l1)
                      else (True, gov_debit airtime l1))"

section \<open>Sending\<close>

definition trunk_true_len :: "bytes \<Rightarrow> nat" where
  "trunk_true_len data =
     (if length data < 14 then length data
      else let flags = data ! 11;
               payload_len = unat (be_val (bslice 12 2 data) :: u16);
               real = 22 + payload_len + (if flags AND 0x01 \<noteq> 0 then 8 else 0) + (if flags AND 0x02 \<noteq> 0 then 64 else 0)
           in if real \<le> length data then real else length data)"

definition lora_link_send :: "u64 \<Rightarrow> bytes \<Rightarrow> lora \<Rightarrow> int \<times> lora" where
  "lora_link_send now data l =
     (if \<not> lo_active l \<or> data = [] \<or> length data > BITCHAT_BLE_MAX_PACKET_SIZE then (-1, l)
      else let len = trunk_true_len data; pkt = take len data
           in if len < PKT_MIN_LEN then (0, l)
              else let want_ack = \<not> is_beacon_type (pkt ! 1); tot = frag_count len
                   in if tot = 0 \<or> unat tot > TRUNK_MAX_FRAGS then (-1, l)
                      else if length (lo_tx_queue l) \<ge> TX_BATCH_QUEUE_DEPTH then (-1, l)
                      else case trunk_admit now pkt l of
                             (False, l1) \<Rightarrow> (0, l1)
                           | (True, l1) \<Rightarrow>
                               (let seq = lo_tx_seq l1 + 1
                                in (0, l1 \<lparr> lo_tx_seq := seq,
                                     lo_tx_queue := lo_tx_queue l1 @
                                       [\<lparr> ba_seq = seq, ba_total = tot, ba_want_ack = want_ack, ba_data = pkt \<rparr>] \<rparr>)))"

definition trunk_header :: "u8 \<Rightarrow> bytes \<Rightarrow> bytes \<Rightarrow> u16 \<Rightarrow> u8 \<Rightarrow> u8 \<Rightarrow> bytes" where
  "trunk_header ftype src dst seq idx tot =
     [TRUNK_MAGIC0, TRUNK_MAGIC1, TRUNK_VERSION, ftype] @ take 4 src @ take 4 dst @ be_enc 2 seq @ [idx, tot]"

definition batch_next_frame :: "bytes \<Rightarrow> lora_batch \<Rightarrow> u8 \<Rightarrow> (u8 \<times> lora_frame) option" where
  "batch_next_frame src batch next_idx =
     (if next_idx \<ge> ba_total batch then None
      else let off = unat next_idx * TRUNK_CHUNK_TX
           in Some (next_idx + 1,
                \<lparr> fr_want_ack = ba_want_ack batch,
                  fr_data = trunk_header (if ba_want_ack batch then FTYPE_ACK_REQ else 0) src (replicate 4 0)
                      (ba_seq batch) next_idx (ba_total batch) @ bslice off TRUNK_CHUNK_TX (ba_data batch) \<rparr>))"

section \<open>Acknowledgements\<close>

definition queue_ack :: "bytes \<Rightarrow> u16 \<Rightarrow> u8 \<Rightarrow> u8 \<Rightarrow> lora \<Rightarrow> lora" where
  "queue_ack dst seq idx tot l =
     (if lo_ack_count l \<ge> ACK_OUTBOX then l
      else l \<lparr> lo_ack_outbox := (lo_ack_outbox l)[(lo_ack_head l + lo_ack_count l) mod ACK_OUTBOX :=
                 \<lparr> ak_dst = take 4 dst, ak_seq = seq, ak_idx = idx, ak_total = tot \<rparr>],
               lo_ack_count := lo_ack_count l + 1 \<rparr>)"

record 'w radio =
  rd_transmit :: "bytes \<Rightarrow> 'w \<Rightarrow> esp_err \<times> 'w"
  rd_start_cad :: "'w \<Rightarrow> esp_err \<times> 'w"
  rd_resume_rx :: "'w \<Rightarrow> 'w"

definition transmit_ack_now :: "'w radio \<Rightarrow> lora \<Rightarrow> 'w \<Rightarrow> bool \<times> lora \<times> 'w" where
  "transmit_ack_now rd l w =
     (if lo_ack_count l = 0 then (False, l, w)
      else let a = lo_ack_outbox l ! lo_ack_head l;
               f = trunk_header FTYPE_ACK (lo_src_tag l) (ak_dst a) (ak_seq a) (ak_idx a) (ak_total a);
               l' = l \<lparr> lo_ack_head := (lo_ack_head l + 1) mod ACK_OUTBOX, lo_ack_count := lo_ack_count l - 1 \<rparr>
           in case rd_transmit rd f w of
                (err, w') \<Rightarrow> if err = ESP_OK then (True, l', w') else (False, l', rd_resume_rx rd w'))"

section \<open>Receiving\<close>

definition rx_expire :: "u64 \<Rightarrow> rx_slot \<Rightarrow> rx_slot" where
  "rx_expire now s = (if rs_in_use s \<and> now - rs_started_ms s > RX_TIMEOUT_MS then s \<lparr> rs_in_use := False \<rparr> else s)"

definition rx_match :: "bytes \<Rightarrow> u16 \<Rightarrow> rx_slot \<Rightarrow> bool" where
  "rx_match src seq s \<longleftrightarrow> rs_in_use s \<and> rs_seq s = seq \<and> rs_src s = src"

definition rx_slot_for :: "bytes \<Rightarrow> u16 \<Rightarrow> u8 \<Rightarrow> u64 \<Rightarrow> rx_slot list \<Rightarrow> nat \<times> rx_slot list" where
  "rx_slot_for src seq tot now slots =
     (let slots1 = map (rx_expire now) slots
      in case last_index (rx_match src seq) slots1 of
           Some i \<Rightarrow> (i, slots1)
         | None \<Rightarrow>
             (let i = (case find_index (\<lambda>s. \<not> rs_in_use s) slots1 of Some f \<Rightarrow> f | None \<Rightarrow> oldest_index rs_started_ms slots1)
              in (i, slots1[i := zero_rx_slot \<lparr> rs_in_use := True, rs_src := src, rs_seq := seq, rs_total := tot,
                       rs_started_ms := now \<rparr>])))"

definition rx_put :: "nat \<Rightarrow> bytes \<Rightarrow> rx_slot \<Rightarrow> rx_slot" where
  "rx_put idx chunk s =
     s \<lparr> rs_part := (rs_part s)[idx := chunk], rs_have_mask := rs_have_mask s OR push_bit idx 1 \<rparr>"

definition rx_complete :: "rx_slot \<Rightarrow> bool" where
  "rx_complete s \<longleftrightarrow> (let want = push_bit (unat (rs_total s)) 1 - 1 in rs_have_mask s AND want = want)"

text \<open>The copy stops when the packet would exceed its buffer.\<close>

definition rx_assemble :: "rx_slot \<Rightarrow> bytes option" where
  "rx_assemble s =
     fold_opt (\<lambda>i acc. if length acc + length (rs_part s ! i) > BITCHAT_BLE_MAX_PACKET_SIZE then None
                       else Some (acc @ rs_part s ! i)) [0..<unat (rs_total s)] []"

definition rx_store ::
  "bytes \<Rightarrow> u16 \<Rightarrow> u8 \<Rightarrow> nat \<Rightarrow> bytes \<Rightarrow> u64 \<Rightarrow> rx_slot list \<Rightarrow> rx_slot list \<times> rx_slot option" where
  "rx_store src seq tot idx chunk now slots =
     (case rx_slot_for src seq tot now slots of
        (i, slots1) \<Rightarrow>
          if rs_total (slots1 ! i) \<noteq> tot then (slots1, None)
          else let s = rx_put idx chunk (slots1 ! i)
               in if \<not> rx_complete s then (slots1[i := s], None)
                  else (slots1[i := s \<lparr> rs_in_use := False \<rparr>], Some s))"

definition rx_data :: "u64 \<Rightarrow> bytes \<Rightarrow> lora \<Rightarrow> bytes option \<times> lora" where
  "rx_data now f l =
     (let src = bslice 4 4 f; seq = be_val (bslice 12 2 f); idx = f ! 14; tot = f ! 15; chunk = drop TRUNK_HDR_LEN f
      in if tot = 0 \<or> unat tot > TRUNK_MAX_FRAGS \<or> idx \<ge> tot \<or> length chunk > TRUNK_CHUNK_MAX then (None, l)
         else case rx_store src seq tot (unat idx) chunk now (lo_rx_slots l) of
                (slots, done_slot) \<Rightarrow> (Option.bind done_slot rx_assemble, l \<lparr> lo_rx_slots := slots \<rparr>))"

definition rx_frame :: "u64 \<Rightarrow> bytes \<Rightarrow> lora \<Rightarrow> bytes option \<times> lora" where
  "rx_frame now f l =
     (if length f < TRUNK_HDR_LEN \<or> f ! 0 \<noteq> TRUNK_MAGIC0 \<or> f ! 1 \<noteq> TRUNK_MAGIC1 \<or> f ! 2 \<noteq> TRUNK_VERSION then (None, l)
      else if bslice 4 4 f = lo_src_tag l then (None, l)
      else let seq = be_val (bslice 12 2 f) :: u16; idx = f ! 14; tot = f ! 15
           in if f ! 3 AND FTYPE_ACK \<noteq> 0
              then (None, if bslice 8 4 f = lo_src_tag l
                          then l \<lparr> lo_ack_seen := True, lo_ack_seq := seq, lo_ack_idx := idx \<rparr> else l)
              else let l1 = (if f ! 3 AND FTYPE_ACK_REQ \<noteq> 0 then queue_ack (bslice 4 4 f) seq idx tot l else l)
                   in if length f < TRUNK_HDR_LEN + 1 then (None, l1) else rx_data now f l1)"

section \<open>The radio task\<close>

datatype radio_event =
    Rx_Done bytes
  | Tx_Done
  | Cad_Clear
  | Cad_Busy
  | Radio_Timeout
  | Rx_Crc_Error

datatype lora_out =
    Inbound bytes
  | Beacon

record lora_local =
  lt_batch :: lora_batch
  lt_have_batch :: bool
  lt_batch_next_idx :: u8
  lt_pending :: lora_frame
  lt_have_pending :: bool
  lt_cad_tries :: nat
  lt_arq_sends :: nat
  lt_awaiting_tx_done :: bool
  lt_tx_is_ack :: bool
  lt_awaiting_cad :: bool
  lt_awaiting_ack :: bool
  lt_ack_deadline :: u64
  lt_next_beacon_ms :: u64

definition lora_task_start :: lora_local where
  "lora_task_start = \<lparr> lt_batch = \<lparr> ba_seq = 0, ba_total = 0, ba_want_ack = False, ba_data = [] \<rparr>, lt_have_batch = False,
     lt_batch_next_idx = 0, lt_pending = \<lparr> fr_want_ack = False, fr_data = [] \<rparr>, lt_have_pending = False,
     lt_cad_tries = 0, lt_arq_sends = 0, lt_awaiting_tx_done = False, lt_tx_is_ack = False, lt_awaiting_cad = False,
     lt_awaiting_ack = False, lt_ack_deadline = 0, lt_next_beacon_ms = BEACON_FIRST_MS \<rparr>"

definition drop_batch :: "lora_local \<Rightarrow> lora_local" where
  "drop_batch t = t \<lparr> lt_have_pending := False, lt_have_batch := False \<rparr>"

definition start_cad_or_drop :: "'w radio \<Rightarrow> lora_local \<Rightarrow> 'w \<Rightarrow> lora_local \<times> 'w" where
  "start_cad_or_drop rd t w =
     (case rd_start_cad rd w of
        (err, w') \<Rightarrow> if err = ESP_OK then (t \<lparr> lt_awaiting_cad := True \<rparr>, w') else (drop_batch t, w'))"

definition send_ack :: "'w radio \<Rightarrow> lora \<Rightarrow> lora_local \<Rightarrow> 'w \<Rightarrow> lora \<times> lora_local \<times> 'w" where
  "send_ack rd l t w =
     (case transmit_ack_now rd l w of
        (sent, l', w') \<Rightarrow> (l', if sent then t \<lparr> lt_awaiting_tx_done := True, lt_tx_is_ack := True \<rparr> else t, w'))"

definition on_tx_done :: "'w radio \<Rightarrow> u64 \<Rightarrow> lora \<Rightarrow> lora_local \<Rightarrow> 'w \<Rightarrow> lora_local \<times> 'w" where
  "on_tx_done rd now l t w =
     (let t = t \<lparr> lt_awaiting_tx_done := False \<rparr>; w = rd_resume_rx rd w
      in (if lt_tx_is_ack t
          then (let t = t \<lparr> lt_tx_is_ack := False \<rparr>
                in if lt_awaiting_ack t
                   then t \<lparr> lt_ack_deadline := lt_ack_deadline t + ucast (lora_airtime_ms l TRUNK_HDR_LEN) + 300 \<rparr> else t)
          else if lt_have_pending t \<and> fr_want_ack (lt_pending t)
               then t \<lparr> lt_awaiting_ack := True,
                        lt_ack_deadline := now + ucast (lora_airtime_ms l TRUNK_HDR_LEN) + ARQ_MARGIN_MS \<rparr>
               else t \<lparr> lt_have_pending := False \<rparr>, w))"

definition on_cad_clear :: "'w radio \<Rightarrow> lora \<Rightarrow> lora_local \<Rightarrow> 'w \<Rightarrow> lora \<times> lora_local \<times> 'w" where
  "on_cad_clear rd l t w =
     (let t = t \<lparr> lt_awaiting_cad := False \<rparr>
      in if lo_ack_count l > 0 then send_ack rd l t w
         else if lt_have_pending t
              then case rd_transmit rd (fr_data (lt_pending t)) w of
                     (err, w') \<Rightarrow>
                       if err = ESP_OK then (l, t \<lparr> lt_awaiting_tx_done := True, lt_arq_sends := lt_arq_sends t + 1 \<rparr>, w')
                       else (l, drop_batch t, rd_resume_rx rd w')
              else (l, t, w))"

definition on_cad_busy :: "'w radio \<Rightarrow> lora_local \<Rightarrow> 'w \<Rightarrow> lora_local \<times> 'w" where
  "on_cad_busy rd t w =
     (let t = t \<lparr> lt_awaiting_cad := False \<rparr>;
          t1 = (if lt_have_pending t then t \<lparr> lt_cad_tries := lt_cad_tries t + 1 \<rparr> else t)
      in if lt_have_pending t1 \<and> lt_cad_tries t1 \<le> CAD_RETRIES
         then case rd_start_cad rd w of
                (err, w') \<Rightarrow> (if err = ESP_OK then t1 \<lparr> lt_awaiting_cad := True \<rparr> else t1, w')
         else (drop_batch t1, rd_resume_rx rd w))"

definition lora_event ::
  "'w radio \<Rightarrow> u64 \<Rightarrow> radio_event \<Rightarrow> lora \<times> lora_local \<times> 'w \<Rightarrow> lora_out list \<times> lora \<times> lora_local \<times> 'w" where
  "lora_event rd now ev st = (case st of (l, t, w) \<Rightarrow>
     (case ev of
        Rx_Done f \<Rightarrow>
          if f = [] then ([], l, t, w)
          else (case rx_frame now f l of
                  (None, l') \<Rightarrow> ([], l', t, w)
                | (Some p, l') \<Rightarrow> ([Inbound p], l', t, w))
      | Tx_Done \<Rightarrow> ([], l, on_tx_done rd now l t w)
      | Cad_Clear \<Rightarrow> ([], on_cad_clear rd l t w)
      | Cad_Busy \<Rightarrow> ([], l, on_cad_busy rd t w)
      | Radio_Timeout \<Rightarrow>
          ([], l, (drop_batch t) \<lparr> lt_awaiting_tx_done := False, lt_awaiting_ack := False \<rparr>, rd_resume_rx rd w)
      | Rx_Crc_Error \<Rightarrow> ([], l, t, w)))"

fun lora_events ::
  "'w radio \<Rightarrow> (u64 \<times> radio_event) list \<Rightarrow> lora \<times> lora_local \<times> 'w \<Rightarrow> lora_out list \<times> lora \<times> lora_local \<times> 'w" where
  "lora_events rd [] st = ([], st)"
| "lora_events rd ((now, e) # es) st =
     (case lora_event rd now e st of (o1, st1) \<Rightarrow> case lora_events rd es st1 of (o2, st2) \<Rightarrow> (o1 @ o2, st2))"

text \<open>The four steps after the events: acknowledgements, the wait for one, re-arming, the next frame.\<close>

definition flush_acks :: "'w radio \<Rightarrow> lora \<times> lora_local \<times> 'w \<Rightarrow> lora \<times> lora_local \<times> 'w" where
  "flush_acks rd st = (case st of (l, t, w) \<Rightarrow>
     if lo_ack_count l > 0 \<and> \<not> lt_awaiting_tx_done t \<and> \<not> lt_awaiting_cad t then send_ack rd l t w else (l, t, w))"

definition resolve_ack :: "'w radio \<Rightarrow> u64 \<Rightarrow> lora \<times> lora_local \<times> 'w \<Rightarrow> lora \<times> lora_local \<times> 'w" where
  "resolve_ack rd now st = (case st of (l, t, w) \<Rightarrow>
     if lt_awaiting_ack t \<and> lt_have_pending t
     then let pseq = be_val (bslice 12 2 (fr_data (lt_pending t))); pidx = fr_data (lt_pending t) ! 14
          in if lo_ack_seen l \<and> lo_ack_seq l = pseq \<and> lo_ack_idx l = pidx
             then (l \<lparr> lo_ack_seen := False \<rparr>, t \<lparr> lt_awaiting_ack := False, lt_have_pending := False \<rparr>, w)
             else if now \<ge> lt_ack_deadline t
                  then let t = t \<lparr> lt_awaiting_ack := False \<rparr>
                       in if lt_arq_sends t < ARQ_TRIES
                          then (l, start_cad_or_drop rd (t \<lparr> lt_cad_tries := 0 \<rparr>) w)
                          else (l, drop_batch t, w)
                  else (l, t, w)
     else (l, t, w))"

definition rearm :: "'w radio \<Rightarrow> lora \<times> lora_local \<times> 'w \<Rightarrow> lora \<times> lora_local \<times> 'w" where
  "rearm rd st = (case st of (l, t, w) \<Rightarrow>
     if lt_have_pending t \<and> \<not> lt_awaiting_cad t \<and> \<not> lt_awaiting_tx_done t \<and> \<not> lt_awaiting_ack t
     then (l, start_cad_or_drop rd t w) else (l, t, w))"

definition next_frame :: "'w radio \<Rightarrow> lora \<times> lora_local \<times> 'w \<Rightarrow> lora \<times> lora_local \<times> 'w" where
  "next_frame rd st = (case st of (l, t, w) \<Rightarrow>
     if \<not> lt_have_pending t \<and> \<not> lt_awaiting_tx_done t \<and> \<not> lt_awaiting_cad t \<and> \<not> lt_awaiting_ack t
     then let t1 = (if lt_have_batch t \<and> lt_batch_next_idx t \<ge> ba_total (lt_batch t) then t \<lparr> lt_have_batch := False \<rparr> else t)
          in case (if lt_have_batch t1 then (l, t1)
                   else case lo_tx_queue l of
                          [] \<Rightarrow> (l, t1)
                        | b # q \<Rightarrow> (l \<lparr> lo_tx_queue := q \<rparr>, t1 \<lparr> lt_batch := b, lt_have_batch := True, lt_batch_next_idx := 0 \<rparr>)) of
               (l2, t2) \<Rightarrow>
                 if lt_have_batch t2
                 then case batch_next_frame (lo_src_tag l2) (lt_batch t2) (lt_batch_next_idx t2) of
                        None \<Rightarrow> (l2, t2, w)
                      | Some (i, f) \<Rightarrow>
                          (l2 \<lparr> lo_ack_seen := False \<rparr>,
                           start_cad_or_drop rd (t2 \<lparr> lt_batch_next_idx := i, lt_pending := f, lt_have_pending := True,
                             lt_cad_tries := 0, lt_arq_sends := 0 \<rparr>) w)
                 else (l2, t2, w)
     else (l, t, w))"

definition lora_tick :: "u64 \<Rightarrow> lora_local \<Rightarrow> lora_local" where
  "lora_tick now t = (if now \<ge> lt_next_beacon_ms t then t \<lparr> lt_next_beacon_ms := now + BEACON_INTERVAL_MS \<rparr> else t)"

text \<open>
  One pass of the task: the clock is read at its start, at each event and after the events.
\<close>

definition lora_pass ::
  "'w radio \<Rightarrow> u64 \<Rightarrow> (u64 \<times> radio_event) list \<Rightarrow> u64 \<Rightarrow> lora \<times> lora_local \<times> 'w \<Rightarrow> lora_out list \<times> lora \<times> lora_local \<times> 'w" where
  "lora_pass rd now events now2 st = (case st of (l, t, w) \<Rightarrow>
     (case lora_events rd events (l, lora_tick now t, w) of
        (outs, st1) \<Rightarrow>
          ((if now \<ge> lt_next_beacon_ms t then [Beacon] else []) @ outs,
           next_frame rd (rearm rd (resolve_ack rd now2 (flush_acks rd st1))))))"

section \<open>Start\<close>

record lora_nvs =
  ln_enabled :: "u8 option"
  ln_freq :: "u32 option"
  ln_sf :: "u8 option"
  ln_duty_pct :: "u8 option"
  ln_ota_trunk :: "u8 option"

record lora_boot =
  lb_nvs :: "lora_nvs option"
  lb_detect :: bool
  lb_local_id :: bytes
  lb_mutex_ok :: bool
  lb_queue_ok :: bool
  lb_task_ok :: bool
  lb_radio_init :: "u32 \<Rightarrow> u8 \<Rightarrow> esp_err"

definition nvs_in :: "('a \<Rightarrow> bool) \<Rightarrow> 'a \<Rightarrow> 'a option \<Rightarrow> 'a" where
  "nvs_in ok d v = (case v of Some x \<Rightarrow> if ok x then x else d | None \<Rightarrow> d)"

text \<open>
  \<open>lb_radio_init\<close> is \<open>sx1262_init\<close> at a frequency and a spreading factor. The send function is
  the parameter \<open>fn\<close> that the link registry keeps.
\<close>

definition bitle_lora_init :: "lora_boot \<Rightarrow> u64 \<Rightarrow> 'f \<Rightarrow> lora \<Rightarrow> 'f links \<Rightarrow> esp_err \<times> lora \<times> 'f links" where
  "bitle_lora_init b now fn l ls =
     (let off = lb_nvs b \<noteq> None \<and> nvs_in (\<lambda>_. True) 1 (ln_enabled (the (lb_nvs b))) = 0;
          freq = (case lb_nvs b of None \<Rightarrow> 911500000
                  | Some n \<Rightarrow> nvs_in (\<lambda>f. f \<ge> 902000000 \<and> f \<le> 928000000) 911500000 (ln_freq n));
          sf = (case lb_nvs b of None \<Rightarrow> 10 | Some n \<Rightarrow> nvs_in (\<lambda>s. s \<ge> 7 \<and> s \<le> 12) 10 (ln_sf n));
          duty = (case lb_nvs b of None \<Rightarrow> 25 | Some n \<Rightarrow> nvs_in (\<lambda>d. d \<ge> 1 \<and> d \<le> 50) 25 (ln_duty_pct n));
          l0 = (case lb_nvs b of None \<Rightarrow> l | Some n \<Rightarrow> l \<lparr> lo_ota_over_trunk := nvs_in (\<lambda>_. True) 0 (ln_ota_trunk n) \<noteq> 0 \<rparr>)
      in if off then (ESP_OK, l0, ls)
         else if \<not> lb_detect b then (ESP_OK, l0, ls)
         else let l1 = l0 \<lparr> lo_src_tag := take 4 (lb_local_id b), lo_sf := sf, lo_bw := 125000, lo_cr := 5,
                            lo_gov_refill_frac := of_nat (unat duty) / 100, lo_gov_credit_ms := GOV_BURST_MS, lo_gov_last_ms := now \<rparr>
              in if \<not> lb_mutex_ok b then (ESP_ERR_NO_MEM, l1, ls)
                 else if \<not> lb_queue_ok b then (ESP_ERR_NO_MEM, l1, ls)
                 else if \<not> lb_task_ok b then (ESP_ERR_NO_MEM, l1, ls)
                 else if lb_radio_init b freq sf \<noteq> ESP_OK then (lb_radio_init b freq sf, l1, ls)
                 else (ESP_OK, l1 \<lparr> lo_active := True \<rparr>,
                       snd (bitle_link_register BITLE_LORA_LINK_HANDLE BITLE_LINK_LORA (Some fn) ls)))"

definition bitle_lora_active :: "lora \<Rightarrow> bool" where
  "bitle_lora_active l = lo_active l"

section \<open>Searching the tables\<close>







section \<open>Reassembly\<close>



definition fresh_rx :: "bytes \<Rightarrow> u16 \<Rightarrow> u8 \<Rightarrow> u64 \<Rightarrow> rx_slot" where
  "fresh_rx src seq tot now =
     zero_rx_slot \<lparr> rs_in_use := True, rs_src := src, rs_seq := seq, rs_total := tot, rs_started_ms := now \<rparr>"


lemma rx_put_fields [simp]:
  "rs_in_use (rx_put j c s) = rs_in_use s" "rs_src (rx_put j c s) = rs_src s" "rs_seq (rx_put j c s) = rs_seq s"
  "rs_total (rx_put j c s) = rs_total s" "rs_started_ms (rx_put j c s) = rs_started_ms s"
  by (simp_all add: rx_put_def)

lemma fresh_rx_fields [simp]:
  "rs_in_use (fresh_rx a b c d)" "rs_src (fresh_rx a b c d) = a" "rs_seq (fresh_rx a b c d) = b"
  "rs_total (fresh_rx a b c d) = c" "rs_started_ms (fresh_rx a b c d) = d" "rs_have_mask (fresh_rx a b c d) = 0"
  "rs_part (fresh_rx a b c d) = replicate TRUNK_MAX_FRAGS []"
  by (simp_all add: fresh_rx_def zero_rx_slot_def)








section \<open>From the sender's batch to the receiver's packet\<close>









lemma queue_ack_fields [simp]:
  "lo_rx_slots (queue_ack d q i t l) = lo_rx_slots l" "lo_src_tag (queue_ack d q i t l) = lo_src_tag l"
  by (simp_all add: queue_ack_def)








lemma gov_fields [simp]:
  "lo_tx_queue (gov_refill n l) = lo_tx_queue l" "lo_tx_queue (gov_debit a l) = lo_tx_queue l"
  "lo_tx_seq (gov_refill n l) = lo_tx_seq l" "lo_tx_seq (gov_debit a l) = lo_tx_seq l"
  by (simp_all add: gov_refill_def gov_debit_def)




lemma be_val_high_zero:
  assumes "length bs = 4" "(be_val bs :: u32) \<le> 65535"
  shows "(be_val (take 2 bs) :: u16) = 0"
proof -
  define w :: u32 where "w = be_val bs"
  have "unat w < 65536" using assms(2) by (simp add: w_def word_le_nat_alt)
  then have "unat (drop_bit 16 w) = 0" by (simp add: drop_bit_eq_div unat_div)
  then have z: "drop_bit 16 w = 0" by (simp add: unsigned_eq_0_iff)
  then have z': "drop_bit 24 w = 0" using drop_bit_drop_bit [of 8 16 w] by simp
  have "take 2 bs = take 2 (be_enc 4 w)" using be_enc_val_len [OF assms(1), where 'a = 32] by (simp add: w_def)
  also have "\<dots> = [0, 0]" using z z' by (simp add: be_enc_def upt_rec)
  finally show ?thesis by (simp add: be_val_def)
qed

lemma true_len_v2:
  assumes "bitchat_packet_decode env data = Some p" "pk_version p = 2"
  shows "bitchat_packet_decode env (take (trunk_true_len data) data) = None"
proof -
  obtain h off1 where h: "decode_header data = Some (h, off1)" "pk_version p = wh_version h"
    using assms(1) by (rule decodeE) blast
  note hd = decode_headerE [OF h(1)]
  have v: "data ! 0 = 2" "off1 = 24" "(be_val (bslice 12 4 data) :: u32) \<le> 65535" "24 \<le> length data"
    using hd(1,2,8,9) h(2) assms(2) by auto
  have "take 2 (bslice 12 4 data) = bslice 12 2 data" by (simp add: bslice_def)
  then have z: "(be_val (bslice 12 2 data) :: u16) = 0" using be_val_high_zero [of "bslice 12 4 data"] v by simp
  define n where "n = trunk_true_len data"
  define m :: nat where "m = 22 + (if data ! 11 AND 0x01 \<noteq> 0 then 8 else 0) + (if data ! 11 AND 0x02 \<noteq> 0 then 64 else 0)"
  obtain w where w: "relay_wire_opt data = Some w" using decode_wire_opt [OF assms(1)] by blast
  have "m < w" "w \<le> length data"
    using w by (auto simp: m_def relay_header_def v Let_def split: if_split_asm elim!: relay_wire_optD dest!: relay_route_ge)
  then have n: "n = m" using v(4) unfolding n_def trunk_true_len_def Let_def z m_def by auto
  have nl: "m \<le> length data" "22 \<le> m" using \<open>m < w\<close> \<open>w \<le> length data\<close> by (simp_all add: m_def)
  have t: "take m data ! 0 = 2" "take m data ! 11 = data ! 11" using nl v by simp_all
  show ?thesis
  proof (rule ccontr)
    assume "bitchat_packet_decode env (take (trunk_true_len data) data) \<noteq> None"
    then obtain q where q: "bitchat_packet_decode env (take m data) = Some q" using n n_def by auto
    obtain w' where w': "relay_wire_opt (take m data) = Some w'" using decode_wire_opt [OF q] by blast
    then show False using t nl by (auto simp: m_def relay_header_def Let_def split: if_split_asm elim!: relay_wire_optD dest!: relay_route_ge)
  qed
qed

section \<open>The airtime governor\<close>

definition gov_inv :: "lora \<Rightarrow> bool" where
  "gov_inv l \<longleftrightarrow> 0 \<le> lo_gov_refill_frac l \<and> - GOV_BURST_MS \<le> lo_gov_credit_ms l \<and> lo_gov_credit_ms l \<le> GOV_BURST_MS"

lemma unsigned_rat_nonneg: "0 \<le> (unsigned (w :: 'a::len word) :: rat)"
  by (metis of_nat_0_le_iff of_nat_unat)

text \<open>The airtime of the beacons among a sequence of packets that are admitted.\<close>

fun beacon_airtime :: "(u64 \<times> bytes) list \<Rightarrow> lora \<Rightarrow> nat" where
  "beacon_airtime [] l = 0"
| "beacon_airtime ((now, data) # es) l =
     (case trunk_admit now data l of
        (ok, l') \<Rightarrow> (if ok \<and> is_beacon_type (data ! 1) then unat (packet_airtime l (length data)) else 0) + beacon_airtime es l')"

text \<open>Times that never go back, from \<open>t\<close> on.\<close>

fun clock_from :: "u64 \<Rightarrow> u64 list \<Rightarrow> bool" where
  "clock_from t [] = True"
| "clock_from t (x # xs) \<longleftrightarrow> t \<le> x \<and> clock_from x xs"

lemma clock_from_weaken: "clock_from t xs \<Longrightarrow> s \<le> t \<Longrightarrow> clock_from s xs"
  by (cases xs) auto

lemma clock_from_end: "clock_from t (xs @ [e]) \<Longrightarrow> t \<le> e"
  by (induction xs arbitrary: t) (auto intro: order_trans)

lemma trunk_admit_cases:
  assumes "trunk_admit now data l = (ok, l')"
  obtains (refused) "\<not> ok" "l' = l"
  | (deferred) ts where "\<not> ok" "l' = (gov_refill now l) \<lparr> lo_throttle := ts \<rparr>"
  | (sent) ts where "ok" "l' = gov_debit (packet_airtime l (length data)) ((gov_refill now l) \<lparr> lo_throttle := ts \<rparr>)"
      "is_beacon_type (data ! 1) \<longrightarrow> of_nat (unat (packet_airtime l (length data))) \<le> lo_gov_credit_ms (gov_refill now l)"
proof -
  let ?l1 = "gov_refill now l"
  have s: "?l1 = ?l1 \<lparr> lo_throttle := lo_throttle ?l1 \<rparr>" by simp
  have s1: "\<exists>ts. gov_debit a ?l1 = gov_debit a (?l1 \<lparr> lo_throttle := ts \<rparr>)" for a using s by metis
  show thesis
  proof (cases "\<not> ok \<and> l' = l")
    case True then show thesis using refused by simp
  next
    case ne: False
    show thesis
    proof (cases ok)
      case True
      then have "\<exists>ts. l' = gov_debit (packet_airtime l (length data)) (?l1 \<lparr> lo_throttle := ts \<rparr>) \<and>
        (is_beacon_type (data ! 1) \<longrightarrow> of_nat (unat (packet_airtime l (length data))) \<le> lo_gov_credit_ms ?l1)"
        using assms by (auto simp: trunk_admit_def Let_def not_less intro!: s1 split: if_split_asm prod.splits bool.splits)
      then show thesis using sent True by blast
    next
      case False
      then have "\<exists>ts. l' = ?l1 \<lparr> lo_throttle := ts \<rparr>"
        using ne assms by (auto simp: trunk_admit_def Let_def intro: exI [of _ "lo_throttle ?l1"] split: if_split_asm prod.splits bool.splits)
      then show thesis using deferred False by blast
    qed
  qed
qed

lemma gov_refill_credit:
  assumes "gov_inv l"
  shows "gov_inv (gov_refill now l)" "lo_gov_refill_frac (gov_refill now l) = lo_gov_refill_frac l"
    "lo_gov_credit_ms (gov_refill now l) \<le> lo_gov_credit_ms l + lo_gov_refill_frac l * of_nat (unat (now - lo_gov_last_ms l))"
proof -
  have "0 \<le> of_nat (unat (now - lo_gov_last_ms l)) * lo_gov_refill_frac l"
    using assms by (simp add: gov_inv_def unsigned_rat_nonneg)
  then show "gov_inv (gov_refill now l)" using assms by (auto simp: gov_inv_def gov_refill_def GOV_BURST_MS_def)
qed (simp_all add: gov_refill_def mult.commute)

lemma gov_debit_credit:
  assumes "gov_inv l"
  shows "gov_inv (gov_debit a l)" "lo_gov_credit_ms (gov_debit a l) \<le> lo_gov_credit_ms l"
    "of_nat (unat a) \<le> lo_gov_credit_ms l \<Longrightarrow> lo_gov_credit_ms (gov_debit a l) = lo_gov_credit_ms l - of_nat (unat a)"
  using assms unsigned_rat_nonneg [of a] by (auto simp: gov_inv_def gov_debit_def GOV_BURST_MS_def)

lemma trunk_admit_gov:
  assumes a: "trunk_admit now data l = (ok, l')" and g: "gov_inv l" and t: "lo_gov_last_ms l \<le> now"
    and b_def: "b = (if ok \<and> is_beacon_type (data ! 1) then unat (packet_airtime l (length data)) else 0)"
  shows "gov_inv l' \<and> lo_gov_refill_frac l' = lo_gov_refill_frac l \<and> lo_gov_last_ms l \<le> lo_gov_last_ms l' \<and> lo_gov_last_ms l' \<le> now \<and>
     lo_gov_credit_ms l' + of_nat b \<le> lo_gov_credit_ms l + lo_gov_refill_frac l * of_nat (unat (lo_gov_last_ms l' - lo_gov_last_ms l)) \<and>
     (b \<noteq> 0 \<longrightarrow> 0 \<le> lo_gov_credit_ms l')"
  using a
proof (cases rule: trunk_admit_cases)
  case refused
  then show ?thesis using g t by (simp add: b_def)
next
  case (deferred ts)
  note r = gov_refill_credit [OF g, of now]
  have "gov_inv l'" using r(1) by (simp add: deferred gov_inv_def)
  then show ?thesis using deferred r t by (simp add: b_def gov_refill_def)
next
  case (sent ts)
  let ?l1 = "(gov_refill now l) \<lparr> lo_throttle := ts \<rparr>"
  note r = gov_refill_credit [OF g, of now]
  have g1: "gov_inv ?l1" using r(1) by (simp add: gov_inv_def)
  note d = gov_debit_credit [OF g1, of "packet_airtime l (length data)", folded sent(2)]
  have f: "lo_gov_refill_frac l' = lo_gov_refill_frac l" "lo_gov_last_ms l' = now"
    by (simp_all add: sent(2) gov_debit_def gov_refill_def)
  show ?thesis
  proof (cases "is_beacon_type (data ! 1)")
    case True
    then show ?thesis using sent d r(3) f t by (simp add: b_def)
  next
    case False
    then show ?thesis using sent d r(3) f t by (simp add: b_def)
  qed
qed

lemma unat_diff_chain:
  fixes a b c :: u64
  assumes "a \<le> b" "b \<le> c"
  shows "unat (c - a) = unat (b - a) + unat (c - b)"
  using assms order_trans [OF assms] by (simp add: unat_sub word_le_nat_alt)

lemma beacon_airtime_credit:
  assumes "gov_inv l" "clock_from (lo_gov_last_ms l) (map fst es @ [t])"
  shows "beacon_airtime es l = 0 \<or>
    of_nat (beacon_airtime es l) \<le> lo_gov_credit_ms l + lo_gov_refill_frac l * of_nat (unat (t - lo_gov_last_ms l))"
  using assms
proof (induction es arbitrary: l)
  case (Cons e es)
  obtain now data where e: "e = (now, data)" by (metis prod.exhaust)
  obtain ok l' where a: "trunk_admit now data l = (ok, l')" by (metis prod.exhaust)
  define b where "b = (if ok \<and> is_beacon_type (data ! 1) then unat (packet_airtime l (length data)) else 0)"
  have t: "lo_gov_last_ms l \<le> now" "clock_from now (map fst es @ [t])" using Cons.prems(2) e by simp_all
  note g = trunk_admit_gov [OF a Cons.prems(1) t(1) b_def]
  have c: "clock_from (lo_gov_last_ms l') (map fst es @ [t])" using clock_from_weaken [OF t(2)] g by blast
  note IH = Cons.IH [OF conjunct1 [OF g] c]
  have u: "unat (t - lo_gov_last_ms l) = unat (lo_gov_last_ms l' - lo_gov_last_ms l) + unat (t - lo_gov_last_ms l')"
    using unat_diff_chain clock_from_end [OF c] g by blast
  have p: "0 \<le> lo_gov_refill_frac l * of_nat (unat (t - lo_gov_last_ms l'))"
    using Cons.prems(1) by (simp add: gov_inv_def unsigned_rat_nonneg)
  show ?case
  proof (cases "b = 0 \<and> beacon_airtime es l' = 0")
    case False
    then have "of_nat (b + beacon_airtime es l') \<le>
      lo_gov_credit_ms l + lo_gov_refill_frac l * of_nat (unat (t - lo_gov_last_ms l))"
      using IH g p unfolding u by (cases "beacon_airtime es l' = 0") (auto simp: distrib_left)
    then show ?thesis by (simp add: e a b_def)
  qed (simp add: e a b_def)
qed simp

section \<open>The state machine of the radio task\<close>

text \<open>
  The radio reports a channel assessment only while one is under way, and the end of a transmission
  only while one is awaited.
\<close>

definition event_ok :: "radio_event \<Rightarrow> lora_local \<Rightarrow> bool" where
  "event_ok e t = (case e of Cad_Clear \<Rightarrow> lt_awaiting_cad t | Cad_Busy \<Rightarrow> lt_awaiting_cad t
     | Tx_Done \<Rightarrow> lt_awaiting_tx_done t | _ \<Rightarrow> True)"

fun events_ok :: "'w radio \<Rightarrow> (u64 \<times> radio_event) list \<Rightarrow> lora \<times> lora_local \<times> 'w \<Rightarrow> bool" where
  "events_ok rd [] st = True"
| "events_ok rd ((now, e) # es) st \<longleftrightarrow> event_ok e (fst (snd st)) \<and> events_ok rd es (snd (lora_event rd now e st))"

inductive lora_reach :: "'w radio \<Rightarrow> lora \<times> lora_local \<times> 'w \<Rightarrow> bool" for rd where
  start: "lora_reach rd (l, lora_task_start, w)"
| send: "lora_reach rd (l, t, w) \<Longrightarrow> lora_link_send now data l = (rc, l') \<Longrightarrow> lora_reach rd (l', t, w)"
| pass: "lora_reach rd (l, t, w) \<Longrightarrow> events_ok rd es (l, lora_tick now t, w) \<Longrightarrow>
    lora_pass rd now es now2 (l, t, w) = (outs, st') \<Longrightarrow> lora_reach rd st'"

text \<open>
  How often the pending frame was sent, by what the task waits for. A frame may go out once more than
  \<open>ARQ_TRIES\<close>: the wait for an acknowledgement ends at its deadline even while an own
  acknowledgement is on the air, and the flag of that one is then still set when the frame's
  transmission ends.
\<close>

definition arq_inv :: "lora_local \<Rightarrow> bool" where
  "arq_inv t \<longleftrightarrow>
     (lt_awaiting_cad t \<longrightarrow> \<not> lt_awaiting_ack t) \<and>
     (lt_awaiting_tx_done t \<and> \<not> lt_tx_is_ack t \<longrightarrow> \<not> lt_awaiting_cad t \<and> \<not> lt_awaiting_ack t) \<and>
     (lt_have_pending t \<longrightarrow>
        lt_arq_sends t \<le> ARQ_TRIES + 1 \<and>
        (\<not> lt_awaiting_ack t \<and> (\<not> lt_awaiting_tx_done t \<or> lt_tx_is_ack t) \<longrightarrow> lt_arq_sends t \<le> ARQ_TRIES) \<and>
        (lt_tx_is_ack t \<and> (lt_awaiting_cad t \<or> \<not> lt_awaiting_tx_done t) \<and> \<not> lt_awaiting_ack t \<longrightarrow> lt_arq_sends t < ARQ_TRIES))"

lemma start_cad_or_drop_cases:
  "fst (start_cad_or_drop rd t w) = t \<lparr> lt_awaiting_cad := True \<rparr> \<or> fst (start_cad_or_drop rd t w) = drop_batch t"
  by (auto simp: start_cad_or_drop_def split: prod.split)

lemma start_cad_arq:
  assumes "\<not> lt_awaiting_ack u" "lt_awaiting_tx_done u \<longrightarrow> lt_tx_is_ack u" "lt_arq_sends u \<le> ARQ_TRIES"
    "lt_tx_is_ack u \<longrightarrow> lt_arq_sends u < ARQ_TRIES"
  shows "arq_inv (fst (start_cad_or_drop rd u w))"
  using start_cad_or_drop_cases [of rd u w] assms by (auto simp: arq_inv_def drop_batch_def)

lemma send_ack_cases:
  "fst (snd (send_ack rd l t w)) = t \<or>
   fst (snd (send_ack rd l t w)) = t \<lparr> lt_awaiting_tx_done := True, lt_tx_is_ack := True \<rparr>"
  by (auto simp: send_ack_def split: prod.split)

lemma on_tx_done_arq: "arq_inv t \<Longrightarrow> lt_awaiting_tx_done t \<Longrightarrow> arq_inv (fst (on_tx_done rd now l t w))"
  by (auto simp: on_tx_done_def Let_def arq_inv_def)

lemma on_cad_clear_arq:
  assumes "arq_inv t" "lt_awaiting_cad t"
  shows "arq_inv (fst (snd (on_cad_clear rd l t w)))"
proof -
  let ?t = "t \<lparr> lt_awaiting_cad := False \<rparr>"
  show ?thesis
  proof (cases "lo_ack_count l > 0")
    case True
    then show ?thesis using send_ack_cases [of rd l ?t w] assms by (auto simp: on_cad_clear_def Let_def arq_inv_def)
  next
    case False
    then show ?thesis using assms by (auto simp: on_cad_clear_def Let_def arq_inv_def drop_batch_def split: prod.split)
  qed
qed

lemma on_cad_busy_arq:
  assumes "arq_inv t" "lt_awaiting_cad t"
  shows "arq_inv (fst (on_cad_busy rd t w))"
  using assms by (auto simp: on_cad_busy_def Let_def arq_inv_def drop_batch_def split: prod.split)

lemma lora_event_arq:
  assumes "arq_inv t" "event_ok e t" "lora_event rd now e (l, t, w) = (outs, l', t', w')"
  shows "arq_inv t'"
proof (cases e)
  case Tx_Done
  then show ?thesis using assms on_tx_done_arq [of t rd now l w] by (auto simp: lora_event_def event_ok_def)
next
  case Cad_Clear
  then show ?thesis using assms on_cad_clear_arq [of t rd l w] by (simp add: lora_event_def event_ok_def)
next
  case Cad_Busy
  then show ?thesis using assms on_cad_busy_arq [of t rd w] by (simp add: lora_event_def event_ok_def)
next
  case Radio_Timeout
  then show ?thesis using assms by (auto simp: lora_event_def arq_inv_def drop_batch_def)
qed (use assms in \<open>auto simp: lora_event_def split: if_split_asm prod.splits option.splits\<close>)

lemma lora_events_arq:
  "arq_inv t \<Longrightarrow> events_ok rd es (l, t, w) \<Longrightarrow> lora_events rd es (l, t, w) = (outs, l', t', w') \<Longrightarrow> arq_inv t'"
proof (induction es arbitrary: l t w outs)
  case (Cons x es)
  obtain now e where x: "x = (now, e)" by (metis prod.exhaust)
  obtain o1 l1 t1 w1 where e: "lora_event rd now e (l, t, w) = (o1, l1, t1, w1)" by (metis prod.exhaust)
  have "arq_inv t1" using lora_event_arq [OF Cons.prems(1) _ e] Cons.prems(2) x by simp
  then show ?case using Cons.IH [of t1 l1 w1] Cons.prems(2,3) by (auto simp: x e split: prod.splits)
qed simp

lemma flush_acks_arq: "arq_inv t \<Longrightarrow> arq_inv (fst (snd (flush_acks rd (l, t, w))))"
  using send_ack_cases [of rd l t w] by (auto simp: flush_acks_def arq_inv_def)

lemma resolve_ack_arq:
  assumes "arq_inv t"
  shows "arq_inv (fst (snd (resolve_ack rd now (l, t, w))))"
proof (cases "lt_awaiting_ack t \<and> lt_have_pending t")
  case True
  have d: "arq_inv (t \<lparr> lt_awaiting_ack := False, lt_have_pending := False \<rparr>)"
    "arq_inv (drop_batch (t \<lparr> lt_awaiting_ack := False \<rparr>))"
    using assms by (auto simp: arq_inv_def drop_batch_def)
  have c: "lt_arq_sends t < ARQ_TRIES \<Longrightarrow> arq_inv (fst (start_cad_or_drop rd (t \<lparr> lt_awaiting_ack := False, lt_cad_tries := 0 \<rparr>) w))"
    using assms True by (intro start_cad_arq) (auto simp: arq_inv_def)
  show ?thesis using True assms c d by (simp add: resolve_ack_def Let_def)
qed (use assms in \<open>auto simp: resolve_ack_def\<close>)

lemma rearm_arq:
  assumes "arq_inv t"
  shows "arq_inv (fst (snd (rearm rd (l, t, w))))"
proof (cases "lt_have_pending t \<and> \<not> lt_awaiting_cad t \<and> \<not> lt_awaiting_tx_done t \<and> \<not> lt_awaiting_ack t")
  case True
  then have "arq_inv (fst (start_cad_or_drop rd t w))" using assms by (intro start_cad_arq) (auto simp: arq_inv_def)
  then show ?thesis using True by (simp add: rearm_def)
qed (use assms in \<open>auto simp: rearm_def\<close>)

definition not_stranded :: "lora_local \<Rightarrow> bool" where
  "not_stranded t \<longleftrightarrow> (lt_have_pending t \<longrightarrow> lt_awaiting_cad t \<or> lt_awaiting_tx_done t \<or> lt_awaiting_ack t)"

lemma rearm_not_stranded: "not_stranded (fst (snd (rearm rd (l, t, w))))"
  using start_cad_or_drop_cases [of rd t w] by (auto simp: rearm_def not_stranded_def drop_batch_def)

lemma next_frame_arq:
  assumes "arq_inv t" "not_stranded t"
  shows "arq_inv (fst (snd (next_frame rd (l, t, w))))" "not_stranded (fst (snd (next_frame rd (l, t, w))))"
proof -
  have c: "arq_inv (fst (start_cad_or_drop rd u w)) \<and> not_stranded (fst (start_cad_or_drop rd u w))"
    if "\<not> lt_awaiting_tx_done u" "\<not> lt_awaiting_ack u" "lt_arq_sends u = 0" for u
    using start_cad_or_drop_cases [of rd u w] start_cad_arq [of u rd w] that
    by (auto simp: not_stranded_def drop_batch_def ARQ_TRIES_def)
  have "arq_inv (fst (snd (next_frame rd (l, t, w)))) \<and> not_stranded (fst (snd (next_frame rd (l, t, w))))"
    using assms by (auto simp: next_frame_def Let_def c split: option.split list.split prod.split) (auto simp: arq_inv_def not_stranded_def)
  then show "arq_inv (fst (snd (next_frame rd (l, t, w))))" "not_stranded (fst (snd (next_frame rd (l, t, w))))" by blast+
qed

lemma lora_pass_arq:
  assumes "arq_inv t" "events_ok rd es (l, lora_tick now t, w)" "lora_pass rd now es now2 (l, t, w) = (outs, st')"
  shows "arq_inv (fst (snd st'))" "not_stranded (fst (snd st'))"
proof -
  obtain o1 l1 t1 w1 where e: "lora_events rd es (l, lora_tick now t, w) = (o1, l1, t1, w1)" by (metis prod.exhaust)
  have "arq_inv (lora_tick now t)" using assms(1) by (simp add: lora_tick_def arq_inv_def)
  then have a1: "arq_inv t1" using lora_events_arq [OF _ assms(2) e] by blast
  obtain l2 t2 w2 where f: "flush_acks rd (l1, t1, w1) = (l2, t2, w2)" by (metis prod.exhaust)
  obtain l3 t3 w3 where r: "resolve_ack rd now2 (l2, t2, w2) = (l3, t3, w3)" by (metis prod.exhaust)
  obtain l4 t4 w4 where m: "rearm rd (l3, t3, w3) = (l4, t4, w4)" by (metis prod.exhaust)
  have a4: "arq_inv t4" "not_stranded t4"
    using flush_acks_arq [OF a1, of rd l1 w1] resolve_ack_arq [of t2 rd now2 l2 w2] rearm_arq [of t3 rd l3 w3]
      rearm_not_stranded [of rd l3 t3 w3] by (simp_all add: f r m)
  have "st' = next_frame rd (l4, t4, w4)" using assms(3) by (simp add: lora_pass_def e f r m)
  then show "arq_inv (fst (snd st'))" "not_stranded (fst (snd st'))" using next_frame_arq [OF a4] by simp_all
qed

lemma lora_reach_arq: "lora_reach rd st \<Longrightarrow> arq_inv (fst (snd st)) \<and> not_stranded (fst (snd st))"
proof (induction rule: lora_reach.induct)
  case (start l w)
  then show ?case by (simp add: lora_task_start_def arq_inv_def not_stranded_def)
next
  case (pass l t w es now now2 outs st')
  then show ?case using lora_pass_arq [of t rd es l now w now2 outs st'] by simp
qed simp

text \<open>A run of the task: the times and the events of its passes.\<close>

fun lora_passes :: "'w radio \<Rightarrow> (u64 \<times> (u64 \<times> radio_event) list \<times> u64) list \<Rightarrow> lora \<times> lora_local \<times> 'w \<Rightarrow>
  (lora \<times> lora_local \<times> 'w) option" where
  "lora_passes rd [] st = Some st"
| "lora_passes rd ((now, es, now2) # ps) st =
     (if events_ok rd es (fst st, lora_tick now (fst (snd st)), snd (snd st))
      then lora_passes rd ps (snd (lora_pass rd now es now2 st)) else None)"

lemma lora_passes_reach:
  "lora_reach rd st \<Longrightarrow> lora_passes rd ps st = Some st' \<Longrightarrow> lora_reach rd st'"
proof (induction ps arbitrary: st)
  case (Cons p ps)
  obtain now es now2 where p: "p = (now, es, now2)" by (metis prod.exhaust)
  obtain l t w where st: "st = (l, t, w)" by (metis prod.exhaust)
  have "events_ok rd es (l, lora_tick now t, w)" "lora_passes rd ps (snd (lora_pass rd now es now2 (l, t, w))) = Some st'"
    using Cons.prems(2) by (simp_all add: p st split: if_split_asm)
  then show ?case using Cons.IH [of "snd (lora_pass rd now es now2 (l, t, w))"]
      lora_reach.pass [OF Cons.prems(1) [unfolded st]] by (metis prod.collapse)
qed simp

definition sample_radio :: "unit radio" where
  "sample_radio = \<lparr> rd_transmit = (\<lambda>_ w. (ESP_OK, w)), rd_start_cad = (\<lambda>w. (ESP_OK, w)), rd_resume_rx = (\<lambda>w. w) \<rparr>"

definition sample_lora :: lora where
  "sample_lora = lora_static \<lparr> lo_src_tag := [1, 2, 3, 4], lo_sf := 7, lo_bw := 125000, lo_cr := 5,
     lo_tx_queue := [\<lparr> ba_seq = 1, ba_total = 1, ba_want_ack = True, ba_data = replicate 22 1 \<rparr>] \<rparr>"

definition peer_frame :: bytes where
  "peer_frame = [0xB7, 0x1E, 2, 2, 9, 9, 9, 9, 0, 0, 0, 0, 0, 7, 0, 1]"

text \<open>The peer's frame arrives just before the deadline, and its acknowledgement is on the air when the deadline passes.\<close>

definition sample_passes :: "(u64 \<times> (u64 \<times> radio_event) list \<times> u64) list" where
  "sample_passes =
     [(0, [], 0), (10, [(10, Cad_Clear)], 10), (100, [(100, Tx_Done)], 100), (2000, [], 2000),
      (2010, [(2010, Cad_Clear)], 2010), (2100, [(2100, Tx_Done)], 2100),
      (4000, [(4000, Rx_Done peer_frame)], 4000),
      (4010, [(4010, Cad_Clear)], 4010), (4100, [(4100, Tx_Done)], 4100), (4110, [(4110, Cad_Clear)], 4110)]"

lemma sample_airtime:
  assumes "lo_sf l = 7" "lo_bw l = 125000" "lo_cr l = 5"
  shows "lora_airtime_ms l TRUNK_HDR_LEN = 51"
proof -
  have c: "\<lceil>36 / 7 :: rat\<rceil> = 6" by (rule ceiling_unique) auto
  have f: "\<lfloor>12989 / 250 :: rat\<rfloor> = 51" by (rule floor_unique) auto
  show ?thesis unfolding lora_airtime_ms_def Let_def assms TRUNK_HDR_LEN_def by (simp add: c f)
qed

lemma sample_rx:
  assumes "lo_src_tag l = [1, 2, 3, 4]"
  shows "rx_frame now peer_frame l = (None, queue_ack [9, 9, 9, 9] 7 0 1 l)"
  using assms by (simp add: rx_frame_def peer_frame_def bslice_def be_val_def TRUNK_HDR_LEN_def TRUNK_MAGIC0_def TRUNK_MAGIC1_def
     TRUNK_VERSION_def FTYPE_ACK_def FTYPE_ACK_REQ_def)

lemma peer_frame_nonempty: "peer_frame \<noteq> []" by (simp add: peer_frame_def)

lemmas lora_eval = sample_radio_def sample_lora_def lora_static_def lora_task_start_def lora_pass_def lora_tick_def
  flush_acks_def resolve_ack_def rearm_def next_frame_def lora_event_def on_tx_done_def on_cad_clear_def event_ok_def
  start_cad_or_drop_def drop_batch_def send_ack_def transmit_ack_now_def batch_next_frame_def sample_airtime sample_rx
  peer_frame_nonempty queue_ack_def BEACON_FIRST_MS_def BEACON_INTERVAL_MS_def ARQ_MARGIN_MS_def ARQ_TRIES_def ACK_OUTBOX_def

lemma sample_four_sends:
  "\<exists>l t. lora_passes sample_radio sample_passes (sample_lora, lora_task_start, ()) = Some (l, t, ()) \<and>
     lt_have_pending t \<and> lt_arq_sends t = 4"
  by (simp add: sample_passes_def lora_eval Let_def)



section \<open>Properties\<close>




text \<open>
  C36: The trunk destroys every version 2 packet: it reads the 4-byte length of that version as if it
  were the 2-byte length of version 1, cuts the packet before its payload, and what it sends no longer
  decodes.
\<close>

theorem lora_trunk_cuts_v2:
  assumes "bitchat_packet_decode env data = Some p" "pk_version p = 2"
  shows "bitchat_packet_decode env (take (trunk_true_len data) data) = None"
  by (rule true_len_v2 [OF assms])

definition sample_v2 :: bytes where
  "sample_v2 = [2, 0x11, 7, 0, 0, 0, 0, 0, 0, 0, 1, 0, 0, 0, 0, 3, 1, 2, 3, 4, 5, 6, 7, 8, 0x61, 0x62, 0x63]"

lemma sample_v2_decodes: "\<exists>p. bitchat_packet_decode stored_env sample_v2 = Some p \<and> pk_version p = 2"
  by (simp add: bitchat_packet_decode_def sample_v2_def decode_header_def read_u8_def read_u32_be_def read_u64_be_def read_be_def
      bslice_def be_val_def decode_recipient_def decode_route_def decode_payload_def
      decode_compressed_def decode_signature_def padding_ok_def stored_env_def)

theorem lora_trunk_cuts_v2_witness:
  "bitchat_packet_decode stored_env sample_v2 \<noteq> None \<and>
   bitchat_packet_decode stored_env (take (trunk_true_len sample_v2) sample_v2) = None"
proof -
  obtain p where p: "bitchat_packet_decode stored_env sample_v2 = Some p" "pk_version p = 2" using sample_v2_decodes by blast
  show ?thesis using lora_trunk_cuts_v2 [OF p] p(1) by simp
qed

text \<open>
  C22: The beacons (announces and capability packets) a node admits stay within the duty cycle: over any
  sequence of packets of any type offered while the clock does not go back, their airtime is at most the
  burst of 5 seconds plus the duty fraction of the time since the last refill. Message traffic in between
  only lowers it.
\<close>

theorem lora_beacon_duty_cycle:
  assumes "gov_inv l" "clock_from (lo_gov_last_ms l) (map fst es @ [t])"
  shows "of_nat (beacon_airtime es l) \<le> GOV_BURST_MS + lo_gov_refill_frac l * of_nat (unat (t - lo_gov_last_ms l))"
proof -
  have "0 \<le> GOV_BURST_MS + lo_gov_refill_frac l * of_nat (unat (t - lo_gov_last_ms l))"
    using assms(1) by (simp add: gov_inv_def GOV_BURST_MS_def unsigned_rat_nonneg)
  then show ?thesis using beacon_airtime_credit [OF assms] assms(1) by (auto simp: gov_inv_def)
qed

theorem lora_beacon_duty_cycle_witness:
  "of_nat (beacon_airtime [(100, vector_v1_message[1 := 1])] (sample_lora \<lparr> lo_gov_refill_frac := 1 / 4, lo_gov_credit_ms := 5000 \<rparr>)) \<le> (5250 :: rat)"
  using lora_beacon_duty_cycle [of "sample_lora \<lparr> lo_gov_refill_frac := 1 / 4, lo_gov_credit_ms := 5000 \<rparr>" "[(100, vector_v1_message[1 := 1])]" 1000]
  by (simp add: gov_inv_def sample_lora_def lora_static_def GOV_BURST_MS_def)

text \<open>
  C10: The radio task never strands a frame, and retransmits it a bounded number of times: after every
  pass a pending frame waits for a channel assessment, for the end of a transmission or for an
  acknowledgement, whatever the radio's commands return, and it was put on the air at most
  \<open>ARQ_TRIES + 1\<close> times. The witness is a run that reaches this bound, one more than the
  \<open>ARQ_TRIES\<close> the code documents.
\<close>

theorem lora_arq_bounded:
  assumes "lora_reach rd (l, t, w)" "lt_have_pending t"
  shows "(lt_awaiting_cad t \<or> lt_awaiting_tx_done t \<or> lt_awaiting_ack t) \<and> lt_arq_sends t \<le> ARQ_TRIES + 1"
  using lora_reach_arq [OF assms(1)] assms(2) by (auto simp: not_stranded_def arq_inv_def)

theorem lora_arq_bounded_witness:
  "\<exists>l t. lora_reach sample_radio (l, t, ()) \<and> lt_have_pending t \<and> lt_arq_sends t = ARQ_TRIES + 1 \<and> lt_arq_sends t \<le> ARQ_TRIES + 1"
proof -
  obtain l t where r: "lora_passes sample_radio sample_passes (sample_lora, lora_task_start, ()) = Some (l, t, ())"
    "lt_have_pending t" "lt_arq_sends t = 4" using sample_four_sends by blast
  note re = lora_passes_reach [OF lora_reach.start r(1)]
  show ?thesis using lora_arq_bounded [OF re r(2)] re r(2,3) by (intro exI [of _ l] exI [of _ t]) (simp add: ARQ_TRIES_def)
qed

end
