(* ===== verification/Node_Identity.thy ===== *)
theory Node_Identity
  imports Noise_Packet
begin

text \<open>
  The node's lasting identity: the keys of \<open>load_identity\<close> (\<open>main/noise_handshake.c\<close>) and the
  nickname of \<open>main/nickname_manager.c\<close>, both kept in the NVS namespace \<open>noise\<close>. NVS, the
  random source and the public-key functions of the vendored crypto library are the record \<open>ident_io\<close>; a
  failed \<open>ESP_ERROR_CHECK\<close>, which restarts the chip, is the result \<open>None\<close>. C strings are byte
  lists without their terminator. A value that was set counts as stored, since \<open>load_identity\<close> does not look at the
  result of \<open>nvs_commit\<close>; losing power before the commit is not modelled.
\<close>

section \<open>Keys\<close>

record ident_nvs =
  iv_static :: "bytes option"
  iv_peer_id :: "bytes option"
  iv_sign_sk :: "bytes option"
  iv_sign_pk :: "bytes option"
  iv_nickname :: "bytes option"

record ident_io =
  ii_open_ok :: bool
  ii_set_ok :: bool
  ii_commit_ok :: bool
  ii_random_static :: bytes
  ii_random_sign :: bytes
  ii_dh_public :: "bytes \<Rightarrow> bytes option"
  ii_ed_public :: "bytes \<Rightarrow> bytes"

record node_keys =
  nk_static_private :: bytes
  nk_id :: node_id

definition static_keys :: node_keys where
  "static_keys = \<lparr> nk_static_private = replicate 32 0,
     nk_id = \<lparr> ni_static_public = replicate 32 0, ni_peer_id = replicate 8 0, ni_ed25519_private = replicate 32 0,
               ni_ed25519_public = replicate 32 0, ni_nickname = [] \<rparr> \<rparr>"

text \<open>The stored key, or a new one that has to be stored.\<close>

definition load_or_generate :: "ident_io \<Rightarrow> bytes option \<Rightarrow> bytes \<Rightarrow> (bytes \<times> bool) option" where
  "load_or_generate io stored rnd =
     (case stored of
        Some b \<Rightarrow> if length b = 32 then Some (b, False) else if ii_set_ok io then Some (rnd, True) else None
      | None \<Rightarrow> if ii_set_ok io then Some (rnd, True) else None)"

definition load_identity :: "ident_io \<Rightarrow> psa_hash \<Rightarrow> node_keys \<Rightarrow> ident_nvs \<Rightarrow> (node_keys \<times> ident_nvs) option" where
  "load_identity io psa k nvs =
     (if \<not> ii_open_ok io then Some (k, nvs)
      else case load_or_generate io (iv_static nvs) (ii_random_static io) of
             None \<Rightarrow> None
           | Some (priv, fresh) \<Rightarrow>
               (let nvs1 = (if fresh then nvs \<lparr> iv_static := Some priv \<rparr> else nvs);
                    k1 = k \<lparr> nk_static_private := priv \<rparr>;
                    (k2, nvs2) =
                      (case ii_dh_public io priv of
                         None \<Rightarrow> (k1, nvs1)
                       | Some pub \<Rightarrow>
                           if length pub = 32
                           then let peer = take 8 (bitle_sha256 psa pub)
                                in (k1 \<lparr> nk_id := (nk_id k1) \<lparr> ni_static_public := pub, ni_peer_id := peer \<rparr> \<rparr>,
                                    if ii_set_ok io then nvs1 \<lparr> iv_peer_id := Some peer \<rparr> else nvs1)
                           else (k1, nvs1))
                in case load_or_generate io (iv_sign_sk nvs2) (ii_random_sign io) of
                     None \<Rightarrow> None
                   | Some (sk, fresh_sk) \<Rightarrow>
                       (let nvs3 = (if fresh_sk then nvs2 \<lparr> iv_sign_sk := Some sk \<rparr> else nvs2);
                            pk = ii_ed_public io sk
                        in Some (k2 \<lparr> nk_id := (nk_id k2) \<lparr> ni_ed25519_private := sk, ni_ed25519_public := pk \<rparr> \<rparr>,
                                 if ii_set_ok io then nvs3 \<lparr> iv_sign_pk := Some pk \<rparr> else nvs3))))"

section \<open>Nickname\<close>

definition NICKNAME_MAX_CUSTOM_LEN :: nat where "NICKNAME_MAX_CUSTOM_LEN = 31"

text \<open>The string \<open>Bitle-\<close>.\<close>

definition NICKNAME_PREFIX :: bytes where "NICKNAME_PREFIX = [0x42, 0x69, 0x74, 0x6C, 0x65, 0x2D]"
definition NICKNAME_DET_LEN :: nat where "NICKNAME_DET_LEN = 10"

definition is_digit :: "u8 \<Rightarrow> bool" where
  "is_digit c \<longleftrightarrow> 0x30 \<le> c \<and> c \<le> 0x39"

definition nickname_is_deterministic :: "bytes \<Rightarrow> bool" where
  "nickname_is_deterministic n \<longleftrightarrow>
     length n = NICKNAME_DET_LEN \<and> take 6 n = NICKNAME_PREFIX \<and> list_all is_digit (drop 6 n)"

definition nickname_is_legacy_anon :: "bytes \<Rightarrow> bool" where
  "nickname_is_legacy_anon n \<longleftrightarrow> length n = 8 \<and> take 4 n = [0x61, 0x6E, 0x6F, 0x6E] \<and> list_all is_digit (drop 4 n)"

definition nickname_is_custom_valid :: "bytes \<Rightarrow> bool" where
  "nickname_is_custom_valid n \<longleftrightarrow>
     n \<noteq> [] \<and> length n \<le> NICKNAME_MAX_CUSTOM_LEN \<and> list_all (\<lambda>c. 0x20 \<le> c \<and> c \<le> 0x7E) n"

definition nickname_suffix_from_peer_id :: "bytes \<Rightarrow> u16" where
  "nickname_suffix_from_peer_id peer_id =
     (if length peer_id < 2 then 0
      else fold (\<lambda>i v. v XOR push_bit (if odd i then 0 else 8) (ucast (peer_id ! i))) [2..<length peer_id]
             (push_bit 8 (ucast (peer_id ! 0)) OR ucast (peer_id ! 1)) mod 10000)"

definition four_digits :: "u16 \<Rightarrow> bytes" where
  "four_digits v = map (\<lambda>d. 0x30 + word_of_nat ((unat v div d) mod 10)) [1000, 100, 10, 1]"

definition nickname_generate :: "bytes \<Rightarrow> nat \<Rightarrow> bytes \<Rightarrow> bytes" where
  "nickname_generate peer_id max_len out =
     (if max_len < NICKNAME_DET_LEN + 1 then out
      else NICKNAME_PREFIX @ four_digits (nickname_suffix_from_peer_id peer_id))"

definition nickname_store :: "ident_io \<Rightarrow> bytes \<Rightarrow> ident_nvs \<Rightarrow> esp_err \<times> ident_nvs" where
  "nickname_store io nickname nvs =
     (if \<not> ii_open_ok io then (ESP_FAIL, nvs)
      else if \<not> ii_set_ok io then (ESP_FAIL, nvs)
      else (if ii_commit_ok io then ESP_OK else ESP_FAIL, nvs \<lparr> iv_nickname := Some nickname \<rparr>))"

text \<open>The name that is written when generating one failed: \<open>Bitle-0000\<close>.\<close>

definition nickname_fallback :: bytes where
  "nickname_fallback = NICKNAME_PREFIX @ [0x30, 0x30, 0x30, 0x30]"

definition nickname_renew :: "bytes \<Rightarrow> nat \<Rightarrow> bytes \<Rightarrow> bytes" where
  "nickname_renew peer_id max_len out =
     (let out1 = nickname_generate peer_id max_len out
      in if nickname_is_deterministic out1 then out1 else nickname_fallback)"

text \<open>The number \<open>strtol\<close> reads from decimal digits.\<close>

definition dec_value :: "bytes \<Rightarrow> nat" where
  "dec_value ds = foldl (\<lambda>acc d. acc * 10 + unat (d - 0x30)) 0 ds"

definition nickname_keep :: "bytes \<Rightarrow> bytes \<Rightarrow> bool" where
  "nickname_keep peer_id n \<longleftrightarrow>
     (if nickname_is_legacy_anon n then False
      else if nickname_is_custom_valid n then True
      else if nickname_is_deterministic n
           then word_of_nat (dec_value (drop 6 n)) = nickname_suffix_from_peer_id peer_id
           else False)"

definition nickname_init :: "ident_io \<Rightarrow> bytes \<Rightarrow> nat \<Rightarrow> bytes \<Rightarrow> ident_nvs \<Rightarrow> esp_err \<times> bytes \<times> ident_nvs" where
  "nickname_init io peer_id max_len out nvs =
     (if max_len < 2 then (ESP_ERR_INVALID_ARG, out, nvs)
      else if \<not> ii_open_ok io then (ESP_FAIL, out, nvs)
      else let stored = (case iv_nickname nvs of Some n \<Rightarrow> if length n + 1 \<le> max_len then Some n else None | None \<Rightarrow> None);
               out1 = (case stored of Some n \<Rightarrow> n | None \<Rightarrow> out)
           in if stored \<noteq> None \<and> nickname_keep peer_id out1 then (ESP_OK, out1, nvs)
              else let out2 = nickname_renew peer_id max_len out1
                   in (ESP_OK, out2, snd (nickname_store io out2 nvs)))"

definition nickname_set :: "ident_io \<Rightarrow> bytes \<Rightarrow> ident_nvs \<Rightarrow> esp_err \<times> ident_nvs" where
  "nickname_set io nickname nvs =
     (if \<not> nickname_is_custom_valid nickname then (ESP_ERR_INVALID_ARG, nvs) else nickname_store io nickname nvs)"

text \<open>\<open>None\<close>: the eleven bytes of the fallback name do not fit the caller's buffer.\<close>

definition nickname_regenerate :: "ident_io \<Rightarrow> bytes \<Rightarrow> nat \<Rightarrow> bytes \<Rightarrow> ident_nvs \<Rightarrow> (esp_err \<times> bytes \<times> ident_nvs) option" where
  "nickname_regenerate io peer_id max_len out nvs =
     (if max_len < 9 then Some (ESP_ERR_INVALID_ARG, out, nvs)
      else let out1 = nickname_renew peer_id max_len out
           in if length out1 + 1 > max_len then None
              else case nickname_store io out1 nvs of (e, nvs') \<Rightarrow> Some (e, out1, nvs'))"

definition load_nickname :: "ident_io \<Rightarrow> node_keys \<Rightarrow> ident_nvs \<Rightarrow> node_keys \<times> ident_nvs" where
  "load_nickname io k nvs =
     (case nickname_init io (ni_peer_id (nk_id k)) 32 (ni_nickname (nk_id k)) nvs of
        (e, n, nvs') \<Rightarrow>
          (k \<lparr> nk_id := (nk_id k) \<lparr> ni_nickname := (if e = ESP_OK then n else nickname_fallback) \<rparr> \<rparr>, nvs'))"

text \<open>The two steps of the boot.\<close>

definition boot_identity :: "ident_io \<Rightarrow> psa_hash \<Rightarrow> ident_nvs \<Rightarrow> (node_keys \<times> ident_nvs) option" where
  "boot_identity io psa nvs =
     (case load_identity io psa static_keys nvs of
        None \<Rightarrow> None
      | Some (k, nvs1) \<Rightarrow> Some (load_nickname io k nvs1))"

section \<open>The boot is stable\<close>

text \<open>What the code relies on of its libraries: keys of 32 bytes.\<close>

definition ident_io_ok :: "ident_io \<Rightarrow> bool" where
  "ident_io_ok io \<longleftrightarrow> ii_open_ok io \<and> ii_set_ok io \<and> length (ii_random_static io) = 32 \<and> length (ii_random_sign io) = 32 \<and>
     (\<forall>k. \<exists>pub. ii_dh_public io k = Some pub \<and> length pub = 32) \<and> (\<forall>k. length (ii_ed_public io k) = 32)"

definition same_crypto :: "ident_io \<Rightarrow> ident_io \<Rightarrow> bool" where
  "same_crypto io io' \<longleftrightarrow> ii_dh_public io' = ii_dh_public io \<and> ii_ed_public io' = ii_ed_public io"

lemma load_or_generate_stable:
  assumes "ident_io_ok io" "load_or_generate io stored rnd = Some (b, fresh)" "length rnd = 32"
  shows "length b = 32" "load_or_generate io' (if fresh then Some b else stored) rnd' = Some (b, False)"
  using assms by (auto simp: load_or_generate_def ident_io_ok_def split: option.splits if_split_asm)

lemma load_or_generate_total: "ident_io_ok io \<Longrightarrow> \<exists>b fresh. load_or_generate io stored rnd = Some (b, fresh)"
  by (auto simp: load_or_generate_def ident_io_ok_def split: option.splits)

text \<open>The keys a first boot finds or makes are those any later boot loads.\<close>

lemma load_identity_stable:
  assumes io: "ident_io_ok io"
  obtains priv sk pub nvs' where
    "load_identity io psa k nvs = Some (k \<lparr> nk_static_private := priv, nk_id := (nk_id k) \<lparr> ni_static_public := pub,
       ni_peer_id := take 8 (bitle_sha256 psa pub), ni_ed25519_private := sk, ni_ed25519_public := ii_ed_public io sk \<rparr> \<rparr>, nvs')"
    "length pub = 32" "ii_dh_public io priv = Some pub" "iv_static nvs' = Some priv" "length priv = 32"
    "iv_sign_sk nvs' = Some sk" "length sk = 32" "iv_nickname nvs' = iv_nickname nvs"
proof -
  have o: "ii_open_ok io" "ii_set_ok io" "length (ii_random_static io) = 32" "length (ii_random_sign io) = 32"
    using io by (simp_all add: ident_io_ok_def)
  obtain priv f1 where p: "load_or_generate io (iv_static nvs) (ii_random_static io) = Some (priv, f1)"
    using load_or_generate_total [OF io] by blast
  note p1 = load_or_generate_stable [OF io p o(3)]
  obtain pub where pub: "ii_dh_public io priv = Some pub" "length pub = 32" using io by (auto simp: ident_io_ok_def)
  obtain sk f2 where s: "load_or_generate io (iv_sign_sk nvs) (ii_random_sign io) = Some (sk, f2)"
    using load_or_generate_total [OF io] by blast
  note s1 = load_or_generate_stable [OF io s o(4)]
  have st: "iv_static (if f1 then nvs \<lparr> iv_static := Some priv \<rparr> else nvs) = Some priv"
    using p by (auto simp: load_or_generate_def split: option.splits if_split_asm)
  have ss: "f2 = False \<Longrightarrow> iv_sign_sk nvs = Some sk"
    using s by (auto simp: load_or_generate_def split: option.splits if_split_asm)
  define nvs1 where "nvs1 = (if f1 then nvs \<lparr> iv_static := Some priv \<rparr> else nvs) \<lparr> iv_peer_id := Some (take 8 (bitle_sha256 psa pub)) \<rparr>"
  define nvs2 where "nvs2 = (if f2 then nvs1 \<lparr> iv_sign_sk := Some sk \<rparr> else nvs1) \<lparr> iv_sign_pk := Some (ii_ed_public io sk) \<rparr>"
  have e: "iv_sign_sk nvs1 = iv_sign_sk nvs" "iv_static nvs1 = Some priv" "iv_nickname nvs1 = iv_nickname nvs"
    using st by (auto simp: nvs1_def)
  have 1: "load_identity io psa k nvs = Some (k \<lparr> nk_static_private := priv, nk_id := (nk_id k) \<lparr> ni_static_public := pub,
       ni_peer_id := take 8 (bitle_sha256 psa pub), ni_ed25519_private := sk, ni_ed25519_public := ii_ed_public io sk \<rparr> \<rparr>, nvs2)"
    using o p s pub e(1) by (simp add: load_identity_def Let_def nvs1_def nvs2_def)
  show thesis
    by (rule that [OF 1 pub(2,1)]) (use p1(1) s1(1) e ss in \<open>auto simp: nvs2_def\<close>)
qed

lemma load_identity_again:
  assumes "ident_io_ok io'" "iv_static nvs = Some priv" "length priv = 32" "ii_dh_public io' priv = Some pub" "length pub = 32"
    "iv_sign_sk nvs = Some sk" "length sk = 32"
  shows "\<exists>nvs'. load_identity io' psa k nvs = Some (k \<lparr> nk_static_private := priv, nk_id := (nk_id k) \<lparr> ni_static_public := pub,
       ni_peer_id := take 8 (bitle_sha256 psa pub), ni_ed25519_private := sk, ni_ed25519_public := ii_ed_public io' sk \<rparr> \<rparr>, nvs') \<and>
     iv_nickname nvs' = iv_nickname nvs"
  using assms by (auto simp: load_identity_def load_or_generate_def ident_io_ok_def Let_def)

subsection \<open>Nicknames\<close>

lemma digit_of: "n < 10 \<Longrightarrow> is_digit (0x30 + word_of_nat n)"
proof -
  assume n: "n < 10"
  have u: "unat (word_of_nat n :: u8) = n" using n by (intro unat_of_nat_small) simp
  have "unat (0x30 + word_of_nat n :: u8) = 0x30 + n" using n u by (simp add: unat_word_ariths)
  then show ?thesis using n by (simp add: is_digit_def word_le_nat_alt)
qed

lemma deterministic_custom: "nickname_is_deterministic n \<Longrightarrow> nickname_is_custom_valid n \<and> \<not> nickname_is_legacy_anon n"
proof -
  assume d: "nickname_is_deterministic n"
  then have l: "length n = 10" "take 6 n = NICKNAME_PREFIX" "list_all is_digit (drop 6 n)"
    by (auto simp: nickname_is_deterministic_def NICKNAME_DET_LEN_def)
  have n: "n = NICKNAME_PREFIX @ drop 6 n" using l(2) append_take_drop_id [of 6 n] by simp
  have "list_all (\<lambda>c. 0x20 \<le> c \<and> c \<le> 0x7E) (drop 6 n)"
    using l(3) by (auto simp: list_all_iff is_digit_def word_le_nat_alt)
  moreover have "list_all (\<lambda>c. 0x20 \<le> c \<and> c \<le> 0x7E) NICKNAME_PREFIX" by (simp add: NICKNAME_PREFIX_def)
  ultimately have "list_all (\<lambda>c. 0x20 \<le> c \<and> c \<le> 0x7E) n" using n by (metis list_all_append)
  then show ?thesis using l(1) by (auto simp: nickname_is_custom_valid_def NICKNAME_MAX_CUSTOM_LEN_def nickname_is_legacy_anon_def)
qed

lemma renew_deterministic: "nickname_is_deterministic (nickname_renew peer m out)"
  by (auto simp: nickname_renew_def Let_def nickname_fallback_def nickname_is_deterministic_def NICKNAME_DET_LEN_def NICKNAME_PREFIX_def is_digit_def)

lemma keep_custom: "nickname_keep peer n \<Longrightarrow> nickname_is_custom_valid n"
  using deterministic_custom by (auto simp: nickname_keep_def split: if_split_asm)

lemma load_nickname_stable:
  assumes "ident_io_ok io" "load_nickname io k nvs = (k', nvs')"
  shows "\<exists>n. k' = k \<lparr> nk_id := (nk_id k) \<lparr> ni_nickname := n \<rparr> \<rparr> \<and> nickname_is_custom_valid n \<and>
    iv_static nvs' = iv_static nvs \<and> iv_sign_sk nvs' = iv_sign_sk nvs \<and>
    (\<forall>io' k2 nvs2. ident_io_ok io' \<longrightarrow> ni_peer_id (nk_id k2) = ni_peer_id (nk_id k) \<longrightarrow> iv_nickname nvs2 = iv_nickname nvs' \<longrightarrow>
       fst (load_nickname io' k2 nvs2) = k2 \<lparr> nk_id := (nk_id k2) \<lparr> ni_nickname := n \<rparr> \<rparr>)"
proof -
  let ?peer = "ni_peer_id (nk_id k)"
  define stored where "stored = (case iv_nickname nvs of Some n \<Rightarrow> if length n + 1 \<le> 32 then Some n else None | None \<Rightarrow> None)"
  have o: "ii_open_ok io" "ii_set_ok io" using assms(1) by (simp_all add: ident_io_ok_def)
  have again: "fst (load_nickname io' k2 nvs2) = k2 \<lparr> nk_id := (nk_id k2) \<lparr> ni_nickname := n \<rparr> \<rparr>"
    if "ident_io_ok io'" "ni_peer_id (nk_id k2) = ?peer" "iv_nickname nvs2 = Some n" "nickname_keep ?peer n" "length n \<le> 31" for io' k2 nvs2 n
    using that by (simp add: load_nickname_def nickname_init_def ident_io_ok_def Let_def)
  show ?thesis
  proof (cases "\<exists>n. stored = Some n \<and> nickname_keep ?peer n")
    case True
    then obtain n where n: "stored = Some n" "nickname_keep ?peer n" by blast
    then have l: "iv_nickname nvs = Some n" "length n \<le> 31" by (auto simp: stored_def split: option.splits if_split_asm)
    have "k' = k \<lparr> nk_id := (nk_id k) \<lparr> ni_nickname := n \<rparr> \<rparr>" "nvs' = nvs"
      using assms(2) o n l by (simp_all add: load_nickname_def nickname_init_def Let_def)
    then show ?thesis using again l n(2) keep_custom [OF n(2)] by (intro exI [of _ n]) simp
  next
    case False
    define n where "n = nickname_renew ?peer 32 (case stored of Some n \<Rightarrow> n | None \<Rightarrow> ni_nickname (nk_id k))"
    have d: "nickname_is_custom_valid n" "\<not> nickname_is_legacy_anon n"
      using deterministic_custom renew_deterministic by (auto simp: n_def)
    then have kp: "nickname_keep ?peer n" "length n \<le> 31" by (auto simp: nickname_keep_def nickname_is_custom_valid_def NICKNAME_MAX_CUSTOM_LEN_def)
    have "nickname_init io ?peer 32 (ni_nickname (nk_id k)) nvs = (ESP_OK, n, snd (nickname_store io n nvs))"
      using o False by (auto simp: nickname_init_def Let_def n_def stored_def [symmetric] split: option.splits)
    then have "k' = k \<lparr> nk_id := (nk_id k) \<lparr> ni_nickname := n \<rparr> \<rparr>" "nvs' = nvs \<lparr> iv_nickname := Some n \<rparr>"
      using assms(2) o by (simp_all add: load_nickname_def nickname_store_def)
    then show ?thesis using again kp d(1) by (intro exI [of _ n]) simp
  qed
qed

section \<open>Properties\<close>

text \<open>
  C30: The boot gives the node a lasting, well-formed identity whatever NVS held before: 32-byte keys,
  a peer id derived from the Noise key, a printable nickname of 1 to 31 characters. Every later boot
  that finds the NVS contents of an earlier one loads exactly the same keys and nickname.
\<close>

theorem node_identity_stable:
  assumes "ident_io_ok io" "ident_io_ok io'" "same_crypto io io'"
  shows "\<exists>k nvs1. boot_identity io psa nvs = Some (k, nvs1) \<and> node_id_wf (nk_id k) \<and>
    ni_peer_id (nk_id k) = take 8 (bitle_sha256 psa (ni_static_public (nk_id k))) \<and>
    (\<exists>nvs2. boot_identity io' psa nvs1 = Some (k, nvs2))"
proof -
  obtain priv sk pub nvs1 where l:
    "load_identity io psa static_keys nvs = Some (static_keys \<lparr> nk_static_private := priv, nk_id := (nk_id static_keys) \<lparr> ni_static_public := pub,
       ni_peer_id := take 8 (bitle_sha256 psa pub), ni_ed25519_private := sk, ni_ed25519_public := ii_ed_public io sk \<rparr> \<rparr>, nvs1)"
    "length pub = 32" "ii_dh_public io priv = Some pub" "iv_static nvs1 = Some priv" "length priv = 32"
    "iv_sign_sk nvs1 = Some sk" "length sk = 32" by (rule load_identity_stable [OF assms(1), of psa static_keys nvs])
  define k where "k = static_keys \<lparr> nk_static_private := priv, nk_id := (nk_id static_keys) \<lparr> ni_static_public := pub,
       ni_peer_id := take 8 (bitle_sha256 psa pub), ni_ed25519_private := sk, ni_ed25519_public := ii_ed_public io sk \<rparr> \<rparr>"
  obtain k' nvs2 where n: "load_nickname io k nvs1 = (k', nvs2)" by (metis prod.exhaust)
  obtain nick where nk: "k' = k \<lparr> nk_id := (nk_id k) \<lparr> ni_nickname := nick \<rparr> \<rparr>" "nickname_is_custom_valid nick"
    "iv_static nvs2 = iv_static nvs1" "iv_sign_sk nvs2 = iv_sign_sk nvs1"
    "\<And>io' k2 nvs3. ident_io_ok io' \<Longrightarrow> ni_peer_id (nk_id k2) = ni_peer_id (nk_id k) \<Longrightarrow> iv_nickname nvs3 = iv_nickname nvs2 \<Longrightarrow>
       fst (load_nickname io' k2 nvs3) = k2 \<lparr> nk_id := (nk_id k2) \<lparr> ni_nickname := nick \<rparr> \<rparr>"
    using load_nickname_stable [OF assms(1) n] by blast
  have b: "boot_identity io psa nvs = Some (k', nvs2)" using l(1) n by (simp add: boot_identity_def k_def)
  have c: "ii_dh_public io' priv = Some pub" "ii_ed_public io' sk = ii_ed_public io sk"
    using assms(3) l(3) by (simp_all add: same_crypto_def)
  obtain nvs3 where l2: "load_identity io' psa static_keys nvs2 = Some (k, nvs3)" "iv_nickname nvs3 = iv_nickname nvs2"
    using load_identity_again [OF assms(2) _ l(5) c(1) l(2) _ l(7), of nvs2 psa static_keys] nk(3,4) l(4,6) c(2) by (auto simp: k_def)
  have "fst (load_nickname io' k nvs3) = k'" using nk(1) nk(5) [OF assms(2) refl l2(2)] by simp
  then have b2: "\<exists>nvs4. boot_identity io' psa nvs2 = Some (k', nvs4)"
    using l2(1) by (simp add: boot_identity_def) (metis prod.collapse)
  have "length (ii_ed_public io sk) = 32" using assms(1) by (simp add: ident_io_ok_def)
  then have "node_id_wf (nk_id k')" "ni_peer_id (nk_id k') = take 8 (bitle_sha256 psa (ni_static_public (nk_id k')))"
    using nk(1,2) l(2) by (auto simp: node_id_wf_def k_def nickname_is_custom_valid_def NICKNAME_MAX_CUSTOM_LEN_def)
  then show ?thesis using b b2 by blast
qed

definition sample_io :: "u8 \<Rightarrow> ident_io" where
  "sample_io r = \<lparr> ii_open_ok = True, ii_set_ok = True, ii_commit_ok = True, ii_random_static = replicate 32 r,
     ii_random_sign = replicate 32 (r + 1), ii_dh_public = (\<lambda>k. Some (take 32 (k @ replicate 32 7))), ii_ed_public = (\<lambda>k. take 32 (k @ replicate 32 9)) \<rparr>"

theorem node_identity_stable_witness:
  "\<exists>k nvs1. boot_identity (sample_io 1) (\<lambda>m. None) \<lparr> iv_static = None, iv_peer_id = None, iv_sign_sk = None, iv_sign_pk = None,
       iv_nickname = Some [0x61, 0x6E, 0x6F, 0x6E, 0x31, 0x32, 0x33, 0x34] \<rparr> = Some (k, nvs1) \<and> node_id_wf (nk_id k) \<and>
     (\<exists>nvs2. boot_identity (sample_io 5) (\<lambda>m. None) nvs1 = Some (k, nvs2))"
proof -
  have "ident_io_ok (sample_io 1)" "ident_io_ok (sample_io 5)" "same_crypto (sample_io 1) (sample_io 5)"
    by (auto simp: ident_io_ok_def sample_io_def same_crypto_def)
  from node_identity_stable [OF this, of "\<lambda>m. None" "\<lparr> iv_static = None, iv_peer_id = None, iv_sign_sk = None, iv_sign_pk = None,
       iv_nickname = Some [0x61, 0x6E, 0x6F, 0x6E, 0x31, 0x32, 0x33, 0x34] \<rparr>"] show ?thesis by blast
qed

text \<open>With NVS unavailable the node runs on the zero keys of its static memory.\<close>

lemma boot_without_nvs:
  "\<not> ii_open_ok io \<Longrightarrow> boot_identity io psa nvs =
     Some (static_keys \<lparr> nk_id := (nk_id static_keys) \<lparr> ni_nickname := nickname_fallback \<rparr> \<rparr>, nvs)"
  by (simp add: boot_identity_def load_identity_def load_nickname_def nickname_init_def)

text \<open>A stored name of the generated form is kept even when it belongs to another peer id.\<close>

lemma generated_name_never_checked: "nickname_is_deterministic n \<Longrightarrow> nickname_keep peer n"
  using deterministic_custom by (auto simp: nickname_keep_def)

lemma regenerate_overflows: "nickname_regenerate io peer 10 [] nvs = None"
  by (simp add: nickname_regenerate_def nickname_renew_def Let_def nickname_generate_def NICKNAME_DET_LEN_def nickname_is_deterministic_def
      nickname_fallback_def NICKNAME_PREFIX_def)

end
