(* ===== verification/Noise_Cipher.thy ===== *)
theory Noise_Cipher
  imports Bitle_Prelude
begin

text \<open>
  Cipher states of the vendored Noise library (\<open>noise_ref/src/protocol/cipherstate.c\<close>): a key, a 64-bit
  nonce counter, and the rules for advancing it. The AEAD itself is the parameter \<open>aead\<close>; its arguments are the
  key, the nonce, the associated data and the text. An operation that fails returns \<open>None\<close>, whatever the error code.
\<close>

record aead =
  ae_seal :: "bytes \<Rightarrow> u64 \<Rightarrow> bytes \<Rightarrow> bytes \<Rightarrow> bytes option"
  ae_open :: "bytes \<Rightarrow> u64 \<Rightarrow> bytes \<Rightarrow> bytes \<Rightarrow> bytes option"

record cipher_state =
  cs_has_key :: bool
  cs_key :: bytes
  cs_n :: u64

definition NOISE_MAX_PAYLOAD_LEN :: nat where "NOISE_MAX_PAYLOAD_LEN = 65535"
definition NOISE_MAC_LEN :: nat where "NOISE_MAC_LEN = 16"

definition noise_cipherstate_new :: cipher_state where
  "noise_cipherstate_new = \<lparr> cs_has_key = False, cs_key = [], cs_n = 0 \<rparr>"

definition NOISE_KEY_LEN :: nat where "NOISE_KEY_LEN = 32"

definition noise_cipherstate_init_key :: "bytes \<Rightarrow> cipher_state \<Rightarrow> cipher_state option" where
  "noise_cipherstate_init_key key c =
     (if length key \<noteq> NOISE_KEY_LEN then None else Some (c \<lparr> cs_key := key, cs_has_key := True, cs_n := 0 \<rparr>))"

definition noise_cipherstate_set_nonce :: "u64 \<Rightarrow> cipher_state \<Rightarrow> bool \<times> cipher_state" where
  "noise_cipherstate_set_nonce nonce c =
     (if \<not> cs_has_key c then (False, c)
      else if cs_n c > nonce then (False, c)
      else (True, c \<lparr> cs_n := nonce \<rparr>))"

definition noise_cipherstate_encrypt_with_ad ::
  "aead \<Rightarrow> nat \<Rightarrow> bytes \<Rightarrow> bytes \<Rightarrow> cipher_state \<Rightarrow> bytes option \<times> cipher_state" where
  "noise_cipherstate_encrypt_with_ad ae max_size ad data c =
     (if length data > max_size then (None, c)
      else if \<not> cs_has_key c then (if length data > NOISE_MAX_PAYLOAD_LEN then None else Some data, c)
      else if length data > NOISE_MAX_PAYLOAD_LEN - NOISE_MAC_LEN \<or> max_size - length data < NOISE_MAC_LEN then (None, c)
      else if cs_n c = - 1 then (None, c)
      else (ae_seal ae (cs_key c) (cs_n c) ad data, c \<lparr> cs_n := cs_n c + 1 \<rparr>))"

definition noise_cipherstate_decrypt_with_ad ::
  "aead \<Rightarrow> nat \<Rightarrow> bytes \<Rightarrow> bytes \<Rightarrow> cipher_state \<Rightarrow> bytes option \<times> cipher_state" where
  "noise_cipherstate_decrypt_with_ad ae max_size ad data c =
     (if length data > max_size \<or> length data > NOISE_MAX_PAYLOAD_LEN then (None, c)
      else if \<not> cs_has_key c then (Some data, c)
      else if length data < NOISE_MAC_LEN then (None, c)
      else if cs_n c = - 1 then (None, c)
      else case ae_open ae (cs_key c) (cs_n c) ad data of
             None \<Rightarrow> (None, c)
           | Some p \<Rightarrow> (Some p, c \<lparr> cs_n := cs_n c + 1 \<rparr>))"

definition noise_cipherstate_encrypt :: "aead \<Rightarrow> nat \<Rightarrow> bytes \<Rightarrow> cipher_state \<Rightarrow> bytes option \<times> cipher_state" where
  "noise_cipherstate_encrypt ae max_size data c = noise_cipherstate_encrypt_with_ad ae max_size [] data c"

definition noise_cipherstate_decrypt :: "aead \<Rightarrow> nat \<Rightarrow> bytes \<Rightarrow> cipher_state \<Rightarrow> bytes option \<times> cipher_state" where
  "noise_cipherstate_decrypt ae max_size data c = noise_cipherstate_decrypt_with_ad ae max_size [] data c"

lemmas cipherstate_defs = noise_cipherstate_encrypt_def noise_cipherstate_decrypt_def noise_cipherstate_encrypt_with_ad_def
  noise_cipherstate_decrypt_with_ad_def NOISE_MAX_PAYLOAD_LEN_def NOISE_MAC_LEN_def

text \<open>What the code relies on of the AEAD.\<close>

definition aead_ok :: "aead \<Rightarrow> bool" where
  "aead_ok ae \<longleftrightarrow> (\<forall>k n ad p. \<exists>c. ae_seal ae k n ad p = Some c \<and> length c = length p + NOISE_MAC_LEN \<and> ae_open ae k n ad c = Some p)"

lemma aead_okE:
  assumes "aead_ok ae"
  obtains c where "ae_seal ae k n ad p = Some c" "length c = length p + 16" "ae_open ae k n ad c = Some p"
  using assms unfolding aead_ok_def NOISE_MAC_LEN_def by blast

text \<open>An AEAD for the demonstrations: the text followed by a constant tag.\<close>

definition toy_aead :: aead where
  "toy_aead = \<lparr> ae_seal = (\<lambda>k n ad p. Some (p @ replicate 16 0)),
     ae_open = (\<lambda>k n ad c. if drop (length c - 16) c = replicate 16 0 then Some (take (length c - 16) c) else None) \<rparr>"

lemma toy_aead_ok: "aead_ok toy_aead"
  by (simp add: aead_ok_def toy_aead_def NOISE_MAC_LEN_def)

end
