(* ===== verification/Noise_Protocol.thy ===== *)
theory Noise_Protocol
  imports Noise_Cipher Bitle_Hash
begin

text \<open>
  The protocol engine of the vendored Noise library as the node uses it, for the one protocol it names,
  \<open>Noise_XX_25519_ChaChaPoly_SHA256\<close>: hash chaining (\<open>hashstate.c\<close>), key pairs (\<open>dhstate.c\<close>
  with its Curve25519 backend), the symmetric state (\<open>symmetricstate.c\<close>) and the handshake state
  (\<open>handshakestate.c\<close>). The hash, the scalar multiplication and the AEAD are parameters. Hybrid and pre-shared
  keys, prologues and fallback patterns are not modelled: the node sets none, and the pattern has no token for them.
  The random bytes the ephemeral key will be made of are a field of the handshake state.
\<close>

section \<open>Hashing\<close>

record noise_prims =
  np_hash :: "bytes \<Rightarrow> bytes"
  np_base :: "bytes \<Rightarrow> bytes"
  np_mult :: "bytes \<Rightarrow> bytes \<Rightarrow> bytes"
  np_aead :: aead

definition NOISE_HASH_LEN :: nat where "NOISE_HASH_LEN = 32"
definition NOISE_BLOCK_LEN :: nat where "NOISE_BLOCK_LEN = 64"
definition HMAC_IPAD :: u8 where "HMAC_IPAD = 0x36"
definition HMAC_OPAD :: u8 where "HMAC_OPAD = 0x5C"

definition noise_hashstate_xor_key :: "u8 \<Rightarrow> bytes \<Rightarrow> bytes" where
  "noise_hashstate_xor_key value key = map (\<lambda>b. b XOR value) key"

definition noise_hashstate_hash_two :: "noise_prims \<Rightarrow> bytes \<Rightarrow> bytes \<Rightarrow> bytes" where
  "noise_hashstate_hash_two np data1 data2 = np_hash np (data1 @ data2)"

definition noise_hashstate_hmac :: "noise_prims \<Rightarrow> bytes \<Rightarrow> bytes \<Rightarrow> bytes" where
  "noise_hashstate_hmac np key data =
     (let key_block = (if length key \<le> NOISE_BLOCK_LEN then key @ replicate (NOISE_BLOCK_LEN - length key) 0
                       else np_hash np key @ replicate (NOISE_BLOCK_LEN - NOISE_HASH_LEN) 0);
          inner_key = noise_hashstate_xor_key HMAC_IPAD key_block;
          hash = np_hash np (inner_key @ data);
          outer_key = noise_hashstate_xor_key (HMAC_IPAD XOR HMAC_OPAD) inner_key
      in np_hash np (outer_key @ hash))"

definition noise_hashstate_hkdf :: "noise_prims \<Rightarrow> bytes \<Rightarrow> bytes \<Rightarrow> nat \<Rightarrow> nat \<Rightarrow> (bytes \<times> bytes) option" where
  "noise_hashstate_hkdf np key data output1_len output2_len =
     (if output1_len > NOISE_HASH_LEN \<or> output2_len > NOISE_HASH_LEN then None
      else let temp_key = noise_hashstate_hmac np key data;
               t1 = noise_hashstate_hmac np temp_key [0x01];
               t2 = noise_hashstate_hmac np temp_key (t1 @ [0x02])
           in Some (take output1_len t1, take output2_len t2))"

section \<open>Key pairs\<close>

datatype noise_key_type = KEY_TYPE_NO_KEY | KEY_TYPE_PUBLIC | KEY_TYPE_KEYPAIR

record dh_state =
  dh_key_type :: noise_key_type
  dh_private_key :: bytes
  dh_public_key :: bytes

definition noise_curve25519_new :: dh_state where
  "noise_curve25519_new = \<lparr> dh_key_type = KEY_TYPE_NO_KEY, dh_private_key = replicate 32 0, dh_public_key = replicate 32 0 \<rparr>"

definition noise_is_zero :: "bytes \<Rightarrow> bool" where
  "noise_is_zero bs = list_all (\<lambda>b. b = 0) bs"

definition noise_dhstate_clear_key :: "dh_state \<Rightarrow> dh_state" where
  "noise_dhstate_clear_key d = d \<lparr> dh_public_key := replicate 32 0, dh_private_key := replicate 32 0, dh_key_type := KEY_TYPE_NO_KEY \<rparr>"

definition noise_dhstate_set_keypair :: "noise_prims \<Rightarrow> bytes \<Rightarrow> bytes \<Rightarrow> dh_state \<Rightarrow> bool \<times> dh_state" where
  "noise_dhstate_set_keypair np private_key public_key d =
     (if length private_key \<noteq> 32 \<or> length public_key \<noteq> 32 then (False, d)
      else if np_base np private_key \<noteq> public_key then (False, noise_dhstate_clear_key d)
      else (True, d \<lparr> dh_private_key := private_key, dh_public_key := public_key, dh_key_type := KEY_TYPE_KEYPAIR \<rparr>))"

definition noise_dhstate_set_public_key :: "bytes \<Rightarrow> dh_state \<Rightarrow> bool \<times> dh_state" where
  "noise_dhstate_set_public_key public_key d =
     (if length public_key \<noteq> 32 then (False, d)
      else (True, d \<lparr> dh_private_key := replicate 32 0, dh_public_key := public_key, dh_key_type := KEY_TYPE_PUBLIC \<rparr>))"

definition noise_dhstate_is_null_public_key :: "dh_state \<Rightarrow> bool" where
  "noise_dhstate_is_null_public_key d \<longleftrightarrow> dh_key_type d \<noteq> KEY_TYPE_NO_KEY \<and> noise_is_zero (dh_public_key d)"

definition clamp_private :: "bytes \<Rightarrow> bytes" where
  "clamp_private k = (k[0 := k ! 0 AND 0xF8])[31 := (k ! 31 AND 0x7F) OR 0x40]"

definition noise_dhstate_generate_keypair :: "noise_prims \<Rightarrow> bytes \<Rightarrow> dh_state \<Rightarrow> dh_state" where
  "noise_dhstate_generate_keypair np random d =
     (let private_key = clamp_private (take 32 random)
      in d \<lparr> dh_private_key := private_key, dh_public_key := np_base np private_key, dh_key_type := KEY_TYPE_KEYPAIR \<rparr>)"

text \<open>
  A missing private key is an error. The library then still mixes the uninitialised buffer into its state; the model leaves the
  state alone, as the handshake has failed and nothing reads it afterwards.
\<close>

definition noise_dhstate_calculate :: "noise_prims \<Rightarrow> dh_state \<Rightarrow> dh_state \<Rightarrow> bytes option" where
  "noise_dhstate_calculate np private_state public_state =
     (if dh_key_type private_state \<noteq> KEY_TYPE_KEYPAIR then None
      else if noise_is_zero (dh_public_key public_state) then Some (replicate 32 0)
      else Some (np_mult np (dh_private_key private_state) (dh_public_key public_state)))"

section \<open>Symmetric state\<close>

record symmetric_state =
  ss_cipher :: "cipher_state option"
  ss_ck :: bytes
  ss_h :: bytes

definition noise_symmetricstate_new :: "noise_prims \<Rightarrow> bytes \<Rightarrow> symmetric_state" where
  "noise_symmetricstate_new np name =
     (let h = (if length name \<le> NOISE_HASH_LEN then name @ replicate (NOISE_HASH_LEN - length name) 0 else np_hash np name)
      in \<lparr> ss_cipher = Some noise_cipherstate_new, ss_ck = h, ss_h = h \<rparr>)"

definition noise_symmetricstate_mix_key :: "noise_prims \<Rightarrow> bytes \<Rightarrow> symmetric_state \<Rightarrow> symmetric_state" where
  "noise_symmetricstate_mix_key np input s =
     (case ss_cipher s of
        None \<Rightarrow> s
      | Some c \<Rightarrow>
          (case noise_hashstate_hkdf np (ss_ck s) input NOISE_HASH_LEN NOISE_KEY_LEN of
             None \<Rightarrow> s
           | Some (ck, k) \<Rightarrow>
               s \<lparr> ss_ck := ck, ss_cipher := Some (case noise_cipherstate_init_key k c of Some c' \<Rightarrow> c' | None \<Rightarrow> c) \<rparr>))"

definition noise_symmetricstate_mix_hash :: "noise_prims \<Rightarrow> bytes \<Rightarrow> symmetric_state \<Rightarrow> symmetric_state" where
  "noise_symmetricstate_mix_hash np input s =
     (if ss_cipher s = None then s else s \<lparr> ss_h := noise_hashstate_hash_two np (ss_h s) input \<rparr>)"

definition noise_symmetricstate_encrypt_and_hash :: "noise_prims \<Rightarrow> nat \<Rightarrow> bytes \<Rightarrow> symmetric_state \<Rightarrow> bytes option \<times> symmetric_state" where
  "noise_symmetricstate_encrypt_and_hash np max_size data s =
     (case ss_cipher s of
        None \<Rightarrow> (None, s)
      | Some c \<Rightarrow>
          (case noise_cipherstate_encrypt_with_ad (np_aead np) max_size (ss_h s) data c of
             (None, c') \<Rightarrow> (None, s \<lparr> ss_cipher := Some c' \<rparr>)
           | (Some ct, c') \<Rightarrow> (Some ct, noise_symmetricstate_mix_hash np ct (s \<lparr> ss_cipher := Some c' \<rparr>))))"

definition noise_symmetricstate_decrypt_and_hash :: "noise_prims \<Rightarrow> nat \<Rightarrow> bytes \<Rightarrow> symmetric_state \<Rightarrow> bytes option \<times> symmetric_state" where
  "noise_symmetricstate_decrypt_and_hash np max_size data s =
     (case ss_cipher s of
        None \<Rightarrow> (None, s)
      | Some c \<Rightarrow>
          if length data > NOISE_MAX_PAYLOAD_LEN then (None, s)
          else if cs_has_key c \<and> length data < NOISE_MAC_LEN then (None, s)
          else case noise_cipherstate_decrypt_with_ad (np_aead np) max_size (ss_h s) data c of
                 (None, c') \<Rightarrow> (None, s \<lparr> ss_cipher := Some c' \<rparr>)
               | (Some p, c') \<Rightarrow> (Some p, s \<lparr> ss_cipher := Some c', ss_h := noise_hashstate_hash_two np (ss_h s) data \<rparr>))"

definition noise_symmetricstate_get_mac_length :: "symmetric_state \<Rightarrow> nat" where
  "noise_symmetricstate_get_mac_length s =
     (case ss_cipher s of None \<Rightarrow> 0 | Some c \<Rightarrow> if cs_has_key c then NOISE_MAC_LEN else 0)"

definition noise_symmetricstate_split :: "noise_prims \<Rightarrow> symmetric_state \<Rightarrow> (cipher_state \<times> cipher_state) option \<times> symmetric_state" where
  "noise_symmetricstate_split np s =
     (case ss_cipher s of
        None \<Rightarrow> (None, s)
      | Some c \<Rightarrow>
          (case noise_hashstate_hkdf np (ss_ck s) [] NOISE_KEY_LEN NOISE_KEY_LEN of
             None \<Rightarrow> (None, s)
           | Some (k1, k2) \<Rightarrow>
               (let c2 = noise_cipherstate_new;
                    init = (\<lambda>k c. case noise_cipherstate_init_key k c of Some c' \<Rightarrow> c' | None \<Rightarrow> c)
                in (Some (init k1 c, init k2 c2), s \<lparr> ss_cipher := None \<rparr>))))"

section \<open>Handshake state\<close>

datatype noise_token = TOKEN_END | TOKEN_S | TOKEN_E | TOKEN_EE | TOKEN_ES | TOKEN_SE | TOKEN_SS | TOKEN_FLIP_DIR

datatype noise_action = Action_None | Action_Write | Action_Read | Action_Failed | Action_Split | Action_Complete

record handshake_state =
  hs_initiator :: bool
  hs_action :: noise_action
  hs_tokens :: "noise_token list"
  hs_symmetric :: symmetric_state
  hs_local_static :: dh_state
  hs_local_ephemeral :: dh_state
  hs_remote_static :: dh_state
  hs_remote_ephemeral :: dh_state
  hs_random :: bytes

definition noise_pattern_XX :: "noise_token list" where
  "noise_pattern_XX = [TOKEN_E, TOKEN_FLIP_DIR, TOKEN_E, TOKEN_EE, TOKEN_S, TOKEN_ES, TOKEN_FLIP_DIR, TOKEN_S, TOKEN_SE, TOKEN_END]"

definition NOISE_PROTOCOL_NAME :: bytes where
  "NOISE_PROTOCOL_NAME = map (\<lambda>c. word_of_nat (of_char c)) ''Noise_XX_25519_ChaChaPoly_SHA256''"

definition noise_handshakestate_new :: "noise_prims \<Rightarrow> bytes \<Rightarrow> bool \<Rightarrow> handshake_state" where
  "noise_handshakestate_new np random initiator =
     \<lparr> hs_initiator = initiator, hs_action = Action_None, hs_tokens = noise_pattern_XX,
       hs_symmetric = noise_symmetricstate_new np NOISE_PROTOCOL_NAME, hs_local_static = noise_curve25519_new,
       hs_local_ephemeral = noise_curve25519_new, hs_remote_static = noise_curve25519_new, hs_remote_ephemeral = noise_curve25519_new,
       hs_random = random \<rparr>"

definition noise_handshakestate_start :: "noise_prims \<Rightarrow> handshake_state \<Rightarrow> handshake_state option" where
  "noise_handshakestate_start np hs =
     (if hs_action hs \<noteq> Action_None then None
      else if dh_key_type (hs_local_static hs) \<noteq> KEY_TYPE_KEYPAIR then None
      else Some (hs \<lparr> hs_symmetric := noise_symmetricstate_mix_hash np [] (hs_symmetric hs),
                      hs_action := (if hs_initiator hs then Action_Write else Action_Read) \<rparr>))"

definition noise_handshake_mix_dh :: "noise_prims \<Rightarrow> dh_state \<Rightarrow> dh_state \<Rightarrow> handshake_state \<Rightarrow> bool \<times> handshake_state" where
  "noise_handshake_mix_dh np private_state public_state hs =
     (case noise_dhstate_calculate np private_state public_state of
        None \<Rightarrow> (False, hs)
      | Some shared \<Rightarrow> (True, hs \<lparr> hs_symmetric := noise_symmetricstate_mix_key np shared (hs_symmetric hs) \<rparr>))"

text \<open>The tokens that mix a shared key, the same for both directions.\<close>

definition dh_token :: "noise_prims \<Rightarrow> noise_token \<Rightarrow> handshake_state \<Rightarrow> bool \<times> handshake_state" where
  "dh_token np token hs =
     (case token of
        TOKEN_EE \<Rightarrow> noise_handshake_mix_dh np (hs_local_ephemeral hs) (hs_remote_ephemeral hs) hs
      | TOKEN_ES \<Rightarrow>
          if hs_initiator hs then noise_handshake_mix_dh np (hs_local_ephemeral hs) (hs_remote_static hs) hs
          else noise_handshake_mix_dh np (hs_local_static hs) (hs_remote_ephemeral hs) hs
      | TOKEN_SE \<Rightarrow>
          if hs_initiator hs then noise_handshake_mix_dh np (hs_local_static hs) (hs_remote_ephemeral hs) hs
          else noise_handshake_mix_dh np (hs_local_ephemeral hs) (hs_remote_static hs) hs
      | TOKEN_SS \<Rightarrow> noise_handshake_mix_dh np (hs_local_static hs) (hs_remote_static hs) hs
      | _ \<Rightarrow> (False, hs))"

text \<open>One token of a message being written; the result is the message so far, \<open>None\<close> on an error.\<close>

definition write_token :: "noise_prims \<Rightarrow> nat \<Rightarrow> noise_token \<Rightarrow> bytes \<Rightarrow> handshake_state \<Rightarrow> bytes option \<times> handshake_state" where
  "write_token np max_size token msg hs =
     (case token of
        TOKEN_E \<Rightarrow>
          (let e = noise_dhstate_generate_keypair np (hs_random hs) (hs_local_ephemeral hs);
               hs1 = hs \<lparr> hs_local_ephemeral := e \<rparr>
           in if max_size - length msg < 32 then (None, hs1)
              else (Some (msg @ dh_public_key e), hs1 \<lparr> hs_symmetric := noise_symmetricstate_mix_hash np (dh_public_key e) (hs_symmetric hs1) \<rparr>))
      | TOKEN_S \<Rightarrow>
          if max_size - length msg < 32 + noise_symmetricstate_get_mac_length (hs_symmetric hs) then (None, hs)
          else (case noise_symmetricstate_encrypt_and_hash np (max_size - length msg) (dh_public_key (hs_local_static hs)) (hs_symmetric hs) of
                  (None, s) \<Rightarrow> (None, hs \<lparr> hs_symmetric := s \<rparr>)
                | (Some ct, s) \<Rightarrow> (Some (msg @ ct), hs \<lparr> hs_symmetric := s \<rparr>))
      | _ \<Rightarrow> (case dh_token np token hs of (True, hs1) \<Rightarrow> (Some msg, hs1) | (False, hs1) \<Rightarrow> (None, hs1)))"

fun write_tokens :: "noise_prims \<Rightarrow> nat \<Rightarrow> noise_token list \<Rightarrow> bytes \<Rightarrow> handshake_state \<Rightarrow> bytes option \<times> handshake_state" where
  "write_tokens np max_size [] msg hs = (None, hs)"
| "write_tokens np max_size (t # ts) msg hs =
     (if t = TOKEN_END then (Some msg, hs \<lparr> hs_tokens := t # ts, hs_action := Action_Split \<rparr>)
      else if t = TOKEN_FLIP_DIR then (Some msg, hs \<lparr> hs_tokens := ts, hs_action := Action_Read \<rparr>)
      else case write_token np max_size t msg hs of
             (None, hs1) \<Rightarrow> (None, hs1)
           | (Some msg1, hs1) \<Rightarrow> write_tokens np max_size ts msg1 hs1)"

definition noise_handshakestate_write :: "noise_prims \<Rightarrow> nat \<Rightarrow> bytes option \<Rightarrow> handshake_state \<Rightarrow> bytes option \<times> handshake_state" where
  "noise_handshakestate_write np max_size payload hs =
     (case write_tokens np max_size (hs_tokens hs) [] hs of
        (None, hs1) \<Rightarrow> (None, hs1)
      | (Some msg, hs1) \<Rightarrow>
          (let mac_len = noise_symmetricstate_get_mac_length (hs_symmetric hs1);
               data = (case payload of Some p \<Rightarrow> p | None \<Rightarrow> [])
           in if max_size - length msg < mac_len then (None, hs1)
              else if payload \<noteq> None \<and> max_size - length msg - mac_len < length data then (None, hs1)
              else case noise_symmetricstate_encrypt_and_hash np (max_size - length msg) data (hs_symmetric hs1) of
                     (None, s) \<Rightarrow> (None, hs1 \<lparr> hs_symmetric := s \<rparr>)
                   | (Some ct, s) \<Rightarrow> (Some (msg @ ct), hs1 \<lparr> hs_symmetric := s \<rparr>)))"

definition noise_handshakestate_write_message ::
  "noise_prims \<Rightarrow> nat \<Rightarrow> bytes option \<Rightarrow> handshake_state \<Rightarrow> bytes option \<times> handshake_state" where
  "noise_handshakestate_write_message np max_size payload hs =
     (if hs_action hs \<noteq> Action_Write then (None, hs)
      else case noise_handshakestate_write np max_size payload hs of
             (None, hs1) \<Rightarrow> (None, hs1 \<lparr> hs_action := Action_Failed \<rparr>)
           | r \<Rightarrow> r)"

text \<open>One token of a message being read; the result is the rest of the message.\<close>

definition read_token :: "noise_prims \<Rightarrow> noise_token \<Rightarrow> bytes \<Rightarrow> handshake_state \<Rightarrow> bytes option \<times> handshake_state" where
  "read_token np token msg hs =
     (case token of
        TOKEN_E \<Rightarrow>
          if length msg < 32 then (None, hs)
          else (let hs1 = hs \<lparr> hs_symmetric := noise_symmetricstate_mix_hash np (take 32 msg) (hs_symmetric hs) \<rparr>
                in case noise_dhstate_set_public_key (take 32 msg) (hs_remote_ephemeral hs1) of
                     (ok, d) \<Rightarrow>
                       (let hs2 = hs1 \<lparr> hs_remote_ephemeral := d \<rparr>
                        in if \<not> ok \<or> noise_dhstate_is_null_public_key d then (None, hs2) else (Some (drop 32 msg), hs2)))
      | TOKEN_S \<Rightarrow>
          (let len = 32 + noise_symmetricstate_get_mac_length (hs_symmetric hs)
           in if length msg < len then (None, hs)
              else case noise_symmetricstate_decrypt_and_hash np len (take len msg) (hs_symmetric hs) of
                     (None, s) \<Rightarrow> (None, hs \<lparr> hs_symmetric := s \<rparr>)
                   | (Some p, s) \<Rightarrow>
                       (case noise_dhstate_set_public_key p (hs_remote_static hs) of
                          (ok, d) \<Rightarrow>
                            (let hs1 = hs \<lparr> hs_symmetric := s, hs_remote_static := d \<rparr>
                             in if \<not> ok then (None, hs1) else (Some (drop len msg), hs1))))
      | _ \<Rightarrow> (case dh_token np token hs of (True, hs1) \<Rightarrow> (Some msg, hs1) | (False, hs1) \<Rightarrow> (None, hs1)))"

fun read_tokens :: "noise_prims \<Rightarrow> noise_token list \<Rightarrow> bytes \<Rightarrow> handshake_state \<Rightarrow> bytes option \<times> handshake_state" where
  "read_tokens np [] msg hs = (None, hs)"
| "read_tokens np (t # ts) msg hs =
     (if t = TOKEN_END then (Some msg, hs \<lparr> hs_tokens := t # ts, hs_action := Action_Split \<rparr>)
      else if t = TOKEN_FLIP_DIR then (Some msg, hs \<lparr> hs_tokens := ts, hs_action := Action_Write \<rparr>)
      else case read_token np t msg hs of
             (None, hs1) \<Rightarrow> (None, hs1)
           | (Some msg1, hs1) \<Rightarrow> read_tokens np ts msg1 hs1)"

definition noise_handshakestate_read :: "noise_prims \<Rightarrow> bytes \<Rightarrow> nat \<Rightarrow> handshake_state \<Rightarrow> bytes option \<times> handshake_state" where
  "noise_handshakestate_read np message payload_max hs =
     (case read_tokens np (hs_tokens hs) message hs of
        (None, hs1) \<Rightarrow> (None, hs1)
      | (Some msg, hs1) \<Rightarrow>
          (case noise_symmetricstate_decrypt_and_hash np (length msg) msg (hs_symmetric hs1) of
             (None, s) \<Rightarrow> (None, hs1 \<lparr> hs_symmetric := s \<rparr>)
           | (Some p, s) \<Rightarrow> (if length p > payload_max then None else Some p, hs1 \<lparr> hs_symmetric := s \<rparr>)))"

definition noise_handshakestate_read_message ::
  "noise_prims \<Rightarrow> bytes \<Rightarrow> nat \<Rightarrow> handshake_state \<Rightarrow> bytes option \<times> handshake_state" where
  "noise_handshakestate_read_message np message payload_max hs =
     (if hs_action hs \<noteq> Action_Read then (None, hs)
      else case noise_handshakestate_read np message payload_max hs of
             (None, hs1) \<Rightarrow> (None, hs1 \<lparr> hs_action := Action_Failed \<rparr>)
           | r \<Rightarrow> r)"

text \<open>The pair is the state to send with and the state to receive with.\<close>

definition noise_handshakestate_split :: "noise_prims \<Rightarrow> handshake_state \<Rightarrow> (cipher_state \<times> cipher_state) option \<times> handshake_state" where
  "noise_handshakestate_split np hs =
     (if hs_action hs \<noteq> Action_Split then (None, hs)
      else case noise_symmetricstate_split np (hs_symmetric hs) of
             (None, s) \<Rightarrow> (None, hs \<lparr> hs_symmetric := s \<rparr>)
           | (Some (c1, c2), s) \<Rightarrow>
               (Some (if hs_initiator hs then (c1, c2) else (c2, c1)), hs \<lparr> hs_symmetric := s, hs_action := Action_Complete \<rparr>))"

definition noise_handshakestate_get_handshake_hash :: "handshake_state \<Rightarrow> bytes option" where
  "noise_handshakestate_get_handshake_hash hs =
     (if hs_action hs \<noteq> Action_Split \<and> hs_action hs \<noteq> Action_Complete then None else Some (ss_h (hs_symmetric hs)))"

section \<open>Both ends stay in step\<close>

text \<open>What the code relies on of the primitives.\<close>

definition prims_ok :: "noise_prims \<Rightarrow> bool" where
  "prims_ok np \<longleftrightarrow> aead_ok (np_aead np) \<and> (\<forall>m. length (np_hash np m) = 32) \<and>
     (\<forall>k. length (np_base np k) = 32 \<and> \<not> noise_is_zero (np_base np k)) \<and>
     (\<forall>a b. np_mult np a (np_base np b) = np_mult np b (np_base np a))"

lemma prims_okD:
  assumes "prims_ok np"
  shows "aead_ok (np_aead np)" "length (np_hash np m) = 32" "length (np_base np k) = 32" "\<not> noise_is_zero (np_base np k)"
    "np_mult np a (np_base np b) = np_mult np b (np_base np a)"
  using assms by (auto simp: prims_ok_def)

definition pair_of :: "noise_prims \<Rightarrow> bytes \<Rightarrow> dh_state" where
  "pair_of np k = \<lparr> dh_key_type = KEY_TYPE_KEYPAIR, dh_private_key = k, dh_public_key = np_base np k \<rparr>"

definition public_of :: "noise_prims \<Rightarrow> bytes \<Rightarrow> dh_state" where
  "public_of np k = \<lparr> dh_key_type = KEY_TYPE_PUBLIC, dh_private_key = replicate 32 0, dh_public_key = np_base np k \<rparr>"

lemma length_hmac: "prims_ok np \<Longrightarrow> length (noise_hashstate_hmac np k d) = 32"
  by (simp add: noise_hashstate_hmac_def Let_def prims_okD)

lemma hkdf_works:
  assumes "prims_ok np"
  obtains o1 o2 where "noise_hashstate_hkdf np k d 32 32 = Some (o1, o2)" "length o1 = 32" "length o2 = 32"
  using that length_hmac [OF assms] by (simp add: noise_hashstate_hkdf_def Let_def NOISE_HASH_LEN_def)

definition keyed :: "symmetric_state \<Rightarrow> u64 \<Rightarrow> bool" where
  "keyed s n \<longleftrightarrow> (\<exists>c. ss_cipher s = Some c \<and> cs_has_key c \<and> cs_n c = n)"

lemma mix_key_keyed:
  assumes "prims_ok np" "ss_cipher s \<noteq> None"
  shows "keyed (noise_symmetricstate_mix_key np d s) 0"
  using assms(2) by (auto simp: noise_symmetricstate_mix_key_def NOISE_HASH_LEN_def NOISE_KEY_LEN_def keyed_def noise_cipherstate_init_key_def
      intro: hkdf_works [OF assms(1), of "ss_ck s" d] split: option.splits)

lemma mix_hash_cipher [simp]: "ss_cipher (noise_symmetricstate_mix_hash np d s) = ss_cipher s"
  by (simp add: noise_symmetricstate_mix_hash_def)

lemma seal_and_open:
  assumes "prims_ok np" "keyed s n" "n \<noteq> - 1" "length p \<le> 1000"
  obtains ct s' where "length ct = length p + 16" "keyed s' (n + 1)" "noise_symmetricstate_get_mac_length s = 16"
    "\<And>cap. length p + 16 \<le> cap \<Longrightarrow> noise_symmetricstate_encrypt_and_hash np cap p s = (Some ct, s')"
    "\<And>cap. length p + 16 \<le> cap \<Longrightarrow> noise_symmetricstate_decrypt_and_hash np cap ct s = (Some p, s')"
proof -
  obtain c where c: "ss_cipher s = Some c" "cs_has_key c" "cs_n c = n" using assms(2) by (auto simp: keyed_def)
  obtain ct where ct: "ae_seal (np_aead np) (cs_key c) n (ss_h s) p = Some ct" "length ct = length p + 16"
    "ae_open (np_aead np) (cs_key c) n (ss_h s) ct = Some p"
    using aead_okE [OF prims_okD(1) [OF assms(1)]] by blast
  let ?c = "c \<lparr> cs_n := n + 1 \<rparr>"
  let ?s = "s \<lparr> ss_cipher := Some ?c, ss_h := noise_hashstate_hash_two np (ss_h s) ct \<rparr>"
  show thesis
  proof (rule that [of ct ?s])
    show "keyed ?s (n + 1)" using c by (simp add: keyed_def)
    show "noise_symmetricstate_get_mac_length s = 16" using c by (simp add: noise_symmetricstate_get_mac_length_def NOISE_MAC_LEN_def)
    show "noise_symmetricstate_encrypt_and_hash np cap p s = (Some ct, ?s)" if "length p + 16 \<le> cap" for cap
      using that c ct assms(3,4) by (auto simp: noise_symmetricstate_encrypt_and_hash_def cipherstate_defs noise_symmetricstate_mix_hash_def)
    show "noise_symmetricstate_decrypt_and_hash np cap ct s = (Some p, ?s)" if "length p + 16 \<le> cap" for cap
      using that c ct assms(3,4) by (auto simp: noise_symmetricstate_decrypt_and_hash_def cipherstate_defs)
  qed (fact ct)
qed

lemma calculate_pair:
  assumes "prims_ok np"
  shows "noise_dhstate_calculate np (pair_of np a) (public_of np b) = Some (np_mult np a (np_base np b))"
  using prims_okD(4) [OF assms] by (simp add: noise_dhstate_calculate_def pair_of_def public_of_def)

lemma write_E:
  assumes "length msg + 32 \<le> cap" "e = clamp_private (take 32 (hs_random hs))"
  shows "write_token np cap TOKEN_E msg hs = (Some (msg @ np_base np e),
    hs \<lparr> hs_local_ephemeral := pair_of np e, hs_symmetric := noise_symmetricstate_mix_hash np (np_base np e) (hs_symmetric hs) \<rparr>)"
  using assms by (simp add: write_token_def noise_dhstate_generate_keypair_def Let_def pair_of_def)

lemma read_E:
  assumes "prims_ok np"
  shows "read_token np TOKEN_E (np_base np e @ rest) hs = (Some rest,
    hs \<lparr> hs_remote_ephemeral := public_of np e, hs_symmetric := noise_symmetricstate_mix_hash np (np_base np e) (hs_symmetric hs) \<rparr>)"
  using prims_okD(3,4) [OF assms]
  by (simp add: read_token_def noise_dhstate_set_public_key_def noise_dhstate_is_null_public_key_def Let_def public_of_def)

lemma write_dh:
  "t \<noteq> TOKEN_E \<Longrightarrow> t \<noteq> TOKEN_S \<Longrightarrow> dh_token np t hs = (True, hs1) \<Longrightarrow> write_token np cap t msg hs = (Some msg, hs1)"
  "t \<noteq> TOKEN_E \<Longrightarrow> t \<noteq> TOKEN_S \<Longrightarrow> dh_token np t hs = (True, hs1) \<Longrightarrow> read_token np t msg hs = (Some msg, hs1)"
  by (cases t; simp add: write_token_def read_token_def)+

section \<open>The XX handshake\<close>

definition ephemeral_of :: "handshake_state \<Rightarrow> bytes" where
  "ephemeral_of hs = clamp_private (take 32 (hs_random hs))"

definition xx_second :: "noise_token list" where
  "xx_second = [TOKEN_E, TOKEN_EE, TOKEN_S, TOKEN_ES, TOKEN_FLIP_DIR, TOKEN_S, TOKEN_SE, TOKEN_END]"

definition xx_third :: "noise_token list" where
  "xx_third = [TOKEN_S, TOKEN_SE, TOKEN_END]"

lemma plain_hash:
  assumes "ss_cipher s = Some c" "\<not> cs_has_key c"
  shows "noise_symmetricstate_encrypt_and_hash np cap [] s = (Some [], noise_symmetricstate_mix_hash np [] s)"
    "noise_symmetricstate_decrypt_and_hash np cap [] s = (Some [], noise_symmetricstate_mix_hash np [] s)"
  using assms by (simp_all add: noise_symmetricstate_encrypt_and_hash_def noise_symmetricstate_decrypt_and_hash_def cipherstate_defs
      noise_symmetricstate_mix_hash_def)

lemma xx_message_1:
  assumes "prims_ok np" "hs_action A = Action_Write" "hs_tokens A = noise_pattern_XX" "hs_action B = Action_Read" "hs_tokens B = noise_pattern_XX"
    "hs_symmetric B = hs_symmetric A" "ss_cipher (hs_symmetric A) = Some c" "\<not> cs_has_key c" "32 \<le> cap"
  obtains s where "ss_cipher s = Some c"
    "noise_handshakestate_write_message np cap None A = (Some (np_base np (ephemeral_of A)), A \<lparr> hs_action := Action_Read, hs_tokens := xx_second,
       hs_symmetric := s, hs_local_ephemeral := pair_of np (ephemeral_of A) \<rparr>)"
    "noise_handshakestate_read_message np (np_base np (ephemeral_of A)) cap' B = (Some [], B \<lparr> hs_action := Action_Write, hs_tokens := xx_second,
       hs_symmetric := s, hs_remote_ephemeral := public_of np (ephemeral_of A) \<rparr>)"
proof -
  let ?s1 = "noise_symmetricstate_mix_hash np (np_base np (ephemeral_of A)) (hs_symmetric A)"
  let ?s = "noise_symmetricstate_mix_hash np [] ?s1"
  have c1: "ss_cipher ?s1 = Some c" using assms(7) by simp
  have w: "write_tokens np cap noise_pattern_XX [] A = (Some (np_base np (ephemeral_of A)), A \<lparr> hs_action := Action_Read, hs_tokens := xx_second,
       hs_symmetric := ?s1, hs_local_ephemeral := pair_of np (ephemeral_of A) \<rparr>)"
    using assms(9) by (simp add: noise_pattern_XX_def xx_second_def write_E ephemeral_of_def)
  have r: "read_tokens np noise_pattern_XX (np_base np (ephemeral_of A)) B = (Some [], B \<lparr> hs_action := Action_Write, hs_tokens := xx_second,
       hs_symmetric := ?s1, hs_remote_ephemeral := public_of np (ephemeral_of A) \<rparr>)"
    using read_E [OF assms(1), of "ephemeral_of A" "[]"] assms(6) by (simp add: noise_pattern_XX_def xx_second_def)
  have m: "noise_symmetricstate_get_mac_length ?s1 = 0" using c1 assms(8) by (simp add: noise_symmetricstate_get_mac_length_def)
  show thesis
  proof (rule that [of ?s])
    show "noise_handshakestate_write_message np cap None A = (Some (np_base np (ephemeral_of A)), A \<lparr> hs_action := Action_Read,
       hs_tokens := xx_second, hs_symmetric := ?s, hs_local_ephemeral := pair_of np (ephemeral_of A) \<rparr>)"
      using assms(2,3) w m plain_hash [OF c1 assms(8)]
      by (simp add: noise_handshakestate_write_message_def noise_handshakestate_write_def Let_def)
    show "noise_handshakestate_read_message np (np_base np (ephemeral_of A)) cap' B = (Some [], B \<lparr> hs_action := Action_Write,
       hs_tokens := xx_second, hs_symmetric := ?s, hs_remote_ephemeral := public_of np (ephemeral_of A) \<rparr>)"
      using assms(4,5) r plain_hash [OF c1 assms(8)]
      by (simp add: noise_handshakestate_read_message_def noise_handshakestate_read_def)
  qed (use c1 in simp)
qed

lemma dh_token_works:
  assumes "prims_ok np" "dh_token np t hs = noise_handshake_mix_dh np (pair_of np a) (public_of np b) hs"
  shows "dh_token np t hs = (True, hs \<lparr> hs_symmetric := noise_symmetricstate_mix_key np (np_mult np a (np_base np b)) (hs_symmetric hs) \<rparr>)"
  using assms by (simp add: noise_handshake_mix_dh_def calculate_pair)

lemma write_S:
  assumes "noise_symmetricstate_get_mac_length (hs_symmetric hs) = 16" "length msg + 48 \<le> cap" "hs_local_static hs = pair_of np k"
    "noise_symmetricstate_encrypt_and_hash np (cap - length msg) (np_base np k) (hs_symmetric hs) = (Some ct, s)"
  shows "write_token np cap TOKEN_S msg hs = (Some (msg @ ct), hs \<lparr> hs_symmetric := s \<rparr>)"
  using assms by (simp add: write_token_def pair_of_def)

lemma read_S:
  assumes "prims_ok np" "noise_symmetricstate_get_mac_length (hs_symmetric hs) = 16" "length ct = 48"
    "noise_symmetricstate_decrypt_and_hash np 48 ct (hs_symmetric hs) = (Some (np_base np k), s)"
  shows "read_token np TOKEN_S (ct @ rest) hs = (Some rest, hs \<lparr> hs_symmetric := s, hs_remote_static := public_of np k \<rparr>)"
  using assms prims_okD(3) [OF assms(1)] by (simp add: read_token_def Let_def noise_dhstate_set_public_key_def public_of_def)

lemma mac_keyed: "keyed s n \<Longrightarrow> noise_symmetricstate_get_mac_length s = 16"
  by (auto simp: keyed_def noise_symmetricstate_get_mac_length_def NOISE_MAC_LEN_def)

lemma keyed_cipher: "keyed s n \<Longrightarrow> ss_cipher s \<noteq> None"
  by (auto simp: keyed_def)

text \<open>The end of a message: an empty payload, sealed.\<close>

lemma finish_message:
  assumes "prims_ok np" "keyed (hs_symmetric hw) n" "n \<noteq> - 1" "hs_symmetric hr = hs_symmetric hw"
    "hs_action A = Action_Write" "hs_action B = Action_Read"
    "write_tokens np cap (hs_tokens A) [] A = (Some msg, hw)" "length msg + 16 \<le> cap"
    "\<And>tag. length tag = 16 \<Longrightarrow> read_tokens np (hs_tokens B) (msg @ tag) B = (Some tag, hr)"
  obtains tag s where "length tag = 16" "keyed s (n + 1)"
    "noise_handshakestate_write_message np cap None A = (Some (msg @ tag), hw \<lparr> hs_symmetric := s \<rparr>)"
    "noise_handshakestate_read_message np (msg @ tag) cap' B = (Some [], hr \<lparr> hs_symmetric := s \<rparr>)"
proof -
  obtain tag s where t: "length tag = 16" "keyed s (n + 1)"
    "\<And>c. 16 \<le> c \<Longrightarrow> noise_symmetricstate_encrypt_and_hash np c [] (hs_symmetric hw) = (Some tag, s)"
    "\<And>c. 16 \<le> c \<Longrightarrow> noise_symmetricstate_decrypt_and_hash np c tag (hs_symmetric hw) = (Some [], s)"
    by (rule seal_and_open [OF assms(1-3), of "[]"]) (simp, metis add_0 list.size(3))
  show thesis
  proof (rule that [OF t(1,2)])
    show "noise_handshakestate_write_message np cap None A = (Some (msg @ tag), hw \<lparr> hs_symmetric := s \<rparr>)"
      using assms(5,7,8) mac_keyed [OF assms(2)] t(3) [of "cap - length msg"]
      by (simp add: noise_handshakestate_write_message_def noise_handshakestate_write_def Let_def)
    show "noise_handshakestate_read_message np (msg @ tag) cap' B = (Some [], hr \<lparr> hs_symmetric := s \<rparr>)"
      using assms(4,6,9) t(1) t(4) [of 16]
      by (simp add: noise_handshakestate_read_message_def noise_handshakestate_read_def)
  qed
qed

lemma xx_message_2:
  assumes "prims_ok np" "hs_action B = Action_Write" "hs_tokens B = xx_second" "hs_action A = Action_Read" "hs_tokens A = xx_second"
    "hs_initiator A" "\<not> hs_initiator B" "hs_symmetric A = hs_symmetric B" "ss_cipher (hs_symmetric B) \<noteq> None"
    "hs_local_static B = pair_of np kb" "hs_local_ephemeral A = pair_of np ea" "hs_remote_ephemeral B = public_of np ea" "96 \<le> cap"
  obtains m s where "length m = 96" "keyed s 1"
    "noise_handshakestate_write_message np cap None B = (Some m, B \<lparr> hs_action := Action_Read, hs_tokens := xx_third, hs_symmetric := s,
       hs_local_ephemeral := pair_of np (ephemeral_of B) \<rparr>)"
    "noise_handshakestate_read_message np m cap' A = (Some [], A \<lparr> hs_action := Action_Write, hs_tokens := xx_third, hs_symmetric := s,
       hs_remote_static := public_of np kb, hs_remote_ephemeral := public_of np (ephemeral_of B) \<rparr>)"
proof -
  let ?e = "ephemeral_of B"
  note comm = prims_okD(5) [OF assms(1)]
  define s1 where "s1 = noise_symmetricstate_mix_hash np (np_base np ?e) (hs_symmetric B)"
  define s2 where "s2 = noise_symmetricstate_mix_key np (np_mult np ?e (np_base np ea)) s1"
  have k2: "keyed s2 0" unfolding s2_def by (rule mix_key_keyed [OF assms(1)]) (use assms(9) in \<open>simp add: s1_def\<close>)
  obtain ct s3 where ct: "length ct = 48" "keyed s3 1"
    "\<And>c. 48 \<le> c \<Longrightarrow> noise_symmetricstate_encrypt_and_hash np c (np_base np kb) s2 = (Some ct, s3)"
    "\<And>c. 48 \<le> c \<Longrightarrow> noise_symmetricstate_decrypt_and_hash np c ct s2 = (Some (np_base np kb), s3)"
    by (rule seal_and_open [OF assms(1) k2, of "np_base np kb"]) (simp_all add: prims_okD(3) [OF assms(1)])
  define s4 where "s4 = noise_symmetricstate_mix_key np (np_mult np kb (np_base np ea)) s3"
  have k4: "keyed s4 0" unfolding s4_def by (rule mix_key_keyed [OF assms(1) keyed_cipher [OF ct(2)]])
  define B4 where "B4 = B \<lparr> hs_action := Action_Read, hs_tokens := xx_third, hs_symmetric := s4, hs_local_ephemeral := pair_of np ?e \<rparr>"
  define A4 where "A4 = A \<lparr> hs_action := Action_Write, hs_tokens := xx_third, hs_symmetric := s4,
       hs_remote_static := public_of np kb, hs_remote_ephemeral := public_of np ?e \<rparr>"
  define msg where "msg = np_base np ?e @ ct"
  have len: "length msg = 80" using ct(1) prims_okD(3) [OF assms(1)] by (simp add: msg_def)
  have w: "write_tokens np cap (hs_tokens B) [] B = (Some msg, B4)"
  proof -
    let ?B1 = "B \<lparr> hs_local_ephemeral := pair_of np ?e, hs_symmetric := s1 \<rparr>"
    have 1: "write_token np cap TOKEN_E [] B = (Some (np_base np ?e), ?B1)"
      using write_E [of "[]" cap ?e B np] assms(13) by (simp add: ephemeral_of_def s1_def)
    have 2: "write_token np cap TOKEN_EE m ?B1 = (Some m, ?B1 \<lparr> hs_symmetric := s2 \<rparr>)" for m
      by (rule write_dh(1), simp, simp, subst dh_token_works [OF assms(1), of _ _ ?e ea]) (use assms(12) in \<open>simp_all add: dh_token_def s2_def\<close>)
    have 3: "write_token np cap TOKEN_S (np_base np ?e) (?B1 \<lparr> hs_symmetric := s2 \<rparr>) = (Some msg, ?B1 \<lparr> hs_symmetric := s3 \<rparr>)"
      unfolding msg_def using write_S [of "?B1 \<lparr> hs_symmetric := s2 \<rparr>" "np_base np ?e" cap np kb ct s3] ct(3) mac_keyed [OF k2] assms(10,13)
        prims_okD(3) [OF assms(1)] by simp
    have 4: "write_token np cap TOKEN_ES m (?B1 \<lparr> hs_symmetric := s3 \<rparr>) = (Some m, ?B1 \<lparr> hs_symmetric := s4 \<rparr>)" for m
      by (rule write_dh(1), simp, simp, subst dh_token_works [OF assms(1), of _ _ kb ea])
         (use assms(7,10,12) in \<open>simp_all add: dh_token_def s4_def\<close>)
    show ?thesis unfolding assms(3) xx_second_def by (simp add: 1 2 3 [simplified] 4 [simplified] B4_def xx_third_def)
  qed
  have r: "read_tokens np (hs_tokens A) (msg @ tag) A = (Some tag, A4)" for tag
  proof -
    let ?A1 = "A \<lparr> hs_remote_ephemeral := public_of np ?e, hs_symmetric := s1 \<rparr>"
    let ?A3 = "?A1 \<lparr> hs_symmetric := s3, hs_remote_static := public_of np kb \<rparr>"
    have 1: "read_token np TOKEN_E (np_base np ?e @ ct @ tag) A = (Some (ct @ tag), ?A1)"
      using read_E [OF assms(1), of ?e "ct @ tag" A] assms(8) by (simp add: s1_def)
    have 2: "read_token np TOKEN_EE m ?A1 = (Some m, ?A1 \<lparr> hs_symmetric := s2 \<rparr>)" for m
      by (rule write_dh(2), simp, simp, subst dh_token_works [OF assms(1), of _ _ ea ?e])
         (use assms(11) in \<open>simp_all add: dh_token_def s2_def comm [of ea ?e]\<close>)
    have 3: "read_token np TOKEN_S (ct @ tag) (?A1 \<lparr> hs_symmetric := s2 \<rparr>) = (Some tag, ?A3)"
      using read_S [OF assms(1), of "?A1 \<lparr> hs_symmetric := s2 \<rparr>" ct kb s3 tag] ct(1,4) mac_keyed [OF k2] by simp
    have 4: "read_token np TOKEN_ES m ?A3 = (Some m, ?A3 \<lparr> hs_symmetric := s4 \<rparr>)" for m
      by (rule write_dh(2), simp, simp, subst dh_token_works [OF assms(1), of _ _ ea kb])
         (use assms(6,11) in \<open>simp_all add: dh_token_def s4_def comm [of ea kb]\<close>)
    show ?thesis unfolding assms(5) xx_second_def msg_def by (simp add: 1 2 3 [simplified] 4 [simplified] A4_def xx_third_def)
  qed
  obtain tag s where t: "length tag = 16" "keyed s (0 + 1)"
    "noise_handshakestate_write_message np cap None B = (Some (msg @ tag), B4 \<lparr> hs_symmetric := s \<rparr>)"
    "noise_handshakestate_read_message np (msg @ tag) cap' A = (Some [], A4 \<lparr> hs_symmetric := s \<rparr>)"
    by (rule finish_message [OF assms(1), of B4 0 A4 B A cap msg cap'])
       (use k4 w r len assms(2,4,13) in \<open>simp_all add: A4_def B4_def\<close>)
  show thesis by (rule that [of "msg @ tag" s]) (use t len in \<open>simp_all add: A4_def B4_def\<close>)
qed

lemma xx_message_3:
  assumes "prims_ok np" "hs_action A = Action_Write" "hs_tokens A = xx_third" "hs_action B = Action_Read" "hs_tokens B = xx_third"
    "hs_initiator A" "\<not> hs_initiator B" "hs_symmetric B = hs_symmetric A" "keyed (hs_symmetric A) 1"
    "hs_local_static A = pair_of np ka" "hs_local_ephemeral B = pair_of np eb" "hs_remote_ephemeral A = public_of np eb" "64 \<le> cap"
  obtains m s where "length m = 64" "keyed s 1"
    "noise_handshakestate_write_message np cap None A = (Some m, A \<lparr> hs_action := Action_Split, hs_tokens := [TOKEN_END], hs_symmetric := s \<rparr>)"
    "noise_handshakestate_read_message np m cap' B = (Some [], B \<lparr> hs_action := Action_Split, hs_tokens := [TOKEN_END], hs_symmetric := s,
       hs_remote_static := public_of np ka \<rparr>)"
proof -
  note comm = prims_okD(5) [OF assms(1)]
  let ?s = "hs_symmetric A"
  obtain ct s3 where ct: "length ct = 48" "keyed s3 2"
    "\<And>c. 48 \<le> c \<Longrightarrow> noise_symmetricstate_encrypt_and_hash np c (np_base np ka) ?s = (Some ct, s3)"
    "\<And>c. 48 \<le> c \<Longrightarrow> noise_symmetricstate_decrypt_and_hash np c ct ?s = (Some (np_base np ka), s3)"
    by (rule seal_and_open [OF assms(1,9), of "np_base np ka"]) (simp_all add: prims_okD(3) [OF assms(1)])
  define s4 where "s4 = noise_symmetricstate_mix_key np (np_mult np ka (np_base np eb)) s3"
  have k4: "keyed s4 0" unfolding s4_def by (rule mix_key_keyed [OF assms(1) keyed_cipher [OF ct(2)]])
  define A4 where "A4 = A \<lparr> hs_action := Action_Split, hs_tokens := [TOKEN_END], hs_symmetric := s4 \<rparr>"
  define B4 where "B4 = B \<lparr> hs_action := Action_Split, hs_tokens := [TOKEN_END], hs_symmetric := s4, hs_remote_static := public_of np ka \<rparr>"
  have w: "write_tokens np cap (hs_tokens A) [] A = (Some ct, A4)"
  proof -
    have 1: "write_token np cap TOKEN_S [] A = (Some ct, A \<lparr> hs_symmetric := s3 \<rparr>)"
      using write_S [of A "[]" cap np ka ct s3] ct(3) mac_keyed [OF assms(9)] assms(10,13) by simp
    have 2: "write_token np cap TOKEN_SE m (A \<lparr> hs_symmetric := s3 \<rparr>) = (Some m, A \<lparr> hs_symmetric := s4 \<rparr>)" for m
      by (rule write_dh(1), simp, simp, subst dh_token_works [OF assms(1), of _ _ ka eb])
         (use assms(6,10,12) in \<open>simp_all add: dh_token_def s4_def\<close>)
    show ?thesis unfolding assms(3) xx_third_def by (simp add: 1 2 A4_def)
  qed
  have r: "read_tokens np (hs_tokens B) (ct @ tag) B = (Some tag, B4)" for tag
  proof -
    let ?B1 = "B \<lparr> hs_symmetric := s3, hs_remote_static := public_of np ka \<rparr>"
    have 1: "read_token np TOKEN_S (ct @ tag) B = (Some tag, ?B1)"
      using read_S [OF assms(1), of B ct ka s3 tag] ct(1,4) mac_keyed [OF assms(9)] assms(8) by simp
    have 2: "read_token np TOKEN_SE m ?B1 = (Some m, ?B1 \<lparr> hs_symmetric := s4 \<rparr>)" for m
      by (rule write_dh(2), simp, simp, subst dh_token_works [OF assms(1), of _ _ eb ka])
         (use assms(7,11) in \<open>simp_all add: dh_token_def s4_def comm [of eb ka]\<close>)
    show ?thesis unfolding assms(5) xx_third_def by (simp add: 1 2 [simplified] B4_def)
  qed
  obtain tag s where t: "length tag = 16" "keyed s (0 + 1)"
    "noise_handshakestate_write_message np cap None A = (Some (ct @ tag), A4 \<lparr> hs_symmetric := s \<rparr>)"
    "noise_handshakestate_read_message np (ct @ tag) cap' B = (Some [], B4 \<lparr> hs_symmetric := s \<rparr>)"
    by (rule finish_message [OF assms(1), of A4 0 B4 A B cap ct cap'])
       (use k4 w r ct(1) assms(2,4,13) in \<open>simp_all add: A4_def B4_def\<close>)
  show thesis by (rule that [of "ct @ tag" s]) (use t ct(1) in \<open>simp_all add: A4_def B4_def\<close>)
qed

lemma split_works:
  assumes "prims_ok np" "ss_cipher s = Some c"
  obtains c1 c2 where "noise_symmetricstate_split np s = (Some (c1, c2), s \<lparr> ss_cipher := None \<rparr>)"
    "cs_has_key c1" "cs_has_key c2" "cs_n c1 = 0" "cs_n c2 = 0"
proof -
  obtain k1 k2 where "noise_hashstate_hkdf np (ss_ck s) [] 32 32 = Some (k1, k2)" "length k1 = 32" "length k2 = 32"
    by (rule hkdf_works [OF assms(1)])
  then show thesis using assms(2)
    by (intro that [of "c \<lparr> cs_key := k1, cs_has_key := True, cs_n := 0 \<rparr>" "noise_cipherstate_new \<lparr> cs_key := k2, cs_has_key := True, cs_n := 0 \<rparr>"])
       (simp_all add: noise_symmetricstate_split_def noise_cipherstate_init_key_def NOISE_KEY_LEN_def)
qed

text \<open>A party that has been created with its key pair and started.\<close>

definition party :: "noise_prims \<Rightarrow> bytes \<Rightarrow> bytes \<Rightarrow> bool \<Rightarrow> handshake_state option" where
  "party np static random initiator =
     (let hs = noise_handshakestate_new np random initiator
      in case noise_dhstate_set_keypair np static (np_base np static) (hs_local_static hs) of
           (False, d) \<Rightarrow> None
         | (True, d) \<Rightarrow> noise_handshakestate_start np (hs \<lparr> hs_local_static := d \<rparr>))"

lemma party_works:
  assumes "prims_ok np" "length static = 32"
  shows "party np static random initiator =
    Some ((noise_handshakestate_new np random initiator) \<lparr> hs_local_static := pair_of np static,
       hs_symmetric := noise_symmetricstate_mix_hash np [] (noise_symmetricstate_new np NOISE_PROTOCOL_NAME),
       hs_action := (if initiator then Action_Write else Action_Read) \<rparr>)"
  using assms prims_okD(3) [OF assms(1)]
  by (simp add: party_def Let_def noise_dhstate_set_keypair_def noise_handshakestate_start_def noise_handshakestate_new_def pair_of_def
      noise_curve25519_new_def)

text \<open>The three messages between two parties, the splits, and the handshake hashes.\<close>

definition xx_exchange :: "noise_prims \<Rightarrow> nat \<Rightarrow> handshake_state \<Rightarrow> handshake_state \<Rightarrow> (bytes list \<times> handshake_state \<times> handshake_state) option" where
  "xx_exchange np cap a b =
     (case noise_handshakestate_write_message np cap None a of (None, _) \<Rightarrow> None | (Some m1, a1) \<Rightarrow>
      (case noise_handshakestate_read_message np m1 cap b of (None, _) \<Rightarrow> None | (Some _, b1) \<Rightarrow>
       (case noise_handshakestate_write_message np cap None b1 of (None, _) \<Rightarrow> None | (Some m2, b2) \<Rightarrow>
        (case noise_handshakestate_read_message np m2 cap a1 of (None, _) \<Rightarrow> None | (Some _, a2) \<Rightarrow>
         (case noise_handshakestate_write_message np cap None a2 of (None, _) \<Rightarrow> None | (Some m3, a3) \<Rightarrow>
          (case noise_handshakestate_read_message np m3 cap b2 of (None, _) \<Rightarrow> None | (Some _, b3) \<Rightarrow>
             Some ([m1, m2, m3], a3, b3)))))))"

text \<open>The exchange step by step: the messages, the states after each of them and the keys at the end.\<close>

lemma xx_steps:
  assumes "prims_ok np" "length ka = 32" "length kb = 32" "party np ka ra True = Some a" "party np kb rb False = Some b" "96 \<le> cap"
  obtains m1 m2 m3 a1 a2 a3 a4 b1 b2 b3 b4 tx rx where "length m1 = 32" "length m2 = 96" "length m3 = 64"
    "noise_handshakestate_write_message np cap None a = (Some m1, a1)" "noise_handshakestate_read_message np m1 cap b = (Some [], b1)"
    "noise_handshakestate_write_message np cap None b1 = (Some m2, b2)" "noise_handshakestate_read_message np m2 cap a1 = (Some [], a2)"
    "noise_handshakestate_write_message np cap None a2 = (Some m3, a3)" "noise_handshakestate_read_message np m3 cap b2 = (Some [], b3)"
    "hs_action a1 = Action_Read" "hs_action b1 = Action_Write" "hs_action b2 = Action_Read" "hs_action a2 = Action_Write"
    "hs_action a3 = Action_Split" "hs_action b3 = Action_Split"
    "noise_handshakestate_split np a3 = (Some (tx, rx), a4)" "noise_handshakestate_split np b3 = (Some (rx, tx), b4)"
    "cs_has_key tx" "cs_has_key rx" "cs_n tx = 0" "cs_n rx = 0"
    "dh_public_key (hs_remote_static a4) = np_base np kb" "dh_public_key (hs_remote_static b4) = np_base np ka"
    "hs_action a4 = Action_Complete" "hs_action b4 = Action_Complete" "hs_symmetric a4 = hs_symmetric b4"
proof -
  have a: "hs_action a = Action_Write" "hs_tokens a = noise_pattern_XX" "hs_initiator a" "hs_local_static a = pair_of np ka"
    and b: "hs_action b = Action_Read" "hs_tokens b = noise_pattern_XX" "\<not> hs_initiator b" "hs_local_static b = pair_of np kb"
    and s: "hs_symmetric b = hs_symmetric a" "ss_cipher (hs_symmetric a) = Some noise_cipherstate_new"
    using assms(4,5) party_works [OF assms(1,2), of ra True] party_works [OF assms(1,3), of rb False]
    by (auto simp: noise_handshakestate_new_def noise_symmetricstate_new_def Let_def)
  obtain s1 where 1: "ss_cipher s1 = Some noise_cipherstate_new"
    "noise_handshakestate_write_message np cap None a = (Some (np_base np (ephemeral_of a)), a \<lparr> hs_action := Action_Read, hs_tokens := xx_second,
       hs_symmetric := s1, hs_local_ephemeral := pair_of np (ephemeral_of a) \<rparr>)"
    "noise_handshakestate_read_message np (np_base np (ephemeral_of a)) cap b = (Some [], b \<lparr> hs_action := Action_Write, hs_tokens := xx_second,
       hs_symmetric := s1, hs_remote_ephemeral := public_of np (ephemeral_of a) \<rparr>)"
    by (rule xx_message_1 [OF assms(1) a(1,2) b(1,2) s, of cap cap]) (use assms(6) in \<open>simp_all add: noise_cipherstate_new_def\<close>)
  define a1 where "a1 = a \<lparr> hs_action := Action_Read, hs_tokens := xx_second, hs_symmetric := s1, hs_local_ephemeral := pair_of np (ephemeral_of a) \<rparr>"
  define b1 where "b1 = b \<lparr> hs_action := Action_Write, hs_tokens := xx_second, hs_symmetric := s1, hs_remote_ephemeral := public_of np (ephemeral_of a) \<rparr>"
  obtain m2 s2 where 2: "length m2 = 96" "keyed s2 1"
    "noise_handshakestate_write_message np cap None b1 = (Some m2, b1 \<lparr> hs_action := Action_Read, hs_tokens := xx_third, hs_symmetric := s2,
       hs_local_ephemeral := pair_of np (ephemeral_of b1) \<rparr>)"
    "noise_handshakestate_read_message np m2 cap a1 = (Some [], a1 \<lparr> hs_action := Action_Write, hs_tokens := xx_third, hs_symmetric := s2,
       hs_remote_static := public_of np kb, hs_remote_ephemeral := public_of np (ephemeral_of b1) \<rparr>)"
    by (rule xx_message_2 [OF assms(1), of b1 a1 kb "ephemeral_of a" cap cap]) (use a b 1(1) assms(6) in \<open>simp_all add: a1_def b1_def\<close>)
  define a2 where "a2 = a1 \<lparr> hs_action := Action_Write, hs_tokens := xx_third, hs_symmetric := s2,
       hs_remote_static := public_of np kb, hs_remote_ephemeral := public_of np (ephemeral_of b1) \<rparr>"
  define b2 where "b2 = b1 \<lparr> hs_action := Action_Read, hs_tokens := xx_third, hs_symmetric := s2, hs_local_ephemeral := pair_of np (ephemeral_of b1) \<rparr>"
  obtain m3 s3 where 3: "length m3 = 64" "keyed s3 1"
    "noise_handshakestate_write_message np cap None a2 = (Some m3, a2 \<lparr> hs_action := Action_Split, hs_tokens := [TOKEN_END], hs_symmetric := s3 \<rparr>)"
    "noise_handshakestate_read_message np m3 cap b2 = (Some [], b2 \<lparr> hs_action := Action_Split, hs_tokens := [TOKEN_END], hs_symmetric := s3,
       hs_remote_static := public_of np ka \<rparr>)"
    by (rule xx_message_3 [OF assms(1), of a2 b2 ka "ephemeral_of b1" cap cap])
       (use a b 2(2) assms(6) in \<open>simp_all add: a2_def b2_def a1_def b1_def\<close>)
  obtain c where c: "ss_cipher s3 = Some c" using 3(2) by (auto simp: keyed_def)
  obtain c1 c2 where sp: "noise_symmetricstate_split np s3 = (Some (c1, c2), s3 \<lparr> ss_cipher := None \<rparr>)"
    "cs_has_key c1" "cs_has_key c2" "cs_n c1 = 0" "cs_n c2 = 0" by (rule split_works [OF assms(1) c])
  define a3 where "a3 = a2 \<lparr> hs_action := Action_Split, hs_tokens := [TOKEN_END], hs_symmetric := s3 \<rparr>"
  define b3 where "b3 = b2 \<lparr> hs_action := Action_Split, hs_tokens := [TOKEN_END], hs_symmetric := s3, hs_remote_static := public_of np ka \<rparr>"
  have "noise_handshakestate_split np a3 = (Some (c1, c2), a3 \<lparr> hs_symmetric := s3 \<lparr> ss_cipher := None \<rparr>, hs_action := Action_Complete \<rparr>)"
    "noise_handshakestate_split np b3 = (Some (c2, c1), b3 \<lparr> hs_symmetric := s3 \<lparr> ss_cipher := None \<rparr>, hs_action := Action_Complete \<rparr>)"
    using sp(1) a(3) b(3) by (simp_all add: noise_handshakestate_split_def a3_def b3_def a2_def b2_def a1_def b1_def)
  note sps = this
  show thesis
    by (rule that [OF _ 2(1) 3(1) 1(2) [folded a1_def] 1(3) [folded b1_def] 2(3) [folded b2_def] 2(4) [folded a2_def]
         3(3) [folded a3_def] 3(4) [folded b3_def] _ _ _ _ _ _ sps sp(2-5)])
       (simp_all add: prims_okD(3) [OF assms(1)] a1_def b1_def a2_def b2_def a3_def b3_def public_of_def)
qed

text \<open>
  C12: the XX handshake works. Two nodes with well-formed keys exchange three messages of 32, 96 and 64 bytes, which fit the
  message buffer; both then split, the sending cipher of each is the receiving cipher of the other, with a fresh counter,
  each has learned the static key of the other, and they agree on the handshake hash.
\<close>

theorem noise_xx_agrees:
  assumes "prims_ok np" "length ka = 32" "length kb = 32" "party np ka ra True = Some a" "party np kb rb False = Some b" "96 \<le> cap"
  shows "\<exists>m1 m2 m3 a' b' tx rx a'' b''. xx_exchange np cap a b = Some ([m1, m2, m3], a', b') \<and>
    length m1 = 32 \<and> length m2 = 96 \<and> length m3 = 64 \<and>
    noise_handshakestate_split np a' = (Some (tx, rx), a'') \<and> noise_handshakestate_split np b' = (Some (rx, tx), b'') \<and>
    cs_has_key tx \<and> cs_has_key rx \<and> cs_n tx = 0 \<and> cs_n rx = 0 \<and>
    dh_public_key (hs_remote_static a'') = np_base np kb \<and> dh_public_key (hs_remote_static b'') = np_base np ka \<and>
    noise_handshakestate_get_handshake_hash a'' = noise_handshakestate_get_handshake_hash b'' \<and>
    noise_handshakestate_get_handshake_hash a'' \<noteq> None"
proof -
  obtain m1 m2 m3 a1 a2 a3 a4 b1 b2 b3 b4 tx rx where st: "length m1 = 32" "length m2 = 96" "length m3 = 64"
    "noise_handshakestate_write_message np cap None a = (Some m1, a1)" "noise_handshakestate_read_message np m1 cap b = (Some [], b1)"
    "noise_handshakestate_write_message np cap None b1 = (Some m2, b2)" "noise_handshakestate_read_message np m2 cap a1 = (Some [], a2)"
    "noise_handshakestate_write_message np cap None a2 = (Some m3, a3)" "noise_handshakestate_read_message np m3 cap b2 = (Some [], b3)"
    and sp: "noise_handshakestate_split np a3 = (Some (tx, rx), a4)" "noise_handshakestate_split np b3 = (Some (rx, tx), b4)"
    "cs_has_key tx" "cs_has_key rx" "cs_n tx = 0" "cs_n rx = 0"
    "dh_public_key (hs_remote_static a4) = np_base np kb" "dh_public_key (hs_remote_static b4) = np_base np ka"
    "hs_action a4 = Action_Complete" "hs_action b4 = Action_Complete" "hs_symmetric a4 = hs_symmetric b4"
    by (rule xx_steps [OF assms]) blast
  have "xx_exchange np cap a b = Some ([m1, m2, m3], a3, b3)" by (simp add: xx_exchange_def st)
  then show ?thesis using st(1-3) sp by (simp add: noise_handshakestate_get_handshake_hash_def)
qed

definition toy_prims :: noise_prims where
  "toy_prims = \<lparr> np_hash = (\<lambda>m. take 32 (m @ replicate 32 3)), np_base = (\<lambda>k. 9 # take 31 (k @ replicate 31 0)),
     np_mult = (\<lambda>k p. map2 (+) (9 # take 31 (k @ replicate 31 0)) p), np_aead = toy_aead \<rparr>"

lemma toy_prims_ok: "prims_ok toy_prims"
proof -
  have "map2 (+) xs ys = map2 (+) ys xs" for xs ys :: bytes
    by (induction xs ys rule: list_induct2') (simp_all add: add.commute)
  then show ?thesis using toy_aead_ok by (auto simp: prims_ok_def toy_prims_def noise_is_zero_def)
qed

theorem noise_xx_agrees_witness:
  "\<exists>m1 m2 m3 a' b'. xx_exchange toy_prims 256 (the (party toy_prims (replicate 32 1) (replicate 32 2) True))
     (the (party toy_prims (replicate 32 3) (replicate 32 4) False)) = Some ([m1, m2, m3], a', b') \<and> length m2 = 96"
proof -
  have p: "party toy_prims (replicate 32 1) (replicate 32 2) True = Some (the (party toy_prims (replicate 32 1) (replicate 32 2) True))"
    "party toy_prims (replicate 32 3) (replicate 32 4) False = Some (the (party toy_prims (replicate 32 3) (replicate 32 4) False))"
    by (simp_all add: party_works [OF toy_prims_ok])
  show ?thesis using noise_xx_agrees [OF toy_prims_ok _ _ p, of 256] by auto
qed

text \<open>
  The two HMACs of the firmware agree. The HMAC of the Noise library, which reworks one key block in place, computes
  for keys of at most a block the same tag as the node's own \<open>bitle_hmac_sha256\<close>, when both use the same SHA-256.
\<close>

lemma noise_hmac_is_bitle_hmac:
  assumes "length key \<le> 64" "np_hash np = bitle_sha256 psa"
  shows "noise_hashstate_hmac np key data = bitle_hmac_sha256 psa key data"
proof -
  let ?kb = "key @ replicate (64 - length key) 0"
  have "noise_hashstate_xor_key HMAC_IPAD ?kb = xor_pad 0x36 key"
    by (rule nth_equalityI) (use assms(1) in \<open>auto simp: noise_hashstate_xor_key_def xor_pad_def HMAC_IPAD_def nth_append xor.commute\<close>)
  moreover have "noise_hashstate_xor_key (HMAC_IPAD XOR HMAC_OPAD) (xor_pad 0x36 key) = xor_pad 0x5C key"
    by (rule nth_equalityI)
       (auto simp: noise_hashstate_xor_key_def xor_pad_def HMAC_IPAD_def HMAC_OPAD_def ac_simps xor.left_commute)
  ultimately show ?thesis using assms
    by (simp add: noise_hashstate_hmac_def Let_def NOISE_BLOCK_LEN_def hmac_rfc2104)
qed

end
