(* ===== verification/Noise_Session.thy ===== *)
theory Noise_Session
  imports Node_Identity Noise_Protocol
begin

text \<open>
  Noise sessions of \<open>main/noise_handshake.c\<close>: the session table, the handshake driver, transport
  encryption with its explicit nonce, the events of
  the worker task and its periodic maintenance. The handshake state machine of the vendored library is the
  parameter \<open>noise_lib\<close> over a type of its own, the AEAD that of the cipher states. Sessions
  are addressed by their index in the table, where the code holds a pointer into it. Sends go through the link
  registry and change the world; calls of other modules that return nothing to this one are
  collected in \<open>nt_calls\<close>.
\<close>

section \<open>State\<close>

definition NOISE_QUEUE_DEPTH :: nat where "NOISE_QUEUE_DEPTH = 12"
definition NOISE_EVENT_PAYLOAD_MAX :: nat where "NOISE_EVENT_PAYLOAD_MAX = 456"
definition NOISE_MAX_ENCRYPTED_PAYLOAD :: nat where "NOISE_MAX_ENCRYPTED_PAYLOAD = 320"
definition ANNOUNCE_INTERVAL_MS :: u64 where "ANNOUNCE_INTERVAL_MS = 10 * 1000"
definition NOISE_TRANSPORT_NONCE_LEN :: nat where "NOISE_TRANSPORT_NONCE_LEN = 4"
definition BITCHAT_NOISE_PAYLOAD_PRIVATE_MESSAGE :: u8 where "BITCHAT_NOISE_PAYLOAD_PRIVATE_MESSAGE = 0x01"
definition BITCHAT_NOISE_PAYLOAD_DELIVERED :: u8 where "BITCHAT_NOISE_PAYLOAD_DELIVERED = 0x03"

text \<open>
  \<open>nl_new\<close> makes a handshake state of a role, \<open>nl_keypair\<close> gives it the static keys; the other
  operations are those of \<open>handshakestate.c\<close>, with the capacity of the output buffer where they have one.
\<close>

record 'h noise_lib =
  nl_new :: "bool \<Rightarrow> 'h option"
  nl_keypair :: "bytes \<Rightarrow> bytes \<Rightarrow> 'h \<Rightarrow> 'h option"
  nl_start :: "'h \<Rightarrow> 'h option"
  nl_action :: "'h \<Rightarrow> noise_action"
  nl_write :: "nat \<Rightarrow> 'h \<Rightarrow> bytes option \<times> 'h"
  nl_read :: "bytes \<Rightarrow> nat \<Rightarrow> 'h \<Rightarrow> bytes option \<times> 'h"
  nl_split :: "'h \<Rightarrow> (cipher_state \<times> cipher_state) option \<times> 'h"
  nl_hash :: "'h \<Rightarrow> bytes"

record 'h noise_session =
  ns_in_use :: bool
  ns_conn_handle :: u16
  ns_initiator :: bool
  ns_established :: bool
  ns_peer_id :: bytes
  ns_handshake :: "'h option"
  ns_tx_cipher :: "cipher_state option"
  ns_rx_cipher :: "cipher_state option"
  ns_handshake_hash :: bytes
  ns_last_announce_ms :: u64
  ns_identity_sent :: bool
  ns_sent_sync_gen :: u32
  ns_tx_nonce :: u32
  ns_auto_replied :: bool
  ns_direct_peer :: bool
  ns_hs_attempts :: u8
  ns_next_hs_ms :: u64

definition zero_session :: "'h noise_session" where
  "zero_session = \<lparr> ns_in_use = False, ns_conn_handle = 0, ns_initiator = False, ns_established = False,
     ns_peer_id = replicate 8 0, ns_handshake = None, ns_tx_cipher = None, ns_rx_cipher = None, ns_handshake_hash = [],
     ns_last_announce_ms = 0, ns_identity_sent = False, ns_sent_sync_gen = 0, ns_tx_nonce = 0, ns_auto_replied = False,
     ns_direct_peer = False, ns_hs_attempts = 0, ns_next_hs_ms = 0 \<rparr>"

datatype noise_evt_type =
    NOISE_EVT_START | NOISE_EVT_PROCESS | NOISE_EVT_ANNOUNCE | NOISE_EVT_IDENTITY | NOISE_EVT_ENCRYPTED
  | NOISE_EVT_SUBSCRIBED | NOISE_EVT_DISCONNECT | NOISE_EVT_COURIER | NOISE_EVT_SYNC

record noise_event =
  nx_type :: noise_evt_type
  nx_conn_handle :: u16
  nx_initiator :: bool
  nx_timestamp_ms :: u64
  nx_ttl :: u8
  nx_has_signature :: bool
  nx_has_recipient :: bool
  nx_recipient_id :: bytes
  nx_signature :: bytes
  nx_peer_id :: bytes
  nx_payload :: bytes

definition zero_event :: noise_event where
  "zero_event = \<lparr> nx_type = NOISE_EVT_START, nx_conn_handle = 0, nx_initiator = False, nx_timestamp_ms = 0, nx_ttl = 0,
     nx_has_signature = False, nx_has_recipient = False, nx_recipient_id = replicate 8 0, nx_signature = replicate 64 0,
     nx_peer_id = replicate 8 0, nx_payload = [] \<rparr>"

datatype noise_call =
    Ota_Mark_Healthy
  | Ota_Peer_Version_Seen u16 bytes u32
  | Courier_Peer_Announced u16 bytes bytes bool u64
  | Courier_Accept u16 bytes bytes u64
  | Sync_Handle_Request u16 packet
  | Sync_Tick u16 bytes u64
  | Ble_Disconnect u16

record ('h, 'w) noise_st =
  nt_sessions :: "'h noise_session list"
  nt_identities :: "noise_identity list"
  nt_identity_pending :: "bool list"
  nt_queue :: "noise_event list"
  nt_last_maintenance_ms :: u64
  nt_clock :: clock
  nt_world :: 'w
  nt_calls :: "noise_call list"

text \<open>The surroundings of one step: the node's keys, the libraries, the links and the clock inputs.\<close>

record ('h, 'f, 'w) noise_env =
  ne_keys :: node_keys
  ne_alg :: sign_alg
  ne_psa :: psa_hash
  ne_lib :: "'h noise_lib"
  ne_aead :: aead
  ne_nvs :: nvs_io
  ne_mono :: u64
  ne_links :: "'f links"
  ne_drv :: "('f, 'w) link_driver"
  ne_lora_active :: bool
  ne_central :: "u16 \<Rightarrow> bool"
  ne_random :: bytes

abbreviation sess :: "nat \<Rightarrow> ('h, 'w) noise_st \<Rightarrow> 'h noise_session" where
  "sess i st \<equiv> nt_sessions st ! i"

definition upd_sess :: "nat \<Rightarrow> ('h noise_session \<Rightarrow> 'h noise_session) \<Rightarrow> ('h, 'w) noise_st \<Rightarrow> ('h, 'w) noise_st" where
  "upd_sess i f st = st \<lparr> nt_sessions := (nt_sessions st)[i := f (nt_sessions st ! i)] \<rparr>"

definition set_pending :: "nat \<Rightarrow> bool \<Rightarrow> ('h, 'w) noise_st \<Rightarrow> ('h, 'w) noise_st" where
  "set_pending i b st = st \<lparr> nt_identity_pending := (nt_identity_pending st)[i := b] \<rparr>"

definition add_call :: "noise_call \<Rightarrow> ('h, 'w) noise_st \<Rightarrow> ('h, 'w) noise_st" where
  "add_call c st = st \<lparr> nt_calls := nt_calls st @ [c] \<rparr>"

definition now_ms :: "('h, 'f, 'w) noise_env \<Rightarrow> ('h, 'w) noise_st \<Rightarrow> u64" where
  "now_ms env st = bitchat_time_now_ms (ne_mono env) (nt_clock st)"

definition peer_known :: "bytes \<Rightarrow> bool" where
  "peer_known p \<longleftrightarrow> list_ex (\<lambda>b. b \<noteq> 0) p"

section \<open>Session table\<close>

definition find_session :: "u16 \<Rightarrow> ('h, 'w) noise_st \<Rightarrow> nat option" where
  "find_session conn st = find_slot ns_in_use ns_conn_handle conn (nt_sessions st)"

definition alloc_session :: "u16 \<Rightarrow> ('h, 'w) noise_st \<Rightarrow> (nat \<times> ('h, 'w) noise_st) option" where
  "alloc_session conn st =
     (case find_session conn st of
        Some i \<Rightarrow> Some (i, st)
      | None \<Rightarrow>
          (case find_index (\<lambda>s. \<not> ns_in_use s) (nt_sessions st) of
             None \<Rightarrow> None
           | Some i \<Rightarrow> Some (i, set_pending i False (upd_sess i (\<lambda>s. zero_session \<lparr> ns_in_use := True, ns_conn_handle := conn \<rparr>) st))))"

definition clear_crypto :: "'h noise_session \<Rightarrow> 'h noise_session" where
  "clear_crypto s = s \<lparr> ns_handshake := None, ns_tx_cipher := None, ns_rx_cipher := None, ns_handshake_hash := [] \<rparr>"

definition free_session :: "nat \<Rightarrow> ('h, 'w) noise_st \<Rightarrow> ('h, 'w) noise_st" where
  "free_session i st =
     (let st1 = upd_sess i (\<lambda>s. (clear_crypto s) \<lparr> ns_peer_id := replicate 8 0, ns_initiator := False, ns_established := False,
                  ns_identity_sent := False, ns_sent_sync_gen := 0, ns_in_use := False \<rparr>) (set_pending i False st)
      in st1 \<lparr> nt_identities := (nt_identities st1)[i := zero_identity] \<rparr>)"

section \<open>Announcing\<close>

definition ns_send :: "('h, 'f, 'w) noise_env \<Rightarrow> u16 \<Rightarrow> u8 \<Rightarrow> bytes option \<Rightarrow> bytes \<Rightarrow> bool \<Rightarrow> ('h, 'w) noise_st \<Rightarrow> bool \<times> ('h, 'w) noise_st" where
  "ns_send env conn type recipient payload sign st =
     (case encode_and_send (ne_alg env) (nk_id (ne_keys env)) (now_ms env st) (ne_drv env) (ne_links env) conn type recipient payload sign
             (nt_world st) of
        (e, w) \<Rightarrow> (e = ESP_OK, st \<lparr> nt_world := w \<rparr>))"

definition send_identity_announce :: "('h, 'f, 'w) noise_env \<Rightarrow> nat \<Rightarrow> ('h, 'w) noise_st \<Rightarrow> bool \<times> ('h, 'w) noise_st" where
  "send_identity_announce env i st =
     (if \<not> bitchat_time_is_valid (nt_clock st) then (False, st)
      else case build_identity_payload (ne_alg env) (nk_id (ne_keys env)) (now_ms env st) NOISE_MESSAGE_MAX of
             None \<Rightarrow> (False, st)
           | Some payload \<Rightarrow>
               ns_send env (ns_conn_handle (sess i st)) BITCHAT_MSG_NOISE_IDENTITY_ANNOUNCE None payload True st)"

text \<open>The announce itself is the one \<open>noise_announce_link\<close> sends.\<close>

definition send_announce :: "('h, 'f, 'w) noise_env \<Rightarrow> nat \<Rightarrow> ('h, 'w) noise_st \<Rightarrow> bool \<times> ('h, 'w) noise_st" where
  "send_announce env i st =
     (let conn = ns_conn_handle (sess i st)
      in case noise_announce_link (ne_alg env) (nk_id (ne_keys env)) (ne_mono env) (nt_clock st) (ne_drv env) (ne_links env) conn (nt_world st) of
           (ok, w) \<Rightarrow>
             if \<not> ok then (False, st \<lparr> nt_world := w \<rparr>)
             else case noise_send_node_capability (ne_alg env) (nk_id (ne_keys env)) (now_ms env st) (ne_drv env) (ne_links env) conn
                         (ne_lora_active env) w of
                    (ok2, w2) \<Rightarrow>
                      if \<not> ok2 then (False, st \<lparr> nt_world := w2 \<rparr>)
                      else (True, upd_sess i (\<lambda>s. s \<lparr> ns_last_announce_ms := ne_mono env \<rparr>) (st \<lparr> nt_world := w2 \<rparr>)))"

definition try_send_identity :: "('h, 'f, 'w) noise_env \<Rightarrow> nat \<Rightarrow> ('h, 'w) noise_st \<Rightarrow> bool \<times> ('h, 'w) noise_st" where
  "try_send_identity env i st =
     (if \<not> nt_identity_pending st ! i then (False, st)
      else if ns_identity_sent (sess i st) then (True, st)
      else if \<not> bitle_link_ready (ns_conn_handle (sess i st)) (ne_links env) then (False, st)
      else if \<not> bitchat_time_is_valid (nt_clock st) then (False, st)
      else case send_announce env i st of
             (False, st1) \<Rightarrow> (False, st1)
           | (True, st1) \<Rightarrow>
               (let st2 = snd (send_identity_announce env i st1)
                in (True, upd_sess i (\<lambda>s. s \<lparr> ns_identity_sent := True,
                            ns_sent_sync_gen := bitchat_time_sync_generation (nt_clock st2) \<rparr>) (set_pending i False st2))))"

section \<open>Handshake\<close>

definition create_handshake :: "('h, 'f, 'w) noise_env \<Rightarrow> bool \<Rightarrow> 'h option" where
  "create_handshake env initiator =
     Option.bind (nl_new (ne_lib env) initiator)
       (nl_keypair (ne_lib env) (nk_static_private (ne_keys env)) (ni_static_public (nk_id (ne_keys env))))"

definition directed :: "bytes \<Rightarrow> bytes option" where
  "directed peer = (if peer_known peer then Some peer else None)"

definition send_handshake_message :: "('h, 'f, 'w) noise_env \<Rightarrow> nat \<Rightarrow> 'h \<Rightarrow> ('h, 'w) noise_st \<Rightarrow> bool \<times> ('h, 'w) noise_st" where
  "send_handshake_message env i h st =
     (case nl_write (ne_lib env) NOISE_MESSAGE_MAX h of
        (None, h') \<Rightarrow> (False, upd_sess i (\<lambda>s. s \<lparr> ns_handshake := Some h' \<rparr>) st)
      | (Some msg, h') \<Rightarrow>
          (let st1 = upd_sess i (\<lambda>s. s \<lparr> ns_handshake := Some h' \<rparr>) st
           in if msg = [] then (True, st1)
              else ns_send env (ns_conn_handle (sess i st1)) BITCHAT_MSG_NOISE_HANDSHAKE (directed (ns_peer_id (sess i st1))) msg False st1))"

definition derive_transport_keys :: "('h, 'f, 'w) noise_env \<Rightarrow> nat \<Rightarrow> 'h \<Rightarrow> ('h, 'w) noise_st \<Rightarrow> bool \<times> ('h, 'w) noise_st" where
  "derive_transport_keys env i h st =
     (case nl_split (ne_lib env) h of
        (None, h') \<Rightarrow> (False, upd_sess i (\<lambda>s. s \<lparr> ns_handshake := Some h' \<rparr>) st)
      | (Some (tx, rx), h') \<Rightarrow>
          (True, upd_sess i (\<lambda>s. s \<lparr> ns_handshake := Some h', ns_tx_cipher := Some tx, ns_rx_cipher := Some rx, ns_tx_nonce := 0,
             ns_handshake_hash := nl_hash (ne_lib env) h', ns_established := True \<rparr>) st))"

definition mark_established :: "('h, 'f, 'w) noise_env \<Rightarrow> nat \<Rightarrow> ('h, 'w) noise_st \<Rightarrow> ('h, 'w) noise_st" where
  "mark_established env i st =
     snd (try_send_identity env i
       (set_pending i True (upd_sess i (\<lambda>s. s \<lparr> ns_handshake := None, ns_established := True, ns_identity_sent := False \<rparr>) st)))"

text \<open>The cases of the loop that return; only a written message leads to a second iteration.\<close>

definition advance_settled :: "('h, 'f, 'w) noise_env \<Rightarrow> nat \<Rightarrow> 'h \<Rightarrow> ('h, 'w) noise_st \<Rightarrow> bool \<times> ('h, 'w) noise_st" where
  "advance_settled env i h st =
     (case nl_action (ne_lib env) h of
        Action_Split \<Rightarrow>
          (case derive_transport_keys env i h st of
             (False, st1) \<Rightarrow> (False, st1)
           | (True, st1) \<Rightarrow> (True, mark_established env i st1))
      | Action_Failed \<Rightarrow> (False, st)
      | _ \<Rightarrow> (True, st))"

definition advance_handshake :: "('h, 'f, 'w) noise_env \<Rightarrow> nat \<Rightarrow> ('h, 'w) noise_st \<Rightarrow> bool \<times> ('h, 'w) noise_st" where
  "advance_handshake env i st =
     (case ns_handshake (sess i st) of
        None \<Rightarrow> (False, st)
      | Some h \<Rightarrow>
          if nl_action (ne_lib env) h = Action_Write
          then case send_handshake_message env i h st of
                 (False, st1) \<Rightarrow> (False, st1)
               | (True, st1) \<Rightarrow>
                   (case ns_handshake (sess i st1) of
                      None \<Rightarrow> (True, st1)
                    | Some h1 \<Rightarrow> if nl_action (ne_lib env) h1 = Action_Write then (True, st1) else advance_settled env i h1 st1)
          else advance_settled env i h st)"

definition start_handshake :: "('h, 'f, 'w) noise_env \<Rightarrow> noise_event \<Rightarrow> nat \<Rightarrow> ('h, 'w) noise_st \<Rightarrow> bool \<times> ('h, 'w) noise_st" where
  "start_handshake env evt i st =
     (if ns_handshake (sess i st) \<noteq> None then (True, st)
      else case create_handshake env (nx_initiator evt) of
             None \<Rightarrow> (False, st)
           | Some h \<Rightarrow>
               (case nl_start (ne_lib env) h of
                  None \<Rightarrow> (False, upd_sess i (\<lambda>s. clear_crypto (s \<lparr> ns_initiator := nx_initiator evt \<rparr>)) st)
                | Some h' \<Rightarrow>
                    advance_handshake env i (upd_sess i (\<lambda>s. s \<lparr> ns_handshake := Some h', ns_initiator := nx_initiator evt,
                      ns_peer_id := nx_peer_id evt, ns_identity_sent := False, ns_established := False \<rparr>) st)))"

definition process_handshake :: "('h, 'f, 'w) noise_env \<Rightarrow> noise_event \<Rightarrow> nat \<Rightarrow> ('h, 'w) noise_st \<Rightarrow> bool \<times> ('h, 'w) noise_st" where
  "process_handshake env evt i st =
     (let st1 = (if ns_handshake (sess i st) \<noteq> None \<and> ns_initiator (sess i st) \<and> length (nx_payload evt) = 32
                 then upd_sess i (\<lambda>s. (clear_crypto s) \<lparr> ns_established := False \<rparr>) st else st)
      in case (if ns_handshake (sess i st1) = None then start_handshake env evt i st1 else (True, st1)) of
           (False, st2) \<Rightarrow> (False, st2)
         | (True, st2) \<Rightarrow>
             if \<not> ns_initiator (sess i st2) \<and> nx_payload evt = [] then (False, st2)
             else case ns_handshake (sess i st2) of
                    None \<Rightarrow> (False, st2)
                  | Some h \<Rightarrow>
                      (case nl_read (ne_lib env) (nx_payload evt) NOISE_MESSAGE_MAX h of
                         (None, h') \<Rightarrow> (False, upd_sess i (\<lambda>s. s \<lparr> ns_handshake := Some h' \<rparr>) st2)
                       | (Some response, h') \<Rightarrow>
                           (let st3 = upd_sess i (\<lambda>s. s \<lparr> ns_handshake := Some h' \<rparr>) st2
                            in case (if response = [] then (True, st3)
                                     else ns_send env (ns_conn_handle (sess i st3)) BITCHAT_MSG_NOISE_HANDSHAKE
                                            (directed (ns_peer_id (sess i st3))) response False st3) of
                                 (False, st4) \<Rightarrow> (False, st4)
                               | (True, st4) \<Rightarrow> advance_handshake env i st4)))"

section \<open>Transport\<close>

definition encrypt_payload :: "aead \<Rightarrow> nat \<Rightarrow> bytes \<Rightarrow> 'h noise_session \<Rightarrow> bytes option \<times> 'h noise_session" where
  "encrypt_payload ae cap input s =
     (case ns_tx_cipher s of
        None \<Rightarrow> (None, s)
      | Some c \<Rightarrow>
          if length input + NOISE_TRANSPORT_NONCE_LEN > cap then (None, s)
          else case noise_cipherstate_set_nonce (ucast (ns_tx_nonce s)) c of
                 (False, c1) \<Rightarrow> (None, s \<lparr> ns_tx_cipher := Some c1 \<rparr>)
               | (True, c1) \<Rightarrow>
                   (case noise_cipherstate_encrypt ae (cap - NOISE_TRANSPORT_NONCE_LEN) input c1 of
                      (None, c2) \<Rightarrow> (None, s \<lparr> ns_tx_cipher := Some c2 \<rparr>)
                    | (Some ct, c2) \<Rightarrow>
                        (Some (be_enc 4 (ns_tx_nonce s) @ ct), s \<lparr> ns_tx_cipher := Some c2, ns_tx_nonce := ns_tx_nonce s + 1 \<rparr>)))"

definition decrypt_payload :: "aead \<Rightarrow> nat \<Rightarrow> bytes \<Rightarrow> 'h noise_session \<Rightarrow> bytes option \<times> 'h noise_session" where
  "decrypt_payload ae cap input s =
     (case ns_rx_cipher s of
        None \<Rightarrow> (None, s)
      | Some c \<Rightarrow>
          if length input \<le> NOISE_TRANSPORT_NONCE_LEN \<or> length input - NOISE_TRANSPORT_NONCE_LEN > cap then (None, s)
          else case noise_cipherstate_set_nonce (ucast (be_val (take 4 input) :: u32)) c of
                 (False, c1) \<Rightarrow> (None, s \<lparr> ns_rx_cipher := Some c1 \<rparr>)
               | (True, c1) \<Rightarrow>
                   (case noise_cipherstate_decrypt ae cap (drop NOISE_TRANSPORT_NONCE_LEN input) c1 of
                      (r, c2) \<Rightarrow> (r, s \<lparr> ns_rx_cipher := Some c2 \<rparr>)))"

definition noise_send_encrypted ::
  "('h, 'f, 'w) noise_env \<Rightarrow> u16 \<Rightarrow> u8 \<Rightarrow> bytes \<Rightarrow> ('h, 'w) noise_st \<Rightarrow> bool \<times> ('h, 'w) noise_st" where
  "noise_send_encrypted env conn payload_type payload st =
     (case find_session conn st of
        None \<Rightarrow> (False, st)
      | Some i \<Rightarrow>
          if \<not> ns_established (sess i st) then (False, st)
          else if length payload + 1 > NOISE_MAX_ENCRYPTED_PAYLOAD then (False, st)
          else case encrypt_payload (ne_aead env) NOISE_MAX_ENCRYPTED_PAYLOAD (payload_type # payload) (sess i st) of
                 (None, s) \<Rightarrow> (False, upd_sess i (\<lambda>_. s) st)
               | (Some ct, s) \<Rightarrow>
                   ns_send env conn BITCHAT_MSG_NOISE_ENCRYPTED (Some (ns_peer_id s)) ct True (upd_sess i (\<lambda>_. s) st))"

section \<open>Private messages\<close>

definition hex_upper :: "u8 \<Rightarrow> bytes" where
  "hex_upper b = map (\<lambda>d. if d < 10 then 0x30 + d else 0x41 + (d - 10)) [drop_bit 4 b, b AND 0x0F]"

definition generate_uuid_string :: "bytes \<Rightarrow> bytes" where
  "generate_uuid_string rnd =
     (let raw = (rnd[6 := (rnd ! 6 AND 0x0F) OR 0x40])[8 := (rnd ! 8 AND 0x3F) OR 0x80];
          h = (\<lambda>off n. concat (map hex_upper (bslice off n raw)))
      in h 0 4 @ [0x2D] @ h 4 2 @ [0x2D] @ h 6 2 @ [0x2D] @ h 8 2 @ [0x2D] @ h 10 6)"

definition BITLE_AUTO_REPLY_TEXT :: bytes where
  "BITLE_AUTO_REPLY_TEXT = map (\<lambda>c. word_of_nat (of_char c))
     ''This is an automated reply. Bitle is a relay node that extends the range of Bluetooth mesh networks. It relays encrypted packets without decrypting them, preserving end-to-end encryption. bitle.org''"

definition send_auto_reply :: "('h, 'f, 'w) noise_env \<Rightarrow> nat \<Rightarrow> ('h, 'w) noise_st \<Rightarrow> ('h, 'w) noise_st" where
  "send_auto_reply env i st =
     (let uid = generate_uuid_string (ne_random env);
          payload = [0x00, word_of_nat (length uid)] @ uid @
                    [0x01, word_of_nat (length BITLE_AUTO_REPLY_TEXT)] @ BITLE_AUTO_REPLY_TEXT
      in case noise_send_encrypted env (ns_conn_handle (sess i st)) BITCHAT_NOISE_PAYLOAD_PRIVATE_MESSAGE payload st of
           (True, st1) \<Rightarrow> upd_sess i (\<lambda>s. s \<lparr> ns_auto_replied := True \<rparr>) st1
         | (False, st1) \<Rightarrow> st1)"

text \<open>
  The message id of a private message: the last id field that fits the buffer, up to its first NUL.
\<close>

function message_id_of :: "bytes \<Rightarrow> bytes \<Rightarrow> bytes" where
  "message_id_of p acc =
     (if length p < 2 then acc
      else let n = unat (p ! 1); rest = drop 2 p
           in if n > length rest then acc
              else message_id_of (drop n rest) (if p ! 0 = 0x00 \<and> n < 64 then take n rest else acc))"
  by pat_completeness auto
termination
  by (relation "measure (\<lambda>(p, acc). length p)") auto

declare message_id_of.simps [simp del]

definition c_string :: "bytes \<Rightarrow> bytes" where
  "c_string bs = takeWhile (\<lambda>b. b \<noteq> 0) bs"

definition handle_noise_payload ::
  "('h, 'f, 'w) noise_env \<Rightarrow> u16 \<Rightarrow> nat \<Rightarrow> bytes \<Rightarrow> ('h, 'w) noise_st \<Rightarrow> ('h, 'w) noise_st" where
  "handle_noise_payload env conn i decrypted st =
     (if decrypted = [] then st
      else if hd decrypted \<noteq> BITCHAT_NOISE_PAYLOAD_PRIVATE_MESSAGE then st
      else let message_id = c_string (message_id_of (tl decrypted) []);
               st1 = (if message_id \<noteq> [] then snd (noise_send_encrypted env conn BITCHAT_NOISE_PAYLOAD_DELIVERED message_id st) else st)
           in if \<not> ns_auto_replied (sess i st1) then send_auto_reply env i st1 else st1)"

section \<open>Queue\<close>

definition queue_event :: "noise_event \<Rightarrow> ('h, 'w) noise_st \<Rightarrow> esp_err \<times> ('h, 'w) noise_st" where
  "queue_event evt st =
     (if length (nt_queue st) \<ge> NOISE_QUEUE_DEPTH then (ESP_ERR_TIMEOUT, st)
      else (ESP_OK, st \<lparr> nt_queue := nt_queue st @ [evt] \<rparr>))"

definition enqueue_event ::
  "noise_evt_type \<Rightarrow> u16 \<Rightarrow> bytes option \<Rightarrow> bool \<Rightarrow> bytes \<Rightarrow> ('h, 'w) noise_st \<Rightarrow> bool \<times> ('h, 'w) noise_st" where
  "enqueue_event type conn peer initiator payload st =
     (if length payload > NOISE_EVENT_PAYLOAD_MAX then (False, st)
      else case queue_event (zero_event \<lparr> nx_type := type, nx_conn_handle := conn, nx_initiator := initiator,
                  nx_peer_id := (case peer of Some p \<Rightarrow> take 8 p | None \<Rightarrow> replicate 8 0), nx_payload := payload \<rparr>) st of
             (e, st') \<Rightarrow> (e = ESP_OK, st'))"

definition pkt_bytes :: "packet \<Rightarrow> bytes" where
  "pkt_bytes p = (case pk_payload p of Some b \<Rightarrow> take (unat (pk_payload_len p)) b | None \<Rightarrow> replicate (unat (pk_payload_len p)) 0)"

definition enqueue_packet_event :: "noise_evt_type \<Rightarrow> u16 \<Rightarrow> packet \<Rightarrow> ('h, 'w) noise_st \<Rightarrow> bool \<times> ('h, 'w) noise_st" where
  "enqueue_packet_event type conn p st =
     (if unat (pk_payload_len p) > NOISE_EVENT_PAYLOAD_MAX then (False, st)
      else case queue_event (zero_event \<lparr> nx_type := type, nx_conn_handle := conn, nx_timestamp_ms := pk_timestamp_ms p, nx_ttl := pk_ttl p,
                  nx_has_signature := pk_has_signature p, nx_has_recipient := pk_has_recipient p, nx_peer_id := take 8 (pk_sender_id p),
                  nx_recipient_id := (if pk_has_recipient p then take 8 (pk_recipient_id p) else replicate 8 0),
                  nx_signature := (if pk_has_signature p then take 64 (pk_signature p) else replicate 64 0), nx_payload := pkt_bytes p \<rparr>) st of
             (e, st') \<Rightarrow> (e = ESP_OK, st'))"

definition noise_handle_handshake :: "u16 \<Rightarrow> packet \<Rightarrow> ('h, 'w) noise_st \<Rightarrow> ('h, 'w) noise_st" where
  "noise_handle_handshake conn p st = snd (enqueue_event NOISE_EVT_PROCESS conn (Some (pk_sender_id p)) False (pkt_bytes p) st)"

definition noise_handle_identity_announce :: "u16 \<Rightarrow> packet \<Rightarrow> ('h, 'w) noise_st \<Rightarrow> ('h, 'w) noise_st" where
  "noise_handle_identity_announce conn p st = snd (enqueue_packet_event NOISE_EVT_IDENTITY conn p st)"

definition noise_handle_announce :: "u16 \<Rightarrow> packet \<Rightarrow> ('h, 'w) noise_st \<Rightarrow> ('h, 'w) noise_st" where
  "noise_handle_announce conn p st = snd (enqueue_packet_event NOISE_EVT_ANNOUNCE conn p st)"

definition noise_handle_courier :: "u16 \<Rightarrow> packet \<Rightarrow> ('h, 'w) noise_st \<Rightarrow> ('h, 'w) noise_st" where
  "noise_handle_courier conn p st = snd (enqueue_packet_event NOISE_EVT_COURIER conn p st)"

definition noise_handle_request_sync :: "u16 \<Rightarrow> packet \<Rightarrow> ('h, 'w) noise_st \<Rightarrow> ('h, 'w) noise_st" where
  "noise_handle_request_sync conn p st = snd (enqueue_packet_event NOISE_EVT_SYNC conn p st)"

definition noise_handle_encrypted :: "u16 \<Rightarrow> packet \<Rightarrow> ('h, 'w) noise_st \<Rightarrow> ('h, 'w) noise_st" where
  "noise_handle_encrypted conn p st = snd (enqueue_packet_event NOISE_EVT_ENCRYPTED conn p st)"

definition noise_notify_subscribed :: "u16 \<Rightarrow> ('h, 'w) noise_st \<Rightarrow> ('h, 'w) noise_st" where
  "noise_notify_subscribed conn st = snd (enqueue_event NOISE_EVT_SUBSCRIBED conn None False [] st)"

definition noise_reset_connection :: "u16 \<Rightarrow> ('h, 'w) noise_st \<Rightarrow> ('h, 'w) noise_st" where
  "noise_reset_connection conn st =
     snd (queue_event (zero_event \<lparr> nx_type := NOISE_EVT_DISCONNECT, nx_conn_handle := conn \<rparr>) st)"

definition noise_begin_handshake :: "u16 \<Rightarrow> bytes \<Rightarrow> ('h, 'w) noise_st \<Rightarrow> ('h, 'w) noise_st" where
  "noise_begin_handshake conn peer st =
     (case find_session conn st of
        Some i \<Rightarrow> if ns_handshake (sess i st) \<noteq> None then st else snd (enqueue_event NOISE_EVT_START conn (Some peer) True [] st)
      | None \<Rightarrow> snd (enqueue_event NOISE_EVT_START conn (Some peer) True [] st))"

section \<open>Events of the worker\<close>

definition bytes_gt :: "bytes \<Rightarrow> bytes \<Rightarrow> bool" where
  "bytes_gt a b = (case find_index (\<lambda>i. a ! i \<noteq> b ! i) [0..<min (length a) (length b)] of
     Some i \<Rightarrow> a ! i > b ! i | None \<Rightarrow> False)"

text \<open>
  Another session with the same peer means that both nodes dialled each other; the one with the higher id
  drops its own outgoing link.
\<close>

definition drop_duplicate_link :: "('h, 'f, 'w) noise_env \<Rightarrow> bytes \<Rightarrow> nat \<Rightarrow> ('h, 'w) noise_st \<Rightarrow> ('h, 'w) noise_st" where
  "drop_duplicate_link env peer i st =
     (case find_index (\<lambda>j. j \<noteq> i \<and> ns_in_use (sess j st) \<and> ns_peer_id (sess j st) = peer) [0..<length (nt_sessions st)] of
        None \<Rightarrow> st
      | Some j \<Rightarrow>
          if bytes_gt (ni_peer_id (nk_id (ne_keys env))) peer
          then let mine = ns_conn_handle (sess i st); other = ns_conn_handle (sess j st)
               in if ne_central env mine then (if mine \<noteq> 0xFFFF then add_call (Ble_Disconnect mine) st else st)
                  else if ne_central env other then (if other \<noteq> 0xFFFF then add_call (Ble_Disconnect other) st else st)
                  else st
          else st)"

definition bind_peer :: "bytes \<Rightarrow> 'h noise_session \<Rightarrow> 'h noise_session" where
  "bind_peer peer s = (if ns_peer_id s = replicate 8 0 then s \<lparr> ns_peer_id := peer \<rparr> else s)"

definition announce_verified :: "('h, 'f, 'w) noise_env \<Rightarrow> noise_event \<Rightarrow> noise_identity \<Rightarrow> bool \<Rightarrow> ('h, 'w) noise_st \<Rightarrow> ('h, 'w) noise_st" where
  "announce_verified env evt ident is_direct st =
     (let st1 = add_call (Courier_Peer_Announced (nx_conn_handle evt) (nx_peer_id evt) (id_noise_key ident) is_direct (now_ms env st))
                  (add_call (Ota_Peer_Version_Seen (nx_conn_handle evt) (nx_peer_id evt) (id_fw_version ident)) (add_call Ota_Mark_Healthy st))
      in if is_direct
         then st1 \<lparr> nt_clock := bitchat_time_consider_peer_announce (ne_nvs env) (ne_mono env) (ne_mono env) (nx_timestamp_ms evt)
                      (id_is_infra ident) (id_is_authoritative ident) (nt_clock st1) \<rparr>
         else st1)"

definition announce_direct :: "('h, 'f, 'w) noise_env \<Rightarrow> noise_event \<Rightarrow> noise_identity \<Rightarrow> bool \<Rightarrow> ('h, 'w) noise_st \<Rightarrow> ('h, 'w) noise_st" where
  "announce_direct env evt ident sig_ok st =
     (case alloc_session (nx_conn_handle evt) st of
        None \<Rightarrow> st
      | Some (i, st1) \<Rightarrow>
          (let r = ident \<lparr> id_valid := True, id_verified := sig_ok, id_timestamp_ms := nx_timestamp_ms evt, id_peer_id := nx_peer_id evt \<rparr>;
               st2 = (if \<not> id_verified (nt_identities st1 ! i) \<or> sig_ok
                      then st1 \<lparr> nt_identities := (nt_identities st1)[i := r] \<rparr> else st1);
               st3 = upd_sess i (\<lambda>s. bind_peer (nx_peer_id evt) (s \<lparr> ns_direct_peer := True \<rparr>)) st2
           in drop_duplicate_link env (nx_peer_id evt) i st3))"

definition answer_announce :: "('h, 'f, 'w) noise_env \<Rightarrow> u16 \<Rightarrow> ('h, 'w) noise_st \<Rightarrow> ('h, 'w) noise_st" where
  "answer_announce env conn st =
     (case find_session conn st of
        None \<Rightarrow> st
      | Some i \<Rightarrow> if ns_identity_sent (sess i st) then st else snd (try_send_identity env i (set_pending i True st)))"

definition process_announce_event :: "('h, 'f, 'w) noise_env \<Rightarrow> noise_event \<Rightarrow> ('h, 'w) noise_st \<Rightarrow> ('h, 'w) noise_st" where
  "process_announce_event env evt st =
     (let is_direct = (nx_ttl evt = NOISE_PACKET_TTL)
      in case parse_announce_tlv (nx_payload evt) of
           None \<Rightarrow> answer_announce env (nx_conn_handle evt) st
         | Some ident \<Rightarrow>
             (case verify_announce (ne_alg env) (ne_psa env) (nx_peer_id evt) (nx_timestamp_ms evt) (nx_has_signature evt)
                     (nx_signature evt) (nx_payload evt) ident of
                None \<Rightarrow> st
              | Some sig_ok \<Rightarrow>
                  (let st1 = (if sig_ok then announce_verified env evt ident is_direct st else st);
                       st2 = (if is_direct then announce_direct env evt ident sig_ok st1 else st1)
                   in answer_announce env (nx_conn_handle evt) st2)))"

definition process_identity_event :: "('h, 'f, 'w) noise_env \<Rightarrow> noise_event \<Rightarrow> ('h, 'w) noise_st \<Rightarrow> ('h, 'w) noise_st" where
  "process_identity_event env evt st =
     (case alloc_session (nx_conn_handle evt) st of
        None \<Rightarrow> st
      | Some (i, st1) \<Rightarrow>
          (case parse_identity_payload (nx_payload evt) of
             None \<Rightarrow> st1
           | Some (ident, timestamp) \<Rightarrow>
               (let st2 = st1 \<lparr> nt_clock := bitchat_time_consider_peer (ne_nvs env) (ne_mono env) (ne_mono env) timestamp (nt_clock st1) \<rparr>;
                    st3 = (if id_verified (nt_identities st2 ! i) then st2
                           else st2 \<lparr> nt_identities := (nt_identities st2)[i := ident \<lparr> id_peer_id := nx_peer_id evt \<rparr>] \<rparr>)
                in snd (try_send_identity env i (upd_sess i (bind_peer (nx_peer_id evt)) st3)))))"

definition process_encrypted_event :: "('h, 'f, 'w) noise_env \<Rightarrow> noise_event \<Rightarrow> ('h, 'w) noise_st \<Rightarrow> ('h, 'w) noise_st" where
  "process_encrypted_event env evt st =
     (case find_session (nx_conn_handle evt) st of
        None \<Rightarrow> noise_begin_handshake (nx_conn_handle evt) (nx_peer_id evt) st
      | Some i \<Rightarrow>
          if \<not> ns_established (sess i st)
          then (if ns_handshake (sess i st) = None then noise_begin_handshake (nx_conn_handle evt) (nx_peer_id evt) st else st)
          else case decrypt_payload (ne_aead env) NOISE_MAX_ENCRYPTED_PAYLOAD (nx_payload evt) (sess i st) of
                 (None, s) \<Rightarrow> upd_sess i (\<lambda>_. s) st
               | (Some plaintext, s) \<Rightarrow> handle_noise_payload env (nx_conn_handle evt) i plaintext (upd_sess i (\<lambda>_. s) st))"

definition event_to_packet :: "noise_event \<Rightarrow> u8 \<Rightarrow> packet" where
  "event_to_packet evt type =
     zero_packet \<lparr> pk_version := 1, pk_type := type, pk_ttl := nx_ttl evt, pk_timestamp_ms := nx_timestamp_ms evt,
       pk_sender_id := nx_peer_id evt, pk_has_recipient := nx_has_recipient evt,
       pk_recipient_id := (if nx_has_recipient evt then nx_recipient_id evt else replicate 8 0),
       pk_payload := Some (nx_payload evt), pk_payload_len := word_of_nat (length (nx_payload evt)),
       pk_has_signature := nx_has_signature evt,
       pk_signature := (if nx_has_signature evt then nx_signature evt else replicate 64 0) \<rparr>"

definition process_courier_event :: "('h, 'f, 'w) noise_env \<Rightarrow> noise_event \<Rightarrow> ('h, 'w) noise_st \<Rightarrow> ('h, 'w) noise_st" where
  "process_courier_event env evt st =
     (case find_session (nx_conn_handle evt) st of
        None \<Rightarrow> st
      | Some i \<Rightarrow>
          if ns_peer_id (sess i st) \<noteq> nx_peer_id evt then st
          else let ident = nt_identities st ! i
               in if \<not> id_valid ident \<or> \<not> id_verified ident then st
                  else if \<not> noise_verify_packet_signature (ne_alg env) (event_to_packet evt BITCHAT_MSG_COURIER_ENVELOPE) (id_sign_key ident) then st
                  else add_call (Courier_Accept (nx_conn_handle evt) (nx_peer_id evt) (nx_payload evt) (now_ms env st)) st)"

definition process_sync_event :: "noise_event \<Rightarrow> ('h, 'w) noise_st \<Rightarrow> ('h, 'w) noise_st" where
  "process_sync_event evt st = add_call (Sync_Handle_Request (nx_conn_handle evt) (event_to_packet evt BITCHAT_MSG_REQUEST_SYNC)) st"

definition process_subscribed_event :: "('h, 'f, 'w) noise_env \<Rightarrow> noise_event \<Rightarrow> ('h, 'w) noise_st \<Rightarrow> ('h, 'w) noise_st" where
  "process_subscribed_event env evt st =
     (let st1 = (case find_session (nx_conn_handle evt) st of Some i \<Rightarrow> free_session i st | None \<Rightarrow> st)
      in case alloc_session (nx_conn_handle evt) st1 of
           None \<Rightarrow> st1
         | Some (i, st2) \<Rightarrow> snd (try_send_identity env i (set_pending i True st2)))"

definition process_start_event :: "('h, 'f, 'w) noise_env \<Rightarrow> noise_event \<Rightarrow> ('h, 'w) noise_st \<Rightarrow> ('h, 'w) noise_st" where
  "process_start_event env evt st =
     (case alloc_session (nx_conn_handle evt) st of
        None \<Rightarrow> st
      | Some (i, st1) \<Rightarrow>
          if ns_handshake (sess i st1) \<noteq> None then st1
          else case start_handshake env evt i st1 of
                 (True, st2) \<Rightarrow> st2
               | (False, st2) \<Rightarrow> free_session i st2)"

definition process_message_event :: "('h, 'f, 'w) noise_env \<Rightarrow> noise_event \<Rightarrow> ('h, 'w) noise_st \<Rightarrow> ('h, 'w) noise_st" where
  "process_message_event env evt st =
     (case alloc_session (nx_conn_handle evt) st of
        None \<Rightarrow> st
      | Some (i, st1) \<Rightarrow>
          (case process_handshake env evt i (upd_sess i (\<lambda>s. s \<lparr> ns_peer_id := nx_peer_id evt \<rparr>) st1) of
             (True, st2) \<Rightarrow> st2
           | (False, st2) \<Rightarrow> free_session i st2))"

definition process_event :: "('h, 'f, 'w) noise_env \<Rightarrow> noise_event \<Rightarrow> ('h, 'w) noise_st \<Rightarrow> ('h, 'w) noise_st" where
  "process_event env evt st =
     (case nx_type evt of
        NOISE_EVT_START \<Rightarrow> process_start_event env evt st
      | NOISE_EVT_PROCESS \<Rightarrow> process_message_event env evt st
      | NOISE_EVT_ANNOUNCE \<Rightarrow> process_announce_event env evt st
      | NOISE_EVT_IDENTITY \<Rightarrow> process_identity_event env evt st
      | NOISE_EVT_ENCRYPTED \<Rightarrow> process_encrypted_event env evt st
      | NOISE_EVT_SUBSCRIBED \<Rightarrow> process_subscribed_event env evt st
      | NOISE_EVT_COURIER \<Rightarrow> process_courier_event env evt st
      | NOISE_EVT_SYNC \<Rightarrow> process_sync_event evt st
      | NOISE_EVT_DISCONNECT \<Rightarrow> (case find_session (nx_conn_handle evt) st of Some i \<Rightarrow> free_session i st | None \<Rightarrow> st))"

section \<open>Maintenance\<close>

definition maintain_handshake :: "('h, 'f, 'w) noise_env \<Rightarrow> nat \<Rightarrow> ('h, 'w) noise_st \<Rightarrow> ('h, 'w) noise_st" where
  "maintain_handshake env i st =
     (let s = sess i st
      in if ns_direct_peer s \<and> ns_identity_sent s \<and> \<not> ns_established s \<and> ns_handshake s = None \<and>
            \<not> bitle_link_is_broadcast (ns_conn_handle s) (ne_links env) \<and> ns_hs_attempts s < 3 \<and> ne_mono env \<ge> ns_next_hs_ms s
         then noise_begin_handshake (ns_conn_handle s) (ns_peer_id s)
                (upd_sess i (\<lambda>s. s \<lparr> ns_hs_attempts := ns_hs_attempts s + 1, ns_next_hs_ms := ne_mono env + 15000 \<rparr>) st)
         else st)"

definition maintain_announce :: "('h, 'f, 'w) noise_env \<Rightarrow> bool \<Rightarrow> u32 \<Rightarrow> nat \<Rightarrow> ('h, 'w) noise_st \<Rightarrow> ('h, 'w) noise_st" where
  "maintain_announce env time_ok sync_gen i st =
     (if ns_identity_sent (sess i st) \<and> ns_sent_sync_gen (sess i st) \<noteq> sync_gen
      then (case send_announce env i st of
              (False, st1) \<Rightarrow> st1
            | (True, st1) \<Rightarrow>
                (case send_identity_announce env i st1 of
                   (False, st2) \<Rightarrow> st2
                 | (True, st2) \<Rightarrow> upd_sess i (\<lambda>s. s \<lparr> ns_sent_sync_gen := sync_gen \<rparr>) st2))
      else let st1 = (if (ns_last_announce_ms (sess i st) = 0 \<or> ne_mono env - ns_last_announce_ms (sess i st) \<ge> ANNOUNCE_INTERVAL_MS) \<and> time_ok
                      then case send_announce env i st of
                             (True, st2) \<Rightarrow> upd_sess i (\<lambda>s. s \<lparr> ns_last_announce_ms := ne_mono env \<rparr>) st2
                           | (False, st2) \<Rightarrow> st2
                      else st)
           in if ns_identity_sent (sess i st1) \<and> ns_direct_peer (sess i st1)
              then add_call (Sync_Tick (ns_conn_handle (sess i st1)) (ns_peer_id (sess i st1)) (ne_mono env)) st1 else st1)"

definition maintain_session :: "('h, 'f, 'w) noise_env \<Rightarrow> bool \<Rightarrow> u32 \<Rightarrow> nat \<Rightarrow> ('h, 'w) noise_st \<Rightarrow> ('h, 'w) noise_st" where
  "maintain_session env time_ok sync_gen i st =
     (if \<not> ns_in_use (sess i st) \<or> \<not> bitle_link_ready (ns_conn_handle (sess i st)) (ne_links env) then st
      else let st1 = (if nt_identity_pending st ! i then snd (try_send_identity env i st) else st)
           in maintain_announce env time_ok sync_gen i (maintain_handshake env i st1))"

definition poll_session_maintenance :: "('h, 'f, 'w) noise_env \<Rightarrow> ('h, 'w) noise_st \<Rightarrow> ('h, 'w) noise_st" where
  "poll_session_maintenance env st =
     (if ne_mono env - nt_last_maintenance_ms st < 500 then st
      else fold (maintain_session env (bitchat_time_is_valid (nt_clock st)) (bitchat_time_sync_generation (nt_clock st)))
             [0..<length (nt_sessions st)] (st \<lparr> nt_last_maintenance_ms := ne_mono env \<rparr>))"

text \<open>One iteration of the worker task.\<close>

definition noise_worker :: "('h, 'f, 'w) noise_env \<Rightarrow> ('h, 'w) noise_st \<Rightarrow> ('h, 'w) noise_st" where
  "noise_worker env st =
     poll_session_maintenance env
       (case nt_queue st of [] \<Rightarrow> st | evt # q \<Rightarrow> process_event env evt (st \<lparr> nt_queue := q \<rparr>))"

definition noise_get_peer_identity :: "u16 \<Rightarrow> ('h, 'w) noise_st \<Rightarrow> (bytes \<times> bytes \<times> bool) option" where
  "noise_get_peer_identity conn st =
     (case find_session conn st of
        None \<Rightarrow> None
      | Some i \<Rightarrow>
          (let r = nt_identities st ! i
           in if \<not> id_valid r then None else Some (id_noise_key r, id_sign_key r, id_verified r)))"

text \<open>The state after \<open>bitchat_noise_init\<close>; \<open>n\<close> is the configured number of connections.\<close>

definition noise_boot :: "nat \<Rightarrow> clock \<Rightarrow> 'w \<Rightarrow> ('h, 'w) noise_st" where
  "noise_boot n ck w = \<lparr> nt_sessions = replicate n zero_session, nt_identities = replicate n zero_identity,
     nt_identity_pending = replicate n False, nt_queue = [], nt_last_maintenance_ms = 0, nt_clock = ck, nt_world = w, nt_calls = [] \<rparr>"

section \<open>Transport: nonces, replays and forgeries\<close>

definition cipher_ready :: "bytes \<Rightarrow> u32 \<Rightarrow> cipher_state option \<Rightarrow> bool" where
  "cipher_ready key nonce co \<longleftrightarrow> (\<exists>c. co = Some c \<and> cs_has_key c \<and> cs_key c = key \<and> cs_n c \<le> ucast nonce)"

lemma ucast_u32_max: "(ucast (x :: u32) :: u64) \<noteq> - 1"
proof -
  have "unat (ucast x :: u64) < 2 ^ 32" using unsigned_less [of x, where 'a = nat] by (simp add: unat_ucast_up)
  then show ?thesis by (auto simp: unsigned_minus_1_eq_mask mask_eq_exp_minus_1)
qed

lemma ucast_u32_suc: "unat (ucast (x :: u32) + 1 :: u64) = unat x + 1"
proof -
  have "unat x + 1 < 2 ^ 64" using unsigned_less [of x, where 'a = nat] by simp
  then show ?thesis by (simp add: unat_word_ariths unat_ucast_up)
qed

lemma encrypt_payload_ready:
  assumes "aead_ok ae" "cipher_ready key (ns_tx_nonce s) (ns_tx_cipher s)" "length input + 20 \<le> cap" "cap \<le> 65000"
  obtains ct where "length ct = length input + 16" "ae_open ae key (ucast (ns_tx_nonce s)) [] ct = Some input"
    "encrypt_payload ae cap input s = (Some (be_enc 4 (ns_tx_nonce s) @ ct),
       s \<lparr> ns_tx_cipher := Some ((the (ns_tx_cipher s)) \<lparr> cs_n := ucast (ns_tx_nonce s) + 1 \<rparr>), ns_tx_nonce := ns_tx_nonce s + 1 \<rparr>)"
proof -
  obtain c where c: "ns_tx_cipher s = Some c" "cs_has_key c" "cs_key c = key" "cs_n c \<le> ucast (ns_tx_nonce s)"
    using assms(2) by (auto simp: cipher_ready_def)
  obtain ct where ct: "ae_seal ae key (ucast (ns_tx_nonce s)) [] input = Some ct" "length ct = length input + 16"
    "ae_open ae key (ucast (ns_tx_nonce s)) [] ct = Some input" using aead_okE [OF assms(1)] by blast
  have "noise_cipherstate_encrypt ae (cap - 4) input (c \<lparr> cs_n := ucast (ns_tx_nonce s) \<rparr>) =
     (Some ct, c \<lparr> cs_n := ucast (ns_tx_nonce s) + 1 \<rparr>)"
    using c ct assms(3,4) ucast_u32_max [of "ns_tx_nonce s"]
    by (auto simp: cipherstate_defs)
  then show thesis using c assms(3)
    by (intro that [OF ct(2,3)]) (simp add: encrypt_payload_def noise_cipherstate_set_nonce_def NOISE_TRANSPORT_NONCE_LEN_def not_less)
qed

lemma decrypt_payload_ready:
  assumes "cipher_ready key nonce (ns_rx_cipher s)" "ae_open ae key (ucast nonce) [] ct = Some p" "16 \<le> length ct" "length ct \<le> cap" "cap \<le> 65000"
  shows "decrypt_payload ae cap (be_enc 4 nonce @ ct) s =
    (Some p, s \<lparr> ns_rx_cipher := Some ((the (ns_rx_cipher s)) \<lparr> cs_n := ucast nonce + 1 \<rparr>) \<rparr>)"
proof -
  obtain c where c: "ns_rx_cipher s = Some c" "cs_has_key c" "cs_key c = key" "cs_n c \<le> ucast nonce"
    using assms(1) by (auto simp: cipher_ready_def)
  have "noise_cipherstate_decrypt ae cap ct (c \<lparr> cs_n := ucast nonce \<rparr>) = (Some p, c \<lparr> cs_n := ucast nonce + 1 \<rparr>)"
    using c assms(2-) ucast_u32_max [of nonce]
    by (simp add: cipherstate_defs)
  then show ?thesis using c assms(3,4)
    by (auto simp: decrypt_payload_def noise_cipherstate_set_nonce_def NOISE_TRANSPORT_NONCE_LEN_def not_less)
qed

text \<open>A message whose nonce lies below the receiver's counter is refused, whatever it contains.\<close>

lemma decrypt_payload_stale:
  assumes "ns_rx_cipher s = Some c" "cs_has_key c" "ucast (be_val (take 4 m) :: u32) < cs_n c"
  shows "decrypt_payload ae cap m s = (None, s)"
  using assms by (auto simp: decrypt_payload_def noise_cipherstate_set_nonce_def)

fun encrypt_run :: "aead \<Rightarrow> nat \<Rightarrow> bytes list \<Rightarrow> 'h noise_session \<Rightarrow> bytes list" where
  "encrypt_run ae cap [] s = []"
| "encrypt_run ae cap (x # xs) s =
     (case encrypt_payload ae cap x s of
        (None, s') \<Rightarrow> encrypt_run ae cap xs s'
      | (Some m, s') \<Rightarrow> m # encrypt_run ae cap xs s')"

definition nonce_of :: "bytes \<Rightarrow> u32" where
  "nonce_of m = be_val (take 4 m)"

lemma encrypt_payload_cases:
  assumes "ns_tx_cipher s = Some c" "cs_has_key c" "encrypt_payload ae cap x s = (r, s')"
  shows "\<exists>c'. ns_tx_cipher s' = Some c' \<and> cs_has_key c' \<and> cs_n c \<le> cs_n c' \<and>
     (\<forall>m. r = Some m \<longrightarrow> unat (cs_n c) \<le> unat (nonce_of m) \<and> unat (cs_n c') = unat (nonce_of m) + 1)"
proof -
  have u: "(ucast (ns_tx_nonce s) :: u64) \<le> ucast (ns_tx_nonce s) + 1" by (simp add: word_le_nat_alt ucast_u32_suc unat_ucast_up)
  have "cs_n c \<le> ucast (ns_tx_nonce s) \<Longrightarrow> cs_n c \<le> ucast (ns_tx_nonce s) + 1" using u order_trans by blast
  moreover have "be_val (take 4 (be_enc 4 (ns_tx_nonce s) @ ct)) = ns_tx_nonce s" for ct by simp
  ultimately show ?thesis using assms
    by (auto simp: encrypt_payload_def noise_cipherstate_set_nonce_def cipherstate_defs nonce_of_def not_less
        ucast_u32_max word_le_nat_alt ucast_u32_suc unat_ucast_up split: if_split_asm option.splits prod.splits)
qed

lemma encrypt_run_nonces:
  assumes "ns_tx_cipher s = Some c" "cs_has_key c"
  shows "sorted_wrt (<) (map (\<lambda>m. unat (nonce_of m)) (encrypt_run ae cap xs s)) \<and>
    (\<forall>m \<in> set (encrypt_run ae cap xs s). unat (cs_n c) \<le> unat (nonce_of m))"
  using assms
proof (induction xs arbitrary: s c)
  case (Cons x xs)
  obtain r s' where e: "encrypt_payload ae cap x s = (r, s')" by (metis prod.exhaust)
  obtain c' where c': "ns_tx_cipher s' = Some c'" "cs_has_key c'" "cs_n c \<le> cs_n c'"
    "\<And>m. r = Some m \<Longrightarrow> unat (cs_n c) \<le> unat (nonce_of m) \<and> unat (cs_n c') = unat (nonce_of m) + 1"
    using encrypt_payload_cases [OF Cons.prems e] by blast
  note IH = Cons.IH [OF c'(1,2)]
  show ?case
  proof (cases r)
    case None
    then show ?thesis using IH c'(3) by (auto simp: e word_le_nat_alt intro: order_trans)
  next
    case (Some m)
    then show ?thesis using IH c'(4) [OF Some] by (fastforce simp: e)
  qed
qed simp

section \<open>The session table\<close>

text \<open>An established session has both of its ciphers.\<close>

definition sess_ok :: "'h noise_session \<Rightarrow> bool" where
  "sess_ok s \<longleftrightarrow> (ns_established s \<longrightarrow> ns_tx_cipher s \<noteq> None \<and> ns_rx_cipher s \<noteq> None)"

text \<open>A verified identity carries the Noise key its peer id is derived from.\<close>

definition ident_ok :: "psa_hash \<Rightarrow> noise_identity \<Rightarrow> bool" where
  "ident_ok psa r \<longleftrightarrow> (id_verified r \<longrightarrow> id_valid r \<and> take 8 (bitle_sha256 psa (id_noise_key r)) = id_peer_id r)"

text \<open>A free session has no identity, so that the next peer on it does not inherit one.\<close>

definition table_inv :: "psa_hash \<Rightarrow> ('h, 'w) noise_st \<Rightarrow> bool" where
  "table_inv psa st \<longleftrightarrow> length (nt_identities st) = length (nt_sessions st) \<and> length (nt_identity_pending st) = length (nt_sessions st) \<and>
     slots_uniq ns_in_use ns_conn_handle (nt_sessions st) \<and> list_all (ident_ok psa) (nt_identities st) \<and>
     (\<forall>j < length (nt_sessions st). \<not> ns_in_use (sess j st) \<longrightarrow> nt_identities st ! j = zero_identity)"

definition noise_inv :: "psa_hash \<Rightarrow> ('h, 'w) noise_st \<Rightarrow> bool" where
  "noise_inv psa st \<longleftrightarrow> table_inv psa st \<and> (\<forall>j < length (nt_sessions st). sess_ok (sess j st))"

text \<open>
  Most of the code is quiet: it leaves the identities, the keys of the table and the peers alone and does not break a session.
\<close>

named_theorems quiet_intros

definition sess_quiet :: "'h noise_session \<Rightarrow> 'h noise_session \<Rightarrow> bool" where
  "sess_quiet s s' \<longleftrightarrow> ns_in_use s' = ns_in_use s \<and> ns_conn_handle s' = ns_conn_handle s \<and> ns_peer_id s' = ns_peer_id s \<and>
     (sess_ok s \<longrightarrow> sess_ok s')"

definition quiet :: "('h, 'w) noise_st \<Rightarrow> ('h, 'w) noise_st \<Rightarrow> bool" where
  "quiet st st' \<longleftrightarrow> nt_identities st' = nt_identities st \<and> length (nt_identity_pending st') = length (nt_identity_pending st) \<and>
     length (nt_sessions st') = length (nt_sessions st) \<and> (\<forall>j < length (nt_sessions st). sess_quiet (sess j st) (sess j st'))"

lemma quiet_refl [quiet_intros]: "quiet st st"
  by (simp add: quiet_def sess_quiet_def)

lemma quiet_trans: "quiet st st1 \<Longrightarrow> quiet st1 st2 \<Longrightarrow> quiet st st2"
  by (auto simp: quiet_def sess_quiet_def)

lemma sess_quiet_refl [simp]: "sess_quiet s s"
  by (simp add: sess_quiet_def)

lemma sess_upd: "j < length (nt_sessions st) \<Longrightarrow> sess j (upd_sess i f st) = (if j = i then f (sess i st) else sess j st)"
  by (simp add: upd_sess_def nth_list_update)

lemma upd_sess_fields [simp]:
  "nt_identities (upd_sess i f st) = nt_identities st" "nt_identity_pending (upd_sess i f st) = nt_identity_pending st"
  "length (nt_sessions (upd_sess i f st)) = length (nt_sessions st)" "nt_clock (upd_sess i f st) = nt_clock st"
  "nt_calls (upd_sess i f st) = nt_calls st" "nt_queue (upd_sess i f st) = nt_queue st"
  by (simp_all add: upd_sess_def)

lemma quiet_upd_at:
  "quiet st st' \<Longrightarrow> sess_quiet (sess i st') (f (sess i st')) \<Longrightarrow> quiet st (upd_sess i f st')"
  by (erule quiet_trans) (simp add: quiet_def sess_upd)

lemma quiet_upd [quiet_intros]: "quiet st st' \<Longrightarrow> (\<And>s. sess_quiet s (f s)) \<Longrightarrow> quiet st (upd_sess i f st')"
  by (rule quiet_upd_at)

lemma quiet_fields [quiet_intros]:
  "quiet st st' \<Longrightarrow> quiet st (set_pending i b st')"
  "quiet st st' \<Longrightarrow> quiet st (add_call c st')"
  "quiet st st' \<Longrightarrow> quiet st (st' \<lparr> nt_world := w \<rparr>)"
  "quiet st st' \<Longrightarrow> quiet st (st' \<lparr> nt_clock := ck \<rparr>)"
  "quiet st st' \<Longrightarrow> quiet st (st' \<lparr> nt_queue := q \<rparr>)"
  "quiet st st' \<Longrightarrow> quiet st (st' \<lparr> nt_last_maintenance_ms := t \<rparr>)"
  by (simp_all add: quiet_def set_pending_def add_call_def)

lemma quiet_table: "quiet st st' \<Longrightarrow> table_inv psa st \<Longrightarrow> table_inv psa st'"
  by (auto simp: quiet_def table_inv_def slots_uniq_nth sess_quiet_def)

lemma quiet_inv: "quiet st st' \<Longrightarrow> noise_inv psa st \<Longrightarrow> noise_inv psa st'"
  using quiet_table by (fastforce simp: noise_inv_def quiet_def sess_quiet_def)

lemma ns_send_quiet: "quiet st (snd (ns_send env conn type r p sg st))"
  by (auto simp: ns_send_def intro!: quiet_intros split: prod.split)

lemma send_identity_announce_quiet: "quiet st (snd (send_identity_announce env i st))"
  using ns_send_quiet by (auto simp: send_identity_announce_def intro!: quiet_intros split: option.split)

lemma send_announce_quiet: "quiet st (snd (send_announce env i st))"
  by (auto simp: send_announce_def Let_def sess_quiet_def sess_ok_def intro!: quiet_intros split: prod.split)

lemma try_send_identity_quiet: "quiet st (snd (try_send_identity env i st))"
proof -
  obtain ok st1 where s: "send_announce env i st = (ok, st1)" by (metis prod.exhaust)
  have q: "quiet st st1" using send_announce_quiet [of st env i] by (simp add: s)
  note q2 = quiet_trans [OF q send_identity_announce_quiet [of st1 env i]]
  show ?thesis
    unfolding try_send_identity_def s using q
    by (cases ok) (auto simp: Let_def sess_quiet_def sess_ok_def intro!: quiet_intros q2)
qed

lemma mark_established_quiet:
  assumes "ns_tx_cipher (sess i st) \<noteq> None" "ns_rx_cipher (sess i st) \<noteq> None"
  shows "quiet st (mark_established env i st)"
  unfolding mark_established_def
  by (rule quiet_trans [OF _ try_send_identity_quiet], rule quiet_fields(1), rule quiet_upd_at [OF quiet_refl])
     (use assms in \<open>simp add: sess_quiet_def sess_ok_def\<close>)

lemma send_handshake_message_quiet: "quiet st (snd (send_handshake_message env i h st))"
proof -
  have "quiet st (upd_sess i (\<lambda>s. s \<lparr> ns_handshake := Some h' \<rparr>) st)" for h'
    by (rule quiet_upd [OF quiet_refl]) (simp add: sess_quiet_def sess_ok_def)
  then show ?thesis
    by (auto simp: send_handshake_message_def Let_def intro: quiet_trans [OF _ ns_send_quiet] split: prod.split option.split)
qed

lemma advance_settled_quiet:
  assumes "i < length (nt_sessions st)"
  shows "quiet st (snd (advance_settled env i h st))"
proof -
  obtain ok st1 where d: "derive_transport_keys env i h st = (ok, st1)" by (metis prod.exhaust)
  have q: "quiet st st1" using d
    by (auto simp: derive_transport_keys_def sess_quiet_def sess_ok_def intro!: quiet_intros split: prod.splits option.splits)
  have "ok \<Longrightarrow> ns_tx_cipher (sess i st1) \<noteq> None \<and> ns_rx_cipher (sess i st1) \<noteq> None"
    using d assms by (auto simp: derive_transport_keys_def upd_sess_def split: prod.splits option.splits)
  then show ?thesis using q quiet_trans [OF q mark_established_quiet [of st1 i env]]
    by (cases ok) (auto simp: advance_settled_def d intro!: quiet_intros split: noise_action.split)
qed

lemma advance_handshake_quiet:
  assumes "i < length (nt_sessions st)"
  shows "quiet st (snd (advance_handshake env i st))"
proof -
  have "quiet st (snd (case send_handshake_message env i h st of (False, st1) \<Rightarrow> (False, st1)
       | (True, st1) \<Rightarrow> (case ns_handshake (sess i st1) of None \<Rightarrow> (True, st1)
          | Some h1 \<Rightarrow> if nl_action (ne_lib env) h1 = Action_Write then (True, st1) else advance_settled env i h1 st1)))" for h
  proof -
    obtain ok st1 where m: "send_handshake_message env i h st = (ok, st1)" by (metis prod.exhaust)
    have q: "quiet st st1" using send_handshake_message_quiet [of st env i h] by (simp add: m)
    then have "i < length (nt_sessions st1)" using assms by (simp add: quiet_def)
    then show ?thesis using q quiet_trans [OF q advance_settled_quiet] by (cases ok) (auto simp: m split: option.split)
  qed
  then show ?thesis using advance_settled_quiet [OF assms, of env]
    unfolding advance_handshake_def by (auto intro: quiet_intros split: option.split)
qed

text \<open>A handshake may leave its own session broken, until it is freed.\<close>

definition loose :: "nat \<Rightarrow> ('h, 'w) noise_st \<Rightarrow> ('h, 'w) noise_st \<Rightarrow> bool" where
  "loose i st st' \<longleftrightarrow> nt_identities st' = nt_identities st \<and> length (nt_identity_pending st') = length (nt_identity_pending st) \<and>
     length (nt_sessions st') = length (nt_sessions st) \<and>
     (\<forall>j < length (nt_sessions st). ns_in_use (sess j st') = ns_in_use (sess j st) \<and> ns_conn_handle (sess j st') = ns_conn_handle (sess j st)) \<and>
     (\<forall>j < length (nt_sessions st). j \<noteq> i \<longrightarrow> sess_quiet (sess j st) (sess j st'))"

lemma sess_quiet_trans: "sess_quiet s s1 \<Longrightarrow> sess_quiet s1 s2 \<Longrightarrow> sess_quiet s s2"
  by (simp add: sess_quiet_def)

lemma quiet_loose: "quiet st st' \<Longrightarrow> loose i st st'"
  by (simp add: quiet_def loose_def sess_quiet_def)

lemma loose_trans: "loose i st st1 \<Longrightarrow> loose i st1 st2 \<Longrightarrow> loose i st st2"
  by (auto simp: loose_def intro: sess_quiet_trans)

lemma loose_upd: "(\<And>s. ns_in_use (f s) = ns_in_use s \<and> ns_conn_handle (f s) = ns_conn_handle s) \<Longrightarrow> loose i st (upd_sess i f st)"
  by (simp add: loose_def sess_upd)

lemma loose_table: "loose i st st' \<Longrightarrow> table_inv psa st \<Longrightarrow> table_inv psa st'"
  by (simp add: loose_def table_inv_def slots_uniq_nth)

lemma loose_ok: "loose i st st' \<Longrightarrow> noise_inv psa st \<Longrightarrow> sess_ok (sess i st') \<Longrightarrow> noise_inv psa st'"
  using loose_table [of i st st' psa] by (auto simp: noise_inv_def loose_def sess_quiet_def)

lemma free_session_inv:
  assumes "loose i st st'" "noise_inv psa st"
  shows "noise_inv psa (free_session i st')"
proof -
  let ?f = "\<lambda>s. (clear_crypto s) \<lparr> ns_peer_id := replicate 8 0, ns_initiator := False, ns_established := False,
     ns_identity_sent := False, ns_sent_sync_gen := 0, ns_in_use := False \<rparr>"
  have t: "table_inv psa st'" using loose_table [OF assms(1)] assms(2) by (simp add: noise_inv_def)
  have s: "nt_sessions (free_session i st') = (nt_sessions st')[i := ?f (sess i st')]"
    by (simp add: free_session_def Let_def upd_sess_def set_pending_def)
  have "slots_uniq ns_in_use ns_conn_handle (nt_sessions (free_session i st'))"
    unfolding s using t by (intro slots_uniq_clear) (simp_all add: table_inv_def)
  moreover have "list_all (ident_ok psa) (nt_identities (free_session i st'))"
    using t by (auto simp: free_session_def Let_def set_pending_def table_inv_def ident_ok_def zero_identity_def intro!: list_all_update)
  moreover have "sess_ok (sess j (free_session i st'))" if "j < length (nt_sessions st')" for j
    using that assms by (cases "j = i") (simp_all add: s sess_ok_def [of "?f x" for x] loose_def noise_inv_def sess_quiet_def)
  moreover have "nt_identities (free_session i st') ! j = zero_identity"
    if "j < length (nt_sessions st')" "\<not> ns_in_use (sess j (free_session i st'))" for j
    using that t by (cases "j = i") (auto simp: s table_inv_def, simp_all add: free_session_def Let_def set_pending_def)
  ultimately show ?thesis using t by (simp add: noise_inv_def table_inv_def s) (simp add: free_session_def Let_def set_pending_def)
qed

lemma alloc_session_inv:
  assumes "alloc_session conn st = Some (i, st1)" "noise_inv psa st"
  shows "noise_inv psa st1" "i < length (nt_sessions st1)" "find_session conn st1 = Some i" "nt_identities st1 = nt_identities st"
    "nt_calls st1 = nt_calls st" "nt_clock st1 = nt_clock st"
proof -
  have u: "slots_uniq ns_in_use ns_conn_handle (nt_sessions st)" using assms(2) by (simp add: noise_inv_def table_inv_def)
  have "noise_inv psa st1 \<and> i < length (nt_sessions st1) \<and> find_session conn st1 = Some i \<and> nt_identities st1 = nt_identities st \<and>
        nt_calls st1 = nt_calls st \<and> nt_clock st1 = nt_clock st"
  proof (cases "find_session conn st")
    case (Some k)
    then show ?thesis
      using assms by (auto simp: alloc_session_def find_session_def find_slot_def dest: find_index_bound)
  next
    case None
    then obtain f: "find_index (\<lambda>s. \<not> ns_in_use s) (nt_sessions st) = Some i" and st1: "st1 = set_pending i False
        (upd_sess i (\<lambda>s. zero_session \<lparr> ns_in_use := True, ns_conn_handle := conn \<rparr>) st)"
      using assms(1) by (auto simp: alloc_session_def split: option.splits)
    let ?z = "zero_session \<lparr> ns_in_use := True, ns_conn_handle := conn \<rparr>"
    have i: "i < length (nt_sessions st)" using find_index_bound [OF f] .
    have s1: "nt_sessions st1 = (nt_sessions st)[i := ?z]" by (simp add: st1 set_pending_def upd_sess_def)
    have fr: "find_slot_or_free ns_in_use ns_conn_handle (ns_conn_handle ?z) (nt_sessions st) = Some i"
      using None f by (simp add: find_slot_or_free_def find_session_def)
    have "slots_uniq ns_in_use ns_conn_handle (nt_sessions st1)" unfolding s1 by (rule slots_uniq_put [OF u fr])
    moreover have "find_session conn st1 = Some i" using find_slot_put [OF u fr, of conn] by (simp add: find_session_def s1)
    moreover have "sess_ok (sess j st1)" if "j < length (nt_sessions st)" for j
      using that assms(2) by (cases "j = i") (simp_all add: s1 noise_inv_def, simp add: sess_ok_def zero_session_def)
    moreover have "nt_identities st ! j = zero_identity" if "j < length (nt_sessions st)" "\<not> ns_in_use (sess j st1)" for j
      using that assms(2) by (cases "j = i") (auto simp: s1 noise_inv_def table_inv_def)
    ultimately show ?thesis
      using i assms(2) by (simp add: noise_inv_def table_inv_def s1) (simp add: st1 set_pending_def)
  qed
  then show "noise_inv psa st1" "i < length (nt_sessions st1)" "find_session conn st1 = Some i" "nt_identities st1 = nt_identities st"
    "nt_calls st1 = nt_calls st" "nt_clock st1 = nt_clock st" by blast+
qed

lemma start_handshake_loose:
  assumes "i < length (nt_sessions st)" "start_handshake env evt i st = (ok, st')"
  shows "loose i st st'" "ok \<Longrightarrow> sess_ok (sess i st) \<Longrightarrow> sess_ok (sess i st')"
    "ok \<Longrightarrow> ns_handshake (sess i st) = None \<Longrightarrow> ns_peer_id (sess i st') = nx_peer_id evt"
proof -
  have "loose i st st' \<and> (ok \<longrightarrow> sess_ok (sess i st) \<longrightarrow> sess_ok (sess i st')) \<and>
    (ok \<longrightarrow> ns_handshake (sess i st) = None \<longrightarrow> ns_peer_id (sess i st') = nx_peer_id evt)"
  proof (cases "ns_handshake (sess i st) = None \<and> (\<exists>h h'. create_handshake env (nx_initiator evt) = Some h \<and> nl_start (ne_lib env) h = Some h')")
    case True
    then obtain h h' where h: "ns_handshake (sess i st) = None" "create_handshake env (nx_initiator evt) = Some h" "nl_start (ne_lib env) h = Some h'" by blast
    define st1 where "st1 = upd_sess i (\<lambda>s. s \<lparr> ns_handshake := Some h', ns_initiator := nx_initiator evt,
                      ns_peer_id := nx_peer_id evt, ns_identity_sent := False, ns_established := False \<rparr>) st"
    have l1: "loose i st st1" unfolding st1_def by (rule loose_upd) simp
    have i1: "i < length (nt_sessions st1)" using assms(1) by (simp add: st1_def)
    have o1: "sess_ok (sess i st1)" "ns_peer_id (sess i st1) = nx_peer_id evt" using assms(1) by (simp_all add: st1_def sess_upd sess_ok_def)
    have "st' = snd (advance_handshake env i st1)" using assms(2) h by (simp add: start_handshake_def st1_def)
    then have q: "quiet st1 st'" using advance_handshake_quiet [OF i1] by simp
    then have "sess_ok (sess i st')" "ns_peer_id (sess i st') = nx_peer_id evt" using o1 i1 by (auto simp: quiet_def sess_quiet_def)
    then show ?thesis using loose_trans [OF l1 quiet_loose [OF q]] by simp
  next
    case False
    then have "st' = st \<and> (ok \<longrightarrow> ns_handshake (sess i st) \<noteq> None) \<or>
        \<not> ok \<and> st' = upd_sess i (\<lambda>s. clear_crypto (s \<lparr> ns_initiator := nx_initiator evt \<rparr>)) st"
      using assms(2) by (auto simp: start_handshake_def split: if_split_asm option.splits)
    moreover have "loose i st (upd_sess i (\<lambda>s. clear_crypto (s \<lparr> ns_initiator := nx_initiator evt \<rparr>)) st)"
      by (rule loose_upd) (simp add: clear_crypto_def)
    ultimately show ?thesis using quiet_loose [OF quiet_refl] by auto
  qed
  then show "loose i st st'" "ok \<Longrightarrow> sess_ok (sess i st) \<Longrightarrow> sess_ok (sess i st')"
    "ok \<Longrightarrow> ns_handshake (sess i st) = None \<Longrightarrow> ns_peer_id (sess i st') = nx_peer_id evt" by blast+
qed

lemma process_handshake_loose:
  assumes i: "i < length (nt_sessions st)" and p: "process_handshake env evt i st = (ok, st')"
  shows "loose i st st'" "ok \<Longrightarrow> sess_ok (sess i st) \<Longrightarrow> sess_ok (sess i st')"
    "ok \<Longrightarrow> ns_peer_id (sess i st) = nx_peer_id evt \<Longrightarrow> ns_peer_id (sess i st') = nx_peer_id evt"
proof -
  define st1 where "st1 = (if ns_handshake (sess i st) \<noteq> None \<and> ns_initiator (sess i st) \<and> length (nx_payload evt) = 32
                 then upd_sess i (\<lambda>s. (clear_crypto s) \<lparr> ns_established := False \<rparr>) st else st)"
  have l1: "loose i st st1" "sess_ok (sess i st) \<longrightarrow> sess_ok (sess i st1)" "ns_peer_id (sess i st1) = ns_peer_id (sess i st)"
    using i by (auto simp: st1_def sess_upd sess_ok_def sess_quiet_def clear_crypto_def intro!: quiet_loose quiet_intros)
  have i1: "i < length (nt_sessions st1)" using i by (simp add: st1_def)
  obtain ok2 st2 where s2: "(if ns_handshake (sess i st1) = None then start_handshake env evt i st1 else (True, st1)) = (ok2, st2)"
    by (metis prod.exhaust)
  have l2: "loose i st1 st2" "ok2 \<longrightarrow> sess_ok (sess i st1) \<longrightarrow> sess_ok (sess i st2)"
    "ok2 \<longrightarrow> ns_peer_id (sess i st1) = nx_peer_id evt \<longrightarrow> ns_peer_id (sess i st2) = nx_peer_id evt"
    using s2 start_handshake_loose [OF i1, of env evt ok2 st2] quiet_loose [OF quiet_refl] by (auto split: if_split_asm)
  have i2: "i < length (nt_sessions st2)" using l2(1) i1 by (simp add: loose_def)
  have "loose i st st' \<and> (ok \<longrightarrow> sess_ok (sess i st) \<longrightarrow> sess_ok (sess i st')) \<and>
    (ok \<longrightarrow> ns_peer_id (sess i st) = nx_peer_id evt \<longrightarrow> ns_peer_id (sess i st') = nx_peer_id evt)"
  proof (cases "ok2 \<and> \<not> (\<not> ns_initiator (sess i st2) \<and> nx_payload evt = []) \<and> ns_handshake (sess i st2) \<noteq> None")
    case False
    then have "st' = st2 \<and> \<not> ok"
      using p unfolding process_handshake_def st1_def [symmetric] Let_def s2 by (cases ok2) (auto split: if_split_asm)
    then show ?thesis using loose_trans [OF l1(1) l2(1)] by simp
  next
    case True
    then obtain h where h: "ns_handshake (sess i st2) = Some h" by blast
    obtain r h' where rd: "nl_read (ne_lib env) (nx_payload evt) NOISE_MESSAGE_MAX h = (r, h')" by (metis prod.exhaust)
    define st3 where "st3 = upd_sess i (\<lambda>s. s \<lparr> ns_handshake := Some h' \<rparr>) st2"
    have q3: "quiet st2 st3" unfolding st3_def by (rule quiet_upd [OF quiet_refl]) (simp add: sess_quiet_def sess_ok_def)
    define x where "x = (\<lambda>resp. if resp = [] then (True, st3)
       else ns_send env (ns_conn_handle (sess i st3)) BITCHAT_MSG_NOISE_HANDSHAKE (directed (ns_peer_id (sess i st3))) resp False st3)"
    have x: "quiet st3 (snd (x resp))" for resp by (simp add: x_def ns_send_quiet quiet_refl)
    have e: "process_handshake env evt i st = (case r of None \<Rightarrow> (False, st3) | Some resp \<Rightarrow>
        (case x resp of (False, st4) \<Rightarrow> (False, st4) | (True, st4) \<Rightarrow> advance_handshake env i st4))"
    proof -
      have g: "ok2" "(\<not> ns_initiator (sess i st2) \<and> nx_payload evt = []) = False" using True by auto
      show ?thesis unfolding process_handshake_def st1_def [symmetric] Let_def s2
        by (simp only: g h rd prod.case bool.case option.case if_False st3_def [symmetric] x_def [symmetric])
           (cases r; simp add: g rd st3_def x_def)
    qed
    have "st' = st3 \<or> (\<exists>resp. st' = snd (x resp) \<or> st' = snd (advance_handshake env i (snd (x resp))))"
    proof (cases r)
      case (Some resp)
      obtain ok4 st4 where x4: "x resp = (ok4, st4)" by (metis prod.exhaust)
      then have "st' = st4 \<or> st' = snd (advance_handshake env i st4)" using p e Some by (cases ok4) simp_all
      then show ?thesis using x4 by (metis snd_conv)
    qed (use p e in simp)
    moreover have "quiet st2 (snd (advance_handshake env i (snd (x resp))))" for resp
    proof -
      have "quiet st2 (snd (x resp))" using quiet_trans [OF q3 x] .
      then have "i < length (nt_sessions (snd (x resp)))" using i2 by (simp add: quiet_def)
      then show ?thesis using quiet_trans [OF quiet_trans [OF q3 x] advance_handshake_quiet] by blast
    qed
    ultimately have q: "quiet st2 st'" using q3 quiet_trans [OF q3 x] by blast
    then have "sess_quiet (sess i st2) (sess i st')" using i2 by (simp add: quiet_def)
    then show ?thesis using loose_trans [OF loose_trans [OF l1(1) l2(1)] quiet_loose [OF q]] l1 l2 True by (simp add: sess_quiet_def)
  qed
  then show "loose i st st'" "ok \<Longrightarrow> sess_ok (sess i st) \<Longrightarrow> sess_ok (sess i st')"
    "ok \<Longrightarrow> ns_peer_id (sess i st) = nx_peer_id evt \<Longrightarrow> ns_peer_id (sess i st') = nx_peer_id evt" by blast+
qed

lemma encrypt_payload_quiet: "encrypt_payload ae cap x s = (r, s') \<Longrightarrow> sess_quiet s s'"
  by (auto simp: encrypt_payload_def sess_quiet_def sess_ok_def split: option.splits if_split_asm prod.splits bool.splits)

lemma decrypt_payload_quiet: "decrypt_payload ae cap x s = (r, s') \<Longrightarrow> sess_quiet s s'"
  by (auto simp: decrypt_payload_def sess_quiet_def sess_ok_def split: option.splits if_split_asm prod.splits bool.splits)

lemma noise_send_encrypted_quiet: "quiet st (snd (noise_send_encrypted env conn t p st))"
proof (cases "find_session conn st")
  case (Some i)
  obtain r s where e: "encrypt_payload (ne_aead env) NOISE_MAX_ENCRYPTED_PAYLOAD (t # p) (sess i st) = (r, s)" by (metis prod.exhaust)
  have "quiet st (upd_sess i (\<lambda>_. s) st)" by (rule quiet_upd_at [OF quiet_refl encrypt_payload_quiet [OF e]])
  then show ?thesis
    by (auto simp: noise_send_encrypted_def Some e intro: quiet_refl quiet_trans [OF _ ns_send_quiet] split: option.split)
qed (simp add: noise_send_encrypted_def quiet_refl)

lemma send_auto_reply_quiet: "quiet st (send_auto_reply env i st)"
proof -
  have "quiet st (snd (noise_send_encrypted env conn t p st))" for conn t p by (rule noise_send_encrypted_quiet)
  then show ?thesis unfolding send_auto_reply_def Let_def
    by (auto simp: sess_quiet_def sess_ok_def intro!: quiet_upd split: prod.split bool.split) (metis snd_conv)+
qed

lemma handle_noise_payload_quiet: "quiet st (handle_noise_payload env conn i d st)"
proof -
  have "quiet st (if m \<noteq> [] then snd (noise_send_encrypted env conn t m st) else st)" for m t
    by (simp add: noise_send_encrypted_quiet quiet_refl)
  then show ?thesis
    unfolding handle_noise_payload_def Let_def
    by (simp del: if_split add: quiet_refl quiet_trans [OF _ send_auto_reply_quiet] split: if_split)
qed

lemma enqueue_event_quiet: "quiet st (snd (enqueue_event ty c p ini pl st))"
  by (auto simp: enqueue_event_def queue_event_def intro!: quiet_intros split: prod.split)

lemma noise_begin_handshake_quiet: "quiet st (noise_begin_handshake conn peer st)"
  using enqueue_event_quiet quiet_refl by (auto simp: noise_begin_handshake_def split: option.split)

lemma process_encrypted_event_quiet: "quiet st (process_encrypted_event env evt st)"
proof (cases "find_session (nx_conn_handle evt) st")
  case (Some i)
  obtain r s where e: "decrypt_payload (ne_aead env) NOISE_MAX_ENCRYPTED_PAYLOAD (nx_payload evt) (sess i st) = (r, s)" by (metis prod.exhaust)
  have "quiet st (upd_sess i (\<lambda>_. s) st)" by (rule quiet_upd_at [OF quiet_refl decrypt_payload_quiet [OF e]])
  then show ?thesis using noise_begin_handshake_quiet quiet_refl
    by (auto simp: process_encrypted_event_def Some e intro: quiet_trans [OF _ handle_noise_payload_quiet] split: option.split)
qed (simp add: process_encrypted_event_def noise_begin_handshake_quiet)

section \<open>Every event keeps the invariant\<close>

lemma find_session_in_use: "find_session conn st = Some i \<Longrightarrow> i < length (nt_sessions st) \<and> ns_in_use (sess i st) \<and> ns_conn_handle (sess i st) = conn"
  unfolding find_session_def find_slot_def by (auto dest: find_index_bound find_index_sat)

lemma handshake_result_inv:
  assumes "noise_inv psa st" "loose i st st'" "ok \<longrightarrow> sess_ok (sess i st')"
  shows "noise_inv psa (case (ok, st') of (True, st2) \<Rightarrow> st2 | (False, st2) \<Rightarrow> free_session i st2)"
  using assms free_session_inv [of i st st' psa] loose_ok [of i st st' psa] by (cases ok) simp_all

lemma process_start_event_inv:
  assumes "noise_inv psa st"
  shows "noise_inv psa (process_start_event env evt st)"
proof (cases "alloc_session (nx_conn_handle evt) st")
  case (Some a)
  then obtain i st1 where a: "alloc_session (nx_conn_handle evt) st = Some (i, st1)" by (cases a) auto
  note inv1 = alloc_session_inv [OF a assms]
  obtain ok st2 where h: "start_handshake env evt i st1 = (ok, st2)" by (metis prod.exhaust)
  have "sess_ok (sess i st1)" using inv1 by (simp add: noise_inv_def)
  then have "noise_inv psa (case (ok, st2) of (True, st2) \<Rightarrow> st2 | (False, st2) \<Rightarrow> free_session i st2)"
    using start_handshake_loose [OF inv1(2) h] inv1(1) by (intro handshake_result_inv) auto
  then show ?thesis using inv1(1) by (simp add: process_start_event_def a h)
qed (use assms in \<open>simp add: process_start_event_def\<close>)

lemma process_message_event_inv:
  assumes "noise_inv psa st"
  shows "noise_inv psa (process_message_event env evt st)"
proof (cases "alloc_session (nx_conn_handle evt) st")
  case (Some a)
  then obtain i st1 where a: "alloc_session (nx_conn_handle evt) st = Some (i, st1)" by (cases a) auto
  note inv1 = alloc_session_inv [OF a assms]
  define st2 where "st2 = upd_sess i (\<lambda>s. s \<lparr> ns_peer_id := nx_peer_id evt \<rparr>) st1"
  obtain ok st3 where h: "process_handshake env evt i st2 = (ok, st3)" by (metis prod.exhaust)
  have "loose i st1 st2" unfolding st2_def by (rule loose_upd) simp
  moreover have i2: "i < length (nt_sessions st2)" using inv1(2) by (simp add: st2_def)
  moreover have "sess_ok (sess i st2)" using inv1(1,2) by (simp add: noise_inv_def st2_def sess_upd sess_ok_def)
  ultimately have "noise_inv psa (case (ok, st3) of (True, st2) \<Rightarrow> st2 | (False, st2) \<Rightarrow> free_session i st2)"
    using process_handshake_loose [OF i2 h] loose_trans by (intro handshake_result_inv [OF inv1(1)]) auto
  then show ?thesis by (simp add: process_message_event_def a h st2_def [symmetric])
qed (use assms in \<open>simp add: process_message_event_def\<close>)

lemma drop_duplicate_link_quiet: "quiet st (drop_duplicate_link env peer i st)"
  by (auto simp: drop_duplicate_link_def Let_def intro!: quiet_intros split: option.split)

lemma announce_verified_quiet: "quiet st (announce_verified env evt ident d st)"
  by (auto simp: announce_verified_def Let_def intro!: quiet_intros)

lemma answer_announce_quiet: "quiet st (answer_announce env conn st)"
  by (auto simp: answer_announce_def intro!: quiet_intros quiet_trans [OF _ try_send_identity_quiet] split: option.split)

lemma set_identity_inv:
  assumes "noise_inv psa st" "ns_in_use (sess i st)" "ident_ok psa r"
  shows "noise_inv psa (st \<lparr> nt_identities := (nt_identities st)[i := r] \<rparr>)"
proof -
  have "(nt_identities st)[i := r] ! j = nt_identities st ! j" if "\<not> ns_in_use (sess j st)" for j
    using that assms(2) by (cases "j = i") simp_all
  then show ?thesis using assms by (auto simp: noise_inv_def table_inv_def intro!: list_all_update)
qed

lemma bind_peer_inv:
  assumes "noise_inv psa st" "i < length (nt_sessions st)" "\<And>s. sess_ok (f s) = sess_ok s \<and> ns_in_use (f s) = ns_in_use s \<and> ns_conn_handle (f s) = ns_conn_handle s"
  shows "noise_inv psa (upd_sess i f st)"
proof (rule loose_ok [OF _ assms(1)])
  show "loose i st (upd_sess i f st)" by (rule loose_upd) (simp add: assms(3))
  show "sess_ok (sess i (upd_sess i f st))" using assms by (simp add: sess_upd noise_inv_def)
qed

lemma bind_peer_fields:
  "sess_ok (bind_peer p s) = sess_ok s \<and> ns_in_use (bind_peer p s) = ns_in_use s \<and> ns_conn_handle (bind_peer p s) = ns_conn_handle s"
  by (simp add: bind_peer_def sess_ok_def)

lemma announce_direct_inv:
  assumes "noise_inv psa st" "take 8 (bitle_sha256 psa (id_noise_key ident)) = nx_peer_id evt"
  shows "noise_inv psa (announce_direct env evt ident sig_ok st)"
proof (cases "alloc_session (nx_conn_handle evt) st")
  case (Some a)
  then obtain i st1 where a: "alloc_session (nx_conn_handle evt) st = Some (i, st1)" by (cases a) auto
  note inv1 = alloc_session_inv [OF a assms(1)]
  define r where "r = ident \<lparr> id_valid := True, id_verified := sig_ok, id_timestamp_ms := nx_timestamp_ms evt, id_peer_id := nx_peer_id evt \<rparr>"
  define st2 where "st2 = (if \<not> id_verified (nt_identities st1 ! i) \<or> sig_ok then st1 \<lparr> nt_identities := (nt_identities st1)[i := r] \<rparr> else st1)"
  have "ident_ok psa r" using assms(2) by (simp add: r_def ident_ok_def)
  then have "noise_inv psa st2" "nt_sessions st2 = nt_sessions st1"
    using inv1(1) set_identity_inv [OF inv1(1)] find_session_in_use [OF inv1(3)] by (auto simp: st2_def)
  then have "noise_inv psa (upd_sess i (\<lambda>s. bind_peer (nx_peer_id evt) (s \<lparr> ns_direct_peer := True \<rparr>)) st2)"
    using inv1(2) by (intro bind_peer_inv) (simp_all add: bind_peer_fields, simp add: sess_ok_def)
  from quiet_inv [OF drop_duplicate_link_quiet this] show ?thesis
    unfolding announce_direct_def Let_def a option.case prod.case r_def [symmetric] st2_def [symmetric] .
qed (use assms in \<open>simp add: announce_direct_def\<close>)

lemma process_announce_event_inv:
  assumes "noise_inv (ne_psa env) st"
  shows "noise_inv (ne_psa env) (process_announce_event env evt st)"
proof -
  have "noise_inv (ne_psa env) (answer_announce env (nx_conn_handle evt)
      (if d then announce_direct env evt ident b (if b then announce_verified env evt ident d st else st)
       else if b then announce_verified env evt ident d st else st))"
    if "verify_announce (ne_alg env) (ne_psa env) (nx_peer_id evt) (nx_timestamp_ms evt) (nx_has_signature evt) (nx_signature evt)
      (nx_payload evt) ident = Some b" for d b ident
  proof -
    have "take 8 (bitle_sha256 (ne_psa env) (id_noise_key ident)) = nx_peer_id evt"
      using that by (auto simp: verify_announce_def split: if_split_asm)
    note dir = announce_direct_inv [OF _ this]
    define st1 where "st1 = (if b then announce_verified env evt ident d st else st)"
    have "noise_inv (ne_psa env) st1"
      using assms quiet_inv [OF announce_verified_quiet [of st env evt ident d] assms] by (simp add: st1_def)
    then have "noise_inv (ne_psa env) (if d then announce_direct env evt ident b st1 else st1)" using dir [of st1 env b] by simp
    from quiet_inv [OF answer_announce_quiet this] show ?thesis unfolding st1_def .
  qed
  then show ?thesis using assms quiet_inv [OF answer_announce_quiet assms]
    by (auto simp: process_announce_event_def Let_def simp del: if_split split: option.split)
qed

lemma parse_identity_unverified: "parse_identity_payload p = Some (r, t) \<Longrightarrow> \<not> id_verified r"
  by (auto simp: parse_identity_payload_def zero_identity_def Option.bind_eq_Some_conv Let_def split: if_split_asm prod.splits)

lemma process_identity_event_inv:
  assumes "noise_inv psa st"
  shows "noise_inv psa (process_identity_event env evt st)"
proof (cases "alloc_session (nx_conn_handle evt) st")
  case (Some a)
  then obtain i st1 where a: "alloc_session (nx_conn_handle evt) st = Some (i, st1)" by (cases a) auto
  note inv1 = alloc_session_inv [OF a assms]
  show ?thesis
  proof (cases "parse_identity_payload (nx_payload evt)")
    case (Some rt)
    then obtain r t where rt: "parse_identity_payload (nx_payload evt) = Some (r, t)" by (cases rt) auto
    define st2 where "st2 = st1 \<lparr> nt_clock := bitchat_time_consider_peer (ne_nvs env) (ne_mono env) (ne_mono env) t (nt_clock st1) \<rparr>"
    define st3 where "st3 = (if id_verified (nt_identities st2 ! i) then st2
                           else st2 \<lparr> nt_identities := (nt_identities st2)[i := r \<lparr> id_peer_id := nx_peer_id evt \<rparr>] \<rparr>)"
    have "noise_inv psa st2" unfolding st2_def by (rule quiet_inv [OF _ inv1(1)]) (intro quiet_intros)
    moreover have "ident_ok psa (r \<lparr> id_peer_id := nx_peer_id evt \<rparr>)" using parse_identity_unverified [OF rt] by (simp add: ident_ok_def)
    ultimately have "noise_inv psa st3" "i < length (nt_sessions st3)"
      using set_identity_inv [of psa st2 i] find_session_in_use [OF inv1(3)] by (auto simp: st3_def st2_def)
    then have "noise_inv psa (upd_sess i (bind_peer (nx_peer_id evt)) st3)" by (intro bind_peer_inv) (simp_all add: bind_peer_fields)
    from quiet_inv [OF try_send_identity_quiet this] show ?thesis
      unfolding process_identity_event_def Let_def a rt option.case prod.case st2_def [symmetric] st3_def [symmetric] .
  qed (use inv1 in \<open>simp add: process_identity_event_def a\<close>)
qed (use assms in \<open>simp add: process_identity_event_def\<close>)

lemma disconnect_inv:
  "noise_inv psa st \<Longrightarrow> noise_inv psa (case find_session conn st of Some i \<Rightarrow> free_session i st | None \<Rightarrow> st)"
  using free_session_inv [OF quiet_loose [OF quiet_refl]] by (auto split: option.split)

lemma process_subscribed_event_inv:
  assumes "noise_inv psa st"
  shows "noise_inv psa (process_subscribed_event env evt st)"
proof -
  define st1 where "st1 = (case find_session (nx_conn_handle evt) st of Some i \<Rightarrow> free_session i st | None \<Rightarrow> st)"
  have i1: "noise_inv psa st1" unfolding st1_def by (rule disconnect_inv [OF assms])
  have "noise_inv psa (snd (try_send_identity env i (set_pending i True st2)))" if "alloc_session (nx_conn_handle evt) st1 = Some (i, st2)" for i st2
    using alloc_session_inv(1) [OF that i1] by (rule quiet_inv [rotated]) (intro quiet_intros quiet_trans [OF _ try_send_identity_quiet])
  then show ?thesis using i1 by (auto simp: process_subscribed_event_def st1_def [symmetric] split: option.split)
qed

lemma process_event_inv:
  assumes "noise_inv (ne_psa env) st"
  shows "noise_inv (ne_psa env) (process_event env evt st)"
proof -
  have "quiet st (process_courier_event env evt st)" "quiet st (process_sync_event evt st)"
    by (auto simp: process_courier_event_def process_sync_event_def Let_def intro!: quiet_intros split: option.split)
  then have "noise_inv (ne_psa env) (process_courier_event env evt st)" "noise_inv (ne_psa env) (process_sync_event evt st)"
    using quiet_inv [OF _ assms] by blast+
  then show ?thesis
    using assms process_start_event_inv process_message_event_inv process_announce_event_inv process_identity_event_inv
      process_subscribed_event_inv disconnect_inv quiet_inv [OF process_encrypted_event_quiet assms]
    by (auto simp: process_event_def split: noise_evt_type.split)
qed

lemma maintain_handshake_quiet: "quiet st (maintain_handshake env i st)"
  by (auto simp: maintain_handshake_def Let_def sess_quiet_def sess_ok_def
      intro!: quiet_intros quiet_trans [OF _ noise_begin_handshake_quiet])

lemma maintain_announce_quiet: "quiet st (maintain_announce env ok g i st)"
proof -
  obtain ok1 st1 where a: "send_announce env i st = (ok1, st1)" by (metis prod.exhaust)
  obtain ok2 st2 where b: "send_identity_announce env i st1 = (ok2, st2)" by (metis prod.exhaust)
  have q1: "quiet st st1" using send_announce_quiet [of st env i] by (simp add: a)
  have q2: "quiet st st2" using quiet_trans [OF q1] send_identity_announce_quiet [of st1 env i] by (simp add: b)
  show ?thesis unfolding maintain_announce_def a using q1 q2
    by (cases ok1; cases ok2) (auto simp: Let_def b sess_quiet_def sess_ok_def intro!: quiet_intros)
qed

lemma maintain_session_quiet: "quiet st (maintain_session env ok g i st)"
proof -
  have "quiet st (if nt_identity_pending st ! i then snd (try_send_identity env i st) else st)"
    by (auto intro: quiet_intros try_send_identity_quiet)
  from quiet_trans [OF quiet_trans [OF this maintain_handshake_quiet] maintain_announce_quiet]
  show ?thesis by (auto simp: maintain_session_def Let_def intro: quiet_refl)
qed

lemma poll_session_maintenance_quiet: "quiet st (poll_session_maintenance env st)"
proof -
  have "quiet st (fold (maintain_session env ok g) is st')" if "quiet st st'" for ok g "is" st'
    using that by (induction "is" arbitrary: st') (auto intro: quiet_trans [OF _ maintain_session_quiet])
  note this [OF quiet_fields(6) [OF quiet_refl]]
  then show ?thesis by (simp add: poll_session_maintenance_def quiet_refl)
qed

lemma noise_worker_inv:
  assumes "noise_inv (ne_psa env) st"
  shows "noise_inv (ne_psa env) (noise_worker env st)"
proof -
  have "noise_inv (ne_psa env) (st \<lparr> nt_queue := q \<rparr>)" for q by (rule quiet_inv [OF _ assms]) (intro quiet_intros)
  then show ?thesis unfolding noise_worker_def
    using assms by (intro quiet_inv [OF poll_session_maintenance_quiet]) (auto intro: process_event_inv split: list.split)
qed

lemma enqueue_packet_event_quiet: "quiet st (snd (enqueue_packet_event ty c p st))"
  by (auto simp: enqueue_packet_event_def queue_event_def intro!: quiet_intros split: prod.split)

text \<open>The states of a node: those its worker and the callers of the module reach from the boot.\<close>

inductive noise_reach :: "psa_hash \<Rightarrow> ('f, 'w) link_driver \<Rightarrow> nat \<Rightarrow> ('h, 'w) noise_st \<Rightarrow> bool" for psa drv n where
  boot: "noise_reach psa drv n (noise_boot n ck w)"
| handshake: "noise_reach psa drv n st \<Longrightarrow> noise_reach psa drv n (noise_handle_handshake conn p st)"
| identity: "noise_reach psa drv n st \<Longrightarrow> noise_reach psa drv n (noise_handle_identity_announce conn p st)"
| announce: "noise_reach psa drv n st \<Longrightarrow> noise_reach psa drv n (noise_handle_announce conn p st)"
| courier: "noise_reach psa drv n st \<Longrightarrow> noise_reach psa drv n (noise_handle_courier conn p st)"
| request_sync: "noise_reach psa drv n st \<Longrightarrow> noise_reach psa drv n (noise_handle_request_sync conn p st)"
| encrypted: "noise_reach psa drv n st \<Longrightarrow> noise_reach psa drv n (noise_handle_encrypted conn p st)"
| subscribed: "noise_reach psa drv n st \<Longrightarrow> noise_reach psa drv n (noise_notify_subscribed conn st)"
| reset: "noise_reach psa drv n st \<Longrightarrow> noise_reach psa drv n (noise_reset_connection conn st)"
| begin_handshake: "noise_reach psa drv n st \<Longrightarrow> noise_reach psa drv n (noise_begin_handshake conn peer st)"
| worker: "noise_reach psa drv n st \<Longrightarrow> ne_psa env = psa \<Longrightarrow> ne_drv env = drv \<Longrightarrow> noise_reach psa drv n (noise_worker env st)"

lemma noise_boot_inv: "noise_inv psa (noise_boot n ck w)"
  by (simp add: noise_inv_def table_inv_def noise_boot_def slots_uniq_nth sess_ok_def zero_session_def ident_ok_def zero_identity_def
      list_all_length)

lemma entry_quiet:
  "quiet st (noise_handle_handshake conn p st)" "quiet st (noise_handle_identity_announce conn p st)"
  "quiet st (noise_handle_announce conn p st)" "quiet st (noise_handle_courier conn p st)"
  "quiet st (noise_handle_request_sync conn p st)" "quiet st (noise_handle_encrypted conn p st)"
  "quiet st (noise_notify_subscribed conn st)" "quiet st (noise_reset_connection conn st)"
  by (simp_all add: noise_handle_handshake_def noise_handle_identity_announce_def noise_handle_announce_def noise_handle_courier_def
      noise_handle_request_sync_def noise_handle_encrypted_def noise_notify_subscribed_def noise_reset_connection_def
      enqueue_event_quiet enqueue_packet_event_quiet queue_event_def quiet_fields(5) quiet_refl)

lemma noise_reach_inv: "noise_reach psa drv n st \<Longrightarrow> noise_inv psa st"
  by (induction rule: noise_reach.induct)
     (auto intro: noise_boot_inv quiet_inv [OF entry_quiet(1)] quiet_inv [OF entry_quiet(2)] quiet_inv [OF entry_quiet(3)]
        quiet_inv [OF entry_quiet(4)] quiet_inv [OF entry_quiet(5)] quiet_inv [OF entry_quiet(6)] quiet_inv [OF entry_quiet(7)]
        quiet_inv [OF entry_quiet(8)] quiet_inv [OF noise_begin_handshake_quiet] noise_worker_inv)

section \<open>Properties\<close>

text \<open>
  A sender's messages over a link that loses and repeats them: each message comes with the number of its copies that arrive,
  and the receiver decrypts every copy.
\<close>

fun decrypt_copies :: "aead \<Rightarrow> nat \<Rightarrow> nat \<Rightarrow> bytes \<Rightarrow> 'h noise_session \<Rightarrow> bytes option list \<times> 'h noise_session" where
  "decrypt_copies ae cap 0 m b = ([], b)"
| "decrypt_copies ae cap (Suc k) m b =
     (case decrypt_payload ae cap m b of (r, b1) \<Rightarrow> case decrypt_copies ae cap k m b1 of (rs, b2) \<Rightarrow> (r # rs, b2))"

fun channel_run :: "aead \<Rightarrow> nat \<Rightarrow> (bytes \<times> nat) list \<Rightarrow> 'h noise_session \<Rightarrow> 'g noise_session \<Rightarrow> bytes option list" where
  "channel_run ae cap [] a b = []"
| "channel_run ae cap ((x, k) # xs) a b =
     (case encrypt_payload ae cap x a of
        (None, a') \<Rightarrow> None # channel_run ae cap xs a' b
      | (Some m, a') \<Rightarrow> (case decrypt_copies ae cap k m b of (rs, b') \<Rightarrow> rs @ channel_run ae cap xs a' b'))"

definition received :: "bytes \<times> nat \<Rightarrow> bytes option list" where
  "received xk = (case xk of (x, 0) \<Rightarrow> [] | (x, Suc k) \<Rightarrow> Some x # replicate k None)"

lemma decrypt_copies_stale:
  assumes "ns_rx_cipher b = Some c" "cs_has_key c" "ucast (be_val (take 4 m) :: u32) < cs_n c"
  shows "decrypt_copies ae cap k m b = (replicate k None, b)"
  by (induction k) (simp_all add: decrypt_payload_stale [OF assms])

lemma ucast_u32_le: "(ucast (x :: u32) :: u64) < ucast x + 1"
  by (simp add: word_less_nat_alt ucast_u32_suc unat_ucast_up)

lemma cipher_ready_next:
  assumes "unat (nonce :: u32) + 1 < 2 ^ 32"
  shows "cs_n c = ucast nonce + 1 \<Longrightarrow> cs_has_key c \<Longrightarrow> cs_key c = key \<Longrightarrow> cipher_ready key (nonce + 1) (Some c)"
    "cipher_ready key nonce co \<Longrightarrow> cipher_ready key (nonce + 1) co"
proof -
  have u: "unat (nonce + 1) = unat nonce + 1" using assms by (simp add: unat_word_ariths)
  then have e: "(ucast (nonce + 1) :: u64) = ucast nonce + 1" by (intro word_unat_eq_iff [THEN iffD2]) (simp add: ucast_u32_suc unat_ucast_up)
  show "cs_n c = ucast nonce + 1 \<Longrightarrow> cs_has_key c \<Longrightarrow> cs_key c = key \<Longrightarrow> cipher_ready key (nonce + 1) (Some c)"
    by (simp add: cipher_ready_def e)
  show "cipher_ready key nonce co \<Longrightarrow> cipher_ready key (nonce + 1) co"
    using ucast_u32_le [of nonce] by (auto simp: cipher_ready_def e)
qed

lemma channel_step:
  assumes "aead_ok ae" "cipher_ready key (ns_tx_nonce a) (ns_tx_cipher a)" "cipher_ready key (ns_tx_nonce a) (ns_rx_cipher b)"
    "length x \<le> 300" "unat (ns_tx_nonce a) + 1 < 2 ^ 32"
  obtains m a' b' where "encrypt_payload ae 320 x a = (Some m, a')" "decrypt_copies ae 320 k m b = (received (x, k), b')"
    "ns_tx_nonce a' = ns_tx_nonce a + 1" "cipher_ready key (ns_tx_nonce a') (ns_tx_cipher a')" "cipher_ready key (ns_tx_nonce a') (ns_rx_cipher b')"
proof -
  let ?n = "ns_tx_nonce a"
  obtain c d where c: "ns_tx_cipher a = Some c" "cs_has_key c" "cs_key c = key" and d: "ns_rx_cipher b = Some d" "cs_has_key d" "cs_key d = key"
    using assms(2,3) by (auto simp: cipher_ready_def)
  obtain ct where ct: "length ct = length x + 16" "ae_open ae key (ucast ?n) [] ct = Some x"
    "encrypt_payload ae 320 x a = (Some (be_enc 4 ?n @ ct), a \<lparr> ns_tx_cipher := Some (c \<lparr> cs_n := ucast ?n + 1 \<rparr>), ns_tx_nonce := ?n + 1 \<rparr>)"
    by (rule encrypt_payload_ready [OF assms(1,2), of x 320]) (use assms(4) c(1) in auto)
  define b1 where "b1 = b \<lparr> ns_rx_cipher := Some (d \<lparr> cs_n := ucast ?n + 1 \<rparr>) \<rparr>"
  have de: "decrypt_payload ae 320 (be_enc 4 ?n @ ct) b = (Some x, b1)"
    using decrypt_payload_ready [OF assms(3) ct(2), of 320] ct(1) assms(4) d(1) by (simp add: b1_def)
  have st: "decrypt_copies ae 320 j (be_enc 4 ?n @ ct) b1 = (replicate j None, b1)" for j
    by (rule decrypt_copies_stale [where c = "d \<lparr> cs_n := ucast ?n + 1 \<rparr>"]) (use d(2) in \<open>simp_all add: b1_def ucast_u32_le\<close>)
  show thesis
  proof (rule that [OF ct(3)])
    show "decrypt_copies ae 320 k (be_enc 4 ?n @ ct) b = (received (x, k), if k = 0 then b else b1)"
      by (cases k) (simp_all add: de st received_def)
  qed (use assms(3,5) c d cipher_ready_next [OF assms(5)] in \<open>simp_all add: b1_def\<close>)
qed

text \<open>
  C17: transport messages survive the link. Over a session whose two ends share a key, whatever copies of each message arrive,
  none, one or several, in order, the receiver obtains each message that arrives exactly once, unchanged, and refuses every
  further copy; a lost message does not block the later ones. The bound is the 32-bit counter of the wire format.
\<close>

theorem noise_transport_roundtrip:
  assumes "aead_ok ae" "cipher_ready key (ns_tx_nonce a) (ns_tx_cipher a)" "cipher_ready key (ns_tx_nonce a) (ns_rx_cipher b)"
    "\<forall>(x, k) \<in> set xs. length x \<le> 300" "unat (ns_tx_nonce a) + length xs < 2 ^ 32"
  shows "channel_run ae NOISE_MAX_ENCRYPTED_PAYLOAD xs a b = concat (map received xs)"
  using assms(2-)
proof (induction xs arbitrary: a b)
  case (Cons xk xs)
  obtain x k where xk: "xk = (x, k)" by (cases xk)
  obtain m a' b' where s: "encrypt_payload ae 320 x a = (Some m, a')" "decrypt_copies ae 320 k m b = (received (x, k), b')"
    "ns_tx_nonce a' = ns_tx_nonce a + 1" "cipher_ready key (ns_tx_nonce a') (ns_tx_cipher a')" "cipher_ready key (ns_tx_nonce a') (ns_rx_cipher b')"
    by (rule channel_step [OF assms(1) Cons.prems(1,2), of x k]) (use Cons.prems(3,4) xk in auto)
  have "unat (ns_tx_nonce a') + length xs < 2 ^ 32" using Cons.prems(4) s(3) by (simp add: unat_word_ariths)
  then have "channel_run ae NOISE_MAX_ENCRYPTED_PAYLOAD xs a' b' = concat (map received xs)"
    using Cons.IH [OF s(4,5)] Cons.prems(3) by simp
  then show ?case using s(1,2) by (simp add: xk NOISE_MAX_ENCRYPTED_PAYLOAD_def)
qed simp

definition fresh_key :: cipher_state where
  "fresh_key = \<lparr> cs_has_key = True, cs_key = [1], cs_n = 0 \<rparr>"

definition demo_session :: "unit noise_session" where
  "demo_session = zero_session \<lparr> ns_in_use := True, ns_conn_handle := 3, ns_established := True,
     ns_tx_cipher := Some fresh_key, ns_rx_cipher := Some fresh_key \<rparr>"

theorem noise_transport_roundtrip_witness:
  "channel_run toy_aead NOISE_MAX_ENCRYPTED_PAYLOAD [([1, 2], 2), ([3], 0), ([4], 1)] demo_session demo_session =
     [Some [1, 2], None, Some [4]]"
proof -
  have "channel_run toy_aead NOISE_MAX_ENCRYPTED_PAYLOAD [([1, 2], 2), ([3], 0), ([4], 1)] demo_session demo_session =
     concat (map received [([1, 2], 2), ([3], 0), ([4], 1)])"
    by (rule noise_transport_roundtrip [OF toy_aead_ok, where key = "[1]"])
       (simp_all add: demo_session_def fresh_key_def cipher_ready_def zero_session_def)
  then show ?thesis by (simp add: received_def numeral_2_eq_2)
qed

text \<open>
  C20: no nonce is used twice under one key. The messages a session encrypts, whatever the inputs and even past the wrap-around of its
  32-bit counter, carry nonces that are pairwise distinct and increase.
\<close>

theorem noise_nonce_never_reused:
  assumes "ns_tx_cipher s = Some c" "cs_has_key c"
  shows "distinct (map nonce_of (encrypt_run ae cap xs s)) \<and> sorted (map (\<lambda>m. unat (nonce_of m)) (encrypt_run ae cap xs s))"
proof -
  have s: "sorted_wrt (<) (map (\<lambda>m. unat (nonce_of m)) (encrypt_run ae cap xs s))"
    using encrypt_run_nonces [OF assms] by blast
  then have "distinct (map unat (map nonce_of (encrypt_run ae cap xs s)))"
    using strict_sorted_iff by (simp add: comp_def) blast
  then show ?thesis using s strict_sorted_imp_sorted by (auto simp: distinct_map inj_on_def)
qed

theorem noise_nonce_never_reused_witness:
  "distinct (map nonce_of (encrypt_run toy_aead 320 [[7], [8]] demo_session)) \<and>
   map nonce_of (encrypt_run toy_aead 320 [[7], [8]] demo_session) = [0, 1]"
  using noise_nonce_never_reused [of demo_session fresh_key toy_aead 320 "[[7], [8]]"]
  by (simp add: demo_session_def fresh_key_def zero_session_def encrypt_payload_def noise_cipherstate_set_nonce_def
      cipherstate_defs toy_aead_def NOISE_TRANSPORT_NONCE_LEN_def NOISE_MAX_PAYLOAD_LEN_def NOISE_MAC_LEN_def nonce_of_def)

text \<open>
  C16: the session table is sound in every state the node reaches. A connection has at most one session; an established session has both of its
  ciphers; a key the module reports as verified is the one the reported peer id is derived from; and a free
  session holds no identity, so that a later connection on the same slot does not inherit one.
\<close>

theorem noise_session_invariant:
  assumes "noise_reach psa drv n st"
  shows "(\<forall>i j. i < length (nt_sessions st) \<and> j < length (nt_sessions st) \<and> ns_in_use (sess i st) \<and> ns_in_use (sess j st) \<and>
            ns_conn_handle (sess i st) = ns_conn_handle (sess j st) \<longrightarrow> i = j) \<and>
         (\<forall>i < length (nt_sessions st). ns_established (sess i st) \<longrightarrow> ns_tx_cipher (sess i st) \<noteq> None \<and> ns_rx_cipher (sess i st) \<noteq> None) \<and>
         (\<forall>conn k sg. noise_get_peer_identity conn st = Some (k, sg, True) \<longrightarrow>
            (\<exists>i. find_session conn st = Some i \<and> take 8 (bitle_sha256 psa k) = id_peer_id (nt_identities st ! i))) \<and>
         (\<forall>i < length (nt_sessions st). \<not> ns_in_use (sess i st) \<longrightarrow> nt_identities st ! i = zero_identity)"
proof -
  have inv: "noise_inv psa st" by (rule noise_reach_inv [OF assms])
  have "take 8 (bitle_sha256 psa k) = id_peer_id (nt_identities st ! i)"
    if "noise_get_peer_identity conn st = Some (k, sg, True)" "find_session conn st = Some i" for conn k sg i
  proof -
    have "ident_ok psa (nt_identities st ! i)"
      using inv find_session_in_use [OF that(2)] by (auto simp: noise_inv_def table_inv_def list_all_length)
    then show ?thesis using that by (auto simp: noise_get_peer_identity_def ident_ok_def Let_def split: if_split_asm)
  qed
  moreover have "\<exists>i. find_session conn st = Some i" if "noise_get_peer_identity conn st = Some x" for conn x
    using that by (auto simp: noise_get_peer_identity_def split: option.splits)
  moreover have "slots_uniq ns_in_use ns_conn_handle (nt_sessions st)" using inv by (simp add: noise_inv_def table_inv_def)
  ultimately show ?thesis using inv by (auto simp: noise_inv_def table_inv_def slots_uniq_nth sess_ok_def) blast+
qed

theorem noise_session_invariant_witness:
  "noise_reach (\<lambda>_. Some []) memory_driver 2 (noise_notify_subscribed 5 (noise_boot 2 sample_clock Map.empty :: (unit, memory_heap) noise_st)) \<and>
   nt_identities (noise_notify_subscribed 5 (noise_boot 2 sample_clock Map.empty :: (unit, memory_heap) noise_st)) ! 1 = zero_identity"
proof -
  let ?st = "noise_notify_subscribed 5 (noise_boot 2 sample_clock Map.empty :: (unit, memory_heap) noise_st)"
  have r: "noise_reach (\<lambda>_. Some []) memory_driver 2 ?st" by (intro noise_reach.subscribed noise_reach.boot)
  moreover have "length (nt_sessions ?st) = 2" "\<forall>i < 2. \<not> ns_in_use (sess i ?st)"
    by (simp_all add: noise_notify_subscribed_def enqueue_event_def queue_event_def noise_boot_def zero_session_def NOISE_EVENT_PAYLOAD_MAX_def
        NOISE_QUEUE_DEPTH_def)
  ultimately show ?thesis using noise_session_invariant [OF r] by auto
qed

text \<open>
  C37: an unauthenticated message can lock a session. The receiver moves its counter to the nonce of a message before it checks
  the message's tag, and keeps it when the check fails. One message with the largest nonce and a wrong
  tag therefore makes the session refuse every message the real peer sends afterwards, until the next handshake.
\<close>

theorem noise_forged_nonce_locks:
  assumes "cipher_ready key 0xFFFFFFFF (ns_rx_cipher b)" "ae_open ae key 0xFFFFFFFF [] forged = None" "16 \<le> length forged" "length forged \<le> 320"
  shows "\<exists>b'. decrypt_payload ae NOISE_MAX_ENCRYPTED_PAYLOAD (be_enc 4 (0xFFFFFFFF :: u32) @ forged) b = (None, b') \<and>
    (\<forall>m. nonce_of m \<noteq> 0xFFFFFFFF \<longrightarrow> decrypt_payload ae NOISE_MAX_ENCRYPTED_PAYLOAD m b' = (None, b'))"
proof -
  obtain c where c: "ns_rx_cipher b = Some c" "cs_has_key c" "cs_key c = key" "cs_n c \<le> 0xFFFFFFFF"
    using assms(1) by (auto simp: cipher_ready_def)
  define b' where "b' = b \<lparr> ns_rx_cipher := Some (c \<lparr> cs_n := 0xFFFFFFFF \<rparr>) \<rparr>"
  have "decrypt_payload ae 320 (be_enc 4 (0xFFFFFFFF :: u32) @ forged) b = (None, b')"
    using c assms(2-) by (auto simp: decrypt_payload_def noise_cipherstate_set_nonce_def cipherstate_defs b'_def
        NOISE_TRANSPORT_NONCE_LEN_def NOISE_MAX_PAYLOAD_LEN_def NOISE_MAC_LEN_def)
  moreover have "decrypt_payload ae 320 m b' = (None, b')" if "nonce_of m \<noteq> 0xFFFFFFFF" for m
  proof (rule decrypt_payload_stale [where c = "c \<lparr> cs_n := 0xFFFFFFFF \<rparr>"])
    have "unat (nonce_of m) \<noteq> unat (0xFFFFFFFF :: u32)" using that by (metis word_unat_eq_iff)
    then have "unat (nonce_of m) < 0xFFFFFFFF" using unsigned_less [of "nonce_of m", where 'a = nat] by simp
    then have "(ucast (nonce_of m) :: u64) < 0xFFFFFFFF" by (simp add: word_less_nat_alt unat_ucast_up)
    then show "ucast (be_val (take 4 m) :: u32) < cs_n (c \<lparr> cs_n := 0xFFFFFFFF \<rparr>)" by (simp add: nonce_of_def)
  qed (use c in \<open>simp_all add: b'_def\<close>)
  ultimately show ?thesis by (simp add: NOISE_MAX_ENCRYPTED_PAYLOAD_def)
qed

theorem noise_forged_nonce_locks_witness:
  "\<exists>b'. decrypt_payload toy_aead NOISE_MAX_ENCRYPTED_PAYLOAD (be_enc 4 (0xFFFFFFFF :: u32) @ replicate 16 1) demo_session = (None, b') \<and>
     decrypt_payload toy_aead NOISE_MAX_ENCRYPTED_PAYLOAD ([0, 0, 0, 0, 9] @ replicate 16 0) b' = (None, b') \<and>
     fst (decrypt_payload toy_aead NOISE_MAX_ENCRYPTED_PAYLOAD ([0, 0, 0, 0, 9] @ replicate 16 0) demo_session) = Some [9]"
proof -
  have h: "cipher_ready [1] 0xFFFFFFFF (ns_rx_cipher demo_session)" "ae_open toy_aead [1] 0xFFFFFFFF [] (replicate 16 1) = None"
    by (simp_all add: cipher_ready_def demo_session_def fresh_key_def toy_aead_def replicate_eq_replicate)
  have "nonce_of ([0, 0, 0, 0, 9] @ replicate 16 0) = 0" by (simp add: nonce_of_def be_val_def)
  moreover have "fst (decrypt_payload toy_aead NOISE_MAX_ENCRYPTED_PAYLOAD ([0, 0, 0, 0, 9] @ replicate 16 0) demo_session) = Some [9]"
    by (simp add: decrypt_payload_def demo_session_def fresh_key_def noise_cipherstate_set_nonce_def cipherstate_defs toy_aead_def
        NOISE_MAX_ENCRYPTED_PAYLOAD_def NOISE_TRANSPORT_NONCE_LEN_def NOISE_MAX_PAYLOAD_LEN_def NOISE_MAC_LEN_def be_val_def)
  ultimately show ?thesis using noise_forged_nonce_locks [OF h] by fastforce
qed

lemma loose_find_session:
  assumes "loose i st st'"
  shows "find_session conn st' = find_session conn st"
  unfolding find_session_def find_slot_def by (rule find_index_cong) (use assms in \<open>simp_all add: loose_def\<close>)

text \<open>
  C38: a verified peer can deposit courier mail under another name. A handshake message overwrites the peer id of its session, and the
  deposit check compares the sender with that id while it takes the signing key from the identity verified before. A peer
  with a verified identity that sends a handshake message with another node's id is then accepted as the other node
  with mail it signed itself, so the quota of each depositor does not bind it.
\<close>

theorem noise_courier_spoof:
  assumes "noise_inv psa st" "find_session conn st = Some i" "nx_conn_handle hs = conn" "nx_conn_handle mail = conn"
    "fst (process_handshake env hs i (upd_sess i (\<lambda>s. s \<lparr> ns_peer_id := nx_peer_id hs \<rparr>) st))"
    "id_verified (nt_identities st ! i)" "nx_peer_id mail = nx_peer_id hs"
    "noise_verify_packet_signature (ne_alg env) (event_to_packet mail BITCHAT_MSG_COURIER_ENVELOPE) (id_sign_key (nt_identities st ! i))"
  shows "\<exists>t. last (nt_calls (process_courier_event env mail (process_message_event env hs st))) =
    Courier_Accept conn (nx_peer_id hs) (nx_payload mail) t"
proof -
  define st1 where "st1 = upd_sess i (\<lambda>s. s \<lparr> ns_peer_id := nx_peer_id hs \<rparr>) st"
  obtain st2 where h: "process_handshake env hs i st1 = (True, st2)"
    using assms(5) by (cases "process_handshake env hs i st1") (auto simp: st1_def)
  have i: "i < length (nt_sessions st)" using find_session_in_use [OF assms(2)] by blast
  have i1: "i < length (nt_sessions st1)" using i by (simp add: st1_def)
  note l2 = process_handshake_loose [OF i1 h]
  have p1: "ns_peer_id (sess i st1) = nx_peer_id hs" using i by (simp add: st1_def sess_upd)
  have p: "ns_peer_id (sess i st2) = nx_peer_id mail" using l2(3) p1 assms(7) by simp
  have l1: "loose i st st1" unfolding st1_def by (rule loose_upd) simp
  have l: "loose i st st2" using loose_trans [OF l1 l2(1)] .
  have "process_message_event env hs st = st2"
    by (simp add: process_message_event_def alloc_session_def assms(2,3) st1_def [symmetric] h)
  moreover have "find_session conn st2 = Some i" using loose_find_session [OF l] assms(2) by simp
  moreover have "nt_identities st2 = nt_identities st" using l by (simp add: loose_def)
  moreover have "ident_ok psa (nt_identities st ! i)" using assms(1) i by (simp add: noise_inv_def table_inv_def list_all_length)
  ultimately show ?thesis using p assms(4,6,7,8)
    by (simp add: process_courier_event_def Let_def ident_ok_def add_call_def)
qed

text \<open>The demonstration: a library whose handshake messages are always accepted.\<close>

definition demo_lib :: "unit noise_lib" where
  "demo_lib = \<lparr> nl_new = (\<lambda>_. Some ()), nl_keypair = (\<lambda>_ _ h. Some h), nl_start = Some, nl_action = (\<lambda>_. Action_Read),
     nl_write = (\<lambda>_ h. (Some [], h)), nl_read = (\<lambda>_ _ h. (Some [], h)), nl_split = (\<lambda>h. (None, h)), nl_hash = (\<lambda>_. []) \<rparr>"

definition demo_env :: "(unit, memory_fn, memory_heap) noise_env" where
  "demo_env = \<lparr> ne_keys = \<lparr> nk_static_private = replicate 32 2, nk_id = demo_id \<rparr>,
     ne_alg = \<lparr> ed25519_sign = (\<lambda>m sk pk. sk), ed25519_sign_open = (\<lambda>m pk s. s = pk) \<rparr>, ne_psa = (\<lambda>_. Some (replicate 32 0xA0)),
     ne_lib = demo_lib, ne_aead = toy_aead, ne_nvs = nvs_works, ne_mono = 1000, ne_links = [], ne_drv = memory_driver, ne_lora_active = False,
     ne_central = (\<lambda>_. False), ne_random = replicate 16 0 \<rparr>"

definition demo_state :: "(unit, memory_heap) noise_st" where
  "demo_state = (noise_boot 1 sample_clock Map.empty) \<lparr>
     nt_sessions := [zero_session \<lparr> ns_in_use := True, ns_conn_handle := 3, ns_peer_id := replicate 8 0xA0 \<rparr>],
     nt_identities := [zero_identity \<lparr> id_valid := True, id_verified := True, id_peer_id := replicate 8 0xA0, id_sign_key := replicate 64 7 \<rparr>] \<rparr>"

theorem noise_courier_spoof_witness:
  "\<exists>t. last (nt_calls (process_courier_event demo_env
      (zero_event \<lparr> nx_conn_handle := 3, nx_peer_id := replicate 8 0xB0, nx_has_signature := True, nx_signature := replicate 64 7, nx_payload := [1] \<rparr>)
      (process_message_event demo_env (zero_event \<lparr> nx_conn_handle := 3, nx_peer_id := replicate 8 0xB0, nx_payload := replicate 32 5 \<rparr>) demo_state))) =
    Courier_Accept 3 (replicate 8 0xB0) [1] t"
proof -
  have inv: "noise_inv (\<lambda>_. Some (replicate 32 0xA0)) demo_state"
    by (simp add: noise_inv_def table_inv_def demo_state_def noise_boot_def slots_uniq_def ident_ok_def sess_ok_def zero_session_def zero_identity_def
        bitle_sha256_def digest_or_ff_def)
  let ?hs = "zero_event \<lparr> nx_conn_handle := 3, nx_peer_id := replicate 8 0xB0, nx_payload := replicate 32 5 \<rparr>"
  let ?mail = "zero_event \<lparr> nx_conn_handle := 3, nx_peer_id := replicate 8 0xB0, nx_has_signature := True,
     nx_signature := replicate 64 7, nx_payload := [1] \<rparr>"
  have f: "find_session 3 demo_state = Some 0"
    by (simp add: find_session_def find_slot_def demo_state_def)
  have h: "fst (process_handshake demo_env ?hs 0 (upd_sess 0 (\<lambda>s. s \<lparr> ns_peer_id := nx_peer_id ?hs \<rparr>) demo_state))"
    by (simp add: process_handshake_def start_handshake_def create_handshake_def advance_handshake_def advance_settled_def demo_env_def demo_lib_def
        demo_state_def upd_sess_def zero_session_def zero_event_def)
  have v: "noise_verify_packet_signature (ne_alg demo_env) (event_to_packet ?mail BITCHAT_MSG_COURIER_ENVELOPE) (id_sign_key (nt_identities demo_state ! 0))"
    by (simp add: noise_verify_packet_signature_def build_canonical_packet_def canonical_header_def Let_def event_to_packet_def zero_event_def zero_packet_def
        demo_env_def demo_state_def BITCHAT_BLE_MAX_PACKET_SIZE_def)
  show ?thesis using noise_courier_spoof [OF inv f _ _ h _ _ v] by (simp add: demo_state_def zero_event_def)
qed

end
