(* ===== verification/Noise_Link.thy ===== *)
theory Noise_Link
  imports Noise_Session "HOL-Library.Sublist"
begin

text \<open>
  The session layer of \<open>noise_handshake.c\<close> on top of the handshake state of the Noise library: the library
  interface \<open>noise_lib\<close> provided by the model of \<open>handshakestate.c\<close>, and two nodes that set up a
  session over a link, frame by frame.
\<close>

section \<open>The library behind the sessions\<close>

definition xx_keypair :: "noise_prims \<Rightarrow> bytes \<Rightarrow> bytes \<Rightarrow> handshake_state \<Rightarrow> handshake_state option" where
  "xx_keypair np private_key public_key hs =
     (case noise_dhstate_set_keypair np private_key public_key (hs_local_static hs) of
        (False, d) \<Rightarrow> None
      | (True, d) \<Rightarrow> Some (hs \<lparr> hs_local_static := d \<rparr>))"

definition xx_lib :: "noise_prims \<Rightarrow> bytes \<Rightarrow> handshake_state noise_lib" where
  "xx_lib np random = \<lparr>
     nl_new = (\<lambda>initiator. Some (noise_handshakestate_new np random initiator)),
     nl_keypair = xx_keypair np,
     nl_start = noise_handshakestate_start np,
     nl_action = hs_action,
     nl_write = (\<lambda>cap hs. noise_handshakestate_write_message np cap None hs),
     nl_read = (\<lambda>msg cap hs. noise_handshakestate_read_message np msg cap hs),
     nl_split = noise_handshakestate_split np,
     nl_hash = (\<lambda>hs. case noise_handshakestate_get_handshake_hash hs of Some h \<Rightarrow> h | None \<Rightarrow> []) \<rparr>"

text \<open>A link driver that takes every frame and logs it.\<close>

definition log_driver :: "('f, (u16 \<times> bytes) list) link_driver" where
  "log_driver = \<lparr> call_legacy = (\<lambda>f h d w. (0, w @ [(h, d)])),
     call_vtable = (\<lambda>f l d w. (0, w @ [(lc_id (lk_capabilities l), d)])) \<rparr>"

definition link_open :: "u16 \<Rightarrow> 'f links \<Rightarrow> bool" where
  "link_open conn ls \<longleftrightarrow> (\<exists>i. find_locked conn ls = Some i \<and> 520 \<le> unat (lc_mtu (lk_capabilities (le_adapter (ls ! i)))))"

text \<open>
  A node ready for a handshake on a connection: sound keys, a set clock, an open link and a session without a handshake.
\<close>

definition node_ok :: "noise_prims \<Rightarrow> bytes \<Rightarrow> (handshake_state, 'f, (u16 \<times> bytes) list) noise_env \<Rightarrow> u16 \<Rightarrow> bool" where
  "node_ok np random env conn \<longleftrightarrow> ne_lib env = xx_lib np random \<and> ne_drv env = log_driver \<and> link_open conn (ne_links env) \<and>
     node_id_wf (nk_id (ne_keys env)) \<and> length (nk_static_private (ne_keys env)) = 32 \<and>
     ni_static_public (nk_id (ne_keys env)) = np_base np (nk_static_private (ne_keys env))"

definition session_ready :: "('h, 'f, 'w) noise_env \<Rightarrow> u16 \<Rightarrow> nat \<Rightarrow> ('h, 'w) noise_st \<Rightarrow> bool" where
  "session_ready env conn i st \<longleftrightarrow> find_session conn st = Some i \<and> now_ms env st \<noteq> 0"

lemma entry_log:
  assumes "find_locked conn ls = Some i" "length d \<le> unat (lc_mtu (lk_capabilities (le_adapter (ls ! i))))" "d \<noteq> []"
  shows "bitle_link_send log_driver ls conn d w = (ESP_OK, w @ [(conn, d)])"
proof -
  have "link_id (ls ! i) = conn" using assms(1) by (auto simp: find_locked_def find_slot_def dest: find_index_sat)
  then show ?thesis using assms by (simp add: bitle_link_send_def entry_send_def log_driver_def split: option.split)
qed

lemma ns_send_log:
  assumes "node_ok np random env conn" "now_ms env st \<noteq> 0" "0 < length p" "length p \<le> 96" "length peer = 8"
  obtains frame q where "\<And>mem. malloc_ok mem (length p) \<Longrightarrow> bitchat_packet_decode mem frame = Some q"
    "ns_send env conn BITCHAT_MSG_NOISE_HANDSHAKE (directed peer) p False st = (True, st \<lparr> nt_world := nt_world st @ [(conn, frame)] \<rparr>)"
    "pk_type q = BITCHAT_MSG_NOISE_HANDSHAKE" "pkt_bytes q = p" "pk_sender_id q = ni_peer_id (nk_id (ne_keys env))"
proof -
  have n: "ne_drv env = log_driver" "link_open conn (ne_links env)" "node_id_wf (nk_id (ne_keys env))"
    using assms(1) by (simp_all add: node_ok_def)
  define q where "q = own_packet (nk_id (ne_keys env)) (now_ms env st) BITCHAT_MSG_NOISE_HANDSHAKE NOISE_PACKET_TTL (directed peer) p"
  have r: "\<forall>r. directed peer = Some r \<longrightarrow> length r = 8" using assms(5) by (simp add: directed_def)
  have l: "unat (word_of_nat (length p) :: u16) = length p" using assms(4) by (simp add: unat_of_nat_small)
  have wf: "pkt_wf q" "pkt_v1_plain q" unfolding q_def by (rule own_packet_wf [OF n(3)]; use assms(4) r in simp)+
  have el: "encoded_len q \<le> 126" using l assms(4) by (simp add: q_def own_packet_def zero_packet_def encoded_len_def)
  obtain frame where f: "bitchat_packet_encode q 520 = Some frame"
    using encode_Some [OF wf(1), of 520] el by (auto simp: q_def own_packet_def)
  have "length frame = encoded_len q" using length_encode [OF wf(1) f] .
  then have fl: "length frame \<le> 520" "frame \<noteq> []" using el by (auto simp: encoded_len_def)
  obtain i where i: "find_locked conn (ne_links env) = Some i" "520 \<le> unat (lc_mtu (lk_capabilities (le_adapter (ne_links env ! i))))"
    using n(2) by (auto simp: link_open_def)
  have "bitchat_packet_decode mem frame = Some q" if "malloc_ok mem (length p)" for mem
    using encode_decode_padded [OF wf f, of mem 0] that l by (simp add: q_def own_packet_def)
  moreover have "ns_send env conn BITCHAT_MSG_NOISE_HANDSHAKE (directed peer) p False st = (True, st \<lparr> nt_world := nt_world st @ [(conn, frame)] \<rparr>)"
    using f fl i entry_log [OF i(1), of frame "nt_world st"] assms(2) n(1)
    by (simp add: ns_send_def encode_and_send_def Let_def q_def [symmetric] BITCHAT_BLE_MAX_PACKET_SIZE_def)
  moreover have "pkt_bytes q = p" using l assms(3) by (auto simp: pkt_bytes_def q_def own_packet_def)
  moreover have "pk_type q = BITCHAT_MSG_NOISE_HANDSHAKE" "pk_sender_id q = ni_peer_id (nk_id (ne_keys env))"
    by (simp_all add: q_def own_packet_def zero_packet_def)
  ultimately show thesis by (intro that)
qed

section \<open>One node's steps\<close>

lemma create_party:
  assumes "node_ok np random env conn" "party np (nk_static_private (ne_keys env)) random initiator = Some p"
  obtains h where "create_handshake env initiator = Some h" "nl_start (ne_lib env) h = Some p"
  using assms by (auto simp: node_ok_def party_def create_handshake_def xx_lib_def xx_keypair_def Let_def split: prod.splits bool.splits)

lemma find_upd [simp]:
  assumes "\<And>s. ns_in_use (f s) = ns_in_use s \<and> ns_conn_handle (f s) = ns_conn_handle s"
  shows "find_session conn (upd_sess i f st) = find_session conn st"
  by (rule loose_find_session [OF loose_upd [OF assms]])

lemma find_world [simp]: "find_session conn (st \<lparr> nt_world := w \<rparr>) = find_session conn st"
  by (simp add: find_session_def)

lemma hs_send:
  assumes "node_ok np random env conn" "find_session conn st = Some i" "now_ms env st \<noteq> 0" "length (ns_peer_id (sess i st)) = 8"
    "noise_handshakestate_write_message np 256 None h = (Some m, h')" "0 < length m" "length m \<le> 96"
  obtains frame q where "\<And>mem. malloc_ok mem (length m) \<Longrightarrow> bitchat_packet_decode mem frame = Some q" "pkt_bytes q = m"
    "pk_type q = BITCHAT_MSG_NOISE_HANDSHAKE" "pk_sender_id q = ni_peer_id (nk_id (ne_keys env))"
    "send_handshake_message env i h st = (True, (upd_sess i (\<lambda>s. s \<lparr> ns_handshake := Some h' \<rparr>) st) \<lparr> nt_world := nt_world st @ [(conn, frame)] \<rparr>)"
proof -
  let ?st1 = "upd_sess i (\<lambda>s. s \<lparr> ns_handshake := Some h' \<rparr>) st"
  have i: "i < length (nt_sessions st)" "ns_conn_handle (sess i st) = conn" using find_session_in_use [OF assms(2)] by auto
  have s: "sess i ?st1 = (sess i st) \<lparr> ns_handshake := Some h' \<rparr>" "nt_world ?st1 = nt_world st" "now_ms env ?st1 = now_ms env st"
    using i by (simp_all add: sess_upd upd_sess_def now_ms_def)
  obtain frame q where f: "\<And>mem. malloc_ok mem (length m) \<Longrightarrow> bitchat_packet_decode mem frame = Some q"
    "ns_send env conn BITCHAT_MSG_NOISE_HANDSHAKE (directed (ns_peer_id (sess i st))) m False ?st1 = (True, ?st1 \<lparr> nt_world := nt_world ?st1 @ [(conn, frame)] \<rparr>)"
    "pk_type q = BITCHAT_MSG_NOISE_HANDSHAKE" "pkt_bytes q = m" "pk_sender_id q = ni_peer_id (nk_id (ne_keys env))"
    by (rule ns_send_log [OF assms(1) _ assms(6,7,4), of ?st1]) (use assms(3) s(3) in auto)
  have "nl_write (ne_lib env) 256 h = (Some m, h')" using assms(1,5) by (simp add: node_ok_def xx_lib_def)
  then have "send_handshake_message env i h st = (True, ?st1 \<lparr> nt_world := nt_world st @ [(conn, frame)] \<rparr>)"
    using f(2) s i(2) assms(6) by (auto simp: send_handshake_message_def Let_def NOISE_MESSAGE_MAX_def)
  then show thesis using f by (intro that)
qed

text \<open>The parts of a session that announcing leaves alone.\<close>

definition session_core :: "'h noise_session \<Rightarrow> bool \<times> u16 \<times> bool \<times> bytes \<times> 'h option \<times> cipher_state option \<times> cipher_state option \<times> u32" where
  "session_core s = (ns_in_use s, ns_conn_handle s, ns_established s, ns_peer_id s, ns_handshake s, ns_tx_cipher s, ns_rx_cipher s, ns_tx_nonce s)"

definition calm :: "('h, 'w) noise_st \<Rightarrow> ('h, 'w) noise_st \<Rightarrow> bool" where
  "calm st st' \<longleftrightarrow> nt_clock st' = nt_clock st \<and> length (nt_sessions st') = length (nt_sessions st) \<and>
     (\<forall>j < length (nt_sessions st). session_core (sess j st') = session_core (sess j st))"

lemma calm_trans: "calm st st1 \<Longrightarrow> calm st1 st2 \<Longrightarrow> calm st st2"
  by (simp add: calm_def)

lemma calm_upd: "calm st st' \<Longrightarrow> (\<And>s. session_core (f s) = session_core s) \<Longrightarrow> calm st (upd_sess i f st')"
  by (simp add: calm_def sess_upd)

lemma calm_fields: "calm st st' \<Longrightarrow> calm st (set_pending i b st')" "calm st st' \<Longrightarrow> calm st (st' \<lparr> nt_world := w \<rparr>)" "calm st st"
  by (simp_all add: calm_def set_pending_def)

lemma try_send_identity_calm: "calm st (snd (try_send_identity env i st))"
proof -
  have s: "calm st (snd (send_announce env i st))" for st :: "('a, 'b) noise_st"
    by (auto simp: send_announce_def Let_def session_core_def intro!: calm_fields calm_upd split: prod.split)
  have t: "calm st (snd (send_identity_announce env i st))" for st :: "('a, 'b) noise_st"
    by (auto simp: send_identity_announce_def ns_send_def intro!: calm_fields split: option.split prod.split)
  obtain ok st1 where a: "send_announce env i st = (ok, st1)" by (metis prod.exhaust)
  have c1: "calm st st1" using s [of st] a by simp
  note c2 = calm_trans [OF c1 t [of st1]]
  show ?thesis unfolding try_send_identity_def a
    using c1 by (cases ok) (auto simp: Let_def session_core_def intro!: calm_fields calm_upd c2)
qed

lemma upd_upd [simp]: "i < length (nt_sessions st) \<Longrightarrow> upd_sess i f (upd_sess i g st) = upd_sess i (\<lambda>s. f (g s)) st"
  by (simp add: upd_sess_def)

lemma upd_world [simp]:
  "upd_sess i f (st \<lparr> nt_world := w \<rparr>) = (upd_sess i f st) \<lparr> nt_world := w \<rparr>" "nt_world (upd_sess i f st) = nt_world st"
  by (simp_all add: upd_sess_def)

lemma now_upd [simp]: "now_ms env (upd_sess i f st) = now_ms env st" "now_ms env (st \<lparr> nt_world := w \<rparr>) = now_ms env st"
  by (simp_all add: now_ms_def)

text \<open>A state in which the session \<open>i\<close> of a connection holds a given handshake.\<close>

definition in_handshake :: "('h, 'f, 'w) noise_env \<Rightarrow> u16 \<Rightarrow> nat \<Rightarrow> 'h \<Rightarrow> ('h, 'w) noise_st \<Rightarrow> bool" where
  "in_handshake env conn i h st \<longleftrightarrow> find_session conn st = Some i \<and> now_ms env st \<noteq> 0 \<and> ns_handshake (sess i st) = Some h \<and>
     length (ns_peer_id (sess i st)) = 8"

lemma in_handshake_bound: "in_handshake env conn i h st \<Longrightarrow> i < length (nt_sessions st)"
  by (auto simp: in_handshake_def dest: find_session_in_use)

lemma advance_write:
  assumes "node_ok np random env conn" "in_handshake env conn i h st" "hs_action h = Action_Write"
    "noise_handshakestate_write_message np 256 None h = (Some m, h')" "0 < length m" "length m \<le> 96" "hs_action h' \<noteq> Action_Write"
  obtains frame q st' where "\<And>mem. malloc_ok mem (length m) \<Longrightarrow> bitchat_packet_decode mem frame = Some q" "pkt_bytes q = m"
    "pk_sender_id q = ni_peer_id (nk_id (ne_keys env))" "nt_world st' = nt_world st @ [(conn, frame)]" "in_handshake env conn i h' st'"
    "ns_initiator (sess i st') = ns_initiator (sess i st)" "ns_peer_id (sess i st') = ns_peer_id (sess i st)" "nt_clock st' = nt_clock st"
    "advance_handshake env i st = advance_settled env i h' st'"
proof -
  have i: "i < length (nt_sessions st)" by (rule in_handshake_bound [OF assms(2)])
  have st: "find_session conn st = Some i" "now_ms env st \<noteq> 0" "ns_handshake (sess i st) = Some h" "length (ns_peer_id (sess i st)) = 8"
    using assms(2) by (simp_all add: in_handshake_def)
  obtain frame q where f: "\<And>mem. malloc_ok mem (length m) \<Longrightarrow> bitchat_packet_decode mem frame = Some q" "pkt_bytes q = m"
    "pk_type q = BITCHAT_MSG_NOISE_HANDSHAKE" "pk_sender_id q = ni_peer_id (nk_id (ne_keys env))"
    "send_handshake_message env i h st = (True, (upd_sess i (\<lambda>s. s \<lparr> ns_handshake := Some h' \<rparr>) st) \<lparr> nt_world := nt_world st @ [(conn, frame)] \<rparr>)"
    by (rule hs_send [OF assms(1) st(1,2,4) assms(4-6)]) blast
  let ?st = "(upd_sess i (\<lambda>s. s \<lparr> ns_handshake := Some h' \<rparr>) st) \<lparr> nt_world := nt_world st @ [(conn, frame)] \<rparr>"
  have s: "sess i ?st = (sess i st) \<lparr> ns_handshake := Some h' \<rparr>" using i by (simp add: sess_upd)
  have "nl_action (ne_lib env) = hs_action" using assms(1) by (simp add: node_ok_def xx_lib_def)
  then have "advance_handshake env i st = advance_settled env i h' ?st"
    using assms(3,7) st(3) f(5) s by (simp add: advance_handshake_def)
  then show thesis using f st s by (intro that [of frame q ?st]) (simp_all add: in_handshake_def)
qed

lemma settled_read:
  assumes "node_ok np random env conn" "hs_action h = Action_Read"
  shows "advance_settled env i h st = (True, st)"
  using assms by (simp add: advance_settled_def node_ok_def xx_lib_def)

lemma advance_settled_handshake:
  assumes "ns_handshake (sess i st) = Some h" "nl_action (ne_lib env) h \<noteq> Action_Write"
  shows "advance_handshake env i st = advance_settled env i h st"
  using assms by (simp add: advance_handshake_def)

text \<open>Over the logging driver, sending only ever appends to the log.\<close>

lemma link_send_prefix: "prefix w (snd (bitle_link_send log_driver ls conn d w))"
  by (auto simp: bitle_link_send_def entry_send_def log_driver_def split: option.split prod.split)

lemma send_prefix:
  "prefix w (snd (encode_and_send alg nid now log_driver ls conn type r p sg w))"
  "prefix w (snd (noise_send_packet alg nid now log_driver ls conn type r p ttl sg w))"
  by (simp_all add: encode_and_send_def noise_send_packet_def Let_def link_send_prefix split: option.split)

lemma announce_prefix:
  "prefix w (snd (noise_announce_link alg nid mt ck log_driver ls link w))"
  "prefix w (snd (noise_send_node_capability alg nid now log_driver ls link lr w))"
  by (simp_all add: noise_announce_link_def noise_send_node_capability_def case_prod_beta send_prefix link_send_prefix split: option.split)

lemma try_send_identity_prefix:
  assumes "ne_drv env = log_driver"
  shows "prefix (nt_world st) (nt_world (snd (try_send_identity env i st)))"
proof -
  have a: "prefix (nt_world st) (nt_world (snd (send_announce env i st)))" for st :: "('b, (u16 \<times> bytes) list) noise_st"
  proof -
    obtain ok w where 1: "noise_announce_link (ne_alg env) (nk_id (ne_keys env)) (ne_mono env) (nt_clock st) (ne_drv env) (ne_links env)
        (ns_conn_handle (sess i st)) (nt_world st) = (ok, w)" by (metis prod.exhaust)
    obtain ok2 w2 where 2: "noise_send_node_capability (ne_alg env) (nk_id (ne_keys env)) (now_ms env st) (ne_drv env) (ne_links env)
        (ns_conn_handle (sess i st)) (ne_lora_active env) w = (ok2, w2)" by (metis prod.exhaust)
    have "prefix (nt_world st) w" "prefix w w2" using announce_prefix 1 2 assms by (metis snd_conv)+
    then have "prefix (nt_world st) w" "prefix (nt_world st) w2" using prefix_order.trans by blast+
    then show ?thesis by (auto simp: send_announce_def Let_def 1 2)
  qed
  have t: "prefix (nt_world st) (nt_world (snd (send_identity_announce env i st)))" for st :: "('b, (u16 \<times> bytes) list) noise_st"
    by (simp add: send_identity_announce_def ns_send_def case_prod_beta assms send_prefix(1) split: option.split)
  obtain ok st1 where s: "send_announce env i st = (ok, st1)" by (metis prod.exhaust)
  have "prefix (nt_world st) (nt_world st1)" using a [of st] s by simp
  then show ?thesis unfolding try_send_identity_def s using prefix_order.trans [OF _ t [of st1]]
    by (cases ok) (auto simp: Let_def set_pending_def)
qed

text \<open>The end of the handshake on one side.\<close>

lemma settled_split:
  assumes "node_ok np random env conn" "in_handshake env conn i h st" "hs_action h = Action_Split"
    "noise_handshakestate_split np h = (Some (tx, rx), h')"
  obtains st' where "advance_settled env i h st = (True, st')" "nt_clock st' = nt_clock st" "find_session conn st' = Some i"
    "ns_established (sess i st')" "ns_tx_cipher (sess i st') = Some tx" "ns_rx_cipher (sess i st') = Some rx" "ns_tx_nonce (sess i st') = 0"
    "ns_peer_id (sess i st') = ns_peer_id (sess i st)" "prefix (nt_world st) (nt_world st')"
proof -
  have i: "i < length (nt_sessions st)" by (rule in_handshake_bound [OF assms(2)])
  let ?f = "\<lambda>s. s \<lparr> ns_tx_cipher := Some tx, ns_rx_cipher := Some rx, ns_tx_nonce := 0,
     ns_handshake_hash := nl_hash (ne_lib env) h', ns_handshake := None, ns_established := True, ns_identity_sent := False \<rparr>"
  define st1 where "st1 = set_pending i True (upd_sess i ?f st)"
  define st' where "st' = snd (try_send_identity env i st1)"
  have "nl_action (ne_lib env) h = Action_Split" "nl_split (ne_lib env) h = (Some (tx, rx), h')"
    using assms(1,3,4) by (simp_all add: node_ok_def xx_lib_def)
  then have "advance_settled env i h st = (True, st')"
    using i by (simp add: advance_settled_def derive_transport_keys_def mark_established_def st'_def st1_def)
  moreover have c: "calm st1 st'" unfolding st'_def by (rule try_send_identity_calm)
  moreover have "sess i st1 = ?f (sess i st)" "i < length (nt_sessions st1)" "nt_clock st1 = nt_clock st"
    using i by (simp_all add: st1_def set_pending_def sess_upd)
  ultimately have s: "session_core (sess i st') = session_core (?f (sess i st))" "nt_clock st' = nt_clock st" by (simp_all add: calm_def)
  have "find_session conn st' = find_session conn st1"
    unfolding find_session_def find_slot_def by (rule find_index_cong) (use c in \<open>auto simp: calm_def session_core_def\<close>)
  also have "\<dots> = find_session conn st" by (simp add: st1_def set_pending_def find_session_def [of conn "_ \<lparr> nt_identity_pending := _ \<rparr>"])
      (simp add: find_session_def [symmetric])
  finally have "find_session conn st' = Some i" using assms(2) by (simp add: in_handshake_def)
  moreover have "prefix (nt_world st) (nt_world st')"
    using try_send_identity_prefix [of env st1 i] assms(1) by (simp add: node_ok_def st'_def st1_def set_pending_def)
  ultimately show thesis using \<open>advance_settled env i h st = (True, st')\<close> s by (intro that [of st']) (simp_all add: session_core_def)
qed

section \<open>The events of a handshake\<close>

definition begin_event :: "u16 \<Rightarrow> bytes \<Rightarrow> noise_event" where
  "begin_event conn peer = zero_event \<lparr> nx_type := NOISE_EVT_START, nx_conn_handle := conn, nx_initiator := True, nx_peer_id := take 8 peer \<rparr>"

definition handshake_event :: "u16 \<Rightarrow> packet \<Rightarrow> noise_event" where
  "handshake_event conn p = zero_event \<lparr> nx_type := NOISE_EVT_PROCESS, nx_conn_handle := conn, nx_initiator := False,
     nx_peer_id := take 8 (pk_sender_id p), nx_payload := pkt_bytes p \<rparr>"

lemma begin_event_queued:
  assumes "nt_queue st = []" "find_session conn st = Some i" "ns_handshake (sess i st) = None"
  shows "nt_queue (noise_begin_handshake conn peer st) = [begin_event conn peer]"
  using assms by (simp add: noise_begin_handshake_def enqueue_event_def queue_event_def begin_event_def NOISE_EVENT_PAYLOAD_MAX_def NOISE_QUEUE_DEPTH_def)
    (simp add: zero_event_def)

lemma handshake_event_queued:
  assumes "nt_queue st = []" "length (pkt_bytes p) \<le> 456"
  shows "nt_queue (noise_handle_handshake conn p st) = [handshake_event conn p]"
  using assms by (simp add: noise_handle_handshake_def enqueue_event_def queue_event_def handshake_event_def NOISE_EVENT_PAYLOAD_MAX_def NOISE_QUEUE_DEPTH_def)

lemma start_event:
  assumes "node_ok np random env conn" "find_session conn st = Some i" "now_ms env st \<noteq> 0" "ns_handshake (sess i st) = None"
    "party np (nk_static_private (ne_keys env)) random (nx_initiator evt) = Some a" "nx_conn_handle evt = conn" "length (nx_peer_id evt) = 8"
  obtains st' where "in_handshake env conn i a st'" "nt_world st' = nt_world st" "nt_clock st' = nt_clock st" "ns_initiator (sess i st') = nx_initiator evt"
    "start_handshake env evt i st = advance_handshake env i st'"
proof -
  have i: "i < length (nt_sessions st)" using find_session_in_use [OF assms(2)] by auto
  obtain h where "create_handshake env (nx_initiator evt) = Some h" "nl_start (ne_lib env) h = Some a"
    by (rule create_party [OF assms(1,5)])
  then show thesis using assms i
    by (intro that [of "upd_sess i (\<lambda>s. s \<lparr> ns_handshake := Some a, ns_initiator := nx_initiator evt,
          ns_peer_id := nx_peer_id evt, ns_identity_sent := False, ns_established := False \<rparr>) st"])
       (simp_all add: start_handshake_def in_handshake_def sess_upd)
qed

lemma process_read:
  assumes "node_ok np random env conn" "in_handshake env conn i h st" "nx_payload evt \<noteq> []"
    "\<not> (ns_initiator (sess i st) \<and> length (nx_payload evt) = 32)" "noise_handshakestate_read_message np (nx_payload evt) 256 h = (Some [], h')"
  obtains st' where "in_handshake env conn i h' st'" "nt_world st' = nt_world st" "nt_clock st' = nt_clock st"
    "ns_initiator (sess i st') = ns_initiator (sess i st)" "process_handshake env evt i st = advance_handshake env i st'"
proof -
  have i: "i < length (nt_sessions st)" by (rule in_handshake_bound [OF assms(2)])
  have "nl_read (ne_lib env) (nx_payload evt) 256 h = (Some [], h')" using assms(1,5) by (simp add: node_ok_def xx_lib_def)
  then show thesis using assms i
    by (intro that [of "upd_sess i (\<lambda>s. s \<lparr> ns_handshake := Some h' \<rparr>) st"])
       (auto simp: process_handshake_def in_handshake_def sess_upd Let_def NOISE_MESSAGE_MAX_def)
qed

lemma initiator_starts:
  assumes "node_ok np random env conn" "find_session conn st = Some i" "now_ms env st \<noteq> 0" "ns_handshake (sess i st) = None"
    "nx_initiator evt" "party np (nk_static_private (ne_keys env)) random True = Some a" "nx_conn_handle evt = conn" "length (nx_peer_id evt) = 8"
    "hs_action a = Action_Write" "noise_handshakestate_write_message np 256 None a = (Some m, a1)" "0 < length m" "length m \<le> 96"
    "hs_action a1 = Action_Read"
  obtains frame q where "\<And>mem. malloc_ok mem (length m) \<Longrightarrow> bitchat_packet_decode mem frame = Some q" "pkt_bytes q = m"
    "pk_sender_id q = ni_peer_id (nk_id (ne_keys env))" "nt_world (process_start_event env evt st) = nt_world st @ [(conn, frame)]"
    "in_handshake env conn i a1 (process_start_event env evt st)" "ns_initiator (sess i (process_start_event env evt st))"
    "nt_clock (process_start_event env evt st) = nt_clock st"
proof -
  obtain st1 where 1: "in_handshake env conn i a st1" "nt_world st1 = nt_world st" "nt_clock st1 = nt_clock st" "ns_initiator (sess i st1)"
    "start_handshake env evt i st = advance_handshake env i st1"
    by (rule start_event [OF assms(1-4) _ assms(7,8)]) (use assms(5,6) in auto)
  obtain frame q st2 where 2: "\<And>mem. malloc_ok mem (length m) \<Longrightarrow> bitchat_packet_decode mem frame = Some q" "pkt_bytes q = m"
    "pk_sender_id q = ni_peer_id (nk_id (ne_keys env))" "nt_world st2 = nt_world st1 @ [(conn, frame)]" "in_handshake env conn i a1 st2"
    "ns_initiator (sess i st2) = ns_initiator (sess i st1)" "nt_clock st2 = nt_clock st1"
    "advance_handshake env i st1 = advance_settled env i a1 st2"
    by (rule advance_write [OF assms(1) 1(1) assms(9-12)]) (use assms(13) in auto)
  have "process_start_event env evt st = st2"
    using assms(2,4,7) 1(5) 2(8) settled_read [OF assms(1,13)] by (simp add: process_start_event_def alloc_session_def)
  then show thesis using 1 2 by (intro that) simp_all
qed

lemma process_message_known:
  assumes "find_session (nx_conn_handle evt) st = Some i"
    "process_handshake env evt i (upd_sess i (\<lambda>s. s \<lparr> ns_peer_id := nx_peer_id evt \<rparr>) st) = (True, st')"
  shows "process_message_event env evt st = st'"
  using assms by (simp add: process_message_event_def alloc_session_def)

lemma responder_answers:
  assumes "node_ok np random env conn" "find_session conn st = Some i" "now_ms env st \<noteq> 0" "ns_handshake (sess i st) = None"
    "\<not> nx_initiator evt" "party np (nk_static_private (ne_keys env)) random False = Some b" "nx_conn_handle evt = conn" "length (nx_peer_id evt) = 8"
    "hs_action b = Action_Read" "noise_handshakestate_read_message np (nx_payload evt) 256 b = (Some [], b1)" "nx_payload evt \<noteq> []"
    "hs_action b1 = Action_Write" "noise_handshakestate_write_message np 256 None b1 = (Some m, b2)" "0 < length m" "length m \<le> 96"
    "hs_action b2 = Action_Read"
  obtains frame q where "\<And>mem. malloc_ok mem (length m) \<Longrightarrow> bitchat_packet_decode mem frame = Some q" "pkt_bytes q = m"
    "pk_sender_id q = ni_peer_id (nk_id (ne_keys env))" "nt_world (process_message_event env evt st) = nt_world st @ [(conn, frame)]"
    "in_handshake env conn i b2 (process_message_event env evt st)" "\<not> ns_initiator (sess i (process_message_event env evt st))"
    "nt_clock (process_message_event env evt st) = nt_clock st"
proof -
  let ?st = "upd_sess i (\<lambda>s. s \<lparr> ns_peer_id := nx_peer_id evt \<rparr>) st"
  have i: "i < length (nt_sessions st)" using find_session_in_use [OF assms(2)] by auto
  obtain st1 where 1: "in_handshake env conn i b st1" "nt_world st1 = nt_world st" "nt_clock st1 = nt_clock st" "\<not> ns_initiator (sess i st1)"
    "start_handshake env evt i ?st = advance_handshake env i st1"
    by (rule start_event [OF assms(1), of ?st i evt b]) (use assms(2-8) i in \<open>auto simp: sess_upd\<close>)
  have "start_handshake env evt i ?st = (True, st1)"
    using 1(1,5) advance_settled_handshake [of st1 i b env] settled_read [OF assms(1,9), of i st1] assms(1,9)
    by (simp add: in_handshake_def node_ok_def xx_lib_def)
  then have p: "process_handshake env evt i ?st = process_handshake env evt i st1"
    using assms(4) i 1(1,4) by (simp add: process_handshake_def Let_def sess_upd in_handshake_def)
  obtain st2 where 2: "in_handshake env conn i b1 st2" "nt_world st2 = nt_world st1" "nt_clock st2 = nt_clock st1"
    "ns_initiator (sess i st2) = ns_initiator (sess i st1)" "process_handshake env evt i st1 = advance_handshake env i st2"
    by (rule process_read [OF assms(1) 1(1) assms(11) _ assms(10)]) (use 1(4) in auto)
  obtain frame q st3 where 3: "\<And>mem. malloc_ok mem (length m) \<Longrightarrow> bitchat_packet_decode mem frame = Some q" "pkt_bytes q = m"
    "pk_sender_id q = ni_peer_id (nk_id (ne_keys env))" "nt_world st3 = nt_world st2 @ [(conn, frame)]" "in_handshake env conn i b2 st3"
    "ns_initiator (sess i st3) = ns_initiator (sess i st2)" "nt_clock st3 = nt_clock st2"
    "advance_handshake env i st2 = advance_settled env i b2 st3"
    by (rule advance_write [OF assms(1) 2(1) assms(12-15)]) (use assms(16) in auto)
  have "process_message_event env evt st = st3"
    by (rule process_message_known) (use assms(2,7) p 2(5) 3(8) settled_read [OF assms(1,16)] in simp_all)
  then show thesis using 1 2 3 by (intro that) simp_all
qed

lemma in_handshake_peer:
  assumes "in_handshake env conn i h st" "length peer = 8"
  shows "in_handshake env conn i h (upd_sess i (\<lambda>s. s \<lparr> ns_peer_id := peer \<rparr>) st)"
    "sess i (upd_sess i (\<lambda>s. s \<lparr> ns_peer_id := peer \<rparr>) st) = (sess i st) \<lparr> ns_peer_id := peer \<rparr>"
  using assms in_handshake_bound [OF assms(1)] by (simp_all add: in_handshake_def sess_upd)

text \<open>The last message a node reads: it may still send one, then it has the keys.\<close>

lemma handshake_ends:
  assumes "node_ok np random env conn" "in_handshake env conn i h st" "nx_conn_handle evt = conn" "length (nx_peer_id evt) = 8"
    "nx_payload evt \<noteq> []" "length (nx_payload evt) \<noteq> 32" "noise_handshakestate_read_message np (nx_payload evt) 256 h = (Some [], h1)"
    "hs_action h1 = Action_Split" "noise_handshakestate_split np h1 = (Some (tx, rx), h2)"
  shows "ns_established (sess i (process_message_event env evt st)) \<and> ns_tx_cipher (sess i (process_message_event env evt st)) = Some tx \<and>
    ns_rx_cipher (sess i (process_message_event env evt st)) = Some rx \<and> ns_tx_nonce (sess i (process_message_event env evt st)) = 0 \<and>
    ns_peer_id (sess i (process_message_event env evt st)) = nx_peer_id evt"
proof -
  let ?st = "upd_sess i (\<lambda>s. s \<lparr> ns_peer_id := nx_peer_id evt \<rparr>) st"
  note p = in_handshake_peer [OF assms(2,4)]
  have lib: "nl_read (ne_lib env) (nx_payload evt) 256 h = (Some [], h1)" "nl_action (ne_lib env) = hs_action"
    using assms(1,7) by (simp_all add: node_ok_def xx_lib_def)
  define st1 where "st1 = upd_sess i (\<lambda>s. s \<lparr> ns_handshake := Some h1 \<rparr>) ?st"
  have i: "i < length (nt_sessions ?st)" by (rule in_handshake_bound [OF p(1)])
  have 1: "in_handshake env conn i h1 st1" "ns_peer_id (sess i st1) = nx_peer_id evt"
    using p i assms(4) by (simp_all add: st1_def in_handshake_def sess_upd)
  have ph: "process_handshake env evt i ?st = advance_settled env i h1 st1"
    using p(1) assms(5,6,8) lib i advance_settled_handshake [of st1 i h1 env] 1(1)
    by (auto simp: process_handshake_def in_handshake_def Let_def NOISE_MESSAGE_MAX_def st1_def)
  obtain st' where 2: "advance_settled env i h1 st1 = (True, st')" "ns_established (sess i st')" "ns_tx_cipher (sess i st') = Some tx"
    "ns_rx_cipher (sess i st') = Some rx" "ns_tx_nonce (sess i st') = 0" "ns_peer_id (sess i st') = ns_peer_id (sess i st1)"
    by (rule settled_split [OF assms(1) 1(1) assms(8,9)])
  have "process_message_event env evt st = st'"
    by (rule process_message_known) (use assms(2,3) ph 2(1) in \<open>simp_all add: in_handshake_def\<close>)
  then show ?thesis using 2 1(2) by simp
qed

lemma initiator_finishes:
  assumes "node_ok np random env conn" "in_handshake env conn i h st" "nx_conn_handle evt = conn" "length (nx_peer_id evt) = 8"
    "nx_payload evt \<noteq> []" "length (nx_payload evt) \<noteq> 32" "noise_handshakestate_read_message np (nx_payload evt) 256 h = (Some [], h1)"
    "hs_action h1 = Action_Write" "noise_handshakestate_write_message np 256 None h1 = (Some m, h2)" "0 < length m" "length m \<le> 96"
    "hs_action h2 = Action_Split" "noise_handshakestate_split np h2 = (Some (tx, rx), h3)"
  obtains frame q where "\<And>mem. malloc_ok mem (length m) \<Longrightarrow> bitchat_packet_decode mem frame = Some q" "pkt_bytes q = m"
    "pk_sender_id q = ni_peer_id (nk_id (ne_keys env))" "prefix (nt_world st @ [(conn, frame)]) (nt_world (process_message_event env evt st))"
    "ns_established (sess i (process_message_event env evt st))" "ns_tx_cipher (sess i (process_message_event env evt st)) = Some tx"
    "ns_rx_cipher (sess i (process_message_event env evt st)) = Some rx" "ns_tx_nonce (sess i (process_message_event env evt st)) = 0"
    "ns_peer_id (sess i (process_message_event env evt st)) = nx_peer_id evt"
proof -
  let ?st = "upd_sess i (\<lambda>s. s \<lparr> ns_peer_id := nx_peer_id evt \<rparr>) st"
  note p = in_handshake_peer [OF assms(2,4)]
  have lib: "nl_read (ne_lib env) (nx_payload evt) 256 h = (Some [], h1)" using assms(1,7) by (simp add: node_ok_def xx_lib_def)
  define st1 where "st1 = upd_sess i (\<lambda>s. s \<lparr> ns_handshake := Some h1 \<rparr>) ?st"
  have i: "i < length (nt_sessions ?st)" by (rule in_handshake_bound [OF p(1)])
  have 1: "in_handshake env conn i h1 st1" "ns_peer_id (sess i st1) = nx_peer_id evt" "nt_world st1 = nt_world st"
    using p i assms(4) by (simp_all add: st1_def in_handshake_def sess_upd)
  have ph: "process_handshake env evt i ?st = advance_handshake env i st1"
    using p(1) assms(5,6) lib i by (auto simp: process_handshake_def in_handshake_def Let_def NOISE_MESSAGE_MAX_def st1_def)
  obtain frame q st2 where 2: "\<And>mem. malloc_ok mem (length m) \<Longrightarrow> bitchat_packet_decode mem frame = Some q" "pkt_bytes q = m"
    "pk_sender_id q = ni_peer_id (nk_id (ne_keys env))" "nt_world st2 = nt_world st1 @ [(conn, frame)]" "in_handshake env conn i h2 st2"
    "ns_peer_id (sess i st2) = ns_peer_id (sess i st1)"
    "advance_handshake env i st1 = advance_settled env i h2 st2"
    by (rule advance_write [OF assms(1) 1(1) assms(8-11)]) (use assms(12) in auto)
  obtain st' where 3: "advance_settled env i h2 st2 = (True, st')" "ns_established (sess i st')" "ns_tx_cipher (sess i st') = Some tx"
    "ns_rx_cipher (sess i st') = Some rx" "ns_tx_nonce (sess i st') = 0" "ns_peer_id (sess i st') = ns_peer_id (sess i st2)"
    "prefix (nt_world st2) (nt_world st')"
    by (rule settled_split [OF assms(1) 2(5) assms(12,13)])
  have "process_message_event env evt st = st'"
    by (rule process_message_known) (use assms(2,3) ph 2(7) 3(1) in \<open>simp_all add: in_handshake_def\<close>)
  then show thesis using 1 2 3 by (intro that) simp_all
qed

section \<open>Properties\<close>

text \<open>
  C6: two nodes set up a session. One starts a handshake and each answers the handshake packets of the other, as they
  decode from the frames it put on the link. After the three frames both sessions are established, the sending
  cipher of each is the receiving cipher of the other, with fresh counters, and each session names the other node as its
  peer; with the round trip of transport messages, what one then encrypts the other decrypts.
\<close>

theorem noise_sessions_establish:
  assumes "prims_ok np" "node_ok np ra A ca" "node_ok np rb B cb" "session_ready A ca i sa" "session_ready B cb j sb"
    "ns_handshake (sess i sa) = None" "ns_handshake (sess j sb) = None" "nt_world sa = []" "nt_world sb = []"
    "\<forall>n. malloc_ok mem n"
  shows "\<exists>f1 f2 f3 q1 q2 q3 sa1 sa2 sb1 sb2 tx rx.
    sa1 = process_event A (begin_event ca (ni_peer_id (nk_id (ne_keys B)))) sa \<and> nt_world sa1 = [(ca, f1)] \<and> bitchat_packet_decode mem f1 = Some q1 \<and>
    sb1 = process_event B (handshake_event cb q1) sb \<and> nt_world sb1 = [(cb, f2)] \<and> bitchat_packet_decode mem f2 = Some q2 \<and>
    sa2 = process_event A (handshake_event ca q2) sa1 \<and> prefix [(ca, f1), (ca, f3)] (nt_world sa2) \<and> bitchat_packet_decode mem f3 = Some q3 \<and>
    sb2 = process_event B (handshake_event cb q3) sb1 \<and>
    ns_established (sess i sa2) \<and> ns_tx_cipher (sess i sa2) = Some tx \<and> ns_rx_cipher (sess i sa2) = Some rx \<and>
    ns_established (sess j sb2) \<and> ns_tx_cipher (sess j sb2) = Some rx \<and> ns_rx_cipher (sess j sb2) = Some tx \<and>
    cs_has_key tx \<and> cs_has_key rx \<and> cs_n tx = 0 \<and> cs_n rx = 0 \<and> ns_tx_nonce (sess i sa2) = 0 \<and> ns_tx_nonce (sess j sb2) = 0 \<and>
    ns_peer_id (sess i sa2) = ni_peer_id (nk_id (ne_keys B)) \<and> ns_peer_id (sess j sb2) = ni_peer_id (nk_id (ne_keys A))"
proof -
  let ?ka = "nk_static_private (ne_keys A)" and ?kb = "nk_static_private (ne_keys B)"
  let ?ia = "ni_peer_id (nk_id (ne_keys A))" and ?ib = "ni_peer_id (nk_id (ne_keys B))"
  have k: "length ?ka = 32" "length ?kb = 32" "length ?ia = 8" "length ?ib = 8" using assms(2,3) by (simp_all add: node_ok_def node_id_wf_def)
  obtain a b where ab: "party np ?ka ra True = Some a" "party np ?kb rb False = Some b" "hs_action a = Action_Write" "hs_action b = Action_Read"
    using party_works [OF assms(1) k(1), of ra True] party_works [OF assms(1) k(2), of rb False] by simp
  obtain m1 m2 m3 a1 a2 a3 a4 b1 b2 b3 b4 tx rx where x: "length m1 = 32" "length m2 = 96" "length m3 = 64"
    "noise_handshakestate_write_message np 256 None a = (Some m1, a1)" "noise_handshakestate_read_message np m1 256 b = (Some [], b1)"
    "noise_handshakestate_write_message np 256 None b1 = (Some m2, b2)" "noise_handshakestate_read_message np m2 256 a1 = (Some [], a2)"
    "noise_handshakestate_write_message np 256 None a2 = (Some m3, a3)" "noise_handshakestate_read_message np m3 256 b2 = (Some [], b3)"
    and act: "hs_action a1 = Action_Read" "hs_action b1 = Action_Write" "hs_action b2 = Action_Read" "hs_action a2 = Action_Write"
    "hs_action a3 = Action_Split" "hs_action b3 = Action_Split"
    and sp: "noise_handshakestate_split np a3 = (Some (tx, rx), a4)" "noise_handshakestate_split np b3 = (Some (rx, tx), b4)"
    "cs_has_key tx" "cs_has_key rx" "cs_n tx = 0" "cs_n rx = 0"
    by (rule xx_steps [OF assms(1) k(1,2) ab(1,2), of 256]) (simp, blast)
  let ?e = "begin_event ca ?ib"
  define sa1 where "sa1 = process_start_event A ?e sa"
  obtain f1 q1 where 1: "\<And>mem. malloc_ok mem (length m1) \<Longrightarrow> bitchat_packet_decode mem f1 = Some q1" "pkt_bytes q1 = m1" "pk_sender_id q1 = ?ia"
    "nt_world sa1 = nt_world sa @ [(ca, f1)]" "in_handshake A ca i a1 sa1"
    unfolding sa1_def by (rule initiator_starts [OF assms(2), of sa i ?e a m1 a1])
      (use assms(4,6) ab k x act in \<open>auto simp: session_ready_def begin_event_def\<close>)
  let ?e1 = "handshake_event cb q1"
  define sb1 where "sb1 = process_message_event B ?e1 sb"
  obtain f2 q2 where 2: "\<And>mem. malloc_ok mem (length m2) \<Longrightarrow> bitchat_packet_decode mem f2 = Some q2" "pkt_bytes q2 = m2" "pk_sender_id q2 = ?ib"
    "nt_world sb1 = nt_world sb @ [(cb, f2)]" "in_handshake B cb j b2 sb1"
    unfolding sb1_def by (rule responder_answers [OF assms(3), of sb j ?e1 b b1 m2 b2])
      (use assms(5,7) ab k x act 1(2,3) in \<open>auto simp: session_ready_def handshake_event_def\<close>)
  let ?e2 = "handshake_event ca q2"
  obtain f3 q3 where 3: "\<And>mem. malloc_ok mem (length m3) \<Longrightarrow> bitchat_packet_decode mem f3 = Some q3" "pkt_bytes q3 = m3" "pk_sender_id q3 = ?ia"
    "prefix (nt_world sa1 @ [(ca, f3)]) (nt_world (process_message_event A ?e2 sa1))"
    "ns_established (sess i (process_message_event A ?e2 sa1))" "ns_tx_cipher (sess i (process_message_event A ?e2 sa1)) = Some tx"
    "ns_rx_cipher (sess i (process_message_event A ?e2 sa1)) = Some rx" "ns_tx_nonce (sess i (process_message_event A ?e2 sa1)) = 0"
    "ns_peer_id (sess i (process_message_event A ?e2 sa1)) = nx_peer_id ?e2"
    by (rule initiator_finishes [OF assms(2) 1(5), of ?e2 a2 m3 a3 tx rx a4]) (use k x act sp 2(2,3) in \<open>auto simp: handshake_event_def\<close>)
  let ?e3 = "handshake_event cb q3"
  have 4: "ns_established (sess j (process_message_event B ?e3 sb1)) \<and> ns_tx_cipher (sess j (process_message_event B ?e3 sb1)) = Some rx \<and>
    ns_rx_cipher (sess j (process_message_event B ?e3 sb1)) = Some tx \<and> ns_tx_nonce (sess j (process_message_event B ?e3 sb1)) = 0 \<and>
    ns_peer_id (sess j (process_message_event B ?e3 sb1)) = nx_peer_id ?e3"
    by (rule handshake_ends [OF assms(3) 2(5), of ?e3 b3 rx tx b4]) (use k x act sp 3(2,3) in \<open>auto simp: handshake_event_def\<close>)
  have e: "process_event A ?e sa = sa1" "process_event B ?e1 sb = sb1" "process_event A ?e2 sa1 = process_message_event A ?e2 sa1"
    "process_event B ?e3 sb1 = process_message_event B ?e3 sb1"
    by (simp_all add: process_event_def begin_event_def handshake_event_def sa1_def sb1_def)
  have p: "nx_peer_id ?e2 = ?ib" "nx_peer_id ?e3 = ?ia" using k 2(3) 3(3) by (simp_all add: handshake_event_def)
  show ?thesis
    by (rule exI [of _ f1], rule exI [of _ f2], rule exI [of _ f3], rule exI [of _ q1], rule exI [of _ q2], rule exI [of _ q3],
        rule exI [of _ sa1], rule exI [of _ "process_message_event A ?e2 sa1"], rule exI [of _ sb1],
        rule exI [of _ "process_message_event B ?e3 sb1"], rule exI [of _ tx], rule exI [of _ rx])
       (use assms(8-) e 1 2 3 4 sp p in simp)
qed

definition demo_links :: "nat links" where
  "demo_links = snd (bitle_link_register 3 BITLE_LINK_BLE (Some 1) empty_links)"

definition hs_node :: "u8 \<Rightarrow> (handshake_state, nat, (u16 \<times> bytes) list) noise_env" where
  "hs_node k = \<lparr> ne_keys = \<lparr> nk_static_private = replicate 32 k,
       nk_id = demo_id \<lparr> ni_static_public := np_base toy_prims (replicate 32 k), ni_peer_id := replicate 8 k \<rparr> \<rparr>,
     ne_alg = demo_alg, ne_psa = (\<lambda>_. Some (replicate 32 0)), ne_lib = xx_lib toy_prims (replicate 32 (k + 7)), ne_aead = toy_aead,
     ne_nvs = nvs_works, ne_mono = 1000, ne_links = demo_links, ne_drv = log_driver, ne_lora_active = False,
     ne_central = (\<lambda>_. False), ne_random = replicate 16 0 \<rparr>"

definition hs_state :: "(handshake_state, (u16 \<times> bytes) list) noise_st" where
  "hs_state = (noise_boot 1 ((reset_clock None) \<lparr> ck_epoch_base_ms := 1700000000000, ck_time_valid := True \<rparr>) []) \<lparr>
     nt_sessions := [zero_session \<lparr> ns_in_use := True, ns_conn_handle := 3 \<rparr>] \<rparr>"

theorem noise_sessions_establish_witness:
  "\<exists>q1 q2 q3. ns_established (sess 0 (process_event (hs_node 1) (handshake_event 3 q2) (process_event (hs_node 1) (begin_event 3 (replicate 8 2)) hs_state))) \<and>
     ns_established (sess 0 (process_event (hs_node 2) (handshake_event 3 q3) (process_event (hs_node 2) (handshake_event 3 q1) hs_state)))"
proof -
  have "find_locked 3 demo_links = Some 0 \<and> 520 \<le> unat (lc_mtu (lk_capabilities (le_adapter (demo_links ! 0))))" by code_simp
  then have l: "link_open 3 demo_links" unfolding link_open_def by blast
  have n: "node_ok toy_prims (replicate 32 (k + 7)) (hs_node k) 3" for k
    using l by (simp add: node_ok_def hs_node_def node_id_wf_def demo_id_def prims_okD(3) [OF toy_prims_ok])
  have s: "session_ready (hs_node k) 3 0 hs_state" "ns_handshake (sess 0 hs_state) = None" "nt_world hs_state = []" for k
    by (simp_all add: session_ready_def hs_state_def find_session_def find_slot_def now_ms_def bitchat_time_now_ms_def hs_node_def noise_boot_def
        zero_session_def)
  have m: "\<forall>n. malloc_ok stored_env n" by (simp add: stored_env_def)
  have b: "ni_peer_id (nk_id (ne_keys (hs_node 2))) = replicate 8 2" by (simp add: hs_node_def)
  show ?thesis using noise_sessions_establish [OF toy_prims_ok n [of 1] n [of 2] s(1) [of 1] s(1) [of 2] s(2) s(2) s(3) s(3) m] unfolding b by blast
qed

end
