(* ===== verification/Ble_Transport.thy ===== *)
theory Ble_Transport
  imports Link_Registry Noise_Packet
begin

text \<open>
  The BLE transport of \<open>main/bitchat_ble.c\<close>: the connection table, the list of addresses not to dial, the central engine that
  discovers and dials other nodes, the GAP events, the subscription watchdog and sending. The NimBLE host is a
  parameter: its error codes, the results of its calls, the descriptor of a connection and its activity flags; the calls themselves,
  and those of the mesh and the Noise layer, are collected in order. The link registry is part of the state, as
  the transport registers its links there.
\<close>

section \<open>State\<close>

record ble_conn =
  bc_in_use :: bool
  bc_subscribed :: bool
  bc_is_central :: bool
  bc_conn_handle :: u16
  bc_remote_val_handle :: u16
  bc_svc_end_handle :: u16
  bc_peer_addr :: bytes
  bc_connected_at_ms :: u64

definition zero_conn :: ble_conn where
  "zero_conn = \<lparr> bc_in_use = False, bc_subscribed = False, bc_is_central = False, bc_conn_handle = 0, bc_remote_val_handle = 0,
     bc_svc_end_handle = 0, bc_peer_addr = replicate 7 0, bc_connected_at_ms = 0 \<rparr>"

record deny_entry =
  de_in_use :: bool
  de_addr :: bytes
  de_until_ms :: u64

definition zero_deny :: deny_entry where
  "zero_deny = \<lparr> de_in_use = False, de_addr = replicate 7 0, de_until_ms = 0 \<rparr>"

definition BITLE_CENTRAL_MAX_LINKS :: nat where "BITLE_CENTRAL_MAX_LINKS = 2"
definition BITLE_CENTRAL_RESERVE :: nat where "BITLE_CENTRAL_RESERVE = 2"
definition BITLE_SCAN_INTERVAL_MS :: u64 where "BITLE_SCAN_INTERVAL_MS = 60000"
definition BITLE_DENY_TTL_MS :: u64 where "BITLE_DENY_TTL_MS = 120000"
definition BITLE_SUBSCRIBE_TIMEOUT_MS :: u64 where "BITLE_SUBSCRIBE_TIMEOUT_MS = 30000"
definition BITLE_DEVICE_NAME :: bytes where
  "BITLE_DEVICE_NAME = map (\<lambda>c. word_of_nat (of_char c)) ''Bitle Relay''"

datatype ble_call =
    Adv_Set_Fields | Adv_Rsp_Set_Fields | Adv_Start
  | Gap_Terminate u16 | Gap_Connect bytes | Gap_Disc | Gap_Disc_Cancel
  | Exchange_Mtu u16 | Disc_Svc u16 | Disc_Chrs u16 u16 u16 | Disc_Dscs u16 u16 u16 | Write_Cccd u16 u16
  | Write_No_Rsp u16 u16 bytes | Notify_Custom u16 u16 bytes
  | Mesh_Inbound u16 bytes | Notify_Subscribed u16 | Reset_Connection u16

record 'f ble_st =
  bs_connections :: "ble_conn list"
  bs_deny :: "deny_entry list"
  bs_host_synced :: bool
  bs_last_scan_ms :: u64
  bs_links :: "'f links"
  bs_calls :: "ble_call list"

record 'f ble_env =
  be_now :: u64
  be_rc :: "ble_call \<Rightarrow> int"
  be_desc :: "u16 \<Rightarrow> (bytes \<times> bool) option"
  be_adv_active :: bool
  be_disc_active :: bool
  be_conn_active :: bool
  be_mbuf_ok :: bool
  be_inbound_ok :: "u16 \<Rightarrow> bytes \<Rightarrow> bool"
  be_tx_val_handle :: u16
  be_send_cb :: 'f
  be_EDONE :: int
  be_EINVAL :: int
  be_ENOMEM :: int
  be_ENOTCONN :: int
  be_att_value_len :: int
  be_att_unlikely :: int

definition ble_call_add :: "ble_call \<Rightarrow> 'f ble_st \<Rightarrow> 'f ble_st" where
  "ble_call_add c st = st \<lparr> bs_calls := bs_calls st @ [c] \<rparr>"

definition upd_conn :: "nat \<Rightarrow> (ble_conn \<Rightarrow> ble_conn) \<Rightarrow> 'f ble_st \<Rightarrow> 'f ble_st" where
  "upd_conn i f st = st \<lparr> bs_connections := (bs_connections st)[i := f (bs_connections st ! i)] \<rparr>"

section \<open>Connections and addresses\<close>

definition count_connections :: "bool \<Rightarrow> 'f ble_st \<Rightarrow> nat" where
  "count_connections centrals_only st =
     length (filter (\<lambda>c. bc_in_use c \<and> (\<not> centrals_only \<or> bc_is_central c)) (bs_connections st))"

definition addr_denied :: "bytes \<Rightarrow> u64 \<Rightarrow> 'f ble_st \<Rightarrow> bool" where
  "addr_denied addr now st = list_ex (\<lambda>d. de_in_use d \<and> now < de_until_ms d \<and> de_addr d = addr) (bs_deny st)"

text \<open>The slot for a new entry: the first that is free or expired, otherwise the first among those that expire soonest.\<close>

fun deny_slot :: "u64 \<Rightarrow> deny_entry list \<Rightarrow> nat \<Rightarrow> nat \<Rightarrow> u64 \<Rightarrow> nat" where
  "deny_slot now [] i best until = best"
| "deny_slot now (d # ds) i best until =
     (if \<not> de_in_use d \<or> now \<ge> de_until_ms d then i
      else if de_until_ms d < until then deny_slot now ds (Suc i) i (de_until_ms d)
      else deny_slot now ds (Suc i) best until)"

definition deny_addr :: "bytes \<Rightarrow> u64 \<Rightarrow> 'f ble_st \<Rightarrow> 'f ble_st" where
  "deny_addr addr now st =
     (let i = deny_slot now (bs_deny st) 0 0 (de_until_ms (bs_deny st ! 0))
      in st \<lparr> bs_deny := (bs_deny st)[i := \<lparr> de_in_use = True, de_addr = addr, de_until_ms = now + BITLE_DENY_TTL_MS \<rparr>] \<rparr>)"

definition already_linked_to :: "bytes \<Rightarrow> 'f ble_st \<Rightarrow> bool" where
  "already_linked_to addr st = list_ex (\<lambda>c. bc_in_use c \<and> bc_peer_addr c = addr) (bs_connections st)"

definition find_conn :: "u16 \<Rightarrow> 'f ble_st \<Rightarrow> nat option" where
  "find_conn conn st = find_slot bc_in_use bc_conn_handle conn (bs_connections st)"

definition alloc_conn :: "u16 \<Rightarrow> 'f ble_st \<Rightarrow> (nat \<times> 'f ble_st) option" where
  "alloc_conn conn st =
     (case find_conn conn st of
        Some i \<Rightarrow> Some (i, st)
      | None \<Rightarrow>
          (case find_index (\<lambda>c. \<not> bc_in_use c) (bs_connections st) of
             None \<Rightarrow> None
           | Some i \<Rightarrow> Some (i, upd_conn i (\<lambda>_. zero_conn \<lparr> bc_in_use := True, bc_conn_handle := conn \<rparr>) st)))"

definition drop_conn :: "u16 \<Rightarrow> 'f ble_st \<Rightarrow> 'f ble_st" where
  "drop_conn conn st =
     (case find_conn conn st of
        None \<Rightarrow> st
      | Some i \<Rightarrow> upd_conn i (\<lambda>_. zero_conn) (st \<lparr> bs_links := bitle_link_unregister conn (bs_links st) \<rparr>))"

section \<open>Sending and receiving\<close>

definition link_send :: "'f ble_env \<Rightarrow> nat \<Rightarrow> bytes \<Rightarrow> 'f ble_st \<Rightarrow> int \<times> 'f ble_st" where
  "link_send env i data st =
     (let c = bs_connections st ! i
      in if bc_is_central c
         then if bc_remote_val_handle c = 0 then (be_EINVAL env, st)
              else let call = Write_No_Rsp (bc_conn_handle c) (bc_remote_val_handle c) data in (be_rc env call, ble_call_add call st)
         else if \<not> be_mbuf_ok env then (be_ENOMEM env, st)
              else let call = Notify_Custom (bc_conn_handle c) (be_tx_val_handle env) data in (be_rc env call, ble_call_add call st))"

definition ble_link_send_cb :: "'f ble_env \<Rightarrow> u16 \<Rightarrow> bytes \<Rightarrow> 'f ble_st \<Rightarrow> int \<times> 'f ble_st" where
  "ble_link_send_cb env handle data st =
     (case find_conn handle st of
        None \<Rightarrow> (be_ENOTCONN env, st)
      | Some i \<Rightarrow> if \<not> bc_subscribed (bs_connections st ! i) then (be_ENOTCONN env, st) else link_send env i data st)"

definition bitchat_ble_send :: "'f ble_env \<Rightarrow> u16 \<Rightarrow> bytes \<Rightarrow> 'f ble_st \<Rightarrow> esp_err \<times> 'f ble_st" where
  "bitchat_ble_send env conn data st =
     (if data = [] \<or> length data > BITCHAT_BLE_MAX_PACKET_SIZE then (ESP_ERR_INVALID_ARG, st)
      else if \<not> bs_host_synced st then (ESP_ERR_INVALID_STATE, st)
      else case find_conn conn st of
             None \<Rightarrow> (ESP_ERR_INVALID_STATE, st)
           | Some i \<Rightarrow>
               if \<not> bc_subscribed (bs_connections st ! i) then (ESP_ERR_INVALID_STATE, st)
               else case link_send env i data st of (rc, st1) \<Rightarrow> (if rc \<noteq> 0 then ESP_FAIL else ESP_OK, st1))"

text \<open>The write of a peer to our characteristic; \<open>copied\<close> are the bytes of the buffer chain, \<open>None\<close> when the copy fails.\<close>

definition gatt_access_cb :: "'f ble_env \<Rightarrow> u16 \<Rightarrow> bool \<Rightarrow> nat \<Rightarrow> bytes option \<Rightarrow> 'f ble_st \<Rightarrow> int \<times> 'f ble_st" where
  "gatt_access_cb env conn is_write pkt_len copied st =
     (if \<not> is_write then (be_att_unlikely env, st)
      else if pkt_len = 0 \<or> pkt_len > BITCHAT_BLE_MAX_PACKET_SIZE then (be_att_value_len env, st)
      else case copied of
             None \<Rightarrow> (be_att_unlikely env, st)
           | Some buffer \<Rightarrow>
               if buffer = [] then (be_att_unlikely env, st)
               else (if be_inbound_ok env conn buffer then 0 else be_att_value_len env, ble_call_add (Mesh_Inbound conn buffer) st))"

definition start_advertising :: "'f ble_env \<Rightarrow> 'f ble_st \<Rightarrow> 'f ble_st" where
  "start_advertising env st =
     (if be_adv_active env then st
      else let st1 = ble_call_add Adv_Set_Fields st
           in if be_rc env Adv_Set_Fields \<noteq> 0 then st1
              else let st2 = ble_call_add Adv_Rsp_Set_Fields st1
                   in if be_rc env Adv_Rsp_Set_Fields \<noteq> 0 then st2 else ble_call_add Adv_Start st2)"

section \<open>The central engine\<close>

definition central_disc_failed :: "'f ble_env \<Rightarrow> u16 \<Rightarrow> 'f ble_st \<Rightarrow> 'f ble_st" where
  "central_disc_failed env conn st =
     (let st1 = (case find_conn conn st of Some i \<Rightarrow> deny_addr (bc_peer_addr (bs_connections st ! i)) (be_now env) st | None \<Rightarrow> st)
      in ble_call_add (Gap_Terminate conn) st1)"

text \<open>A call that starts the next step of the discovery; the link is dropped when it fails.\<close>

definition try_call :: "'f ble_env \<Rightarrow> u16 \<Rightarrow> ble_call \<Rightarrow> 'f ble_st \<Rightarrow> 'f ble_st" where
  "try_call env conn call st =
     (if be_rc env call \<noteq> 0 then central_disc_failed env conn (ble_call_add call st) else ble_call_add call st)"

definition ble_register :: "'f ble_env \<Rightarrow> u16 \<Rightarrow> 'f ble_st \<Rightarrow> 'f ble_st" where
  "ble_register env conn st =
     ble_call_add (Notify_Subscribed conn) (st \<lparr> bs_links := snd (bitle_link_register conn BITLE_LINK_BLE (Some (be_send_cb env)) (bs_links st)) \<rparr>)"

definition central_cccd_written :: "'f ble_env \<Rightarrow> u16 \<Rightarrow> int \<Rightarrow> 'f ble_st \<Rightarrow> 'f ble_st" where
  "central_cccd_written env conn status st =
     (if status \<noteq> 0 then central_disc_failed env conn st
      else case find_conn conn st of
             None \<Rightarrow> st
           | Some i \<Rightarrow> ble_register env conn (upd_conn i (\<lambda>c. c \<lparr> bc_subscribed := True \<rparr>) st))"

text \<open>\<open>dsc\<close> is the handle of a descriptor and whether it is the client configuration (0x2902).\<close>

definition central_dsc_cb :: "'f ble_env \<Rightarrow> u16 \<Rightarrow> int \<Rightarrow> (u16 \<times> bool) option \<Rightarrow> 'f ble_st \<Rightarrow> int \<times> 'f ble_st" where
  "central_dsc_cb env conn status dsc st =
     (if find_conn conn st = None then (0, st)
      else if status = 0 \<and> dsc \<noteq> None \<and> snd (the dsc) then (be_EDONE env, try_call env conn (Write_Cccd conn (fst (the dsc))) st)
      else if status = be_EDONE env then (0, st)
      else if status \<noteq> 0 then (0, central_disc_failed env conn st)
      else (0, st))"

definition central_chr_cb :: "'f ble_env \<Rightarrow> u16 \<Rightarrow> int \<Rightarrow> u16 option \<Rightarrow> 'f ble_st \<Rightarrow> int \<times> 'f ble_st" where
  "central_chr_cb env conn status chr st =
     (case find_conn conn st of
        None \<Rightarrow> (0, st)
      | Some i \<Rightarrow>
          if status = 0 \<and> chr \<noteq> None then (0, upd_conn i (\<lambda>c. c \<lparr> bc_remote_val_handle := the chr \<rparr>) st)
          else if status = be_EDONE env
          then if bc_remote_val_handle (bs_connections st ! i) = 0 then (0, central_disc_failed env conn st)
               else (0, try_call env conn (Disc_Dscs conn (bc_remote_val_handle (bs_connections st ! i)) (bc_svc_end_handle (bs_connections st ! i))) st)
          else (0, central_disc_failed env conn st))"

definition central_svc_cb :: "'f ble_env \<Rightarrow> u16 \<Rightarrow> int \<Rightarrow> (u16 \<times> u16) option \<Rightarrow> 'f ble_st \<Rightarrow> int \<times> 'f ble_st" where
  "central_svc_cb env conn status service st =
     (case find_conn conn st of
        None \<Rightarrow> (0, st)
      | Some i \<Rightarrow>
          (case (status = 0, service) of
             (True, Some (start, finish)) \<Rightarrow>
               (be_EDONE env, try_call env conn (Disc_Chrs conn start finish) (upd_conn i (\<lambda>c. c \<lparr> bc_svc_end_handle := finish \<rparr>) st))
           | _ \<Rightarrow>
               if status = be_EDONE env
               then (0, if bc_svc_end_handle (bs_connections st ! i) = 0 then central_disc_failed env conn st else st)
               else (0, central_disc_failed env conn st)))"

definition central_start_discovery :: "'f ble_env \<Rightarrow> u16 \<Rightarrow> 'f ble_st \<Rightarrow> 'f ble_st" where
  "central_start_discovery env conn st = try_call env conn (Disc_Svc conn) (ble_call_add (Exchange_Mtu conn) st)"

definition may_dial :: "'f ble_st \<Rightarrow> bool" where
  "may_dial st \<longleftrightarrow> \<not> (count_connections True st \<ge> BITLE_CENTRAL_MAX_LINKS \<or>
     count_connections False st + BITLE_CENTRAL_RESERVE \<ge> length (bs_connections st))"

text \<open>\<open>name\<close> is the device name of the advertisement, \<open>None\<close> when it does not parse.\<close>

definition maybe_connect_to_bitle :: "'f ble_env \<Rightarrow> bytes \<Rightarrow> bytes option \<Rightarrow> 'f ble_st \<Rightarrow> 'f ble_st" where
  "maybe_connect_to_bitle env addr name st =
     (if name \<noteq> Some BITLE_DEVICE_NAME then st
      else if addr_denied addr (be_now env) st \<or> already_linked_to addr st then st
      else if \<not> may_dial st then st
      else ble_call_add (Gap_Connect addr) (ble_call_add Gap_Disc_Cancel st))"

section \<open>Events of the host\<close>

definition gap_connect :: "'f ble_env \<Rightarrow> int \<Rightarrow> u16 \<Rightarrow> 'f ble_st \<Rightarrow> 'f ble_st" where
  "gap_connect env status conn st =
     (if status \<noteq> 0 then start_advertising env st
      else case alloc_conn conn st of
             None \<Rightarrow> ble_call_add (Gap_Terminate conn) st
           | Some (i, st1) \<Rightarrow>
               (let st2 = upd_conn i (\<lambda>c. (case be_desc env conn of
                            Some (addr, master) \<Rightarrow> c \<lparr> bc_connected_at_ms := be_now env, bc_peer_addr := addr, bc_is_central := master \<rparr>
                          | None \<Rightarrow> c \<lparr> bc_connected_at_ms := be_now env \<rparr>)) st1
                in start_advertising env
                     (if bc_is_central (bs_connections st2 ! i) then central_start_discovery env conn st2 else st2)))"

definition gap_subscribe :: "'f ble_env \<Rightarrow> u16 \<Rightarrow> bool \<Rightarrow> bool \<Rightarrow> 'f ble_st \<Rightarrow> 'f ble_st" where
  "gap_subscribe env conn cur_notify cur_indicate st =
     (case find_conn conn st of
        None \<Rightarrow> st
      | Some i \<Rightarrow>
          (let was = bc_subscribed (bs_connections st ! i);
               now = cur_notify \<or> cur_indicate;
               st1 = upd_conn i (\<lambda>c. c \<lparr> bc_subscribed := now \<rparr>) st
           in if now \<and> \<not> was then ble_register env conn st1
              else if \<not> now \<and> was then st1 \<lparr> bs_links := bitle_link_unregister conn (bs_links st1) \<rparr>
              else st1))"

definition gap_notify_rx :: "u16 \<Rightarrow> nat \<Rightarrow> bytes option \<Rightarrow> 'f ble_st \<Rightarrow> 'f ble_st" where
  "gap_notify_rx conn pkt_len copied st =
     (if pkt_len = 0 \<or> pkt_len > BITCHAT_BLE_MAX_PACKET_SIZE then st
      else case copied of
             Some buffer \<Rightarrow> if buffer = [] then st else ble_call_add (Mesh_Inbound conn buffer) st
           | None \<Rightarrow> st)"

datatype gap_event =
    Ev_Connect int u16 | Ev_Disconnect u16 | Ev_Disc bytes "bytes option" | Ev_Disc_Complete
  | Ev_Notify_Rx u16 nat "bytes option" | Ev_Subscribe u16 bool bool | Ev_Mtu u16 nat

definition gap_event_cb :: "'f ble_env \<Rightarrow> gap_event \<Rightarrow> 'f ble_st \<Rightarrow> 'f ble_st" where
  "gap_event_cb env ev st =
     (case ev of
        Ev_Connect status conn \<Rightarrow> gap_connect env status conn st
      | Ev_Disconnect conn \<Rightarrow> start_advertising env (drop_conn conn (ble_call_add (Reset_Connection conn) st))
      | Ev_Disc addr name \<Rightarrow> maybe_connect_to_bitle env addr name st
      | Ev_Disc_Complete \<Rightarrow> st
      | Ev_Notify_Rx conn pkt_len copied \<Rightarrow> gap_notify_rx conn pkt_len copied st
      | Ev_Subscribe conn cur_notify cur_indicate \<Rightarrow> gap_subscribe env conn cur_notify cur_indicate st
      | Ev_Mtu conn mtu \<Rightarrow> st)"

text \<open>\<open>infer\<close> is the result of \<open>ble_hs_id_infer_auto\<close>.\<close>

definition on_sync :: "'f ble_env \<Rightarrow> int \<Rightarrow> 'f ble_st \<Rightarrow> 'f ble_st" where
  "on_sync env infer st = (if infer \<noteq> 0 then st else start_advertising env (st \<lparr> bs_host_synced := True \<rparr>))"

section \<open>Polling\<close>

definition maybe_start_scan :: "'f ble_env \<Rightarrow> 'f ble_st \<Rightarrow> 'f ble_st" where
  "maybe_start_scan env st =
     (if \<not> bs_host_synced st \<or> be_now env - bs_last_scan_ms st < BITLE_SCAN_INTERVAL_MS then st
      else if be_disc_active env \<or> be_conn_active env then st
      else if \<not> may_dial st then st
      else ble_call_add Gap_Disc (st \<lparr> bs_last_scan_ms := be_now env \<rparr>))"

definition watch_conn :: "'f ble_env \<Rightarrow> nat \<Rightarrow> 'f ble_st \<Rightarrow> 'f ble_st" where
  "watch_conn env i st =
     (let c = bs_connections st ! i
      in if \<not> bc_in_use c \<or> bc_subscribed c \<or> bc_connected_at_ms c = 0 then st
         else if be_now env - bc_connected_at_ms c > BITLE_SUBSCRIBE_TIMEOUT_MS
         then ble_call_add (Gap_Terminate (bc_conn_handle c)) (upd_conn i (\<lambda>c. c \<lparr> bc_connected_at_ms := be_now env \<rparr>) st)
         else st)"

definition bitchat_ble_poll :: "'f ble_env \<Rightarrow> 'f ble_st \<Rightarrow> 'f ble_st" where
  "bitchat_ble_poll env st = maybe_start_scan env (fold (watch_conn env) [0..<length (bs_connections st)] st)"

definition bitchat_ble_conn_is_central :: "u16 \<Rightarrow> 'f ble_st \<Rightarrow> bool" where
  "bitchat_ble_conn_is_central conn st = (case find_conn conn st of Some i \<Rightarrow> bc_is_central (bs_connections st ! i) | None \<Rightarrow> False)"

definition bitchat_ble_disconnect :: "'f ble_env \<Rightarrow> u16 \<Rightarrow> 'f ble_st \<Rightarrow> 'f ble_st" where
  "bitchat_ble_disconnect env conn st = central_disc_failed env conn st"

text \<open>\<open>port\<close>, \<open>count_cfg\<close> and \<open>add_svcs\<close> are the results of \<open>nimble_port_init\<close>, \<open>ble_gatts_count_cfg\<close> and \<open>ble_gatts_add_svcs\<close>.\<close>

definition bitchat_ble_init :: "int \<Rightarrow> int \<Rightarrow> int \<Rightarrow> int \<Rightarrow> 'f ble_st \<Rightarrow> esp_err \<times> 'f ble_st" where
  "bitchat_ble_init ealready port count_cfg add_svcs st =
     (let st1 = st \<lparr> bs_connections := replicate (length (bs_connections st)) zero_conn \<rparr>
      in (if port \<noteq> 0 \<and> port \<noteq> ealready then ESP_FAIL else if count_cfg \<noteq> 0 then ESP_FAIL else if add_svcs \<noteq> 0 then ESP_FAIL else ESP_OK, st1))"

text \<open>The static state of the file, with \<open>n\<close> connection slots (\<open>CONFIG_BT_NIMBLE_MAX_CONNECTIONS\<close>).\<close>

definition ble_boot :: "nat \<Rightarrow> 'f links \<Rightarrow> 'f ble_st" where
  "ble_boot n ls = \<lparr> bs_connections = replicate n zero_conn, bs_deny = replicate 4 zero_deny, bs_host_synced = False, bs_last_scan_ms = 0,
     bs_links = ls, bs_calls = [] \<rparr>"

section \<open>Registered links are subscribed connections\<close>

text \<open>The links the transport has registered: those of BLE kind.\<close>

definition ble_link :: "u16 \<Rightarrow> 'f links \<Rightarrow> bool" where
  "ble_link h ls \<longleftrightarrow> (case bitle_link_get_capabilities h ls of Some c \<Rightarrow> lc_kind c = BITLE_LINK_BLE | None \<Rightarrow> False)"

definition subscribed_conn :: "u16 \<Rightarrow> ble_conn list \<Rightarrow> bool" where
  "subscribed_conn h cs \<longleftrightarrow> (\<exists>c \<in> set cs. bc_in_use c \<and> bc_conn_handle c = h \<and> bc_subscribed c)"

definition ble_inv :: "'f ble_st \<Rightarrow> bool" where
  "ble_inv st \<longleftrightarrow> link_inv (bs_links st) \<and> slots_uniq bc_in_use bc_conn_handle (bs_connections st) \<and>
     (\<forall>h. ble_link h (bs_links st) \<longrightarrow> subscribed_conn h (bs_connections st))"

named_theorems ble_same

definition same_conns :: "'f ble_st \<Rightarrow> 'f ble_st \<Rightarrow> bool" where
  "same_conns st st' \<longleftrightarrow> bs_connections st' = bs_connections st \<and> bs_links st' = bs_links st"

lemma same_inv: "same_conns st st' \<Longrightarrow> ble_inv st \<Longrightarrow> ble_inv st'"
  by (simp add: same_conns_def ble_inv_def)

lemma same_trans: "same_conns st st1 \<Longrightarrow> same_conns st1 st2 \<Longrightarrow> same_conns st st2"
  by (simp add: same_conns_def)

lemma same_basic [ble_same]:
  "same_conns st st" "same_conns st st' \<Longrightarrow> same_conns st (ble_call_add c st')" "same_conns st st' \<Longrightarrow> same_conns st (deny_addr a t st')"
  "same_conns st st' \<Longrightarrow> same_conns st (st' \<lparr> bs_host_synced := b \<rparr>)" "same_conns st st' \<Longrightarrow> same_conns st (st' \<lparr> bs_last_scan_ms := t \<rparr>)"
  by (simp_all add: same_conns_def ble_call_add_def deny_addr_def Let_def)

lemma start_advertising_same [ble_same]: "same_conns st st' \<Longrightarrow> same_conns st (start_advertising env st')"
  by (auto simp: start_advertising_def Let_def intro: ble_same)

lemma central_disc_failed_same [ble_same]: "same_conns st st' \<Longrightarrow> same_conns st (central_disc_failed env conn st')"
  by (auto simp: central_disc_failed_def Let_def intro: ble_same split: option.split)

lemma try_call_same [ble_same]: "same_conns st st' \<Longrightarrow> same_conns st (try_call env conn c st')"
  by (auto simp: try_call_def intro: ble_same)

lemma central_start_discovery_same [ble_same]: "same_conns st st' \<Longrightarrow> same_conns st (central_start_discovery env conn st')"
  by (auto simp: central_start_discovery_def intro: ble_same)

lemma find_conn_bound: "find_conn h st = Some i \<Longrightarrow> i < length (bs_connections st) \<and> bc_in_use (bs_connections st ! i) \<and> bc_conn_handle (bs_connections st ! i) = h"
  unfolding find_conn_def find_slot_def by (auto dest: find_index_bound find_index_sat)

text \<open>An update of a connection that keeps its slot and does not end its subscription.\<close>

lemma slots_uniq_same_key:
  assumes "slots_uniq used key xs" "used (f (xs ! i)) = used (xs ! i)" "key (f (xs ! i)) = key (xs ! i)"
  shows "slots_uniq used key (xs[i := f (xs ! i)])"
  using assms by (cases "i < length xs") (auto simp: slots_uniq_nth nth_list_update)

lemma subscribed_conn_nth:
  "subscribed_conn h cs \<longleftrightarrow> (\<exists>j < length cs. bc_in_use (cs ! j) \<and> bc_conn_handle (cs ! j) = h \<and> bc_subscribed (cs ! j))"
  unfolding subscribed_conn_def by (metis in_set_conv_nth)

lemma subscribed_conn_upd:
  assumes "subscribed_conn h cs" "bc_in_use (cs ! i) \<Longrightarrow> bc_conn_handle (cs ! i) = h \<Longrightarrow> bc_subscribed (cs ! i) \<Longrightarrow>
      bc_in_use v \<and> bc_conn_handle v = h \<and> bc_subscribed v"
  shows "subscribed_conn h (cs[i := v])"
proof -
  obtain j where j: "j < length cs" "bc_in_use (cs ! j)" "bc_conn_handle (cs ! j) = h" "bc_subscribed (cs ! j)"
    using assms(1) unfolding subscribed_conn_nth by blast
  then have "bc_in_use (cs[i := v] ! j) \<and> bc_conn_handle (cs[i := v] ! j) = h \<and> bc_subscribed (cs[i := v] ! j)"
    using assms(2) by (cases "j = i") auto
  then show ?thesis using j(1) by (auto simp: subscribed_conn_nth)
qed

lemma upd_conn_inv:
  assumes "ble_inv st" "\<And>c. bc_in_use (f c) = bc_in_use c \<and> bc_conn_handle (f c) = bc_conn_handle c \<and> (bc_subscribed c \<longrightarrow> bc_subscribed (f c))"
  shows "ble_inv (upd_conn i f st)"
  using assms by (auto simp: ble_inv_def upd_conn_def intro!: slots_uniq_same_key subscribed_conn_upd)

text \<open>Registering a BLE link adds that handle only; unregistering removes it.\<close>

lemma ble_link_register:
  assumes "link_inv ls" "ble_link h (snd (bitle_link_register conn ty f ls))"
  shows "h = conn \<and> ty = BITLE_LINK_BLE \<or> ble_link h ls"
proof (cases "f = None \<or> conn = BITLE_LINK_NONE")
  case True
  then show ?thesis using assms(2) by (simp add: bitle_link_register_def)
next
  case False
  obtain r ls' where r: "bitle_link_register conn ty f ls = (r, ls')" by fastforce
  with False register_legacy [of ls conn ty "the f" r ls'] assms show ?thesis
    by (auto simp: ble_link_def legacy_caps_def split: if_splits)
qed

lemma ble_link_unregister:
  assumes "link_inv ls" shows "ble_link h (bitle_link_unregister conn ls) \<longleftrightarrow> h \<noteq> conn \<and> ble_link h ls"
  using assms by (auto simp: ble_link_def link_caps_look lt.look_del link_inv_def)

lemma register_link_inv: "link_inv ls \<Longrightarrow> link_inv (snd (bitle_link_register conn ty f ls))"
  by (rule link_step_inv [OF link_step.register [where h = conn and ty = ty and f = f and r = "fst (bitle_link_register conn ty f ls)"]]) simp_all

lemma unregister_link_inv: "link_inv ls \<Longrightarrow> link_inv (bitle_link_unregister conn ls)"
  by (rule link_step_inv [OF link_step.unregister])

lemma ble_register_inv:
  assumes "ble_inv st" "subscribed_conn conn (bs_connections st)"
  shows "ble_inv (ble_register env conn st)"
  using assms ble_link_register [of "bs_links st" _ conn BITLE_LINK_BLE "Some (be_send_cb env)"]
  by (auto simp: ble_inv_def ble_register_def ble_call_add_def register_link_inv)

lemma alloc_conn_inv:
  assumes "ble_inv st" "alloc_conn conn st = Some (i, st')"
  shows "ble_inv st' \<and> i < length (bs_connections st')"
proof (cases "find_conn conn st")
  case (Some j)
  then show ?thesis using assms find_conn_bound [OF Some] by (simp add: alloc_conn_def)
next
  case None
  let ?v = "zero_conn \<lparr> bc_in_use := True, bc_conn_handle := conn \<rparr>"
  from None assms(2) have i: "find_index (\<lambda>c. \<not> bc_in_use c) (bs_connections st) = Some i" "st' = upd_conn i (\<lambda>_. ?v) st"
    by (auto simp: alloc_conn_def split: option.splits)
  have "find_slot_or_free bc_in_use bc_conn_handle (bc_conn_handle ?v) (bs_connections st) = Some i"
    using None i(1) by (simp add: find_slot_or_free_def find_conn_def)
  then have "slots_uniq bc_in_use bc_conn_handle ((bs_connections st)[i := ?v])"
    using assms(1) slots_uniq_put [of bc_in_use bc_conn_handle "bs_connections st" ?v i] by (simp add: ble_inv_def)
  moreover have "\<not> bc_in_use (bs_connections st ! i)" using i(1) by (rule find_index_sat)
  ultimately show ?thesis using assms(1) i find_index_bound [OF i(1)]
    by (auto simp: ble_inv_def upd_conn_def intro: subscribed_conn_upd)
qed

lemma drop_conn_inv:
  assumes "ble_inv st" shows "ble_inv (drop_conn conn st)"
proof (cases "find_conn conn st")
  case (Some i)
  note b = find_conn_bound [OF Some]
  have "slots_uniq bc_in_use bc_conn_handle ((bs_connections st)[i := zero_conn])"
    using assms by (auto simp: ble_inv_def zero_conn_def intro: slots_uniq_clear)
  then show ?thesis using assms Some b
    by (auto simp: ble_inv_def drop_conn_def upd_conn_def unregister_link_inv ble_link_unregister intro: subscribed_conn_upd)
qed (use assms in \<open>simp add: drop_conn_def\<close>)

lemma upd_conn_nth: "i < length (bs_connections st) \<Longrightarrow> bs_connections (upd_conn i f st) ! i = f (bs_connections st ! i)"
  by (simp add: upd_conn_def)

lemma upd_subscribed:
  assumes "find_conn conn st = Some i"
  shows "subscribed_conn conn (bs_connections (upd_conn i (\<lambda>c. c \<lparr> bc_subscribed := True \<rparr>) st))"
  using find_conn_bound [OF assms] unfolding subscribed_conn_nth by (intro exI [of _ i]) (simp add: upd_conn_def)

lemma gap_connect_inv: assumes "ble_inv st" shows "ble_inv (gap_connect env status conn st)"
proof (cases "alloc_conn conn st")
  case None
  then show ?thesis using assms by (auto simp: gap_connect_def intro!: same_inv [OF _ assms] ble_same)
next
  case (Some p)
  obtain i st1 where p: "p = (i, st1)" by fastforce
  let ?f = "\<lambda>c. (case be_desc env conn of
     Some (addr, master) \<Rightarrow> c \<lparr> bc_connected_at_ms := be_now env, bc_peer_addr := addr, bc_is_central := master \<rparr>
   | None \<Rightarrow> c \<lparr> bc_connected_at_ms := be_now env \<rparr>)"
  have "ble_inv st1" using alloc_conn_inv [OF assms] Some p by simp
  then have i2: "ble_inv (upd_conn i ?f st1)" by (rule upd_conn_inv) (auto split: option.split)
  show ?thesis
  proof (cases "status = 0")
    case True
    then show ?thesis using Some p by (auto simp: gap_connect_def Let_def intro!: same_inv [OF _ i2] ble_same)
  next
    case False
    then show ?thesis by (auto simp: gap_connect_def intro!: same_inv [OF _ assms] ble_same)
  qed
qed

lemma gap_subscribe_inv: assumes "ble_inv st" shows "ble_inv (gap_subscribe env conn a b st)"
proof (cases "find_conn conn st")
  case (Some i)
  note b = find_conn_bound [OF Some]
  let ?cs = "bs_connections st"
  show ?thesis
  proof (cases "a \<or> b")
    case True
    then have "ble_inv (upd_conn i (\<lambda>c. c \<lparr> bc_subscribed := True \<rparr>) st)" using assms by (intro upd_conn_inv) auto
    then show ?thesis using True Some ble_register_inv upd_subscribed [OF Some]
      by (auto simp: gap_subscribe_def Let_def)
  next
    case False
    have u: "slots_uniq bc_in_use bc_conn_handle (?cs[i := (?cs ! i) \<lparr> bc_subscribed := False \<rparr>])"
      using assms by (auto simp: ble_inv_def intro!: slots_uniq_same_key)
    have s: "subscribed_conn h (?cs[i := (?cs ! i) \<lparr> bc_subscribed := False \<rparr>])"
      if "subscribed_conn h ?cs" "h \<noteq> conn \<or> \<not> bc_subscribed (?cs ! i)" for h
      using that b by (auto intro: subscribed_conn_upd)
    show ?thesis using False Some assms u s b
      by (auto simp: gap_subscribe_def Let_def ble_inv_def upd_conn_def unregister_link_inv ble_link_unregister)
  qed
qed (use assms in \<open>simp add: gap_subscribe_def\<close>)

lemma central_cccd_inv: "ble_inv st \<Longrightarrow> ble_inv (central_cccd_written env conn status st)"
  using ble_register_inv [OF upd_conn_inv upd_subscribed]
  by (auto simp: central_cccd_written_def intro: same_inv ble_same split: option.split)

lemma central_chr_inv:
  assumes "ble_inv st" shows "ble_inv (snd (central_chr_cb env conn status chr st))"
proof -
  have "ble_inv (upd_conn i (\<lambda>c. c \<lparr> bc_remote_val_handle := h \<rparr>) st)" for i h using assms by (intro upd_conn_inv) auto
  then show ?thesis using assms by (auto simp: central_chr_cb_def intro: same_inv [OF _ assms] ble_same split: option.split)
qed

lemma central_svc_inv:
  assumes "ble_inv st" shows "ble_inv (snd (central_svc_cb env conn status service st))"
proof -
  have i2: "ble_inv (upd_conn i (\<lambda>c. c \<lparr> bc_svc_end_handle := h \<rparr>) st)" for i h using assms by (intro upd_conn_inv) auto
  then have "ble_inv (try_call env conn c (upd_conn i (\<lambda>c. c \<lparr> bc_svc_end_handle := h \<rparr>) st))" for c i h
    using same_inv [OF try_call_same [OF same_basic(1)]] by blast
  then show ?thesis using assms by (auto simp: central_svc_cb_def intro: same_inv [OF _ assms] ble_same split: option.split bool.split)
qed

lemma central_dsc_inv: "ble_inv st \<Longrightarrow> ble_inv (snd (central_dsc_cb env conn status dsc st))"
  by (auto simp: central_dsc_cb_def intro: same_inv ble_same)

lemma watch_conn_inv: assumes "ble_inv st" shows "ble_inv (watch_conn env i st)"
proof -
  have "ble_inv (upd_conn i (\<lambda>c. c \<lparr> bc_connected_at_ms := be_now env \<rparr>) st)" using assms by (intro upd_conn_inv) auto
  then show ?thesis using assms by (auto simp: watch_conn_def Let_def intro: same_inv ble_same)
qed

lemma bitchat_ble_poll_inv: assumes "ble_inv st" shows "ble_inv (bitchat_ble_poll env st)"
proof -
  have "ble_inv (fold (watch_conn env) is st)" for "is" using assms by (induction "is" arbitrary: st) (auto simp: watch_conn_inv)
  then show ?thesis by (auto simp: bitchat_ble_poll_def maybe_start_scan_def intro: same_inv ble_same)
qed

lemma gap_event_inv: assumes "ble_inv st" shows "ble_inv (gap_event_cb env ev st)"
proof -
  have "ble_inv (drop_conn conn (ble_call_add c st))" for conn c
    by (rule drop_conn_inv) (rule same_inv [OF _ assms], intro ble_same)
  then have "ble_inv (start_advertising env (drop_conn conn (ble_call_add c st)))" for conn c
    using same_inv [OF start_advertising_same [OF same_basic(1)]] by blast
  then show ?thesis using assms
    by (cases ev) (auto simp: gap_event_cb_def gap_connect_inv gap_subscribe_inv maybe_connect_to_bitle_def gap_notify_rx_def
        intro: same_inv [OF _ assms] ble_same split: option.split)
qed

lemma link_send_same: "same_conns st (snd (link_send env i data st))"
  by (auto simp: link_send_def Let_def intro: ble_same)

lemma ble_send_same: "same_conns st (snd (bitchat_ble_send env conn data st))" "same_conns st (snd (ble_link_send_cb env conn data st))"
  using link_send_same [of st env _ data]
  by (auto simp: bitchat_ble_send_def ble_link_send_cb_def same_basic(1) case_prod_unfold split: option.split)

section \<open>Steps of the transport\<close>

text \<open>Everything the host and the node call; the label is the GAP event, if the step is one.\<close>

inductive ble_step :: "'f ble_env \<Rightarrow> gap_event option \<Rightarrow> 'f ble_st \<Rightarrow> 'f ble_st \<Rightarrow> bool" for env where
  event: "ble_step env (Some ev) st (gap_event_cb env ev st)"
| cccd: "ble_step env None st (central_cccd_written env conn status st)"
| dsc: "ble_step env None st (snd (central_dsc_cb env conn status d st))"
| chr: "ble_step env None st (snd (central_chr_cb env conn status c st))"
| svc: "ble_step env None st (snd (central_svc_cb env conn status s st))"
| gatt_write: "ble_step env None st (snd (gatt_access_cb env conn w len copied st))"
| sync: "ble_step env None st (on_sync env infer st)"
| poll: "ble_step env None st (bitchat_ble_poll env st)"
| disconnect: "ble_step env None st (bitchat_ble_disconnect env conn st)"
| send: "ble_step env None st (snd (bitchat_ble_send env conn data st))"
| link_send: "ble_step env None st (snd (ble_link_send_cb env conn data st))"

text \<open>The LoRa trunk shares the registry: its links come and go between the steps.\<close>

inductive ble_reach :: "'f ble_st \<Rightarrow> bool" where
  boot: "ble_reach (ble_boot n empty_links)"
| step: "ble_reach st \<Longrightarrow> ble_step env l st st' \<Longrightarrow> ble_reach st'"
| trunk: "ble_reach st \<Longrightarrow> ble_reach (st \<lparr> bs_links := snd (bitle_link_register h BITLE_LINK_LORA f (bs_links st)) \<rparr>)"
| gone: "ble_reach st \<Longrightarrow> ble_reach (st \<lparr> bs_links := bitle_link_unregister h (bs_links st) \<rparr>)"

lemma gatt_access_same: "same_conns st (snd (gatt_access_cb env conn w len copied st))"
  by (auto simp: gatt_access_cb_def intro: ble_same split: option.split)

lemma on_sync_same: "same_conns st (on_sync env infer st)"
  by (auto simp: on_sync_def intro: ble_same)

lemma disconnect_same: "same_conns st (bitchat_ble_disconnect env conn st)"
  by (auto simp: bitchat_ble_disconnect_def intro: ble_same)

lemma maybe_start_scan_same: "same_conns st (maybe_start_scan env st)"
  by (auto simp: maybe_start_scan_def intro: ble_same)

lemma maybe_connect_same: "same_conns st (maybe_connect_to_bitle env addr name st)"
  by (auto simp: maybe_connect_to_bitle_def intro: ble_same)

lemmas ble_keeps = gatt_access_same on_sync_same disconnect_same ble_send_same maybe_start_scan_same maybe_connect_same

lemma ble_step_inv: "ble_step env l st st' \<Longrightarrow> ble_inv st \<Longrightarrow> ble_inv st'"
  by (induction rule: ble_step.induct)
     (auto simp: gap_event_inv central_cccd_inv central_dsc_inv central_chr_inv central_svc_inv bitchat_ble_poll_inv intro: same_inv ble_keeps)

lemma find_locked_empty: "find_locked h empty_links = None"
  by (simp add: find_locked_def find_slot_None empty_links_def zero_entry_def)

lemma ble_boot_inv: "ble_inv (ble_boot n empty_links)"
  by (simp add: ble_inv_def ble_boot_def link_inv_empty slots_uniq_def zero_conn_def ble_link_def bitle_link_get_capabilities_def find_locked_empty)

lemma ble_reach_inv: "ble_reach st \<Longrightarrow> ble_inv st"
proof (induction rule: ble_reach.induct)
  case (trunk st h f)
  then show ?case using ble_link_register [of "bs_links st" _ h BITLE_LINK_LORA f] by (auto simp: ble_inv_def register_link_inv)
next
  case (gone st h)
  then show ?case by (auto simp: ble_inv_def unregister_link_inv ble_link_unregister)
qed (auto simp: ble_boot_inv intro: ble_step_inv)

lemma bitchat_ble_init_boot: "snd (bitchat_ble_init ealready port count_cfg add_svcs (ble_boot n ls)) = ble_boot n ls"
  by (simp add: bitchat_ble_init_def ble_boot_def Let_def)

section \<open>The number of outgoing links\<close>

abbreviation central :: "ble_conn \<Rightarrow> bool" where
  "central c \<equiv> bc_in_use c \<and> bc_is_central c"

lemma count_filter_update:
  "length (filter P (xs[i := v])) \<le> length (filter P xs) + (if P v \<and> \<not> P (xs ! i) then 1 else 0)"
proof (induction xs arbitrary: i)
  case (Cons x xs)
  show ?case
  proof (cases i)
    case (Suc j)
    then show ?thesis using Cons.IH [of j] by (auto split: if_splits)
  qed simp
qed simp

lemma same_count: "same_conns st st' \<Longrightarrow> count_connections b st' = count_connections b st"
  by (simp add: same_conns_def count_connections_def)

lemma upd_count:
  "count_connections True (upd_conn i f st) \<le> count_connections True st +
     (if central (f (bs_connections st ! i)) \<and> \<not> central (bs_connections st ! i) then 1 else 0)"
  using count_filter_update [of central "bs_connections st" i "f (bs_connections st ! i)"] by (simp add: count_connections_def upd_conn_def)

lemma upd_count_keep:
  assumes "\<And>c. central (f c) \<Longrightarrow> central c"
  shows "count_connections True (upd_conn i f st) \<le> count_connections True st"
proof -
  have "\<not> (central (f (bs_connections st ! i)) \<and> \<not> central (bs_connections st ! i))" using assms by blast
  then show ?thesis using upd_count [of i f st] by (simp only: if_False add_0_right)
qed

text \<open>A bound on the outgoing links survives every step that is not a connection.\<close>

definition at_most :: "nat \<Rightarrow> 'f ble_st \<Rightarrow> bool" where
  "at_most n st \<longleftrightarrow> count_connections True st \<le> n"

lemma at_most_same: "same_conns st st' \<Longrightarrow> at_most n st \<Longrightarrow> at_most n st'"
  by (simp add: at_most_def same_count)

lemma at_most_upd:
  assumes "at_most n st" "\<And>c. central (f c) \<Longrightarrow> central c"
  shows "at_most n (upd_conn i f st)"
proof -
  have "count_connections True (upd_conn i f st) \<le> count_connections True st" using assms(2) by (rule upd_count_keep)
  then show ?thesis using assms(1) by (simp add: at_most_def)
qed

lemma at_most_links: "at_most n (st \<lparr> bs_links := ls \<rparr>) \<longleftrightarrow> at_most n st"
  by (simp add: at_most_def count_connections_def)

lemma at_most_register: "at_most n (ble_register env conn st) \<longleftrightarrow> at_most n st"
  by (simp add: at_most_def count_connections_def ble_register_def ble_call_add_def)

lemma at_most_calls: "at_most n (ble_call_add c st) \<longleftrightarrow> at_most n st"
  by (simp add: at_most_def count_connections_def ble_call_add_def)

lemmas at_most_simps = at_most_links at_most_register at_most_calls

lemma at_most_poll: assumes "at_most n st" shows "at_most n (bitchat_ble_poll env st)"
proof -
  have "at_most n (watch_conn env i st)" if "at_most n st" for i and st :: "'a ble_st"
    using that by (auto simp: watch_conn_def Let_def at_most_simps intro: at_most_upd)
  then have "at_most n (fold (watch_conn env) is st)" for "is"
    using assms by (induction "is" arbitrary: st) auto
  then show ?thesis unfolding bitchat_ble_poll_def by (blast intro: at_most_same [OF maybe_start_scan_same])
qed

lemma at_most_step:
  assumes "ble_step env l st st'" "at_most n st" "\<forall>s c. l \<noteq> Some (Ev_Connect s c)"
  shows "at_most n st'"
  using assms
proof (induction rule: ble_step.induct)
  case (event ev st)
  have "at_most n (drop_conn conn (ble_call_add c st))" for conn c
    using event(1) by (auto simp: drop_conn_def at_most_simps zero_conn_def intro!: at_most_upd split: option.split)
  then have "at_most n (start_advertising env (drop_conn conn (ble_call_add c st)))" for conn c
    using at_most_same [OF start_advertising_same [OF same_basic(1)]] by blast
  moreover have "at_most n (gap_subscribe env conn a b st)" for conn a b
    using event(1) by (auto simp: gap_subscribe_def Let_def at_most_simps intro!: at_most_upd split: option.split)
  ultimately show ?case using event
    by (cases ev) (auto simp: gap_event_cb_def gap_notify_rx_def at_most_calls intro: at_most_same [OF maybe_connect_same] split: option.split)
next
  case (cccd st conn status)
  then show ?case by (auto simp: central_cccd_written_def at_most_simps intro: at_most_same ble_same at_most_upd split: option.split)
next
  case (dsc st conn status d)
  then show ?case by (auto simp: central_dsc_cb_def intro: at_most_same ble_same)
next
  case (chr st conn status c)
  then show ?case
    by (auto simp: central_chr_cb_def intro: at_most_same [OF central_disc_failed_same [OF same_basic(1)]]
        at_most_same [OF try_call_same [OF same_basic(1)]] at_most_upd split: option.split)
next
  case (svc st conn status s)
  then show ?case
    by (auto simp: central_svc_cb_def intro: at_most_same [OF central_disc_failed_same [OF same_basic(1)]] at_most_upd
        intro!: at_most_same [OF try_call_same [OF same_basic(1)]] split: option.split bool.split)
qed (auto intro: at_most_same ble_keeps at_most_poll)

lemma alloc_count:
  assumes "alloc_conn conn st = Some (i, st')" shows "count_connections True st' \<le> count_connections True st"
  using assms
  by (auto simp: alloc_conn_def zero_conn_def split: option.splits intro!: upd_count_keep [where f = "\<lambda>_. _"])

lemma gap_connect_count:
  "count_connections True (gap_connect env status conn st) \<le> count_connections True st +
     (if status = 0 \<and> (\<exists>a. be_desc env conn = Some (a, True)) then 1 else 0)"
proof (cases "status = 0")
  case False
  then show ?thesis by (simp add: gap_connect_def same_count [OF start_advertising_same [OF same_basic(1)]])
next
  case True
  show ?thesis
  proof (cases "alloc_conn conn st")
    case None
    then show ?thesis using True by (simp add: gap_connect_def same_count [OF same_basic(2) [OF same_basic(1)]])
  next
    case (Some p)
    obtain i st1 where p: "p = (i, st1)" by fastforce
    let ?f = "\<lambda>c. (case be_desc env conn of
       Some (addr, master) \<Rightarrow> c \<lparr> bc_connected_at_ms := be_now env, bc_peer_addr := addr, bc_is_central := master \<rparr>
     | None \<Rightarrow> c \<lparr> bc_connected_at_ms := be_now env \<rparr>)"
    have "same_conns (upd_conn i ?f st1) (gap_connect env status conn st)"
      using True Some p by (auto simp: gap_connect_def Let_def intro!: ble_same)
    then have "count_connections True (gap_connect env status conn st) = count_connections True (upd_conn i ?f st1)"
      by (rule same_count)
    also have "\<dots> \<le> count_connections True st1 + (if \<exists>a. be_desc env conn = Some (a, True) then 1 else 0)"
      using upd_count [of i ?f st1] by (auto split: option.splits if_splits)
    finally show ?thesis using alloc_count [of conn st i st1] Some p True by simp
  qed
qed

text \<open>
  Whether a dial is under way. The host refuses a second dial while one is (\<open>BLE_HS_EALREADY\<close>) and reports a connection in which
  this node is the central only as the outcome of a dial; any connection event with an error may end it.
\<close>

definition dialled :: "'f ble_env \<Rightarrow> bytes \<Rightarrow> bytes option \<Rightarrow> 'f ble_st \<Rightarrow> bool" where
  "dialled env addr name st \<longleftrightarrow> Gap_Connect addr \<in> set (drop (length (bs_calls st)) (bs_calls (maybe_connect_to_bitle env addr name st))) \<and>
     be_rc env (Gap_Connect addr) = 0"

inductive ble_dial :: "'f ble_st \<Rightarrow> bool \<Rightarrow> bool" where
  boot: "ble_dial (ble_boot n ls) False"
| advert: "ble_dial st p \<Longrightarrow> (p \<longrightarrow> be_rc env (Gap_Connect addr) \<noteq> 0) \<Longrightarrow>
    ble_dial (gap_event_cb env (Ev_Disc addr name) st) (p \<or> dialled env addr name st)"
| central: "ble_dial st True \<Longrightarrow> be_desc env conn = Some (addr, True) \<Longrightarrow> ble_dial (gap_event_cb env (Ev_Connect 0 conn) st) False"
| peripheral: "ble_dial st p \<Longrightarrow> (\<forall>addr. be_desc env conn \<noteq> Some (addr, True)) \<Longrightarrow> ble_dial (gap_event_cb env (Ev_Connect 0 conn) st) p"
| failed: "ble_dial st p \<Longrightarrow> status \<noteq> 0 \<Longrightarrow> (p' \<longrightarrow> p) \<Longrightarrow> ble_dial (gap_event_cb env (Ev_Connect status conn) st) p'"
| other: "ble_dial st p \<Longrightarrow> ble_step env l st st' \<Longrightarrow> (\<forall>s c. l \<noteq> Some (Ev_Connect s c)) \<Longrightarrow> (\<forall>a n. l \<noteq> Some (Ev_Disc a n)) \<Longrightarrow>
    ble_dial st' p"

lemma dialled_room: "dialled env addr name st \<Longrightarrow> may_dial st \<and> \<not> addr_denied addr (be_now env) st \<and> \<not> already_linked_to addr st"
  by (auto simp: dialled_def maybe_connect_to_bitle_def split: if_splits)

lemma ble_dial_bound: "ble_dial st p \<Longrightarrow> count_connections True st + (if p then 1 else 0) \<le> BITLE_CENTRAL_MAX_LINKS"
proof (induction rule: ble_dial.induct)
  case (boot n ls)
  then show ?case by (simp add: count_connections_def ble_boot_def zero_conn_def)
next
  case (advert st p env addr name)
  have "count_connections True st < BITLE_CENTRAL_MAX_LINKS" if "dialled env addr name st"
    using dialled_room [OF that] by (simp add: may_dial_def)
  then show ?case using advert.IH by (auto simp: gap_event_cb_def same_count [OF maybe_connect_same])
next
  case (central st env conn addr)
  then show ?case using gap_connect_count [of env 0 conn st] by (simp add: gap_event_cb_def)
next
  case (peripheral st p env conn)
  then show ?case using gap_connect_count [of env 0 conn st] by (auto simp: gap_event_cb_def split: if_splits)
next
  case (failed st p status p' env conn)
  then show ?case using gap_connect_count [of env status conn st] by (auto simp: gap_event_cb_def split: if_splits)
next
  case (other st p env l st')
  then show ?case using at_most_step [of env l st st' "count_connections True st"] by (auto simp: at_most_def)
qed

section \<open>The redial cooldown\<close>

lemma deny_slot_bound: "best < i + length ds \<Longrightarrow> deny_slot now ds i best until < i + length ds"
  by (induction now ds i best until rule: deny_slot.induct) auto

lemma deny_addr_denies:
  assumes "bs_deny st \<noteq> []" "t < now + BITLE_DENY_TTL_MS"
  shows "addr_denied a t (deny_addr a now st)"
proof -
  let ?i = "deny_slot now (bs_deny st) 0 0 (de_until_ms (bs_deny st ! 0))"
  let ?d = "\<lparr> de_in_use = True, de_addr = a, de_until_ms = now + BITLE_DENY_TTL_MS \<rparr>"
  have "?i < length (bs_deny st)" using assms(1) deny_slot_bound [of 0 0 "bs_deny st"] by simp
  then have "?d \<in> set ((bs_deny st)[?i := ?d])" by (rule set_update_memI)
  then show ?thesis using assms(2) by (force simp: addr_denied_def deny_addr_def Let_def list_ex_iff)
qed

text \<open>A peer whose discovery failed, or that the node disconnected, is not dialled again before the cooldown is over.\<close>

lemma failed_not_dialled:
  assumes "find_conn conn st = Some i" "bs_deny st \<noteq> []" "be_now env' < be_now env + BITLE_DENY_TTL_MS"
  shows "\<not> dialled env' (bc_peer_addr (bs_connections st ! i)) name (central_disc_failed env conn st)"
proof -
  have "addr_denied (bc_peer_addr (bs_connections st ! i)) (be_now env') (central_disc_failed env conn st)"
    using assms deny_addr_denies [OF assms(2,3)]
    by (simp add: central_disc_failed_def ble_call_add_def addr_denied_def Let_def)
  then show ?thesis using dialled_room by blast
qed

section \<open>Properties\<close>

definition demo_env :: "nat ble_env" where
  "demo_env = \<lparr> be_now = 1000, be_rc = (\<lambda>_. 0), be_desc = (\<lambda>h. Some (replicate 7 (ucast h), h = 2)), be_adv_active = False, be_disc_active = False,
     be_conn_active = False, be_mbuf_ok = True, be_inbound_ok = (\<lambda>_ _. True), be_tx_val_handle = 9, be_send_cb = 0, be_EDONE = 14, be_EINVAL = 3,
     be_ENOMEM = 6, be_ENOTCONN = 7, be_att_value_len = 13, be_att_unlikely = 14 \<rparr>"

text \<open>
  C33: every BLE link that the registry lists, in any state the host events, the discovery callbacks, the polls and the sends lead to
  and with the LoRa trunk registering its own links in between, is a connection in use whose peer has subscribed; a frame sent on it
  reaches the link's transmit path and is never refused as not connected.
\<close>

theorem ble_links_subscribed:
  assumes "ble_reach st" "bitle_link_get_capabilities h (bs_links st) = Some c" "lc_kind c = BITLE_LINK_BLE"
  shows "\<exists>i < length (bs_connections st). bc_in_use (bs_connections st ! i) \<and> bc_conn_handle (bs_connections st ! i) = h \<and>
     bc_subscribed (bs_connections st ! i) \<and> ble_link_send_cb env h data st = link_send env i data st"
proof -
  note inv = ble_reach_inv [OF assms(1)]
  then have "subscribed_conn h (bs_connections st)" using assms(2,3) by (simp add: ble_inv_def ble_link_def)
  then obtain i where i: "i < length (bs_connections st)" "bc_in_use (bs_connections st ! i)" "bc_conn_handle (bs_connections st ! i) = h"
    "bc_subscribed (bs_connections st ! i)" unfolding subscribed_conn_nth by blast
  then have "find_conn h st = Some i" using inv by (simp add: find_conn_def ble_inv_def find_slot_Some_uniq)
  then show ?thesis using i by (intro exI [of _ i]) (simp add: ble_link_send_cb_def)
qed

definition demo_subscribed :: "nat ble_st" where
  "demo_subscribed = gap_event_cb demo_env (Ev_Subscribe 1 True False) (gap_event_cb demo_env (Ev_Connect 0 1) (ble_boot 6 empty_links))"

lemma demo_reach: "ble_reach demo_subscribed"
  unfolding demo_subscribed_def by (intro ble_reach.step [OF _ ble_step.event] ble_reach.boot)

theorem ble_links_subscribed_witness:
  "\<exists>i < length (bs_connections demo_subscribed). bc_in_use (bs_connections demo_subscribed ! i) \<and>
     bc_conn_handle (bs_connections demo_subscribed ! i) = 1 \<and> bc_subscribed (bs_connections demo_subscribed ! i) \<and>
     ble_link_send_cb demo_env 1 [1, 2, 3] demo_subscribed = link_send demo_env i [1, 2, 3] demo_subscribed"
  by (rule ble_links_subscribed [OF demo_reach, of 1 "legacy_caps 1 BITLE_LINK_BLE"]) code_simp+

text \<open>
  C35: the node never holds more than \<open>BITLE_CENTRAL_MAX_LINKS\<close> connections as the central, and with a dial under way at most one fewer,
  whatever advertisements, connections, disconnections and discovery results arrive: the check before a dial is enough, because the host
  runs one dial at a time and reports a central connection only as its outcome.
\<close>

theorem ble_central_bound:
  assumes "ble_dial st dialling"
  shows "count_connections True st + (if dialling then 1 else 0) \<le> 2"
  using ble_dial_bound [OF assms] by (simp only: BITLE_CENTRAL_MAX_LINKS_def)

definition demo_dialling :: "nat ble_st" where
  "demo_dialling = gap_event_cb demo_env (Ev_Disc (replicate 7 2) (Some BITLE_DEVICE_NAME)) (ble_boot 6 empty_links)"

lemma demo_dial: "ble_dial (gap_event_cb demo_env (Ev_Connect 0 2) demo_dialling) False"
proof -
  have "dialled demo_env (replicate 7 2) (Some BITLE_DEVICE_NAME) (ble_boot 6 empty_links)" by code_simp
  then have "ble_dial demo_dialling True"
    unfolding demo_dialling_def using ble_dial.advert [OF ble_dial.boot [of 6 empty_links], of demo_env "replicate 7 2" "Some BITLE_DEVICE_NAME"] by simp
  then show ?thesis by (rule ble_dial.central [where addr = "replicate 7 2"]) (simp add: demo_env_def)
qed

theorem ble_central_bound_witness:
  "count_connections True (gap_event_cb demo_env (Ev_Connect 0 2) demo_dialling) = 1 \<and>
   count_connections True (gap_event_cb demo_env (Ev_Connect 0 2) demo_dialling) + (if False then 1 else 0) \<le> 2"
proof
  show "count_connections True (gap_event_cb demo_env (Ev_Connect 0 2) demo_dialling) = 1" by code_simp
qed (rule ble_central_bound [OF demo_dial])

end
