(* ===== verification/Block_Hash.thy ===== *)
theory Block_Hash
  imports Bitle_Prelude
begin

text \<open>
  Hashes that work on blocks: \<open>absorb n f h msg\<close> runs the compression \<open>f\<close> over the full blocks of \<open>n\<close> bytes of a message, and \<open>rest_of\<close> is what is
  left of it. The locale \<open>streaming\<close> is what a client of a streaming hash relies on: a context stands for the message it was fed.
\<close>

definition absorb :: "nat \<Rightarrow> ('h \<Rightarrow> bytes \<Rightarrow> 'h) \<Rightarrow> 'h \<Rightarrow> bytes \<Rightarrow> 'h" where
  "absorb n f h msg = fold (\<lambda>i h. f h (take n (drop (n * i) msg))) [0..<length msg div n] h"

definition rest_of :: "nat \<Rightarrow> bytes \<Rightarrow> bytes" where
  "rest_of n msg = drop (n * (length msg div n)) msg"

lemma length_rest_of: "length (rest_of n msg) = length msg mod n"
  by (simp add: rest_of_def minus_mult_div_eq_mod)

lemma rest_of_less: "0 < n \<Longrightarrow> length (rest_of n msg) < n"
  by (simp add: length_rest_of)

lemma absorb_short: "length msg < n \<Longrightarrow> absorb n f h msg = h"
  by (simp add: absorb_def)

lemma rest_of_short: "length msg < n \<Longrightarrow> rest_of n msg = msg"
  by (simp add: rest_of_def)

lemma rest_of_rest: "0 < n \<Longrightarrow> rest_of n (rest_of n msg) = rest_of n msg"
  by (simp add: rest_of_short rest_of_less)

lemma split_rest: "rest_of n msg @ b = drop (n * (length msg div n)) (msg @ b)"
  by (simp add: rest_of_def)

lemma blocks_append:
  assumes "0 < n"
  shows "length (msg @ b) div n = length msg div n + length (rest_of n msg @ b) div n"
proof -
  have "length (msg @ b) = n * (length msg div n) + length (rest_of n msg @ b)" by (simp add: length_rest_of)
  then show ?thesis using assms by (metis div_mult_self4 less_numeral_extra(3))
qed

text \<open>A message is absorbed piece by piece: its full blocks first, then its rest together with what follows.\<close>

lemma absorb_append:
  assumes "0 < n"
  shows "absorb n f h (msg @ b) = absorb n f (absorb n f h msg) (rest_of n msg @ b)"
proof -
  let ?q = "length msg div n" and ?k = "length (rest_of n msg @ b) div n"
  note q = blocks_append [OF assms, of msg b]
  have u: "[0..<?q + ?k] = [0..<?q] @ map (\<lambda>i. ?q + i) [0..<?k]"
    using upt_add_eq_append [of 0 ?q ?k] map_add_upt [of ?q ?k] by (simp add: add.commute)
  have first: "take n (drop (n * i) (msg @ b)) = take n (drop (n * i) msg)" if "i < ?q" for i
  proof -
    have "n * Suc i \<le> n * ?q" using that by (intro mult_le_mono2) simp
    also have "\<dots> \<le> length msg" by simp
    finally have "n + n * i \<le> length msg" by simp
    then show ?thesis by simp
  qed
  have split: "drop (n * (?q + i)) (msg @ b) = drop (n * i) (rest_of n msg @ b)" for i
    unfolding split_rest by (simp add: algebra_simps)
  have "absorb n f h (msg @ b) = fold (\<lambda>i h. f h (take n (drop (n * (?q + i)) (msg @ b)))) [0..<?k]
      (fold (\<lambda>i h. f h (take n (drop (n * i) (msg @ b)))) [0..<?q] h)"
    unfolding absorb_def q u by (simp add: fold_map comp_def)
  also have "fold (\<lambda>i h. f h (take n (drop (n * i) (msg @ b)))) [0..<?q] h = absorb n f h msg"
    unfolding absorb_def by (intro fold_cong) (simp_all only: first set_upt atLeastLessThan_iff)
  finally show ?thesis by (simp only: split absorb_def)
qed

lemma rest_of_append:
  assumes "0 < n"
  shows "rest_of n (msg @ b) = rest_of n (rest_of n msg @ b)"
proof -
  let ?k = "length (rest_of n msg @ b) div n"
  have "rest_of n (msg @ b) = drop (n * ?k) (drop (n * (length msg div n)) (msg @ b))"
    by (simp only: rest_of_def [of n "msg @ b"] blocks_append [OF assms, of msg b] drop_drop distrib_left add.commute)
  then show ?thesis by (simp only: split_rest [symmetric] rest_of_def [of n "rest_of n msg @ b"])
qed

lemma absorb_block: "0 < n \<Longrightarrow> length x = n \<Longrightarrow> absorb n f h (x @ b) = absorb n f (f h x) b"
  using absorb_append [of n f h x b] by (simp add: absorb_def rest_of_def)

lemma absorb_one: "0 < n \<Longrightarrow> length x = n \<Longrightarrow> absorb n f h x = f h x"
  using absorb_block [of n x f h "[]"] by (simp add: absorb_def)

lemma rest_of_block: "0 < n \<Longrightarrow> length x = n \<Longrightarrow> rest_of n (x @ b) = rest_of n b"
  using rest_of_append [of n x b] by (simp add: rest_of_def)

lemma absorb_nth: "0 < n \<Longrightarrow> n \<le> length msg \<Longrightarrow> absorb n f h msg = absorb n f (f h (take n msg)) (drop n msg)"
  using absorb_block [of n "take n msg" f h "drop n msg"] by simp

lemma absorb_inv: "(\<And>h x. P h \<Longrightarrow> P (f h x)) \<Longrightarrow> P h \<Longrightarrow> P (absorb n f h msg)"
  unfolding absorb_def by (rule fold_invariant [where Q = "\<lambda>_. True"]) auto

lemma absorb_sim:
  assumes "\<And>h a x. R h a \<Longrightarrow> length x = n \<Longrightarrow> R (f h x) (g a x)" "R h a"
  shows "R (absorb n f h msg) (absorb n g a msg)"
proof -
  have "R (fold (\<lambda>i h. f h (take n (drop (n * i) msg))) [0..<k] h) (fold (\<lambda>i a. g a (take n (drop (n * i) msg))) [0..<k] a)"
    if "k \<le> length msg div n" for k
    using that
  proof (induction k)
    case (Suc k)
    have "n * Suc k \<le> n * (length msg div n)" using Suc.prems by (intro mult_le_mono2)
    also have "\<dots> \<le> length msg" by simp
    finally have "length (take n (drop (n * k) msg)) = n" by simp
    then show ?case using Suc by (simp add: assms(1))
  qed (simp add: assms(2))
  then show ?thesis unfolding absorb_def by blast
qed

lemma absorb_full: "0 < n \<Longrightarrow> absorb n f h (take (n * (length msg div n)) msg) = absorb n f h msg"
proof -
  assume n: "0 < n"
  let ?t = "take (n * (length msg div n)) msg"
  have "rest_of n ?t = []" using n by (simp add: rest_of_def min_absorb2)
  moreover have "length (rest_of n msg) < n" using n by (rule rest_of_less)
  moreover have "?t @ rest_of n msg = msg" by (simp add: rest_of_def)
  ultimately show ?thesis using absorb_append [OF n, of f h ?t "rest_of n msg"] by (simp add: absorb_short)
qed

section \<open>Streaming\<close>

primrec updates :: "(bytes \<Rightarrow> 'c \<Rightarrow> 'c option) \<Rightarrow> bytes list \<Rightarrow> 'c \<Rightarrow> 'c option" where
  "updates upd [] c = Some c"
| "updates upd (d # ds) c = Option.bind (upd d c) (updates upd ds)"

lemma updates_total: "updates (\<lambda>d c. Some (u d c)) ds c = Some (fold u ds c)"
  by (induction ds arbitrary: c) simp_all

locale streaming =
  fixes upd :: "bytes \<Rightarrow> 'c \<Rightarrow> 'c option"
    and rep :: "'c \<Rightarrow> bytes \<Rightarrow> bool"
  assumes upd_rep: "rep c msg \<Longrightarrow> \<exists>c'. upd d c = Some c' \<and> rep c' (msg @ d)"
begin

lemma updates_rep: "rep c msg \<Longrightarrow> \<exists>c'. updates upd ds c = Some c' \<and> rep c' (msg @ concat ds)"
proof (induction ds arbitrary: c msg)
  case (Cons d ds)
  obtain c1 where c1: "upd d c = Some c1" "rep c1 (msg @ d)" using upd_rep [OF Cons.prems] by blast
  then show ?case using Cons.IH [OF c1(2)] by simp
qed simp

end

end
