(* ===== verification/Noise_Sha256.thy ===== *)
theory Noise_Sha256
  imports Bitle_Hash Block_Hash
begin

text \<open>
  SHA-256 of the vendored Noise library (\<open>noise_ref/src/crypto/sha2/sha256.c\<close>): the context with its 64-byte buffer, the unrolled
  compression function, and streaming. The loop of \<open>sha256_update\<close> would not end with a full buffer, so it is a partial function; that it
  returns for every context the code builds is part of the results. The reference is the definition of FIPS 180-4: one message, padded,
  compressed block by block with eight shifting registers.
\<close>

section \<open>The code\<close>

record sha256_context =
  sc_h :: "u32 list"
  sc_m :: bytes
  sc_length :: u64
  sc_posn :: nat

definition sha256_init_h :: "u32 list" where
  "sha256_init_h = [0x6A09E667, 0xBB67AE85, 0x3C6EF372, 0xA54FF53A, 0x510E527F, 0x9B05688C, 0x1F83D9AB, 0x5BE0CD19]"

definition sha256_reset :: "sha256_context \<Rightarrow> sha256_context" where
  "sha256_reset c = c \<lparr> sc_h := sha256_init_h, sc_length := 0, sc_posn := 0 \<rparr>"

definition rightRotate :: "u32 \<Rightarrow> nat \<Rightarrow> u32" where
  "rightRotate v n = drop_bit n v OR push_bit (32 - n) v"

definition sha256_k :: "u32 list" where
  "sha256_k =
    [0x428A2F98, 0x71374491, 0xB5C0FBCF, 0xE9B5DBA5, 0x3956C25B, 0x59F111F1, 0x923F82A4, 0xAB1C5ED5,
     0xD807AA98, 0x12835B01, 0x243185BE, 0x550C7DC3, 0x72BE5D74, 0x80DEB1FE, 0x9BDC06A7, 0xC19BF174,
     0xE49B69C1, 0xEFBE4786, 0x0FC19DC6, 0x240CA1CC, 0x2DE92C6F, 0x4A7484AA, 0x5CB0A9DC, 0x76F988DA,
     0x983E5152, 0xA831C66D, 0xB00327C8, 0xBF597FC7, 0xC6E00BF3, 0xD5A79147, 0x06CA6351, 0x14292967,
     0x27B70A85, 0x2E1B2138, 0x4D2C6DFC, 0x53380D13, 0x650A7354, 0x766A0ABB, 0x81C2C92E, 0x92722C85,
     0xA2BFE8A1, 0xA81A664B, 0xC24B8B70, 0xC76C51A3, 0xD192E819, 0xD6990624, 0xF40E3585, 0x106AA070,
     0x19A4C116, 0x1E376C08, 0x2748774C, 0x34B0BCB5, 0x391C0CB3, 0x4ED8AA4A, 0x5B9CCA4F, 0x682E6FF3,
     0x748F82EE, 0x78A5636F, 0x84C87814, 0x8CC70208, 0x90BEFFFA, 0xA4506CEB, 0xBEF9A3F7, 0xC67178F2]"

definition sha256_words :: "bytes \<Rightarrow> u32 list" where
  "sha256_words m = map (\<lambda>i. be_val (bslice (4 * i) 4 m)) [0..<16]"

definition sha256_extend :: "u32 list \<Rightarrow> u32 list" where
  "sha256_extend w0 = fold (\<lambda>index w. w @ [w ! (index - 16) + w ! (index - 7) +
      (rightRotate (w ! (index - 15)) 7 XOR rightRotate (w ! (index - 15)) 18 XOR drop_bit 3 (w ! (index - 15))) +
      (rightRotate (w ! (index - 2)) 17 XOR rightRotate (w ! (index - 2)) 19 XOR drop_bit 10 (w ! (index - 2)))]) [16..<64] w0"

text \<open>
  The rounds do not move the eight registers but rename them: round \<open>n\<close> of the unrolled loop uses the variable
  \<open>(x - n) mod 8\<close> as its \<open>x\<close>-th argument.
\<close>

definition sha256_round :: "u32 list \<Rightarrow> nat \<Rightarrow> u32 list \<Rightarrow> u32 list" where
  "sha256_round w index v =
     (let r = (\<lambda>x. (x + 8 - index mod 8) mod 8);
          a = v ! r 0; b = v ! r 1; c = v ! r 2; d = v ! r 3; e = v ! r 4; f = v ! r 5; g = v ! r 6; h = v ! r 7;
          temp1 = h + sha256_k ! index + w ! index + (rightRotate e 6 XOR rightRotate e 11 XOR rightRotate e 25) +
                  ((e AND f) XOR (NOT e AND g));
          temp2 = (rightRotate a 2 XOR rightRotate a 13 XOR rightRotate a 22) + ((a AND b) XOR (a AND c) XOR (b AND c))
      in v[r 3 := d + temp1, r 7 := temp1 + temp2])"

definition sha256_transform :: "u32 list \<Rightarrow> bytes \<Rightarrow> u32 list" where
  "sha256_transform h m = (let w = sha256_extend (sha256_words m) in map2 (+) h (fold (sha256_round w) [0..<64] h))"

partial_function (option) sha256_update :: "bytes \<Rightarrow> sha256_context \<Rightarrow> sha256_context option" where
  "sha256_update d c =
     (if d = [] then Some c
      else if sc_posn c = 0 \<and> length d \<ge> 64
      then sha256_update (drop 64 d) (c \<lparr> sc_h := sha256_transform (sc_h c) (take 64 d), sc_length := sc_length c + 64 * 8 \<rparr>)
      else let temp = min (64 - sc_posn c) (length d);
               m = take (sc_posn c) (sc_m c) @ take temp d @ drop (sc_posn c + temp) (sc_m c);
               posn = sc_posn c + temp;
               c1 = c \<lparr> sc_m := m, sc_length := sc_length c + word_of_nat (temp * 8) \<rparr>
           in sha256_update (drop temp d)
                (if posn \<ge> 64 then c1 \<lparr> sc_h := sha256_transform (sc_h c) m, sc_posn := 0 \<rparr> else c1 \<lparr> sc_posn := posn \<rparr>))"

declare sha256_update.simps [code]

definition write_be32 :: "u32 \<Rightarrow> bytes" where
  "write_be32 v = [ucast (drop_bit 24 v), ucast (drop_bit 16 v), ucast (drop_bit 8 v), ucast v]"

definition sha256_finish :: "sha256_context \<Rightarrow> bytes \<times> sha256_context" where
  "sha256_finish c =
     (let posn = sc_posn c;
          (m, h) = (if posn \<le> 64 - 9
                    then (take posn (sc_m c) @ 0x80 # replicate (64 - 8 - (posn + 1)) 0, sc_h c)
                    else (replicate (64 - 8) 0, sha256_transform (sc_h c) (take posn (sc_m c) @ 0x80 # replicate (64 - (posn + 1)) 0)));
          m1 = m @ write_be32 (ucast (drop_bit 32 (sc_length c))) @ write_be32 (ucast (sc_length c));
          h1 = sha256_transform h m1
      in (concat (map write_be32 h1), c \<lparr> sc_h := h1, sc_m := m1, sc_posn := 0 \<rparr>))"

section \<open>The standard\<close>

text \<open>The message schedule, the compression with shifting registers, the padding and the digest of FIPS 180-4.\<close>

fun fips_w :: "bytes \<Rightarrow> nat \<Rightarrow> u32" where
  "fips_w m t = (if t < 16 then be_val (bslice (4 * t) 4 m)
     else fips_w m (t - 16) + fips_w m (t - 7) +
       (rightRotate (fips_w m (t - 15)) 7 XOR rightRotate (fips_w m (t - 15)) 18 XOR drop_bit 3 (fips_w m (t - 15))) +
       (rightRotate (fips_w m (t - 2)) 17 XOR rightRotate (fips_w m (t - 2)) 19 XOR drop_bit 10 (fips_w m (t - 2))))"

declare fips_w.simps [simp del]

type_synonym regs = "u32 \<times> u32 \<times> u32 \<times> u32 \<times> u32 \<times> u32 \<times> u32 \<times> u32"

definition fips_step :: "(nat \<Rightarrow> u32) \<Rightarrow> nat \<Rightarrow> regs \<Rightarrow> regs" where
  "fips_step w t = (\<lambda>(a, b, c, d, e, f, g, h).
     let t1 = h + sha256_k ! t + w t + (rightRotate e 6 XOR rightRotate e 11 XOR rightRotate e 25) + ((e AND f) XOR (NOT e AND g));
         t2 = (rightRotate a 2 XOR rightRotate a 13 XOR rightRotate a 22) + ((a AND b) XOR (a AND c) XOR (b AND c))
     in (t1 + t2, a, b, c, d + t1, e, f, g))"

definition fips_compress :: "u32 list \<Rightarrow> bytes \<Rightarrow> u32 list" where
  "fips_compress hs m =
     (case fold (fips_step (fips_w m)) [0..<64] (hs ! 0, hs ! 1, hs ! 2, hs ! 3, hs ! 4, hs ! 5, hs ! 6, hs ! 7) of
        (a, b, c, d, e, f, g, h) \<Rightarrow> map2 (+) hs [a, b, c, d, e, f, g, h])"

definition fips_pad :: "bytes \<Rightarrow> bytes" where
  "fips_pad msg = msg @ 0x80 # replicate ((119 - length msg mod 64) mod 64) 0 @ be_enc 8 (word_of_nat (8 * length msg) :: u64)"

definition fips_sha256 :: "bytes \<Rightarrow> bytes" where
  "fips_sha256 msg = concat (map (be_enc 4) (absorb 64 fips_compress sha256_init_h (fips_pad msg)))"

section \<open>The compression function\<close>

lemma sha256_extend_prefix:
  "n \<le> 48 \<Longrightarrow> fold (\<lambda>index w. w @ [w ! (index - 16) + w ! (index - 7) +
      (rightRotate (w ! (index - 15)) 7 XOR rightRotate (w ! (index - 15)) 18 XOR drop_bit 3 (w ! (index - 15))) +
      (rightRotate (w ! (index - 2)) 17 XOR rightRotate (w ! (index - 2)) 19 XOR drop_bit 10 (w ! (index - 2)))]) [16..<16 + n]
    (sha256_words m) = map (fips_w m) [0..<16 + n]"
proof (induction n)
  case 0
  then show ?case by (simp add: sha256_words_def fips_w.simps)
next
  case (Suc n)
  let ?w = "map (fips_w m) [0..<16 + n]"
  have n: "?w ! (16 + n - 16) = fips_w m (16 + n - 16)" "?w ! (16 + n - 7) = fips_w m (16 + n - 7)"
    "?w ! (16 + n - 15) = fips_w m (16 + n - 15)" "?w ! (16 + n - 2) = fips_w m (16 + n - 2)"
    by (subst nth_map, simp, simp)+
  have "[16..<16 + Suc n] = [16..<16 + n] @ [16 + n]" "[0..<16 + Suc n] = [0..<16 + n] @ [16 + n]"
    by (simp_all only: add_Suc_right upt_Suc_append le_add1 le0)
  then show ?case using Suc fips_w.simps [of m "16 + n"] by (simp only: fold_append comp_def list.map fold_simps n map_append) simp
qed

lemma sha256_extend_fips: "t < 64 \<Longrightarrow> sha256_extend (sha256_words m) ! t = fips_w m t"
proof -
  assume t: "t < 64"
  have e: "(16 :: nat) + 48 = 64" by simp
  have "sha256_extend (sha256_words m) = map (fips_w m) [0..<64]"
    unfolding sha256_extend_def by (rule sha256_extend_prefix [of 48 m, unfolded e]) simp
  then show ?thesis using t by (simp only: nth_map length_upt nth_upt diff_zero add_0)
qed

definition reg :: "nat \<Rightarrow> nat \<Rightarrow> nat" where
  "reg n x = (x + 8 - n mod 8) mod 8"

definition regs_of :: "nat \<Rightarrow> u32 list \<Rightarrow> regs" where
  "regs_of n v = (v ! reg n 0, v ! reg n 1, v ! reg n 2, v ! reg n 3, v ! reg n 4, v ! reg n 5, v ! reg n 6, v ! reg n 7)"

lemma length_8: "length v = 8 \<Longrightarrow> v = [v ! 0, v ! 1, v ! 2, v ! 3, v ! 4, v ! 5, v ! 6, v ! 7]"
  by (rule nth_equalityI) (auto simp: less_Suc_eq numeral_eq_Suc)

lemma mod_8_cases: "n mod 8 \<in> {0, 1, 2, 3, 4, 5, 6, 7 :: nat}"
  by auto

lemma sha256_round_step:
  assumes "length v = 8" "w' ! n = w n"
  shows "regs_of (Suc n) (sha256_round w' n v) = fips_step w n (regs_of n v)"
proof -
  have "Suc n mod 8 = Suc (n mod 8) mod 8" by (simp add: mod_Suc_eq)
  then show ?thesis using mod_8_cases [of n] assms
    by (auto simp: regs_of_def reg_def sha256_round_def fips_step_def Let_def)
qed

lemma length_sha256_round [simp]: "length (sha256_round w n v) = length v"
  by (simp add: sha256_round_def Let_def)

lemma length_fold_round [simp]: "length (fold (sha256_round w) is v) = length v"
  by (induction "is" arbitrary: v) simp_all

lemma sha256_rounds:
  assumes "length v = 8"
  shows "n \<le> 64 \<Longrightarrow> regs_of n (fold (sha256_round (sha256_extend (sha256_words m))) [0..<n] v) =
    fold (fips_step (fips_w m)) [0..<n] (regs_of 0 v)"
proof (induction n)
  case (Suc n)
  then show ?case using assms
    sha256_round_step [of "fold (sha256_round (sha256_extend (sha256_words m))) [0..<n] v" "sha256_extend (sha256_words m)" n "fips_w m"]
    by (simp add: sha256_extend_fips)
qed simp

lemma sha256_transform_fips:
  assumes "length h = 8" shows "sha256_transform h m = fips_compress h m"
proof -
  define v where "v = fold (sha256_round (sha256_extend (sha256_words m))) [0..<64] h"
  have l: "length v = 8" using assms by (simp only: v_def length_fold_round)
  have "regs_of 64 v = fold (fips_step (fips_w m)) [0..<64] (regs_of 0 h)"
    unfolding v_def by (rule sha256_rounds [OF assms]) simp
  then have "fold (fips_step (fips_w m)) [0..<64] (h ! 0, h ! 1, h ! 2, h ! 3, h ! 4, h ! 5, h ! 6, h ! 7) =
      (v ! 0, v ! 1, v ! 2, v ! 3, v ! 4, v ! 5, v ! 6, v ! 7)"
    by (simp only: regs_of_def reg_def) simp
  then have "fips_compress h m = map2 (+) h v"
    unfolding fips_compress_def using length_8 [OF l] by (simp only: prod.case)
  then show ?thesis by (simp only: sha256_transform_def Let_def v_def)
qed

lemma length_fips_compress: "length h = 8 \<Longrightarrow> length (fips_compress h m) = 8"
  by (simp add: fips_compress_def split: prod.split)

lemma length_absorb [simp]: "length (absorb 64 fips_compress sha256_init_h msg) = 8"
  by (rule absorb_inv [where P = "\<lambda>h. length h = 8"]) (simp_all add: length_fips_compress sha256_init_h_def)

section \<open>Streaming\<close>

text \<open>A context stands for the message fed since the reset.\<close>

definition sha256_rep :: "sha256_context \<Rightarrow> bytes \<Rightarrow> bool" where
  "sha256_rep c msg \<longleftrightarrow> length (sc_m c) = 64 \<and> sc_h c = absorb 64 fips_compress sha256_init_h msg \<and>
     sc_posn c = length msg mod 64 \<and> take (sc_posn c) (sc_m c) = rest_of 64 msg \<and> sc_length c = word_of_nat (8 * length msg)"

lemma sha256_rep_reset: "length (sc_m c) = 64 \<Longrightarrow> sha256_rep (sha256_reset c) []"
  by (simp add: sha256_rep_def sha256_reset_def absorb_def rest_of_def sha256_init_h_def)

lemma sha256_rep_block:
  assumes "sha256_rep c msg" "sc_posn c = 0" "length d = 64"
  shows "sha256_rep (c \<lparr> sc_h := sha256_transform (sc_h c) d, sc_length := sc_length c + 64 * 8 \<rparr>) (msg @ d)"
proof -
  have r: "rest_of 64 msg = []" using assms(1,2) by (simp add: sha256_rep_def)
  have "absorb 64 fips_compress sha256_init_h (msg @ d) = fips_compress (sc_h c) d"
    using assms r absorb_one [of 64 d fips_compress "sc_h c"] by (simp add: absorb_append sha256_rep_def)
  moreover have "rest_of 64 (msg @ d) = []" using assms(3) r by (simp add: rest_of_append) (simp add: rest_of_def)
  moreover have "length msg mod 64 = 0" using assms(1,2) by (simp add: sha256_rep_def)
  ultimately show ?thesis using assms
    by (simp add: sha256_rep_def sha256_transform_fips mod_add_left_eq [of "length msg", symmetric])
qed

lemma sha256_rep_part:
  assumes "sha256_rep c msg" "length d \<le> 64 - sc_posn c"
  defines "m \<equiv> take (sc_posn c) (sc_m c) @ d @ drop (sc_posn c + length d) (sc_m c)"
  defines "c1 \<equiv> c \<lparr> sc_m := m, sc_length := sc_length c + word_of_nat (length d * 8) \<rparr>"
  shows "sha256_rep (if sc_posn c + length d \<ge> 64 then c1 \<lparr> sc_h := sha256_transform (sc_h c) m, sc_posn := 0 \<rparr>
     else c1 \<lparr> sc_posn := sc_posn c + length d \<rparr>) (msg @ d)"
proof -
  have p: "sc_posn c = length msg mod 64" "sc_posn c < 64" "length (sc_m c) = 64" using assms(1) by (auto simp: sha256_rep_def)
  have r: "take (sc_posn c) (sc_m c) = rest_of 64 msg" using assms(1) unfolding sha256_rep_def by blast
  have h: "sc_h c = absorb 64 fips_compress sha256_init_h msg" using assms(1) by (simp add: sha256_rep_def)
  have lr: "length (rest_of 64 msg) = sc_posn c" using p by (simp add: length_rest_of)
  have lm: "length m = 64" using p assms(2) by (simp add: m_def)
  have len: "sc_length c1 = word_of_nat (8 * length (msg @ d))" using assms(1) by (simp add: c1_def sha256_rep_def)
  have cl: "length (msg @ d) mod 64 = (sc_posn c + length d) mod 64" by (simp add: p(1) mod_add_left_eq)
  have ab: "absorb 64 fips_compress sha256_init_h (msg @ d) = absorb 64 fips_compress (sc_h c) (rest_of 64 msg @ d)"
    unfolding h by (rule absorb_append) simp
  have re: "rest_of 64 (msg @ d) = rest_of 64 (rest_of 64 msg @ d)" by (rule rest_of_append) simp
  show ?thesis
  proof (cases "sc_posn c + length d \<ge> 64")
    case True
    then have e: "length (rest_of 64 msg @ d) = 64" "sc_posn c + length d = 64" using lr assms(2) p(2) by simp_all
    have m: "m = rest_of 64 msg @ d" using e p(3) by (simp add: m_def r)
    have "sha256_transform (sc_h c) m = absorb 64 fips_compress sha256_init_h (msg @ d)"
      unfolding ab m using e(1) by (simp add: absorb_one sha256_transform_fips h)
    moreover have "rest_of 64 (msg @ d) = []" unfolding re using e(1) by (simp add: rest_of_def)
    moreover have "length (msg @ d) mod 64 = 0" unfolding cl e(2) by simp
    ultimately show ?thesis using True lm len by (simp add: sha256_rep_def c1_def)
  next
    case False
    then have s: "length (rest_of 64 msg @ d) < 64" using lr by simp
    have "sc_h c = absorb 64 fips_compress sha256_init_h (msg @ d)" unfolding ab using s by (rule absorb_short [symmetric])
    moreover have "take (sc_posn c + length d) m = rest_of 64 (msg @ d)" unfolding re rest_of_short [OF s] using lr by (simp add: m_def r)
    moreover have "length (msg @ d) mod 64 = sc_posn c + length d" unfolding cl using False by simp
    ultimately show ?thesis using False lm len by (simp add: sha256_rep_def c1_def)
  qed
qed

lemma sha256_update_rep: "sha256_rep c msg \<Longrightarrow> \<exists>c'. sha256_update d c = Some c' \<and> sha256_rep c' (msg @ d)"
proof (induction "length d" arbitrary: d c msg rule: less_induct)
  case less
  show ?case
  proof (cases "d = []")
    case True
    then show ?thesis using less.prems by (subst sha256_update.simps) simp
  next
    case ne: False
    show ?thesis
    proof (cases "sc_posn c = 0 \<and> length d \<ge> 64")
      case True
      let ?c = "c \<lparr> sc_h := sha256_transform (sc_h c) (take 64 d), sc_length := sc_length c + 64 * 8 \<rparr>"
      have "sha256_rep ?c (msg @ take 64 d)" using less.prems True by (intro sha256_rep_block) auto
      from less.hyps [OF _ this, of "drop 64 d"] True ne show ?thesis
        by (subst sha256_update.simps) simp
    next
      case False
      define temp where "temp = min (64 - sc_posn c) (length d)"
      have "sc_posn c < 64" using less.prems by (simp add: sha256_rep_def)
      then have t: "0 < temp" "temp \<le> length d" "length (take temp d) = temp" "temp \<le> 64 - sc_posn c" using ne by (simp_all add: temp_def)
      note rep = sha256_rep_part [OF less.prems, of "take temp d", unfolded t(3), OF t(4)]
      have e: "sha256_update d c = sha256_update (drop temp d)
         (let m = take (sc_posn c) (sc_m c) @ take temp d @ drop (sc_posn c + temp) (sc_m c);
              c1 = c \<lparr> sc_m := m, sc_length := sc_length c + word_of_nat (temp * 8) \<rparr>
          in if sc_posn c + temp \<ge> 64 then c1 \<lparr> sc_h := sha256_transform (sc_h c) m, sc_posn := 0 \<rparr> else c1 \<lparr> sc_posn := sc_posn c + temp \<rparr>)"
        by (subst sha256_update.simps) (simp only: ne False if_False Let_def temp_def)
      have "length (drop temp d) < length d" using t ne by simp
      from less.hyps [OF this rep] show ?thesis unfolding e Let_def by (simp only: append_assoc append_take_drop_id)
    qed
  qed
qed

interpretation sha: streaming sha256_update sha256_rep
  by unfold_locales (rule sha256_update_rep)

section \<open>The digest\<close>

lemma write_be32_enc: "write_be32 v = be_enc 4 v"
  by (simp add: write_be32_def be_enc_def upt_rec)

lemma write_be64_enc: "write_be32 (ucast (drop_bit 32 (l :: u64))) @ write_be32 (ucast l) = be_enc 8 l"
proof -
  have "(ucast (drop_bit n (ucast x :: u32)) :: u8) = ucast (drop_bit n x)" if "n \<le> 24" for n and x :: u64
    using that by (intro bit_eqI) (auto simp: bit_simps)
  from this [of 8 "drop_bit 32 l"] this [of 16 "drop_bit 32 l"] this [of 24 "drop_bit 32 l"] this [of 0 "drop_bit 32 l"]
    this [of 8 l] this [of 16 l] this [of 24 l] this [of 0 l]
  show ?thesis by (simp add: write_be32_def be_enc_def upt_rec)
qed

lemma sha256_finish_digest:
  assumes "sha256_rep c msg" shows "fst (sha256_finish c) = fips_sha256 msg"
proof -
  let ?p = "sc_posn c" and ?r = "rest_of 64 msg" and ?l = "be_enc 8 (sc_length c)"
  have p: "?p = length msg mod 64" "?p < 64" using assms by (auto simp: sha256_rep_def)
  have r: "take ?p (sc_m c) = ?r" and len: "sc_length c = word_of_nat (8 * length msg)" and h: "sc_h c = absorb 64 fips_compress sha256_init_h msg"
    using assms unfolding sha256_rep_def by blast+
  have lr: "length ?r = ?p" using p by (simp add: length_rest_of)
  define z where "z = (119 - ?p) mod 64"
  have pad: "absorb 64 fips_compress sha256_init_h (fips_pad msg) = absorb 64 fips_compress (sc_h c) (?r @ 0x80 # replicate z 0 @ ?l)"
    unfolding fips_pad_def len h z_def p(1) by (rule absorb_append) simp
  have "fst (sha256_finish c) = concat (map (be_enc 4) (absorb 64 fips_compress (sc_h c) (?r @ 0x80 # replicate z 0 @ ?l)))"
  proof (cases "?p \<le> 55")
    case True
    have "z = 64 - 8 - (?p + 1)" using True by (auto simp: z_def mod_if)
    then show ?thesis using True lr
      by (simp add: sha256_finish_def Let_def r write_be32_enc [abs_def] write_be64_enc [unfolded write_be32_enc] sha256_transform_fips h absorb_one)
  next
    case False
    have z: "z = (64 - (?p + 1)) + 56" using False p(2) by (auto simp: z_def mod_if)
    let ?b = "?r @ 0x80 # replicate (64 - (?p + 1)) 0"
    have "?r @ 0x80 # replicate z 0 @ ?l = ?b @ replicate 56 0 @ ?l" unfolding z by (simp add: replicate_add)
    moreover have "length ?b = 64" using False lr p(2) by simp
    ultimately have "absorb 64 fips_compress (sc_h c) (?r @ 0x80 # replicate z 0 @ ?l) =
        absorb 64 fips_compress (fips_compress (sc_h c) ?b) (replicate 56 0 @ ?l)"
      by (simp only: absorb_block)
    then show ?thesis using False
      by (simp add: sha256_finish_def Let_def r write_be32_enc [abs_def] write_be64_enc [unfolded write_be32_enc] sha256_transform_fips h absorb_one length_fips_compress)
  qed
  then show ?thesis by (simp only: fips_sha256_def pad)
qed

text \<open>
  C24: the streaming SHA-256 of the Noise library is the one of FIPS 180-4: after a reset, whatever the buffer held, feeding a message in any pieces,
  empty ones included, always returns, and the digest is that of the whole message: padded with its length in bits modulo two to the 64, compressed
  block by block with shifting registers. The code renames the registers in an unrolled loop, buffers partial blocks, compresses full ones in place and
  pads in its buffer, in one block or two.
\<close>

theorem sha256_is_fips:
  assumes "length (sc_m c) = 64"
  shows "\<exists>c'. updates sha256_update pieces (sha256_reset c) = Some c' \<and> fst (sha256_finish c') = fips_sha256 (concat pieces)"
  using sha.updates_rep [OF sha256_rep_reset [OF assms], of pieces] sha256_finish_digest by auto

definition dirty_context :: sha256_context where
  "dirty_context = \<lparr> sc_h = [], sc_m = replicate 64 0x55, sc_length = 7, sc_posn = 9 \<rparr>"

theorem sha256_is_fips_witness:
  "\<exists>c'. updates sha256_update [[0x61], [], [0x62, 0x63]] (sha256_reset dirty_context) = Some c' \<and>
     fst (sha256_finish c') = fips_sha256 [0x61, 0x62, 0x63]"
  using sha256_is_fips [of dirty_context "[[0x61], [], [0x62, 0x63]]"] by (simp add: dirty_context_def)

section \<open>A known answer\<close>

lemma abc_block: "sha256_transform sha256_init_h ([0x61, 0x62, 0x63, 0x80] @ replicate 59 0 @ [24]) =
  [0xba7816bf, 0x8f01cfea, 0x414140de, 0x5dae2223, 0xb00361a3, 0x96177a9c, 0xb410ff61, 0xf20015ad]"
  by code_simp

text \<open>The code computes the first known answer of \<open>bitle_hash_init\<close>, the example of the standard.\<close>

lemma sha256_abc: "fips_sha256 (ascii ''abc'') = sha_kat"
proof -
  have "fips_pad (ascii ''abc'') = [0x61, 0x62, 0x63, 0x80] @ replicate 59 0 @ [24]" by code_simp
  then have "absorb 64 fips_compress sha256_init_h (fips_pad (ascii ''abc'')) =
      sha256_transform sha256_init_h ([0x61, 0x62, 0x63, 0x80] @ replicate 59 0 @ [24])"
    by (simp add: absorb_one sha256_transform_fips sha256_init_h_def)
  then have "fips_sha256 (ascii ''abc'') = concat (map (be_enc 4)
      [0xba7816bf, 0x8f01cfea, 0x414140de, 0x5dae2223, 0xb00361a3, 0x96177a9c, 0xb410ff61, 0xf20015ad :: u32])"
    by (simp only: fips_sha256_def abc_block)
  also have "\<dots> = sha_kat" by code_simp
  finally show ?thesis .
qed

section \<open>The hash of the library\<close>

text \<open>The three functions of \<open>hash-sha256.c\<close> on a state that \<open>noise_sha256_new\<close> allocated, one after the other.\<close>

definition noise_sha256_new :: sha256_context where
  "noise_sha256_new = \<lparr> sc_h = replicate 8 0, sc_m = replicate 64 0, sc_length = 0, sc_posn = 0 \<rparr>"

definition noise_sha256 :: "bytes \<Rightarrow> bytes option" where
  "noise_sha256 d = map_option (\<lambda>c. fst (sha256_finish c)) (sha256_update d (sha256_reset noise_sha256_new))"

lemma noise_sha256_fips: "noise_sha256 d = Some (fips_sha256 d)"
  using sha256_update_rep [OF sha256_rep_reset, of noise_sha256_new d]
  by (auto simp: noise_sha256_def noise_sha256_new_def sha256_finish_digest)

lemma length_fips_sha256 [simp]: "length (fips_sha256 d) = 32"
proof -
  have "length (concat (map (be_enc 4) ws)) = 4 * length ws" for ws :: "u32 list" by (induction ws) auto
  then show ?thesis by (simp add: fips_sha256_def)
qed

end
