(* ===== verification/Noise_Chacha.thy ===== *)
theory Noise_Chacha
  imports Noise_Cipher Block_Hash
begin

text \<open>
  The ChaCha20 stream cipher of the vendored Noise library (\<open>noise_ref/src/crypto/chacha/chacha.c\<close>, the portable variant), with the little-endian
  loads and stores its other primitives share. Encrypting twice with the same context gives the message back.
\<close>

section \<open>ChaCha20\<close>

definition fromLittle :: "bytes \<Rightarrow> u32" where
  "fromLittle p = ucast (p ! 0) OR push_bit 8 (ucast (p ! 1)) OR push_bit 16 (ucast (p ! 2)) OR push_bit 24 (ucast (p ! 3))"

definition toLittle :: "u32 \<Rightarrow> bytes" where
  "toLittle v = [ucast v, ucast (drop_bit 8 v), ucast (drop_bit 16 v), ucast (drop_bit 24 v)]"

definition leftRotate :: "u32 \<Rightarrow> nat \<Rightarrow> u32" where
  "leftRotate x n = push_bit n x OR drop_bit (32 - n) x"

definition quarterRound :: "nat \<Rightarrow> nat \<Rightarrow> nat \<Rightarrow> nat \<Rightarrow> u32 list \<Rightarrow> u32 list" where
  "quarterRound i j k l x =
     (let a = x ! i; b = x ! j; c = x ! k; d = x ! l;
          a = a + b; d = leftRotate (d XOR a) 16;
          c = c + d; b = leftRotate (b XOR c) 12;
          a = a + b; d = leftRotate (d XOR a) 8;
          c = c + d; b = leftRotate (b XOR c) 7
      in x[i := a, j := b, k := c, l := d])"

type_synonym chacha_ctx = "u32 list"

definition tag128 :: bytes where "tag128 = map (\<lambda>c. word_of_nat (of_char c)) ''expand 16-byte k''"
definition tag256 :: bytes where "tag256 = map (\<lambda>c. word_of_nat (of_char c)) ''expand 32-byte k''"

definition words_le :: "nat \<Rightarrow> bytes \<Rightarrow> u32 list" where
  "words_le n bs = map (\<lambda>i. fromLittle (drop (4 * i) bs)) [0..<n]"

definition chacha_keysetup :: "bytes \<Rightarrow> nat \<Rightarrow> chacha_ctx" where
  "chacha_keysetup k kbits =
     (if kbits = 256 then words_le 4 tag256 @ words_le 8 k else words_le 4 tag128 @ words_le 4 k @ words_le 4 k) @ replicate 4 0"

definition chacha_ivsetup :: "bytes \<Rightarrow> bytes option \<Rightarrow> chacha_ctx \<Rightarrow> chacha_ctx" where
  "chacha_ivsetup iv counter x =
     x[12 := (case counter of Some c \<Rightarrow> fromLittle c | None \<Rightarrow> 0),
       13 := (case counter of Some c \<Rightarrow> fromLittle (drop 4 c) | None \<Rightarrow> 0),
       14 := fromLittle iv, 15 := fromLittle (drop 4 iv)]"

definition double_round :: "u32 list \<Rightarrow> u32 list" where
  "double_round x =
     (let x = quarterRound 0 4 8 12 x; x = quarterRound 1 5 9 13 x; x = quarterRound 2 6 10 14 x; x = quarterRound 3 7 11 15 x;
          x = quarterRound 0 5 10 15 x; x = quarterRound 1 6 11 12 x; x = quarterRound 2 7 8 13 x; x = quarterRound 3 4 9 14 x
      in x)"

definition chacha_block :: "chacha_ctx \<Rightarrow> u32 list" where
  "chacha_block x = map2 (+) ((double_round ^^ 10) x) x"

definition chacha_next :: "chacha_ctx \<Rightarrow> chacha_ctx" where
  "chacha_next x = (let c = x ! 12 + 1; x = x[12 := c] in if c = 0 then x[13 := x ! 13 + 1] else x)"

text \<open>
  A message shorter than a block is copied to a buffer whose rest is not initialised; those bytes are not copied out. Here they are zero.
\<close>

definition chacha_xor :: "u32 list \<Rightarrow> bytes \<Rightarrow> bytes" where
  "chacha_xor out m = concat (map (\<lambda>i. toLittle (out ! i XOR fromLittle (drop (4 * i) m))) [0..<16])"

function chacha_encrypt_bytes :: "chacha_ctx \<Rightarrow> bytes \<Rightarrow> bytes \<times> chacha_ctx" where
  "chacha_encrypt_bytes x m =
     (if m = [] then ([], x)
      else let out = chacha_block x; x' = chacha_next x
           in if length m < 64 then (take (length m) (chacha_xor out (m @ replicate (64 - length m) 0)), x')
              else case chacha_encrypt_bytes x' (drop 64 m) of (c, x'') \<Rightarrow> (chacha_xor out (take 64 m) @ c, x''))"
  by pat_completeness auto
termination by (relation "measure (\<lambda>(x, m). length m)") auto

declare chacha_encrypt_bytes.simps [simp del]

section \<open>Decryption\<close>

lemma from_little_byte:
  "ucast (fromLittle p) = p ! 0" "ucast (drop_bit 8 (fromLittle p)) = p ! 1" "ucast (drop_bit 16 (fromLittle p)) = p ! 2" "ucast (drop_bit 24 (fromLittle p)) = p ! 3"
  by (rule bit_eqI; auto simp: fromLittle_def bit_simps dest: bit_imp_le_length)+

lemma to_little_xor: "toLittle (x XOR y) = map2 (XOR) (toLittle x) (toLittle y)"
  by (simp add: toLittle_def drop_bit_xor unsigned_xor_eq)

lemma to_from_little: "toLittle (fromLittle p) = [p ! 0, p ! 1, p ! 2, p ! 3]"
  by (simp add: toLittle_def from_little_byte)

lemma length_toLittle [simp]: "length (toLittle v) = 4"
  by (simp add: toLittle_def)

lemma from_to_little: "fromLittle (toLittle v) = v"
proof (rule bit_word_eqI)
  fix n assume "n < LENGTH(32)"
  then consider "n < 8" | "8 \<le> n" "n < 16" | "16 \<le> n" "n < 24" | "24 \<le> n" "n < 32" by fastforce
  then show "bit (fromLittle (toLittle v)) n = bit v n"
    by cases (auto simp: fromLittle_def toLittle_def bit_simps)
qed

lemma nth_concat_4:
  "(\<And>i. length (f i) = 4) \<Longrightarrow> j < 4 * n \<Longrightarrow> concat (map f [0..<n]) ! j = f (j div 4) ! (j mod 4)"
proof (induction n)
  case (Suc n)
  have l: "length (concat (map f [0..<n])) = 4 * n" using Suc.prems(1) by (simp add: length_concat comp_def sum_list_triv)
  show ?case
  proof (cases "j < 4 * n")
    case True
    then show ?thesis using Suc l by (simp add: nth_append)
  next
    case False
    then obtain r where "j = 4 * n + r" "r < 4" using Suc.prems(2) by (metis add_less_cancel_left le_Suc_ex mult_Suc_right not_less add.commute)
    then show ?thesis using l by (simp add: nth_append)
  qed
qed simp

definition keystream :: "u32 list \<Rightarrow> bytes" where
  "keystream out = concat (map (\<lambda>i. toLittle (out ! i)) [0..<16])"

lemma length_keystream [simp]: "length (keystream out) = 64"
  by (simp add: keystream_def length_concat comp_def sum_list_triv)

lemma length_chacha_xor [simp]: "length (chacha_xor out m) = 64"
  by (simp add: chacha_xor_def length_concat comp_def sum_list_triv)

lemma chacha_xor_stream:
  assumes "length m = 64" shows "chacha_xor out m = map2 (XOR) (keystream out) m"
proof (rule nth_equalityI)
  fix j assume "j < length (chacha_xor out m)"
  then have j: "j < 64" by simp
  have m: "toLittle (fromLittle (drop (4 * (j div 4)) m)) ! (j mod 4) = m ! j"
  proof -
    define q r where "q = j div 4" and "r = j mod 4"
    then have e: "j = 4 * q + r" and "r < 4" by simp_all
    then have "r \<in> {0, 1, 2, 3}" by auto
    then have "[m ! (4 * q), m ! (4 * q + 1), m ! (4 * q + 2), m ! (4 * q + 3)] ! r = m ! (4 * q + r)" by auto
    moreover have "4 * q + 3 < 64" using e j \<open>r < 4\<close> by presburger
    ultimately show ?thesis using assms \<open>r < 4\<close> by (simp add: to_from_little nth_drop e)
  qed
  have "chacha_xor out m ! j = toLittle (out ! (j div 4) XOR fromLittle (drop (4 * (j div 4)) m)) ! (j mod 4)"
    unfolding chacha_xor_def using j by (intro nth_concat_4) simp_all
  also have "\<dots> = toLittle (out ! (j div 4)) ! (j mod 4) XOR m ! j" by (simp add: to_little_xor m)
  also have "toLittle (out ! (j div 4)) ! (j mod 4) = keystream out ! j"
    unfolding keystream_def using j by (intro nth_concat_4 [symmetric]) simp_all
  finally show "chacha_xor out m ! j = map2 (XOR) (keystream out) m ! j" using j assms by simp
qed (use assms in simp)

text \<open>The whole key stream: a message is combined with it byte by byte, a short last block with its beginning.\<close>

lemma take_map2: "take n (map2 f xs ys) = map2 f (take n xs) (take n ys)"
  by (simp add: take_map take_zip)

lemma zip_take: "zip (take (length ys) xs) ys = zip xs ys"
proof (induction ys arbitrary: xs)
  case (Cons y ys)
  then show ?case by (cases xs) simp_all
qed simp

lemma chacha_partial:
  assumes "length m < 64"
  shows "take (length m) (chacha_xor out (m @ replicate (64 - length m) 0)) = map2 (XOR) (keystream out) m"
  using assms by (simp add: chacha_xor_stream take_map2 zip_take)

function chacha_stream :: "chacha_ctx \<Rightarrow> nat \<Rightarrow> bytes \<times> chacha_ctx" where
  "chacha_stream x n =
     (if n = 0 then ([], x)
      else if n < 64 then (take n (keystream (chacha_block x)), chacha_next x)
      else case chacha_stream (chacha_next x) (n - 64) of (ks, x') \<Rightarrow> (keystream (chacha_block x) @ ks, x'))"
  by pat_completeness auto
termination by (relation "measure (\<lambda>(x, n). n)") auto

declare chacha_stream.simps [simp del]

lemma chacha_encrypt_stream:
  "chacha_encrypt_bytes x m = (map2 (XOR) (fst (chacha_stream x (length m))) m, snd (chacha_stream x (length m)))"
proof (induction x m rule: chacha_encrypt_bytes.induct)
  case (1 x m)
  show ?case
  proof (cases "m = [] \<or> length m < 64")
    case True
    then show ?thesis
      by (subst chacha_encrypt_bytes.simps, subst chacha_stream.simps, subst (2) chacha_stream.simps)
         (auto simp: chacha_partial Let_def zip_take)
  next
    case False
    note IH = 1(1) [OF _ refl refl]
    have "map2 (XOR) (ks @ k2) m = map2 (XOR) ks (take 64 m) @ map2 (XOR) k2 (drop 64 m)" if "length ks = 64" for ks k2 :: bytes
      using that False zip_append [of ks "take 64 m" k2 "drop 64 m"] by simp
    then show ?thesis using False IH
      by (subst chacha_encrypt_bytes.simps, subst chacha_stream.simps, subst (2) chacha_stream.simps)
         (auto simp: chacha_xor_stream Let_def split: prod.split)
  qed
qed

lemma length_chacha_stream: "length (fst (chacha_stream x n)) = n"
proof (induction x n rule: chacha_stream.induct)
  case (1 x n)
  then show ?case by (subst chacha_stream.simps) (auto split: prod.split)
qed

lemma xor_twice: "length ks = length m \<Longrightarrow> map2 (XOR) ks (map2 (XOR) ks m) = (m :: bytes)"
  by (rule nth_equalityI) (simp_all add: xor.assoc [symmetric])

lemma length_chacha_encrypt [simp]: "length (fst (chacha_encrypt_bytes x m)) = length m"
  by (simp add: chacha_encrypt_stream length_chacha_stream)

lemma chacha_involution: "chacha_encrypt_bytes x (fst (chacha_encrypt_bytes x m)) = (m, snd (chacha_encrypt_bytes x m))"
  by (simp add: chacha_encrypt_stream length_chacha_stream xor_twice)

end
