(* ===== verification/Noise_Poly1305.thy ===== *)
theory Noise_Poly1305
  imports Noise_Chacha
begin

text \<open>
  The Poly1305 authenticator of the vendored Noise library (\<open>noise_ref/src/crypto/donna/poly1305-donna.c\<close> with the 26-bit limbs of
  \<open>poly1305-donna-32.h\<close>, the variant of 32-bit targets): buffering, the block function in 64-bit arithmetic, and the final reduction.
  Its tags are those of RFC 8439.
\<close>

section \<open>The code\<close>

record poly1305 =
  po_r :: "u32 list"
  po_h :: "u32 list"
  po_pad :: "u32 list"
  po_leftover :: nat
  po_buffer :: bytes
  po_final :: bool

definition poly1305_init :: "bytes \<Rightarrow> bytes \<Rightarrow> poly1305" where
  "poly1305_init buffer key = \<lparr>
     po_r = [fromLittle key AND 0x3ffffff, drop_bit 2 (fromLittle (drop 3 key)) AND 0x3ffff03, drop_bit 4 (fromLittle (drop 6 key)) AND 0x3ffc0ff,
             drop_bit 6 (fromLittle (drop 9 key)) AND 0x3f03fff, drop_bit 8 (fromLittle (drop 12 key)) AND 0x00fffff],
     po_h = replicate 5 0,
     po_pad = [fromLittle (drop 16 key), fromLittle (drop 20 key), fromLittle (drop 24 key), fromLittle (drop 28 key)],
     po_leftover = 0, po_buffer = buffer, po_final = False \<rparr>"

text \<open>One block: add it, multiply by \<open>r\<close> in 64-bit arithmetic, carry back to limbs of 26 bits.\<close>

definition poly1305_add :: "u32 \<Rightarrow> u32 list \<Rightarrow> bytes \<Rightarrow> u32 list" where
  "poly1305_add hibit h m =
     [h ! 0 + (fromLittle m AND 0x3ffffff),
      h ! 1 + (drop_bit 2 (fromLittle (drop 3 m)) AND 0x3ffffff),
      h ! 2 + (drop_bit 4 (fromLittle (drop 6 m)) AND 0x3ffffff),
      h ! 3 + (drop_bit 6 (fromLittle (drop 9 m)) AND 0x3ffffff),
      h ! 4 + (drop_bit 8 (fromLittle (drop 12 m)) OR hibit)]"

definition mul64 :: "u32 \<Rightarrow> u32 \<Rightarrow> u64" where
  "mul64 x y = ucast x * ucast y"

definition poly1305_mul :: "u32 list \<Rightarrow> u32 list \<Rightarrow> u64 list" where
  "poly1305_mul r h =
     (let r0 = r ! 0; r1 = r ! 1; r2 = r ! 2; r3 = r ! 3; r4 = r ! 4;
          s1 = r1 * 5; s2 = r2 * 5; s3 = r3 * 5; s4 = r4 * 5;
          h0 = h ! 0; h1 = h ! 1; h2 = h ! 2; h3 = h ! 3; h4 = h ! 4
      in [mul64 h0 r0 + mul64 h1 s4 + mul64 h2 s3 + mul64 h3 s2 + mul64 h4 s1,
          mul64 h0 r1 + mul64 h1 r0 + mul64 h2 s4 + mul64 h3 s3 + mul64 h4 s2,
          mul64 h0 r2 + mul64 h1 r1 + mul64 h2 r0 + mul64 h3 s4 + mul64 h4 s3,
          mul64 h0 r3 + mul64 h1 r2 + mul64 h2 r1 + mul64 h3 r0 + mul64 h4 s4,
          mul64 h0 r4 + mul64 h1 r3 + mul64 h2 r2 + mul64 h3 r1 + mul64 h4 r0])"

definition poly1305_partial :: "u64 list \<Rightarrow> u32 list" where
  "poly1305_partial d =
     (let d0 = d ! 0; c = ucast (drop_bit 26 d0) :: u32; h0 = ucast d0 AND 0x3ffffff;
          d1 = d ! 1 + ucast c; c = ucast (drop_bit 26 d1) :: u32; h1 = ucast d1 AND 0x3ffffff;
          d2 = d ! 2 + ucast c; c = ucast (drop_bit 26 d2) :: u32; h2 = ucast d2 AND 0x3ffffff;
          d3 = d ! 3 + ucast c; c = ucast (drop_bit 26 d3) :: u32; h3 = ucast d3 AND 0x3ffffff;
          d4 = d ! 4 + ucast c; c = ucast (drop_bit 26 d4) :: u32; h4 = ucast d4 AND 0x3ffffff;
          h0 = h0 + c * 5; c = drop_bit 26 h0; h0 = h0 AND 0x3ffffff;
          h1 = h1 + c
      in [h0, h1, h2, h3, h4])"

definition poly1305_block :: "u32 \<Rightarrow> u32 list \<Rightarrow> u32 list \<Rightarrow> bytes \<Rightarrow> u32 list" where
  "poly1305_block hibit r h m = poly1305_partial (poly1305_mul r (poly1305_add hibit h m))"

definition poly1305_hibit :: "bool \<Rightarrow> u32" where
  "poly1305_hibit final = (if final then 0 else push_bit 24 1)"

fun poly1305_blocks :: "poly1305 \<Rightarrow> bytes \<Rightarrow> poly1305" where
  "poly1305_blocks st m =
     (if length m < 16 then st
      else poly1305_blocks (st \<lparr> po_h := poly1305_block (poly1305_hibit (po_final st)) (po_r st) (po_h st) (take 16 m) \<rparr>) (drop 16 m))"

declare poly1305_blocks.simps [simp del]

definition buffer_put :: "nat \<Rightarrow> bytes \<Rightarrow> bytes \<Rightarrow> bytes" where
  "buffer_put i bs buffer = take i buffer @ bs @ drop (i + length bs) buffer"

definition poly1305_tail :: "poly1305 \<Rightarrow> bytes \<Rightarrow> poly1305" where
  "poly1305_tail st m =
     (let want = length m - length m mod 16;
          st1 = (if length m \<ge> 16 then poly1305_blocks st (take want m) else st);
          m1 = (if length m \<ge> 16 then drop want m else m)
      in if m1 \<noteq> [] then st1 \<lparr> po_buffer := buffer_put (po_leftover st1) m1 (po_buffer st1), po_leftover := po_leftover st1 + length m1 \<rparr> else st1)"

definition poly1305_update :: "bytes \<Rightarrow> poly1305 \<Rightarrow> poly1305" where
  "poly1305_update m st =
     (if po_leftover st \<noteq> 0
      then let want = min (16 - po_leftover st) (length m);
               st1 = st \<lparr> po_buffer := buffer_put (po_leftover st) (take want m) (po_buffer st), po_leftover := po_leftover st + want \<rparr>
           in if po_leftover st1 < 16 then st1
              else poly1305_tail ((poly1305_blocks st1 (po_buffer st1)) \<lparr> po_leftover := 0 \<rparr>) (drop want m)
      else poly1305_tail st m)"

text \<open>The end of \<open>poly1305_finish\<close>: carry, subtract the prime if possible without a branch, pack into 32-bit words, add the pad.\<close>

definition poly1305_carry :: "u32 list \<Rightarrow> u32 list" where
  "poly1305_carry h =
     (let h0 = h ! 0; h1 = h ! 1; h2 = h ! 2; h3 = h ! 3; h4 = h ! 4;
          c = drop_bit 26 h1; h1 = h1 AND 0x3ffffff;
          h2 = h2 + c; c = drop_bit 26 h2; h2 = h2 AND 0x3ffffff;
          h3 = h3 + c; c = drop_bit 26 h3; h3 = h3 AND 0x3ffffff;
          h4 = h4 + c; c = drop_bit 26 h4; h4 = h4 AND 0x3ffffff;
          h0 = h0 + c * 5; c = drop_bit 26 h0; h0 = h0 AND 0x3ffffff;
          h1 = h1 + c
      in [h0, h1, h2, h3, h4])"

definition poly1305_minus_p :: "u32 list \<Rightarrow> u32 list" where
  "poly1305_minus_p h =
     (let g0 = h ! 0 + 5; c = drop_bit 26 g0; g0 = g0 AND 0x3ffffff;
          g1 = h ! 1 + c; c = drop_bit 26 g1; g1 = g1 AND 0x3ffffff;
          g2 = h ! 2 + c; c = drop_bit 26 g2; g2 = g2 AND 0x3ffffff;
          g3 = h ! 3 + c; c = drop_bit 26 g3; g3 = g3 AND 0x3ffffff;
          g4 = h ! 4 + c - push_bit 26 1
      in [g0, g1, g2, g3, g4])"

definition poly1305_select :: "u32 list \<Rightarrow> u32 list \<Rightarrow> u32 list" where
  "poly1305_select h g = (let mask = drop_bit 31 (g ! 4) - 1 in map2 (\<lambda>x y. (x AND NOT mask) OR (y AND mask)) h g)"

definition poly1305_pack :: "u32 list \<Rightarrow> u32 list" where
  "poly1305_pack h =
     [h ! 0 OR push_bit 26 (h ! 1), drop_bit 6 (h ! 1) OR push_bit 20 (h ! 2),
      drop_bit 12 (h ! 2) OR push_bit 14 (h ! 3), drop_bit 18 (h ! 3) OR push_bit 8 (h ! 4)]"

definition poly1305_add_pad :: "u32 list \<Rightarrow> u32 list \<Rightarrow> u32 list" where
  "poly1305_add_pad h pad =
     (let f = (ucast (h ! 0) :: u64) + ucast (pad ! 0); h0 = ucast f;
          f = ucast (h ! 1) + ucast (pad ! 1) + drop_bit 32 f; h1 = ucast f;
          f = ucast (h ! 2) + ucast (pad ! 2) + drop_bit 32 f; h2 = ucast f;
          f = ucast (h ! 3) + ucast (pad ! 3) + drop_bit 32 f; h3 = ucast f
      in [h0, h1, h2, h3])"

definition poly1305_emit :: "u32 list \<Rightarrow> u32 list \<Rightarrow> bytes" where
  "poly1305_emit h pad =
     (let h = poly1305_carry h; h = poly1305_select h (poly1305_minus_p h)
      in concat (map toLittle (poly1305_add_pad (poly1305_pack h) pad)))"

definition poly1305_finish :: "poly1305 \<Rightarrow> bytes \<times> poly1305" where
  "poly1305_finish st =
     (let st1 = (if po_leftover st \<noteq> 0
                 then let buffer = take (po_leftover st) (po_buffer st) @ 1 # replicate (16 - (po_leftover st + 1)) 0
                      in poly1305_blocks (st \<lparr> po_buffer := buffer, po_final := True \<rparr>) buffer
                 else st)
      in (poly1305_emit (po_h st1) (po_pad st1), st1 \<lparr> po_h := replicate 5 0, po_r := replicate 5 0, po_pad := replicate 4 0 \<rparr>))"

definition poly1305_auth :: "bytes \<Rightarrow> bytes \<Rightarrow> bytes \<Rightarrow> bytes" where
  "poly1305_auth buffer m key = fst (poly1305_finish (poly1305_update m (poly1305_init buffer key)))"

section \<open>The standard\<close>

text \<open>Poly1305 of RFC 8439, on natural numbers.\<close>

fun le_val :: "bytes \<Rightarrow> nat" where
  "le_val [] = 0"
| "le_val (b # bs) = unat b + 256 * le_val bs"

definition P1305 :: nat where "P1305 = 2 ^ 130 - 5"

definition rfc_clamp :: "bytes \<Rightarrow> bytes" where
  "rfc_clamp k = map (\<lambda>i. if i \<in> {3, 7, 11, 15} then k ! i AND 15 else if i \<in> {4, 8, 12} then k ! i AND 252 else k ! i) [0..<16]"

definition rfc_step :: "nat \<Rightarrow> nat \<Rightarrow> bytes \<Rightarrow> nat" where
  "rfc_step r acc block = (acc + le_val (block @ [1])) * r mod P1305"

definition rfc_poly1305 :: "bytes \<Rightarrow> bytes \<Rightarrow> nat" where
  "rfc_poly1305 key msg =
     (let r = le_val (rfc_clamp key);
          s = le_val (bslice 16 16 key);
          acc = absorb 16 (rfc_step r) 0 msg;
          acc = (if rest_of 16 msg = [] then acc else rfc_step r acc (rest_of 16 msg))
      in (acc + s) mod 2 ^ 128)"

section \<open>Words as numbers\<close>

lemma unat_low26: "unat (x AND 0x3ffffff :: u32) = unat x mod 2 ^ 26"
proof -
  have "x AND 0x3ffffff = take_bit 26 x" by (simp add: take_bit_eq_mask mask_eq_decr_exp)
  then have "unat (x AND 0x3ffffff) = take_bit 26 (unat x)" by (simp only: unsigned_take_bit_eq)
  then show ?thesis by (simp only: take_bit_eq_mod)
qed

lemma unat_drop: "unat (drop_bit n (x :: 'a::len word)) = unat x div 2 ^ n"
proof -
  have "unat (drop_bit n x) = drop_bit n (unat x)" by (rule bit_eqI) (auto simp: bit_simps dest: bit_imp_le_length)
  then show ?thesis by (simp only: drop_bit_eq_div)
qed

lemma unat_widen: "unat (ucast (x :: u32) :: u64) = unat x"
  by (rule unat_ucast_up) simp

lemma unat_mul: "unat ((ucast (x :: u32) :: u64) * ucast y) = unat x * unat (y :: u32)"
proof -
  have "unat x < 2 ^ 32" "unat y < 2 ^ 32" using unsigned_less [of x] unsigned_less [of y] by simp_all
  then have "unat x * unat y < 2 ^ 32 * 2 ^ 32" by (intro mult_strict_mono) auto
  then show ?thesis by (simp add: unat_word_ariths unat_widen)
qed

lemma unat_add64: "unat x + unat y < 2 ^ 64 \<Longrightarrow> unat (x + y :: u64) = unat x + unat y"
  by (simp add: unat_word_ariths)

lemma unat_add32: "unat x + unat y < 2 ^ 32 \<Longrightarrow> unat (x + y :: u32) = unat x + unat y"
  by (simp add: unat_word_ariths)

lemma unat_mul5: "unat x * 5 < 2 ^ 32 \<Longrightarrow> unat (x * 5 :: u32) = unat x * 5"
  by (simp add: unat_word_ariths)

lemma unat_trunc: "unat (ucast (x :: u64) :: u32) = unat x mod 2 ^ 32"
  by (simp add: unsigned_ucast_eq take_bit_eq_mod)

text \<open>The arithmetic of one block, on numbers.\<close>

lemma mod_P:
  fixes x y k :: nat
  assumes "x + P1305 * k = y" shows "x mod P1305 = y mod P1305"
  using assms by (metis mod_mult_self2)

lemma P1305_num: "P1305 + 5 = 2 ^ 130"
  by (simp add: P1305_def)

lemma carry_sum:
  fixes d0 d1 d2 d3 d4 :: nat
  assumes "d0 = a0 + 2 ^ 26 * c0" "d1 + c0 = a1 + 2 ^ 26 * c1" "d2 + c1 = a2 + 2 ^ 26 * c2" "d3 + c2 = a3 + 2 ^ 26 * c3" "d4 + c3 = a4 + 2 ^ 26 * c4"
    "b0 + 2 ^ 26 * c5 = a0 + c4 * 5"
  shows "b0 + 2 ^ 26 * (a1 + c5) + 2 ^ 52 * a2 + 2 ^ 78 * a3 + 2 ^ 104 * a4 + P1305 * c4 = d0 + 2 ^ 26 * d1 + 2 ^ 52 * d2 + 2 ^ 78 * d3 + 2 ^ 104 * d4"
proof -
  have p: "P1305 * c4 + 5 * c4 = 2 ^ 130 * c4" using P1305_num by (metis distrib_right)
  have n: "(2 :: nat) ^ 52 = 2 ^ 26 * 2 ^ 26" "(2 :: nat) ^ 78 = 2 ^ 52 * 2 ^ 26" "(2 :: nat) ^ 104 = 2 ^ 78 * 2 ^ 26" "(2 :: nat) ^ 130 = 2 ^ 104 * 2 ^ 26"
    by simp_all
  define q where "q = P1305 * c4"
  show ?thesis using assms p unfolding q_def [symmetric] by simp
qed

lemma carry_mod:
  fixes d0 d1 d2 d3 d4 :: nat
  defines "c0 \<equiv> d0 div 2 ^ 26"
  defines "c1 \<equiv> (d1 + c0) div 2 ^ 26"
  defines "c2 \<equiv> (d2 + c1) div 2 ^ 26"
  defines "c3 \<equiv> (d3 + c2) div 2 ^ 26"
  defines "c4 \<equiv> (d4 + c3) div 2 ^ 26"
  defines "e \<equiv> d0 mod 2 ^ 26 + c4 * 5"
  shows "(e mod 2 ^ 26 + 2 ^ 26 * ((d1 + c0) mod 2 ^ 26 + e div 2 ^ 26) + 2 ^ 52 * ((d2 + c1) mod 2 ^ 26) + 2 ^ 78 * ((d3 + c2) mod 2 ^ 26) +
      2 ^ 104 * ((d4 + c3) mod 2 ^ 26)) mod P1305 = (d0 + 2 ^ 26 * d1 + 2 ^ 52 * d2 + 2 ^ 78 * d3 + 2 ^ 104 * d4) mod P1305"
proof (rule mod_P [of _ c4])
  have 0: "d0 = d0 mod 2 ^ 26 + 2 ^ 26 * c0" by (simp add: c0_def)
  have 1: "d1 + c0 = (d1 + c0) mod 2 ^ 26 + 2 ^ 26 * c1" by (simp add: c1_def)
  have 2: "d2 + c1 = (d2 + c1) mod 2 ^ 26 + 2 ^ 26 * c2" by (simp add: c2_def)
  have 3: "d3 + c2 = (d3 + c2) mod 2 ^ 26 + 2 ^ 26 * c3" by (simp add: c3_def)
  have 4: "d4 + c3 = (d4 + c3) mod 2 ^ 26 + 2 ^ 26 * c4" by (simp add: c4_def)
  have 5: "e mod 2 ^ 26 + 2 ^ 26 * (e div 2 ^ 26) = d0 mod 2 ^ 26 + c4 * 5" by (simp add: e_def)
  show "e mod 2 ^ 26 + 2 ^ 26 * ((d1 + c0) mod 2 ^ 26 + e div 2 ^ 26) + 2 ^ 52 * ((d2 + c1) mod 2 ^ 26) + 2 ^ 78 * ((d3 + c2) mod 2 ^ 26) +
      2 ^ 104 * ((d4 + c3) mod 2 ^ 26) + P1305 * c4 = d0 + 2 ^ 26 * d1 + 2 ^ 52 * d2 + 2 ^ 78 * d3 + 2 ^ 104 * d4"
    by (rule carry_sum [OF 0 1 2 3 4 5])
qed

lemma product_mod:
  fixes h0 h1 h2 h3 h4 r0 r1 r2 r3 r4 :: nat
  shows "((h0 * r0 + h1 * (r4 * 5) + h2 * (r3 * 5) + h3 * (r2 * 5) + h4 * (r1 * 5)) +
     2 ^ 26 * (h0 * r1 + h1 * r0 + h2 * (r4 * 5) + h3 * (r3 * 5) + h4 * (r2 * 5)) +
     2 ^ 52 * (h0 * r2 + h1 * r1 + h2 * r0 + h3 * (r4 * 5) + h4 * (r3 * 5)) +
     2 ^ 78 * (h0 * r3 + h1 * r2 + h2 * r1 + h3 * r0 + h4 * (r4 * 5)) +
     2 ^ 104 * (h0 * r4 + h1 * r3 + h2 * r2 + h3 * r1 + h4 * r0)) mod P1305 =
   (h0 + 2 ^ 26 * h1 + 2 ^ 52 * h2 + 2 ^ 78 * h3 + 2 ^ 104 * h4) * (r0 + 2 ^ 26 * r1 + 2 ^ 52 * r2 + 2 ^ 78 * r3 + 2 ^ 104 * r4) mod P1305"
  by (rule mod_P [of _ "(h1 * r4 + h2 * r3 + h3 * r2 + h4 * r1) + 2 ^ 26 * (h2 * r4 + h3 * r3 + h4 * r2) + 2 ^ 52 * (h3 * r4 + h4 * r3) + 2 ^ 78 * (h4 * r4)"])
     (simp add: P1305_def algebra_simps)

lemma unat_or_push:
  assumes "unat (x :: u32) < 2 ^ n" "n < 32"
  shows "unat (x OR push_bit n y) = unat x + 2 ^ n * (unat y mod 2 ^ (32 - n))"
proof -
  have lo: "\<not> bit x k" if "n \<le> k" for k
  proof -
    have "take_bit n (unat x) = unat x" using assms(1) by (simp add: take_bit_nat_eq_self_iff)
    then have "\<not> bit (unat x) k" using that by (metis bit_take_bit_iff not_le)
    then show ?thesis by (simp add: bit_simps)
  qed
  have "x AND push_bit n y = 0" by (rule bit_eqI) (auto simp: bit_simps lo)
  then have "x OR push_bit n y = x + push_bit n y" by (simp add: disjunctive_add_eq_or)
  moreover have p: "unat (push_bit n y) = 2 ^ n * (unat y mod 2 ^ (32 - n))"
  proof -
    have "unat (push_bit n y) = take_bit 32 (push_bit n (unat y))" by (rule bit_eqI) (auto simp: bit_simps dest: bit_imp_le_length)
    also have "\<dots> = unat y * 2 ^ n mod 2 ^ 32" by (simp only: take_bit_eq_mod push_bit_eq_mult)
    also have "\<dots> = 2 ^ n * (unat y mod 2 ^ (32 - n))" using assms(2) by (simp add: mult.commute mult_mod_right flip: power_add)
    finally show ?thesis .
  qed
  moreover have "unat x + 2 ^ n * (unat y mod 2 ^ (32 - n)) < 2 ^ 32"
  proof -
    have "unat y mod 2 ^ (32 - n) < 2 ^ (32 - n)" by simp
    then have "Suc (unat y mod 2 ^ (32 - n)) \<le> 2 ^ (32 - n)" by (rule Suc_leI)
    then have "2 ^ n * Suc (unat y mod 2 ^ (32 - n)) \<le> 2 ^ n * 2 ^ (32 - n)" by (rule mult_le_mono2)
    also have "\<dots> = (2 :: nat) ^ 32" using assms(2) by (simp flip: power_add)
    finally show ?thesis using assms(1) by simp
  qed
  ultimately show ?thesis by (simp add: unat_add32)
qed

lemma unat_byte: "unat (b :: u8) < 2 ^ 8" "unat (ucast b :: u32) = unat b"
  using unsigned_less [of b] by (simp_all add: unat_ucast_up)

lemma unat_fromLittle: "unat (fromLittle p) = unat (p ! 0) + 2 ^ 8 * unat (p ! 1) + 2 ^ 16 * unat (p ! 2) + 2 ^ 24 * unat (p ! 3)"
proof -
  note b = unat_byte [of "p ! 0"] unat_byte [of "p ! 1"] unat_byte [of "p ! 2"] unat_byte [of "p ! 3"]
  let ?x = "ucast (p ! 0) OR push_bit 8 (ucast (p ! 1)) :: u32"
  have x: "unat ?x = unat (p ! 0) + 2 ^ 8 * unat (p ! 1)" using b by (subst unat_or_push) simp_all
  have y: "unat (?x OR push_bit 16 (ucast (p ! 2))) = unat (p ! 0) + 2 ^ 8 * unat (p ! 1) + 2 ^ 16 * unat (p ! 2)"
    using b x by (subst unat_or_push) simp_all
  have "fromLittle p = (?x OR push_bit 16 (ucast (p ! 2))) OR push_bit 24 (ucast (p ! 3))" by (simp add: fromLittle_def or.assoc)
  also have "unat \<dots> = unat (p ! 0) + 2 ^ 8 * unat (p ! 1) + 2 ^ 16 * unat (p ! 2) + 2 ^ 24 * unat (p ! 3)"
    using b x y by (subst unat_or_push) simp_all
  finally show ?thesis .
qed

text \<open>The limbs of a block, and of the key.\<close>

definition limbs :: "u32 list \<Rightarrow> nat" where
  "limbs h = unat (h ! 0) + 2 ^ 26 * unat (h ! 1) + 2 ^ 52 * unat (h ! 2) + 2 ^ 78 * unat (h ! 3) + 2 ^ 104 * unat (h ! 4)"

definition load_limbs :: "bytes \<Rightarrow> u32 list" where
  "load_limbs m = [fromLittle m AND 0x3ffffff, drop_bit 2 (fromLittle (drop 3 m)) AND 0x3ffffff, drop_bit 4 (fromLittle (drop 6 m)) AND 0x3ffffff,
     drop_bit 6 (fromLittle (drop 9 m)) AND 0x3ffffff, drop_bit 8 (fromLittle (drop 12 m))]"

lemma limbs_list: "limbs [a, b, c, d, e] = unat a + 2 ^ 26 * unat b + 2 ^ 52 * unat c + 2 ^ 78 * unat d + 2 ^ 104 * unat e"
  by (simp add: limbs_def)

lemma length_16:
  "length m = 16 \<Longrightarrow> m = [m ! 0, m ! 1, m ! 2, m ! 3, m ! 4, m ! 5, m ! 6, m ! 7, m ! 8, m ! 9, m ! 10, m ! 11, m ! 12, m ! 13, m ! 14, m ! 15]"
  by (rule nth_equalityI) (auto simp: less_Suc_eq numeral_eq_Suc)

lemma digit: "r < k \<Longrightarrow> v < n \<Longrightarrow> x = r + (v + q * n) * k \<Longrightarrow> x div k mod n = (v :: nat)"
  by simp

lemma load_nat:
  fixes b0 b1 b2 b3 b4 b5 b6 b7 b8 b9 b10 b11 b12 b13 b14 b15 :: nat
  assumes "b0 < 256" "b1 < 256" "b2 < 256" "b3 < 256" "b4 < 256" "b5 < 256" "b6 < 256" "b7 < 256" "b8 < 256" "b9 < 256"
    "b10 < 256" "b11 < 256" "b12 < 256"
  shows "(b0 + 2 ^ 8 * b1 + 2 ^ 16 * b2 + 2 ^ 24 * b3) mod 2 ^ 26 + 2 ^ 26 * ((b3 + 2 ^ 8 * b4 + 2 ^ 16 * b5 + 2 ^ 24 * b6) div 2 ^ 2 mod 2 ^ 26) +
      2 ^ 52 * ((b6 + 2 ^ 8 * b7 + 2 ^ 16 * b8 + 2 ^ 24 * b9) div 2 ^ 4 mod 2 ^ 26) +
      2 ^ 78 * ((b9 + 2 ^ 8 * b10 + 2 ^ 16 * b11 + 2 ^ 24 * b12) div 2 ^ 6 mod 2 ^ 26) +
      2 ^ 104 * ((b12 + 2 ^ 8 * b13 + 2 ^ 16 * b14 + 2 ^ 24 * b15) div 2 ^ 8) =
    b0 + 2 ^ 8 * b1 + 2 ^ 16 * b2 + 2 ^ 24 * b3 + 2 ^ 32 * b4 + 2 ^ 40 * b5 + 2 ^ 48 * b6 + 2 ^ 56 * b7 + 2 ^ 64 * b8 + 2 ^ 72 * b9 + 2 ^ 80 * b10 +
      2 ^ 88 * b11 + 2 ^ 96 * b12 + 2 ^ 104 * b13 + 2 ^ 112 * b14 + 2 ^ 120 * b15"
proof -
  obtain q3 r3 where 3: "b3 = 4 * q3 + r3" "r3 < 4" by (metis mod_less_divisor mult_div_mod_eq zero_less_numeral)
  obtain q6 r6 where 6: "b6 = 16 * q6 + r6" "r6 < 16" by (metis mod_less_divisor mult_div_mod_eq zero_less_numeral)
  obtain q9 r9 where 9: "b9 = 64 * q9 + r9" "r9 < 64" by (metis mod_less_divisor mult_div_mod_eq zero_less_numeral)
  have "(b0 + 2 ^ 8 * b1 + 2 ^ 16 * b2 + 2 ^ 24 * b3) mod 2 ^ 26 = b0 + 2 ^ 8 * b1 + 2 ^ 16 * b2 + 2 ^ 24 * r3"
    using digit [of 0 1 "b0 + 2 ^ 8 * b1 + 2 ^ 16 * b2 + 2 ^ 24 * r3" "2 ^ 26" "b0 + 2 ^ 8 * b1 + 2 ^ 16 * b2 + 2 ^ 24 * b3" q3] assms 3 by simp
  moreover have "(b3 + 2 ^ 8 * b4 + 2 ^ 16 * b5 + 2 ^ 24 * b6) div 2 ^ 2 mod 2 ^ 26 = q3 + 2 ^ 6 * b4 + 2 ^ 14 * b5 + 2 ^ 22 * r6"
    by (rule digit [of r3 _ _ _ _ q6]) (use assms 3 6 in simp_all)
  moreover have "(b6 + 2 ^ 8 * b7 + 2 ^ 16 * b8 + 2 ^ 24 * b9) div 2 ^ 4 mod 2 ^ 26 = q6 + 2 ^ 4 * b7 + 2 ^ 12 * b8 + 2 ^ 20 * r9"
    by (rule digit [of r6 _ _ _ _ q9]) (use assms 6 9 in simp_all)
  moreover have "(b9 + 2 ^ 8 * b10 + 2 ^ 16 * b11 + 2 ^ 24 * b12) div 2 ^ 6 mod 2 ^ 26 = q9 + 2 ^ 2 * b10 + 2 ^ 10 * b11 + 2 ^ 18 * b12"
    by (rule digit [of r9 _ _ _ _ 0]) (use assms 9 in simp_all)
  moreover have "(b12 + 2 ^ 8 * b13 + 2 ^ 16 * b14 + 2 ^ 24 * b15) div 2 ^ 8 = b13 + 2 ^ 8 * b14 + 2 ^ 16 * b15"
    using assms div_mult_self3 [of "2 ^ 8" b12 "b13 + 2 ^ 8 * b14 + 2 ^ 16 * b15"] by simp
  ultimately show ?thesis using 3(1) 6(1) 9(1) by simp
qed

lemma le_val_16:
  assumes "length m = 16"
  shows "le_val m = unat (m ! 0) + 2 ^ 8 * unat (m ! 1) + 2 ^ 16 * unat (m ! 2) + 2 ^ 24 * unat (m ! 3) + 2 ^ 32 * unat (m ! 4) + 2 ^ 40 * unat (m ! 5) +
     2 ^ 48 * unat (m ! 6) + 2 ^ 56 * unat (m ! 7) + 2 ^ 64 * unat (m ! 8) + 2 ^ 72 * unat (m ! 9) + 2 ^ 80 * unat (m ! 10) +
     2 ^ 88 * unat (m ! 11) + 2 ^ 96 * unat (m ! 12) + 2 ^ 104 * unat (m ! 13) + 2 ^ 112 * unat (m ! 14) + 2 ^ 120 * unat (m ! 15)"
  by (subst arg_cong [OF length_16 [OF assms], of le_val]) simp

lemma load_limbs_value:
  assumes "length m = 16"
  shows "limbs (load_limbs m) = le_val m"
proof -
  have b: "unat (m ! i) < 256" for i using unat_byte(1) [of "m ! i"] by simp
  have d: "drop k m ! j = m ! (k + j)" if "k \<le> 12" for k j using assms that by (simp add: nth_drop)
  have e: "drop 3 m ! 0 = m ! 3" "drop 3 m ! 1 = m ! 4" "drop 3 m ! 2 = m ! 5" "drop 3 m ! 3 = m ! 6" "drop 6 m ! 0 = m ! 6" "drop 6 m ! 1 = m ! 7" "drop 6 m ! 2 = m ! 8" "drop 6 m ! 3 = m ! 9" "drop 9 m ! 0 = m ! 9" "drop 9 m ! 1 = m ! 10" "drop 9 m ! 2 = m ! 11" "drop 9 m ! 3 = m ! 12" "drop 12 m ! 0 = m ! 12" "drop 12 m ! 1 = m ! 13" "drop 12 m ! 2 = m ! 14" "drop 12 m ! 3 = m ! 15"
    by (simp_all add: d)
  show ?thesis unfolding load_limbs_def limbs_list unat_low26 unat_drop unat_fromLittle le_val_16 [OF assms] e
    by (rule load_nat) (rule b)+
qed

section \<open>One block\<close>

text \<open>Between blocks all limbs but the second have 26 bits, and that one hardly more.\<close>

definition h_ok :: "u32 list \<Rightarrow> bool" where
  "h_ok h \<longleftrightarrow> length h = 5 \<and> unat (h ! 0) < 2 ^ 26 \<and> unat (h ! 1) < 2 ^ 26 + 64 \<and> unat (h ! 2) < 2 ^ 26 \<and> unat (h ! 3) < 2 ^ 26 \<and> unat (h ! 4) < 2 ^ 26"

definition r_ok :: "u32 list \<Rightarrow> bool" where
  "r_ok r \<longleftrightarrow> (\<forall>i < 5. unat (r ! i) < 2 ^ 26)"

lemma low26_of_64: "unat ((ucast (d :: u64) :: u32) AND 0x3ffffff) = unat d mod 2 ^ 26"
  by (simp add: unat_low26 unat_trunc mod_mod_cancel)

lemma carry_of_64:
  assumes "unat (d :: u64) < 2 ^ 58" shows "unat (ucast (drop_bit 26 d) :: u32) = unat d div 2 ^ 26"
proof -
  have "unat d div 2 ^ 26 < 2 ^ 32" using assms by (simp add: less_mult_imp_div_less)
  then show ?thesis by (simp only: unat_trunc unat_drop mod_less)
qed

lemma u32_less: "unat (c :: u32) < 2 ^ 32"
  using unsigned_less [of c] by simp

lemma carry_step:
  fixes c :: u32
  assumes "unat (d :: u64) < 2 ^ 57 + 2 ^ 56"
  shows "unat (d + ucast c) = unat d + unat c" "unat (ucast (drop_bit 26 (d + ucast c)) :: u32) = (unat d + unat c) div 2 ^ 26"
proof -
  note b = u32_less [of c]
  show s: "unat (d + ucast c) = unat d + unat c" using b assms by (subst unat_add64) (simp_all add: unat_widen)
  show "unat (ucast (drop_bit 26 (d + ucast c)) :: u32) = (unat d + unat c) div 2 ^ 26"
    unfolding s [symmetric] by (rule carry_of_64) (use s b assms in simp)
qed

lemma poly1305_partial_ok:
  assumes "unat (d ! 0) < 2 ^ 57 + 2 ^ 56" "unat (d ! 1) < 2 ^ 57 + 2 ^ 56" "unat (d ! 2) < 2 ^ 57 + 2 ^ 56" "unat (d ! 3) < 2 ^ 57 + 2 ^ 56"
    "unat (d ! 4) < 2 ^ 55 + 2 ^ 53 + 2 ^ 40"
  shows "h_ok (poly1305_partial d) \<and> limbs (poly1305_partial d) mod P1305 =
    (unat (d ! 0) + 2 ^ 26 * unat (d ! 1) + 2 ^ 52 * unat (d ! 2) + 2 ^ 78 * unat (d ! 3) + 2 ^ 104 * unat (d ! 4)) mod P1305"
proof -
  define c0 d1 where "c0 = (ucast (drop_bit 26 (d ! 0)) :: u32)" and "d1 = d ! 1 + ucast c0"
  define c1 d2 where "c1 = (ucast (drop_bit 26 d1) :: u32)" and "d2 = d ! 2 + ucast c1"
  define c2 d3 where "c2 = (ucast (drop_bit 26 d2) :: u32)" and "d3 = d ! 3 + ucast c2"
  define c3 d4 where "c3 = (ucast (drop_bit 26 d3) :: u32)" and "d4 = d ! 4 + ucast c3"
  define c4 where "c4 = (ucast (drop_bit 26 d4) :: u32)"
  define e where "e = (ucast (d ! 0) AND 0x3ffffff) + c4 * 5"
  define h1 where "h1 = (ucast d1 AND 0x3ffffff) + drop_bit 26 e"
  have b: "unat (d ! 4) < 2 ^ 57 + 2 ^ 56" using assms(5) by simp
  have c0: "unat c0 = unat (d ! 0) div 2 ^ 26" unfolding c0_def by (rule carry_of_64) (use assms in simp)
  note 1 = carry_step [OF assms(2), of c0, folded d1_def, folded c1_def]
  note 2 = carry_step [OF assms(3), of c1, folded d2_def, folded c2_def]
  note 3 = carry_step [OF assms(4), of c2, folded d3_def, folded c3_def]
  note 4 = carry_step [OF b, of c3, folded d4_def, folded c4_def]
  have b4: "unat c4 < 2 ^ 29 + 2 ^ 27 + 2 ^ 15" unfolding 4 using assms(5) u32_less [of c3] by (simp add: less_mult_imp_div_less)
  have c45: "unat (c4 * 5) = unat c4 * 5" by (rule unat_mul5) (use b4 in simp)
  have a0: "unat (ucast (d ! 0) AND 0x3ffffff :: u32) < 2 ^ 26" by (simp add: low26_of_64)
  have e: "unat e = unat (d ! 0) mod 2 ^ 26 + unat c4 * 5" unfolding e_def using b4 a0 c45 by (subst unat_add32) (simp_all add: low26_of_64)
  have e26: "unat (drop_bit 26 e) < 64" unfolding unat_drop e using b4 by (simp add: less_mult_imp_div_less)
  have h1: "unat h1 = unat d1 mod 2 ^ 26 + unat e div 2 ^ 26"
    unfolding h1_def using e26 by (subst unat_add32) (simp_all add: low26_of_64 unat_drop)
  have p: "poly1305_partial d = [e AND 0x3ffffff, h1, ucast d2 AND 0x3ffffff, ucast d3 AND 0x3ffffff, ucast d4 AND 0x3ffffff]"
    by (simp add: poly1305_partial_def Let_def c0_def d1_def c1_def d2_def c2_def d3_def c3_def d4_def c4_def e_def h1_def)
  have "h_ok (poly1305_partial d)" unfolding p h_ok_def using e26 by (simp add: unat_low26 low26_of_64 h1 unat_drop)
  moreover have "limbs (poly1305_partial d) mod P1305 =
    (unat (d ! 0) + 2 ^ 26 * unat (d ! 1) + 2 ^ 52 * unat (d ! 2) + 2 ^ 78 * unat (d ! 3) + 2 ^ 104 * unat (d ! 4)) mod P1305"
    unfolding p limbs_list low26_of_64 unfolding unat_low26 h1 e 4 3 2 1 c0 by (rule carry_mod)
  ultimately show ?thesis by blast
qed

lemma unat_sum5:
  fixes a b c d e :: u64
  assumes "unat a < 2 ^ 61" "unat b < 2 ^ 61" "unat c < 2 ^ 61" "unat d < 2 ^ 61" "unat e < 2 ^ 61"
  shows "unat (a + b + c + d + e) = unat a + unat b + unat c + unat d + unat e"
proof -
  have 1: "unat (a + b) = unat a + unat b" using assms by (intro unat_add64) simp
  have 2: "unat (a + b + c) = unat a + unat b + unat c" using assms 1 by (subst unat_add64) simp_all
  have 3: "unat (a + b + c + d) = unat a + unat b + unat c + unat d" using assms 2 by (subst unat_add64) simp_all
  show ?thesis using assms 3 by (subst unat_add64) simp_all
qed

lemma unat_mul64: "unat (mul64 x y) = unat x * unat y"
  unfolding mul64_def by (rule unat_mul)

lemma poly1305_mul_ok:
  assumes r: "r_ok r" and h: "\<And>i. i < 5 \<Longrightarrow> unat (h ! i) \<le> 2 ^ 27 + 63"
  defines "d \<equiv> poly1305_mul r h"
  shows "unat (d ! 0) < 2 ^ 57 + 2 ^ 56" "unat (d ! 1) < 2 ^ 57 + 2 ^ 56" "unat (d ! 2) < 2 ^ 57 + 2 ^ 56" "unat (d ! 3) < 2 ^ 57 + 2 ^ 56"
    "unat (d ! 4) < 2 ^ 55 + 2 ^ 53 + 2 ^ 40"
    "(unat (d ! 0) + 2 ^ 26 * unat (d ! 1) + 2 ^ 52 * unat (d ! 2) + 2 ^ 78 * unat (d ! 3) + 2 ^ 104 * unat (d ! 4)) mod P1305 = limbs h * limbs r mod P1305"
proof -
  have R: "unat (r ! i) \<le> 2 ^ 26 - 1" if "i < 5" for i using r that by (force simp: r_ok_def)
  have s: "unat (r ! i * 5) = unat (r ! i) * 5" if "i < 5" for i using R [OF that] by (intro unat_mul5) simp
  have m: "unat (mul64 (h ! i) (r ! j)) \<le> (2 ^ 27 + 63) * (2 ^ 26 - 1)" if "i < 5" "j < 5" for i j
    unfolding unat_mul64 by (rule mult_le_mono [OF h [OF that(1)] R [OF that(2)]])
  have m5: "unat (mul64 (h ! i) (r ! j * 5)) \<le> (2 ^ 27 + 63) * ((2 ^ 26 - 1) * 5)" if "i < 5" "j < 5" for i j
    unfolding unat_mul64 s [OF that(2)] by (rule mult_le_mono [OF h [OF that(1)] mult_le_mono1 [OF R [OF that(2)]]])
  have lt: "unat (mul64 (h ! i) (r ! j)) < 2 ^ 61" "unat (mul64 (h ! i) (r ! j * 5)) < 2 ^ 61" if "i < 5" "j < 5" for i j
    using m [OF that] m5 [OF that] by simp_all
  note d = d_def poly1305_mul_def Let_def nth_Cons_0 nth_Cons_numeral
  show "unat (d ! 0) < 2 ^ 57 + 2 ^ 56"
    using m [of 0 0] m5 [of 1 4] m5 [of 2 3] m5 [of 3 2] m5 [of 4 1] lt by (simp add: d unat_sum5)
  show "unat (d ! 1) < 2 ^ 57 + 2 ^ 56"
    using m [of 0 1] m [of 1 0] m5 [of 2 4] m5 [of 3 3] m5 [of 4 2] lt by (simp add: d unat_sum5)
  show "unat (d ! 2) < 2 ^ 57 + 2 ^ 56"
    using m [of 0 2] m [of 1 1] m [of 2 0] m5 [of 3 4] m5 [of 4 3] lt by (simp add: d unat_sum5)
  show "unat (d ! 3) < 2 ^ 57 + 2 ^ 56"
    using m [of 0 3] m [of 1 2] m [of 2 1] m [of 3 0] m5 [of 4 4] lt by (simp add: d unat_sum5)
  show "unat (d ! 4) < 2 ^ 55 + 2 ^ 53 + 2 ^ 40"
    using m [of 0 4] m [of 1 3] m [of 2 2] m [of 3 1] m [of 4 0] lt by (simp add: d unat_sum5)
  have d': "unat (d ! 0) = unat (h ! 0) * unat (r ! 0) + unat (h ! 1) * (unat (r ! 4) * 5) + unat (h ! 2) * (unat (r ! 3) * 5) + unat (h ! 3) * (unat (r ! 2) * 5) + unat (h ! 4) * (unat (r ! 1) * 5)"
    "unat (d ! 1) = unat (h ! 0) * unat (r ! 1) + unat (h ! 1) * unat (r ! 0) + unat (h ! 2) * (unat (r ! 4) * 5) + unat (h ! 3) * (unat (r ! 3) * 5) + unat (h ! 4) * (unat (r ! 2) * 5)"
    "unat (d ! 2) = unat (h ! 0) * unat (r ! 2) + unat (h ! 1) * unat (r ! 1) + unat (h ! 2) * unat (r ! 0) + unat (h ! 3) * (unat (r ! 4) * 5) + unat (h ! 4) * (unat (r ! 3) * 5)"
    "unat (d ! 3) = unat (h ! 0) * unat (r ! 3) + unat (h ! 1) * unat (r ! 2) + unat (h ! 2) * unat (r ! 1) + unat (h ! 3) * unat (r ! 0) + unat (h ! 4) * (unat (r ! 4) * 5)"
    "unat (d ! 4) = unat (h ! 0) * unat (r ! 4) + unat (h ! 1) * unat (r ! 3) + unat (h ! 2) * unat (r ! 2) + unat (h ! 3) * unat (r ! 1) + unat (h ! 4) * unat (r ! 0)"
    using lt s by (simp_all add: d unat_sum5 unat_mul64)
  show "(unat (d ! 0) + 2 ^ 26 * unat (d ! 1) + 2 ^ 52 * unat (d ! 2) + 2 ^ 78 * unat (d ! 3) + 2 ^ 104 * unat (d ! 4)) mod P1305 = limbs h * limbs r mod P1305"
    unfolding d' limbs_def by (rule product_mod)
qed

definition hibit_val :: "bool \<Rightarrow> nat" where
  "hibit_val final = (if final then 0 else 2 ^ 128)"

lemma poly1305_add_ok:
  fixes final :: bool
  assumes "h_ok h" "length m = 16"
  defines "x \<equiv> poly1305_add (poly1305_hibit final) h m"
  shows "limbs x = limbs h + le_val m + hibit_val final" "\<And>i. i < 5 \<Longrightarrow> unat (x ! i) \<le> 2 ^ 27 + 63"
proof -
  let ?l = "load_limbs m"
  have l: "unat (?l ! 0) < 2 ^ 26" "unat (?l ! 1) < 2 ^ 26" "unat (?l ! 2) < 2 ^ 26" "unat (?l ! 3) < 2 ^ 26"
    by (simp_all add: load_limbs_def unat_low26)
  have l4: "unat (?l ! 4) < 2 ^ 24" using u32_less [of "fromLittle (drop 12 m)"] by (simp add: load_limbs_def unat_drop less_mult_imp_div_less)
  have o: "unat (?l ! 4 OR poly1305_hibit final) = unat (?l ! 4) + (if final then 0 else 2 ^ 24)"
    using unat_or_push [OF l4, of 1] by (simp add: poly1305_hibit_def)
  have x: "x = [h ! 0 + ?l ! 0, h ! 1 + ?l ! 1, h ! 2 + ?l ! 2, h ! 3 + ?l ! 3, h ! 4 + (?l ! 4 OR poly1305_hibit final)]"
    by (simp add: x_def poly1305_add_def load_limbs_def)
  have s: "unat (h ! 0 + ?l ! 0) = unat (h ! 0) + unat (?l ! 0)" "unat (h ! 1 + ?l ! 1) = unat (h ! 1) + unat (?l ! 1)"
    "unat (h ! 2 + ?l ! 2) = unat (h ! 2) + unat (?l ! 2)" "unat (h ! 3 + ?l ! 3) = unat (h ! 3) + unat (?l ! 3)"
    using assms(1) l by (auto simp: h_ok_def intro!: unat_add32)
  have s4: "unat (h ! 4 + (?l ! 4 OR poly1305_hibit final)) = unat (h ! 4) + unat (?l ! 4) + (if final then 0 else 2 ^ 24)"
    using assms(1) l4 o by (subst unat_add32) (auto simp: h_ok_def)
  show "limbs x = limbs h + le_val m + hibit_val final"
    unfolding load_limbs_value [OF assms(2), symmetric] x limbs_list s s4 by (simp add: limbs_def hibit_val_def)
  show "unat (x ! i) \<le> 2 ^ 27 + 63" if "i < 5" for i
  proof -
    have "i \<in> {0, 1, 2, 3, 4}" using that by auto
    then show ?thesis using assms(1) l l4 by (auto simp: x s [unfolded One_nat_def] s4 h_ok_def)
  qed
qed

lemma poly1305_block_ok:
  fixes final :: bool
  assumes "r_ok r" "h_ok h" "length m = 16"
  defines "h' \<equiv> poly1305_block (poly1305_hibit final) r h m"
  shows "h_ok h'" "limbs h' mod P1305 = (limbs h mod P1305 + le_val m + hibit_val final) * limbs r mod P1305"
proof -
  note a = poly1305_add_ok [OF assms(2,3), where final = final]
  note m = poly1305_mul_ok [OF assms(1) a(2)]
  note p = poly1305_partial_ok [OF m(1-5), folded poly1305_block_def, folded h'_def]
  show "h_ok h'" using p by simp
  have "limbs h' mod P1305 = (limbs h + le_val m + hibit_val final) * limbs r mod P1305" using p m(6) a(1) by simp
  also have "\<dots> = (limbs h mod P1305 + le_val m + hibit_val final) * limbs r mod P1305" by (metis (no_types) add.assoc mod_add_left_eq mod_mult_left_eq)
  finally show "limbs h' mod P1305 = (limbs h mod P1305 + le_val m + hibit_val final) * limbs r mod P1305" .
qed

section \<open>The tag\<close>

lemma limb_digits:
  fixes h0 h1 h2 h3 h4 :: nat
  assumes "h0 < 2 ^ 26" "h1 < 2 ^ 26 + 64" "h2 < 2 ^ 26" "h3 < 2 ^ 26" "h4 < 2 ^ 26"
    and "h1 = a1 + 2 ^ 26 * c1" "h2 + c1 = a2 + 2 ^ 26 * c2" "h3 + c2 = a3 + 2 ^ 26 * c3" "h4 + c3 = a4 + 2 ^ 26 * c4"
    and "a1 < 2 ^ 26" "a2 < 2 ^ 26" "a3 < 2 ^ 26" "a4 < 2 ^ 26"
    and "h0 + c4 * 5 = b0 + 2 ^ 26 * c5" "b0 < 2 ^ 26"
  shows "a1 + c5 < 2 ^ 26 \<and> b0 + 2 ^ 26 * (a1 + c5) + 2 ^ 52 * a2 + 2 ^ 78 * a3 + 2 ^ 104 * a4 + P1305 * c4 =
    h0 + 2 ^ 26 * h1 + 2 ^ 52 * h2 + 2 ^ 78 * h3 + 2 ^ 104 * h4"
proof -
  have v: "b0 + 2 ^ 26 * (a1 + c5) + 2 ^ 52 * a2 + 2 ^ 78 * a3 + 2 ^ 104 * a4 + P1305 * c4 = h0 + 2 ^ 26 * h1 + 2 ^ 52 * h2 + 2 ^ 78 * h3 + 2 ^ 104 * h4"
    by (rule carry_sum [of h0 h0 0 h1 a1 c1 h2 a2 c2 h3 a3 c3 h4 a4 c4]) (use assms in simp_all)
  have c1: "c1 \<le> 1" using assms(2,6) by simp
  have c2: "c2 \<le> 1" using assms(3,7) c1 by simp
  have c3: "c3 \<le> 1" using assms(4,8) c2 by simp
  have c4: "c4 \<le> 1" using assms(5,9) c3 by simp
  have "a1 + c5 < 2 ^ 26"
  proof (cases "c4 = 0")
    case True
    then have "c5 = 0" using assms(1,14,15) by simp
    then show ?thesis using assms(10) by simp
  next
    case False
    then have 1: "c4 = 1" using c4 by simp
    have "c5 \<le> 1" using 1 assms(1,14) by simp
    moreover have "a1 \<le> 64" using v assms(1-5) 1 assms(14) by (simp add: P1305_def)
    ultimately show ?thesis by simp
  qed
  with v show ?thesis by blast
qed

definition full :: "u32 list \<Rightarrow> bool" where
  "full h \<longleftrightarrow> length h = 5 \<and> (\<forall>i < 5. unat (h ! i) < 2 ^ 26)"

lemma all_less_5: "(\<forall>i < 5. P i) \<longleftrightarrow> P 0 \<and> P 1 \<and> P 2 \<and> P 3 \<and> P (4 :: nat)"
  by (auto simp: less_Suc_eq numeral_eq_Suc)

lemma full_list: "full [a, b, c, d, e] \<longleftrightarrow> unat a < 2 ^ 26 \<and> unat b < 2 ^ 26 \<and> unat c < 2 ^ 26 \<and> unat d < 2 ^ 26 \<and> unat e < 2 ^ 26"
  by (simp add: full_def all_less_5)

lemma add_small: "unat (x :: u32) < 2 ^ 27 \<Longrightarrow> unat y < 2 ^ 27 \<Longrightarrow> unat (x + y) = unat x + unat y"
  by (rule unat_add32) simp

lemma small_carry: "unat (drop_bit 26 (x :: u32)) < 2 ^ 6"
  unfolding unat_drop using u32_less [of x] by (simp add: less_mult_imp_div_less)

lemma digit_sum: "unat (x :: u32) = unat (x AND 0x3ffffff) + 2 ^ 26 * unat (drop_bit 26 x)"
  by (simp add: unat_low26 unat_drop)

lemma low26_less: "unat (x AND 0x3ffffff :: u32) < 2 ^ 26"
  by (simp add: unat_low26)

lemma poly1305_carry_ok:
  assumes "h_ok h"
  shows "full (poly1305_carry h)" "limbs (poly1305_carry h) mod P1305 = limbs h mod P1305"
proof -
  have b: "unat (h ! 0) < 2 ^ 26" "unat (h ! 1) < 2 ^ 26 + 64" "unat (h ! 2) < 2 ^ 26" "unat (h ! 3) < 2 ^ 26" "unat (h ! 4) < 2 ^ 26"
    using assms by (auto simp: h_ok_def)
  define c1 where "c1 = drop_bit 26 (h ! 1)"
  define x2 c2 where "x2 = h ! 2 + c1" and "c2 = drop_bit 26 x2"
  define x3 c3 where "x3 = h ! 3 + c2" and "c3 = drop_bit 26 x3"
  define x4 c4 where "x4 = h ! 4 + c3" and "c4 = drop_bit 26 x4"
  define e c5 where "e = h ! 0 + c4 * 5" and "c5 = drop_bit 26 e"
  define a1 where "a1 = (h ! 1 AND 0x3ffffff)"
  have s: "unat c1 < 2 ^ 6" "unat c2 < 2 ^ 6" "unat c3 < 2 ^ 6" "unat c4 < 2 ^ 6" "unat c5 < 2 ^ 6"
    unfolding c1_def c2_def c3_def c4_def c5_def by (rule small_carry)+
  have x: "unat x2 = unat (h ! 2) + unat c1" "unat x3 = unat (h ! 3) + unat c2" "unat x4 = unat (h ! 4) + unat c3"
    unfolding x2_def x3_def x4_def using b s by (simp_all add: add_small)
  have e: "unat e = unat (h ! 0) + unat c4 * 5" unfolding e_def using b s unat_mul5 [of c4] by (subst add_small) simp_all
  have a1: "unat (a1 + c5) = unat a1 + unat c5" using s by (intro add_small) (simp_all add: a1_def unat_low26)
  have p: "poly1305_carry h = [e AND 0x3ffffff, a1 + c5, x2 AND 0x3ffffff, x3 AND 0x3ffffff, x4 AND 0x3ffffff]"
    by (simp add: poly1305_carry_def Let_def c1_def x2_def c2_def x3_def c3_def x4_def c4_def e_def c5_def a1_def)
  have v: "unat a1 + unat c5 < 2 ^ 26 \<and> unat (e AND 0x3ffffff) + 2 ^ 26 * (unat a1 + unat c5) + 2 ^ 52 * unat (x2 AND 0x3ffffff) +
      2 ^ 78 * unat (x3 AND 0x3ffffff) + 2 ^ 104 * unat (x4 AND 0x3ffffff) + P1305 * unat c4 =
      unat (h ! 0) + 2 ^ 26 * unat (h ! 1) + 2 ^ 52 * unat (h ! 2) + 2 ^ 78 * unat (h ! 3) + 2 ^ 104 * unat (h ! 4)"
    by (rule limb_digits [OF b digit_sum [of "h ! 1", folded a1_def c1_def] digit_sum [of x2, unfolded x(1), folded c2_def]
        digit_sum [of x3, unfolded x(2), folded c3_def] digit_sum [of x4, unfolded x(3), folded c4_def] _ low26_less low26_less low26_less
        digit_sum [of e, unfolded e, folded c5_def] low26_less])
       (simp only: a1_def low26_less)
  show "full (poly1305_carry h)" unfolding p full_list a1 using v by (simp add: unat_low26)
  show "limbs (poly1305_carry h) mod P1305 = limbs h mod P1305"
    by (rule mod_P [of _ "unat c4"]) (use v in \<open>simp add: p limbs_list a1 limbs_def\<close>)
qed

lemma minus_p_digits:
  fixes h0 h1 h2 h3 h4 :: nat
  assumes "h0 + 5 = g0 + 2 ^ 26 * c0" "h1 + c0 = g1 + 2 ^ 26 * c1" "h2 + c1 = g2 + 2 ^ 26 * c2" "h3 + c2 = g3 + 2 ^ 26 * c3"
    "g0 < 2 ^ 26" "g1 < 2 ^ 26" "g2 < 2 ^ 26" "g3 < 2 ^ 26"
  shows "h4 + c3 < 2 ^ 26 \<longleftrightarrow> h0 + 2 ^ 26 * h1 + 2 ^ 52 * h2 + 2 ^ 78 * h3 + 2 ^ 104 * h4 < P1305"
    "2 ^ 26 \<le> h4 + c3 \<Longrightarrow> g0 + 2 ^ 26 * g1 + 2 ^ 52 * g2 + 2 ^ 78 * g3 + 2 ^ 104 * (h4 + c3 - 2 ^ 26) + P1305 =
      h0 + 2 ^ 26 * h1 + 2 ^ 52 * h2 + 2 ^ 78 * h3 + 2 ^ 104 * h4"
proof -
  have s: "h0 + 2 ^ 26 * h1 + 2 ^ 52 * h2 + 2 ^ 78 * h3 + 2 ^ 104 * h4 + 5 = g0 + 2 ^ 26 * g1 + 2 ^ 52 * g2 + 2 ^ 78 * g3 + 2 ^ 104 * (h4 + c3)"
    using assms(1-4) by simp
  then show "h4 + c3 < 2 ^ 26 \<longleftrightarrow> h0 + 2 ^ 26 * h1 + 2 ^ 52 * h2 + 2 ^ 78 * h3 + 2 ^ 104 * h4 < P1305"
    using assms(5-8) by (simp add: P1305_def) linarith
  assume "2 ^ 26 \<le> h4 + c3"
  then obtain k where "h4 + c3 = 2 ^ 26 + k" using le_Suc_ex by blast
  then show "g0 + 2 ^ 26 * g1 + 2 ^ 52 * g2 + 2 ^ 78 * g3 + 2 ^ 104 * (h4 + c3 - 2 ^ 26) + P1305 =
      h0 + 2 ^ 26 * h1 + 2 ^ 52 * h2 + 2 ^ 78 * h3 + 2 ^ 104 * h4" using s by (simp add: P1305_def)
qed

lemma select_mask:
  assumes "unat (t :: u32) \<le> 2 ^ 26"
  shows "drop_bit 31 (t - push_bit 26 1) - 1 = (if unat t < 2 ^ 26 then 0 else (- 1 :: u32))"
proof (cases "unat t < 2 ^ 26")
  case True
  then have "t < 2 ^ 26" by (simp add: word_less_nat_alt)
  then have "unat (t - 2 ^ 26) = 2 ^ 32 + unat t - 2 ^ 26" using True by (simp add: unat_sub_if_size word_size word_le_nat_alt)
  then have "unat (drop_bit 31 (t - 2 ^ 26)) = 1" using True unfolding unat_drop by simp
  then have "drop_bit 31 (t - 2 ^ 26) = 1" by (intro word_unat_eq_iff [THEN iffD2]) simp
  then show ?thesis using True by (simp add: push_bit_eq_mult)
next
  case False
  then have "unat t = unat (2 ^ 26 :: u32)" using assms by simp
  then have "t = 2 ^ 26" by (rule word_unat_eq_iff [THEN iffD2])
  then show ?thesis using False by (simp add: push_bit_eq_mult)
qed

lemma select_cases:
  assumes "length h = length g" "drop_bit 31 (g ! 4) - 1 = k" "k = 0 \<or> k = - 1"
  shows "poly1305_select h g = (if k = 0 then h else g)"
  using assms by (intro nth_equalityI) (auto simp: poly1305_select_def Let_def)

lemma poly1305_select_ok:
  assumes "full h"
  defines "s \<equiv> poly1305_select h (poly1305_minus_p h)"
  shows "full s" "limbs s = limbs h mod P1305"
proof -
  have b: "unat (h ! 0) < 2 ^ 26" "unat (h ! 1) < 2 ^ 26" "unat (h ! 2) < 2 ^ 26" "unat (h ! 3) < 2 ^ 26" "unat (h ! 4) < 2 ^ 26" and len: "length h = 5"
    using assms(1) by (simp_all add: full_def)
  define y0 c0 where "y0 = h ! 0 + 5" and "c0 = drop_bit 26 y0"
  define y1 c1 where "y1 = h ! 1 + c0" and "c1 = drop_bit 26 y1"
  define y2 c2 where "y2 = h ! 2 + c1" and "c2 = drop_bit 26 y2"
  define y3 c3 where "y3 = h ! 3 + c2" and "c3 = drop_bit 26 y3"
  define y4 where "y4 = h ! 4 + c3"
  have sm: "unat c0 < 2 ^ 6" "unat c1 < 2 ^ 6" "unat c2 < 2 ^ 6" "unat c3 < 2 ^ 6"
    unfolding c0_def c1_def c2_def c3_def by (rule small_carry)+
  have y: "unat y0 = unat (h ! 0) + 5" "unat y1 = unat (h ! 1) + unat c0" "unat y2 = unat (h ! 2) + unat c1" "unat y3 = unat (h ! 3) + unat c2"
    "unat y4 = unat (h ! 4) + unat c3"
    unfolding y0_def y1_def y2_def y3_def y4_def using b sm by (simp_all add: add_small)
  let ?g = "[y0 AND 0x3ffffff, y1 AND 0x3ffffff, y2 AND 0x3ffffff, y3 AND 0x3ffffff, y4 - push_bit 26 1]"
  have g: "poly1305_minus_p h = ?g" by (simp add: poly1305_minus_p_def Let_def y0_def c0_def y1_def c1_def y2_def c2_def y3_def c3_def y4_def)
  note d = minus_p_digits [OF digit_sum [of y0, unfolded y, folded c0_def] digit_sum [of y1, unfolded y, folded c1_def]
      digit_sum [of y2, unfolded y, folded c2_def] digit_sum [of y3, unfolded y, folded c3_def] low26_less low26_less low26_less low26_less, of "unat (h ! 4)"]
  have c3: "unat c3 \<le> 1" unfolding c3_def unat_drop y(4) using b sm by simp
  then have y4: "unat y4 \<le> 2 ^ 26" using y(5) b by simp
  have lh: "limbs h = unat (h ! 0) + 2 ^ 26 * unat (h ! 1) + 2 ^ 52 * unat (h ! 2) + 2 ^ 78 * unat (h ! 3) + 2 ^ 104 * unat (h ! 4)" by (simp add: limbs_def)
  have small: "limbs h < P1305 + P1305" using b by (simp add: lh P1305_def)
  have "full s \<and> limbs s = limbs h mod P1305"
  proof (cases "unat y4 < 2 ^ 26")
    case True
    then have "s = h" using select_cases [of h ?g 0] select_mask [OF y4] len by (simp add: s_def g)
    moreover have "limbs h < P1305" using True d(1) by (simp add: y(5) lh)
    ultimately show ?thesis using assms(1) by simp
  next
    case False
    then have "s = ?g" using select_cases [of h ?g "- 1"] select_mask [OF y4] len by (simp add: s_def g)
    moreover have "y4 - push_bit 26 1 = 0"
    proof -
      have "unat y4 = unat (2 ^ 26 :: u32)" using False y4 by simp
      then have "y4 = 2 ^ 26" by (rule word_unat_eq_iff [THEN iffD2])
      then show ?thesis by (simp add: push_bit_eq_mult)
    qed
    moreover have "unat (h ! 4) + unat c3 = 2 ^ 26" using False y4 y(5) by simp
    ultimately have "limbs s + P1305 = limbs h" "full s" using d(2) by (simp_all add: limbs_list lh full_list low26_less [simplified])
    then show ?thesis using small by (metis add_less_cancel_right mod_add_self2 mod_less)
  qed
  then show "full s" "limbs s = limbs h mod P1305" by simp_all
qed

definition wval :: "u32 list \<Rightarrow> nat" where
  "wval w = unat (w ! 0) + 2 ^ 32 * unat (w ! 1) + 2 ^ 64 * unat (w ! 2) + 2 ^ 96 * unat (w ! 3)"

lemma wval_list: "wval [a, b, c, d] = unat a + 2 ^ 32 * unat b + 2 ^ 64 * unat c + 2 ^ 96 * unat d"
  by (simp add: wval_def)

lemma poly1305_pack_ok:
  assumes "full h" shows "wval (poly1305_pack h) mod 2 ^ 128 = limbs h mod 2 ^ 128"
proof -
  have b: "unat (h ! 0) < 2 ^ 26" "unat (h ! 1) < 2 ^ 26" "unat (h ! 2) < 2 ^ 26" "unat (h ! 3) < 2 ^ 26" using assms by (simp_all add: full_def)
  have w: "unat (h ! 0 OR push_bit 26 (h ! 1)) = unat (h ! 0) + 2 ^ 26 * (unat (h ! 1) mod 2 ^ 6)"
    "unat (drop_bit 6 (h ! 1) OR push_bit 20 (h ! 2)) = unat (h ! 1) div 2 ^ 6 + 2 ^ 20 * (unat (h ! 2) mod 2 ^ 12)"
    "unat (drop_bit 12 (h ! 2) OR push_bit 14 (h ! 3)) = unat (h ! 2) div 2 ^ 12 + 2 ^ 14 * (unat (h ! 3) mod 2 ^ 18)"
    "unat (drop_bit 18 (h ! 3) OR push_bit 8 (h ! 4)) = unat (h ! 3) div 2 ^ 18 + 2 ^ 8 * (unat (h ! 4) mod 2 ^ 24)"
    using b by (subst unat_or_push; simp add: unat_drop less_mult_imp_div_less)+
  have d: "unat (h ! 1) = unat (h ! 1) mod 2 ^ 6 + 2 ^ 6 * (unat (h ! 1) div 2 ^ 6)" "unat (h ! 2) = unat (h ! 2) mod 2 ^ 12 + 2 ^ 12 * (unat (h ! 2) div 2 ^ 12)"
    "unat (h ! 3) = unat (h ! 3) mod 2 ^ 18 + 2 ^ 18 * (unat (h ! 3) div 2 ^ 18)" "unat (h ! 4) = unat (h ! 4) mod 2 ^ 24 + 2 ^ 24 * (unat (h ! 4) div 2 ^ 24)"
    by simp_all
  have sum: "h0 + 2 ^ 26 * m1 + 2 ^ 32 * (q1 + 2 ^ 20 * m2) + 2 ^ 64 * (q2 + 2 ^ 14 * m3) + 2 ^ 96 * (q3 + 2 ^ 8 * m4) + q4 * 2 ^ 128 =
      h0 + 2 ^ 26 * h1 + 2 ^ 52 * h2 + 2 ^ 78 * h3 + 2 ^ 104 * h4"
    if "h1 = m1 + 2 ^ 6 * q1" "h2 = m2 + 2 ^ 12 * q2" "h3 = m3 + 2 ^ 18 * q3" "h4 = m4 + 2 ^ 24 * q4" for h0 h1 h2 h3 h4 m1 q1 m2 q2 m3 q3 m4 q4 :: nat
    using that by simp
  have "wval (poly1305_pack h) + unat (h ! 4) div 2 ^ 24 * 2 ^ 128 = limbs h"
    unfolding poly1305_pack_def wval_list w limbs_def by (rule sum [OF d])
  then show ?thesis by (metis mod_mult_self1)
qed

lemma pad_step:
  fixes a b :: u32 and f :: u64
  shows "unat (ucast a + ucast b + drop_bit 32 f :: u64) = unat a + unat b + unat f div 2 ^ 32"
proof -
  have "unat f < 2 ^ 64" using unsigned_less [of f] by simp
  then have "unat (drop_bit 32 f) < 2 ^ 32" unfolding unat_drop by (simp add: less_mult_imp_div_less)
  moreover have "unat (ucast a + ucast b :: u64) = unat a + unat b" using u32_less [of a] u32_less [of b] by (subst unat_add64) (simp_all add: unat_widen)
  ultimately show ?thesis using u32_less [of a] u32_less [of b] by (subst unat_add64) (simp_all add: unat_drop)
qed

lemma poly1305_add_pad_ok: "wval (poly1305_add_pad w p) = (wval w + wval p) mod 2 ^ 128"
proof -
  define f0 where "f0 = (ucast (w ! 0) :: u64) + ucast (p ! 0) + drop_bit 32 0"
  define f1 where "f1 = ucast (w ! 1) + ucast (p ! 1) + drop_bit 32 f0"
  define f2 where "f2 = ucast (w ! 2) + ucast (p ! 2) + drop_bit 32 f1"
  define f3 where "f3 = ucast (w ! 3) + ucast (p ! 3) + drop_bit 32 f2"
  have r: "poly1305_add_pad w p = [ucast f0, ucast f1, ucast f2, ucast f3]"
    by (simp add: poly1305_add_pad_def Let_def f0_def f1_def f2_def f3_def)
  have f: "unat f0 = unat (w ! 0) + unat (p ! 0)" "unat f1 = unat (w ! 1) + unat (p ! 1) + unat f0 div 2 ^ 32"
    "unat f2 = unat (w ! 2) + unat (p ! 2) + unat f1 div 2 ^ 32" "unat f3 = unat (w ! 3) + unat (p ! 3) + unat f2 div 2 ^ 32"
    using pad_step [of "w ! 0" "p ! 0" 0] by (simp_all add: f0_def f1_def f2_def f3_def pad_step)
  have e: "unat (w ! 0) + unat (p ! 0) = unat f0 mod 2 ^ 32 + 2 ^ 32 * (unat f0 div 2 ^ 32)"
    "unat (w ! 1) + unat (p ! 1) + unat f0 div 2 ^ 32 = unat f1 mod 2 ^ 32 + 2 ^ 32 * (unat f1 div 2 ^ 32)"
    "unat (w ! 2) + unat (p ! 2) + unat f1 div 2 ^ 32 = unat f2 mod 2 ^ 32 + 2 ^ 32 * (unat f2 div 2 ^ 32)"
    "unat (w ! 3) + unat (p ! 3) + unat f2 div 2 ^ 32 = unat f3 mod 2 ^ 32 + 2 ^ 32 * (unat f3 div 2 ^ 32)"
    by (simp_all only: f [symmetric] mod_mult_div_eq)
  have sum: "r0 + 2 ^ 32 * r1 + 2 ^ 64 * r2 + 2 ^ 96 * r3 + q3 * 2 ^ 128 =
      w0 + 2 ^ 32 * w1 + 2 ^ 64 * w2 + 2 ^ 96 * w3 + (p0 + 2 ^ 32 * p1 + 2 ^ 64 * p2 + 2 ^ 96 * p3)"
    if "w0 + p0 = r0 + 2 ^ 32 * q0" "w1 + p1 + q0 = r1 + 2 ^ 32 * q1" "w2 + p2 + q1 = r2 + 2 ^ 32 * q2" "w3 + p3 + q2 = r3 + 2 ^ 32 * q3"
    for w0 w1 w2 w3 p0 p1 p2 p3 r0 r1 r2 r3 q0 q1 q2 q3 :: nat
    using that by simp
  have "wval (poly1305_add_pad w p) + unat f3 div 2 ^ 32 * 2 ^ 128 = wval w + wval p"
    unfolding r wval_list unat_trunc unfolding wval_def
    by (rule sum [OF e])
  moreover have "wval (poly1305_add_pad w p) < 2 ^ 128"
    unfolding r wval_list using u32_less [of "ucast f0"] u32_less [of "ucast f1"] u32_less [of "ucast f2"] u32_less [of "ucast f3"] by simp
  ultimately show ?thesis by (metis mod_less mod_mult_self1)
qed

lemma le_val_append: "le_val (a @ b) = le_val a + 256 ^ length a * le_val b"
  by (induction a) (simp_all add: algebra_simps)

lemma le_val_toLittle: "le_val (toLittle v) = unat v"
  using unat_fromLittle [of "toLittle v"] by (simp add: from_to_little) (simp add: toLittle_def)

lemma poly1305_emit_ok:
  assumes "h_ok h"
  shows "length (poly1305_emit h pad) = 16" "le_val (poly1305_emit h pad) = (limbs h mod P1305 + wval pad) mod 2 ^ 128"
proof -
  define s where "s = poly1305_select (poly1305_carry h) (poly1305_minus_p (poly1305_carry h))"
  define w where "w = poly1305_add_pad (poly1305_pack s) pad"
  note c = poly1305_carry_ok [OF assms]
  note s = poly1305_select_ok [OF c(1), folded s_def, unfolded c(2)]
  have w: "w = [w ! 0, w ! 1, w ! 2, w ! 3]" by (simp add: w_def poly1305_add_pad_def Let_def)
  have e: "poly1305_emit h pad = toLittle (w ! 0) @ toLittle (w ! 1) @ toLittle (w ! 2) @ toLittle (w ! 3)"
    unfolding poly1305_emit_def Let_def s_def [symmetric] w_def [symmetric] by (subst w) simp
  show "length (poly1305_emit h pad) = 16" by (simp add: e)
  have "le_val (poly1305_emit h pad) = wval w" unfolding e by (simp add: le_val_append le_val_toLittle wval_def)
  also have "\<dots> = (wval (poly1305_pack s) + wval pad) mod 2 ^ 128" unfolding w_def by (rule poly1305_add_pad_ok)
  also have "\<dots> = (limbs s + wval pad) mod 2 ^ 128" using poly1305_pack_ok [OF s(1)] by (metis mod_add_left_eq)
  finally show "le_val (poly1305_emit h pad) = (limbs h mod P1305 + wval pad) mod 2 ^ 128" unfolding s(2) .
qed

section \<open>The key\<close>

lemma from_little_and: "fromLittle p AND fromLittle q = fromLittle [p ! 0 AND q ! 0, p ! 1 AND q ! 1, p ! 2 AND q ! 2, p ! 3 AND q ! 3]"
proof (rule bit_word_eqI)
  fix n assume "n < LENGTH(32)"
  then consider "n < 8" | "8 \<le> n" "n < 16" | "16 \<le> n" "n < 24" | "24 \<le> n" "n < 32" by fastforce
  then show "bit (fromLittle p AND fromLittle q) n = bit (fromLittle [p ! 0 AND q ! 0, p ! 1 AND q ! 1, p ! 2 AND q ! 2, p ! 3 AND q ! 3]) n"
    by cases (auto simp: fromLittle_def bit_simps dest: bit_imp_le_length)
qed

lemma drop_and: "drop_bit n x AND m = drop_bit n (x AND push_bit n m)" for x m :: u32
  by (rule bit_eqI) (auto simp: bit_simps dest: bit_imp_le_length)

lemma clamp_nth: "i < 16 \<Longrightarrow> rfc_clamp k ! i = (if i \<in> {3, 7, 11, 15} then k ! i AND 15 else if i \<in> {4, 8, 12} then k ! i AND 252 else k ! i)"
  by (simp add: rfc_clamp_def)

lemma and_ff: "(x :: u8) AND 255 = x"
proof -
  have "(255 :: u8) = - 1" by simp
  then show ?thesis by (simp only: and.right_neutral)
qed

lemma top_limb: "drop_bit 8 (x :: u32) = drop_bit 8 x AND 0xffffff"
proof -
  have m: "(0xffffff :: u32) = mask 24" by (simp add: mask_eq_decr_exp)
  have "drop_bit 8 x AND mask 24 = drop_bit 8 x" by (rule bit_eqI) (auto simp: bit_simps dest: bit_imp_le_length)
  then show ?thesis unfolding m ..
qed

text \<open>The masks of the code do the clamping of the standard.\<close>

lemma poly1305_init_r:
  assumes "length key = 32"
  shows "po_r (poly1305_init buffer key) = load_limbs (rfc_clamp key)"
proof -
  have n: "drop j (rfc_clamp key) ! i = rfc_clamp key ! (j + i)" "drop j key ! i = key ! (j + i)" if "j \<le> 12" for j i
    using that assms by (simp_all add: rfc_clamp_def)
  have m: "fromLittle key AND 0x3ffffff = fromLittle (rfc_clamp key) AND 0x3ffffff"
  proof -
    have "(0x3ffffff :: u32) = fromLittle [0xff, 0xff, 0xff, 0x03]" by (simp add: fromLittle_def)
    then show ?thesis by (simp only: from_little_and) (simp add: clamp_nth and.assoc)
  qed
  have 1: "drop_bit 2 (fromLittle (drop 3 key)) AND 0x3ffff03 = drop_bit 2 (fromLittle (drop 3 (rfc_clamp key))) AND 0x3ffffff"
  proof -
    have "push_bit 2 (0x3ffff03 :: u32) = fromLittle [0x0c, 0xfc, 0xff, 0x0f]" "push_bit 2 (0x3ffffff :: u32) = fromLittle [0xfc, 0xff, 0xff, 0x0f]"
      by (simp_all add: fromLittle_def)
    then show ?thesis by (simp only: drop_and from_little_and) (simp add: n clamp_nth and.assoc and_ff)
  qed
  have 2: "drop_bit 4 (fromLittle (drop 6 key)) AND 0x3ffc0ff = drop_bit 4 (fromLittle (drop 6 (rfc_clamp key))) AND 0x3ffffff"
  proof -
    have "push_bit 4 (0x3ffc0ff :: u32) = fromLittle [0xf0, 0x0f, 0xfc, 0x3f]" "push_bit 4 (0x3ffffff :: u32) = fromLittle [0xf0, 0xff, 0xff, 0x3f]"
      by (simp_all add: fromLittle_def)
    then show ?thesis by (simp only: drop_and from_little_and) (simp add: n clamp_nth and.assoc and_ff)
  qed
  have 3: "drop_bit 6 (fromLittle (drop 9 key)) AND 0x3f03fff = drop_bit 6 (fromLittle (drop 9 (rfc_clamp key))) AND 0x3ffffff"
  proof -
    have "push_bit 6 (0x3f03fff :: u32) = fromLittle [0xc0, 0xff, 0x0f, 0xfc]" "push_bit 6 (0x3ffffff :: u32) = fromLittle [0xc0, 0xff, 0xff, 0xff]"
      by (simp_all add: fromLittle_def)
    then show ?thesis by (simp only: drop_and from_little_and) (simp add: n clamp_nth and.assoc and_ff)
  qed
  have 4: "drop_bit 8 (fromLittle (drop 12 key)) AND 0x00fffff = drop_bit 8 (fromLittle (drop 12 (rfc_clamp key)))"
  proof -
    have "push_bit 8 (0x00fffff :: u32) = fromLittle [0x00, 0xff, 0xff, 0x0f]" "push_bit 8 (0x0ffffff :: u32) = fromLittle [0x00, 0xff, 0xff, 0xff]"
      by (simp_all add: fromLittle_def)
    then show ?thesis
      by (subst top_limb [of "fromLittle (drop 12 (rfc_clamp key))"]) (simp only: drop_and from_little_and, simp add: n clamp_nth and.assoc and_ff)
  qed
  show ?thesis by (simp only: poly1305_init_def poly1305.select_convs load_limbs_def m 1 2 3 4)
qed

lemma r_ok_init: "length key = 32 \<Longrightarrow> r_ok (po_r (poly1305_init buffer key))"
  using u32_less [of "fromLittle (drop 12 (rfc_clamp key))"]
  by (simp add: poly1305_init_r r_ok_def all_less_5 load_limbs_def unat_low26 unat_drop less_mult_imp_div_less)

lemma poly1305_init_pad: "length key = 32 \<Longrightarrow> wval (po_pad (poly1305_init buffer key)) = le_val (bslice 16 16 key)"
  by (subst le_val_16) (simp_all add: poly1305_init_def wval_list unat_fromLittle nth_bslice)

section \<open>Streaming\<close>

lemma poly1305_blocks_absorb: "poly1305_blocks st m = st \<lparr> po_h := absorb 16 (poly1305_block (poly1305_hibit (po_final st)) (po_r st)) (po_h st) m \<rparr>"
proof (induction st m rule: poly1305_blocks.induct)
  case (1 st m)
  show ?case
  proof (cases "length m < 16")
    case True
    then show ?thesis by (subst poly1305_blocks.simps) (simp add: absorb_short)
  next
    case False
    then show ?thesis using 1 by (subst poly1305_blocks.simps) (simp add: absorb_nth [of 16 m])
  qed
qed

text \<open>A state stands for the message fed since its initialisation.\<close>

definition poly1305_rep :: "u32 list \<Rightarrow> u32 list \<Rightarrow> poly1305 \<Rightarrow> bytes \<Rightarrow> bool" where
  "poly1305_rep r pad st msg \<longleftrightarrow> po_r st = r \<and> po_pad st = pad \<and> \<not> po_final st \<and> length (po_buffer st) = 16 \<and>
     po_leftover st = length msg mod 16 \<and> take (po_leftover st) (po_buffer st) = rest_of 16 msg \<and>
     po_h st = absorb 16 (poly1305_block (poly1305_hibit False) r) (replicate 5 0) msg"

lemma length_buffer_put: "i + length bs \<le> length buffer \<Longrightarrow> length (buffer_put i bs buffer) = length buffer"
  by (simp add: buffer_put_def)

lemma poly1305_tail_rep:
  assumes "poly1305_rep r pad st msg" "po_leftover st = 0"
  shows "poly1305_rep r pad (poly1305_tail st m) (msg @ m)"
proof -
  let ?f = "poly1305_block (poly1305_hibit False) r"
  have w: "length m - length m mod 16 = 16 * (length m div 16)" by (simp add: minus_mod_eq_mult_div)
  have r: "rest_of 16 msg = []" using assms by (auto simp: poly1305_rep_def)
  have m0: "length msg mod 16 = 0" using assms by (auto simp: poly1305_rep_def)
  have h: "absorb 16 ?f (replicate 5 0) (msg @ m) = absorb 16 ?f (po_h st) m"
    using assms(1) absorb_append [of 16 ?f "replicate 5 0" msg m] by (simp add: r poly1305_rep_def)
  have re: "rest_of 16 (msg @ m) = rest_of 16 m" using rest_of_append [of 16 msg m] by (simp add: r)
  have l: "length (msg @ m) mod 16 = length m mod 16" using m0 by (metis add_0 length_append mod_add_left_eq)
  define st1 where "st1 = st \<lparr> po_h := absorb 16 ?f (po_h st) m \<rparr>"
  have b: "(if length m \<ge> 16 then poly1305_blocks st (take (length m - length m mod 16) m) else st) = st1"
    using assms(1) absorb_full [of 16 ?f "po_h st" m] by (simp add: w poly1305_blocks_absorb poly1305_rep_def st1_def absorb_short)
  have d: "(if length m \<ge> 16 then drop (length m - length m mod 16) m else m) = rest_of 16 m" by (simp add: w rest_of_def)
  have t: "poly1305_tail st m = (if rest_of 16 m \<noteq> [] then st1 \<lparr> po_buffer := buffer_put 0 (rest_of 16 m) (po_buffer st), po_leftover := length (rest_of 16 m) \<rparr> else st1)"
    unfolding poly1305_tail_def Let_def b d using assms(2) by (simp add: st1_def)
  have lr: "length (rest_of 16 m) = length m mod 16" "length (rest_of 16 m) < 16" by (simp_all add: length_rest_of)
  show ?thesis unfolding t using assms lr
    by (auto simp: poly1305_rep_def h re l [unfolded length_append] st1_def buffer_put_def)
qed

lemma poly1305_update_rep:
  assumes "poly1305_rep r pad st msg" shows "poly1305_rep r pad (poly1305_update m st) (msg @ m)"
proof (cases "po_leftover st = 0")
  case True
  then show ?thesis using poly1305_tail_rep [OF assms] by (simp add: poly1305_update_def)
next
  case False
  let ?f = "poly1305_block (poly1305_hibit False) r" and ?l = "po_leftover st"
  define want where "want = min (16 - ?l) (length m)"
  define d where "d = take want m"
  have l: "?l = length msg mod 16" "?l < 16" and lb: "length (po_buffer st) = 16" and tk: "take ?l (po_buffer st) = rest_of 16 msg"
    and h: "po_h st = absorb 16 ?f (replicate 5 0) msg"
    using assms unfolding poly1305_rep_def by (blast, simp, blast+)
  have lr: "length (rest_of 16 msg) = ?l" using l by (simp add: length_rest_of)
  have ld: "length d = want" "want \<le> 16 - ?l" by (simp_all add: d_def want_def)
  define buf where "buf = buffer_put ?l d (po_buffer st)"
  have lbuf: "length buf = 16" unfolding buf_def using lb ld l(2) by (simp add: length_buffer_put)
  have tb: "take (?l + want) buf = rest_of 16 msg @ d" using lb ld l(2) by (simp add: buf_def buffer_put_def tk lr)
  have ab: "absorb 16 ?f (replicate 5 0) (msg @ d) = absorb 16 ?f (po_h st) (rest_of 16 msg @ d)" unfolding h by (rule absorb_append) simp
  have re: "rest_of 16 (msg @ d) = rest_of 16 (rest_of 16 msg @ d)" by (rule rest_of_append) simp
  have cl: "length (msg @ d) mod 16 = (?l + want) mod 16" using l(1) ld by (simp add: mod_add_left_eq)
  have u: "poly1305_update m st = (let st1 = st \<lparr> po_buffer := buf, po_leftover := ?l + want \<rparr>
      in if ?l + want < 16 then st1 else poly1305_tail ((poly1305_blocks st1 buf) \<lparr> po_leftover := 0 \<rparr>) (drop want m))"
    using False by (simp add: poly1305_update_def Let_def buf_def d_def want_def)
  show ?thesis
  proof (cases "?l + want < 16")
    case True
    then have "want = length m" by (auto simp: want_def)
    then have dm: "d = m" by (simp add: d_def)
    have s: "length (rest_of 16 msg @ d) < 16" using True lr ld by simp
    have "poly1305_rep r pad (st \<lparr> po_buffer := buf, po_leftover := ?l + want \<rparr>) (msg @ d)"
      using True assms lbuf tb cl absorb_short [OF s, of ?f "po_h st"] rest_of_short [OF s] ab re by (simp add: poly1305_rep_def)
    then show ?thesis using True by (simp add: u Let_def dm)
  next
    case full: False
    then have e: "?l + want = 16" using ld(2) l(2) by simp
    have bm: "buf = rest_of 16 msg @ d" using tb lbuf by (simp add: e)
    let ?st = "(poly1305_blocks (st \<lparr> po_buffer := buf, po_leftover := ?l + want \<rparr>) buf) \<lparr> po_leftover := 0 \<rparr>"
    have "rest_of 16 (msg @ d) = []" unfolding re bm [symmetric] by (simp add: rest_of_def lbuf)
    moreover have "length (msg @ d) mod 16 = 0" unfolding cl e by simp
    moreover have "absorb 16 ?f (po_h st) buf = absorb 16 ?f (replicate 5 0) (msg @ d)" unfolding ab bm ..
    ultimately have "poly1305_rep r pad ?st (msg @ d)" using assms lbuf
      by (simp add: poly1305_rep_def poly1305_blocks_absorb)
    then have "poly1305_rep r pad (poly1305_tail ?st (drop want m)) ((msg @ d) @ drop want m)" by (rule poly1305_tail_rep) simp
    then show ?thesis using full by (simp add: u Let_def d_def)
  qed
qed

interpretation poly: streaming "\<lambda>d st. Some (poly1305_update d st)" "poly1305_rep r pad"
  by unfold_locales (simp add: poly1305_update_rep)

lemma poly1305_rep_init:
  "length buffer = 16 \<Longrightarrow> poly1305_rep (po_r (poly1305_init buffer key)) (po_pad (poly1305_init buffer key)) (poly1305_init buffer key) []"
  by (simp add: poly1305_rep_def poly1305_init_def rest_of_def absorb_def)

definition acc_rel :: "u32 list \<Rightarrow> nat \<Rightarrow> bool" where
  "acc_rel h a \<longleftrightarrow> h_ok h \<and> limbs h mod P1305 = a"

lemma acc_rel_step:
  assumes "r_ok r" "acc_rel h a" "length x = 16"
  shows "acc_rel (poly1305_block (poly1305_hibit False) r h x) (rfc_step (limbs r) a x)"
  using poly1305_block_ok [OF assms(1) _ assms(3), of h False] assms(2,3)
  by (simp add: acc_rel_def rfc_step_def le_val_append hibit_val_def add.assoc)

lemma acc_rel_last:
  assumes "r_ok r" "acc_rel h a" "length x < 16"
  shows "acc_rel (poly1305_block (poly1305_hibit True) r h (x @ 1 # replicate (16 - (length x + 1)) 0)) (rfc_step (limbs r) a x)"
proof -
  have z: "le_val (replicate n 0) = 0" for n by (induction n) simp_all
  have "le_val (x @ 1 # replicate (16 - (length x + 1)) 0) = le_val (x @ [1])" by (simp add: le_val_append z)
  moreover have "length (x @ 1 # replicate (16 - (length x + 1)) 0) = 16" using assms(3) by simp
  ultimately show ?thesis using poly1305_block_ok [OF assms(1), of h "x @ 1 # replicate (16 - (length x + 1)) 0" True] assms(2)
    by (simp add: acc_rel_def rfc_step_def hibit_val_def)
qed

lemma poly1305_finish_tag:
  assumes "poly1305_rep r pad st msg" "r_ok r"
  defines "acc \<equiv> absorb 16 (rfc_step (limbs r)) 0 msg"
  shows "length (fst (poly1305_finish st)) = 16 \<and> le_val (fst (poly1305_finish st)) =
    ((if rest_of 16 msg = [] then acc else rfc_step (limbs r) acc (rest_of 16 msg)) + wval pad) mod 2 ^ 128"
proof -
  let ?f = "poly1305_block (poly1305_hibit False) r" and ?x = "rest_of 16 msg"
  have z: "acc_rel (replicate 5 0) 0" by (simp add: acc_rel_def h_ok_def limbs_def)
  have a: "acc_rel (po_h st) acc" using absorb_sim [of acc_rel 16 ?f "rfc_step (limbs r)", OF acc_rel_step [OF assms(2)] z, of msg] assms(1)
    by (simp add: poly1305_rep_def acc_def)
  have l: "po_leftover st = length ?x" "length ?x < 16" using assms(1) by (simp_all add: poly1305_rep_def length_rest_of)
  have t: "take (po_leftover st) (po_buffer st) = ?x" and p: "po_pad st = pad" "po_r st = r" using assms(1) unfolding poly1305_rep_def by blast+
  define h where "h = (if ?x = [] then po_h st else poly1305_block (poly1305_hibit True) r (po_h st) (?x @ 1 # replicate (16 - (length ?x + 1)) 0))"
  have len: "length (?x @ 1 # replicate (16 - (length ?x + 1)) 0) = 16" using l(2) by simp
  have "fst (poly1305_finish st) = poly1305_emit h pad"
  proof (cases "?x = []")
    case True
    then show ?thesis using l(1) p by (simp add: poly1305_finish_def h_def)
  next
    case False
    then show ?thesis using l(1) p t len
      by (simp add: poly1305_finish_def Let_def poly1305_blocks_absorb h_def absorb_one)
  qed
  moreover have "acc_rel h (if ?x = [] then acc else rfc_step (limbs r) acc ?x)" using a acc_rel_last [OF assms(2) a l(2)] by (simp add: h_def)
  ultimately show ?thesis using poly1305_emit_ok [of h pad] by (simp add: acc_rel_def)
qed

text \<open>
  C25: the Poly1305 of the Noise library, with its 26-bit limbs in 32-bit words and 64-bit products, computes the tag of RFC 8439: for every
  key and every message fed in any pieces it returns 16 bytes that are, in little endian, the polynomial of the blocks in the clamped key modulo
  \<open>2\<^sup>1\<^sup>3\<^sup>0 - 5\<close>, plus the second half of the key modulo \<open>2\<^sup>1\<^sup>2\<^sup>8\<close>. No intermediate sum overflows, whatever the buffer held before.
\<close>

theorem poly1305_is_rfc8439:
  assumes "length key = 32" "length buffer = 16"
  shows "length (fst (poly1305_finish (fold poly1305_update pieces (poly1305_init buffer key)))) = 16 \<and>
    le_val (fst (poly1305_finish (fold poly1305_update pieces (poly1305_init buffer key)))) = rfc_poly1305 key (concat pieces)"
proof -
  let ?i = "poly1305_init buffer key"
  have "poly1305_rep (po_r ?i) (po_pad ?i) (fold poly1305_update pieces ?i) (concat pieces)"
    using poly.updates_rep [OF poly1305_rep_init [OF assms(2), of key], of pieces] by (simp add: updates_total)
  note t = poly1305_finish_tag [OF this r_ok_init [OF assms(1)]]
  have "limbs (po_r ?i) = le_val (rfc_clamp key)" using assms(1) by (simp add: poly1305_init_r load_limbs_value rfc_clamp_def)
  then show ?thesis using t poly1305_init_pad [OF assms(1), of buffer] by (simp add: rfc_poly1305_def Let_def)
qed

theorem poly1305_is_rfc8439_witness:
  "le_val (fst (poly1305_finish (fold poly1305_update [[1, 2, 3], [], replicate 20 9] (poly1305_init (replicate 16 0x55) (replicate 32 0xFF))))) =
     rfc_poly1305 (replicate 32 0xFF) ([1, 2, 3] @ replicate 20 9)"
  using poly1305_is_rfc8439 [of "replicate 32 0xFF" "replicate 16 0x55" "[[1, 2, 3], [], replicate 20 9]"] by simp

end
