(* ===== verification/Noise_Aead.thy ===== *)
theory Noise_Aead
  imports Noise_Poly1305
begin

text \<open>
  ChaCha20-Poly1305 as the Noise library uses it (\<open>noise_ref/src/backend/ref/cipher-chachapoly.c\<close>), over the stream cipher and the authenticator.
  A state keeps the buffer of its last authentication; the results do not depend on it. The AEAD satisfies \<open>aead_ok\<close>, the law
  the cipher states and the sessions rely on.
\<close>

section \<open>The code\<close>

record chachapoly =
  cp_chacha :: chacha_ctx
  cp_poly1305 :: poly1305
  cp_block :: bytes

definition noise_chachapoly_init_key :: "bytes \<Rightarrow> chachapoly \<Rightarrow> chachapoly" where
  "noise_chachapoly_init_key key st = st \<lparr> cp_chacha := chacha_keysetup key 256 \<rparr>"

definition PUT_UINT64 :: "u64 \<Rightarrow> bytes" where
  "PUT_UINT64 v = map (\<lambda>i. ucast (drop_bit (8 * i) v)) [0..<8]"

definition noise_chachapoly_setup :: "u64 \<Rightarrow> chachapoly \<Rightarrow> chachapoly" where
  "noise_chachapoly_setup n st =
     (let chacha = chacha_ivsetup (PUT_UINT64 n) None (cp_chacha st);
          (block, chacha) = chacha_encrypt_bytes chacha (replicate 64 0)
      in st \<lparr> cp_chacha := chacha, cp_poly1305 := poly1305_init (po_buffer (cp_poly1305 st)) block, cp_block := replicate 64 0 \<rparr>)"

definition poly_feed :: "bytes \<Rightarrow> chachapoly \<Rightarrow> chachapoly" where
  "poly_feed data st = st \<lparr> cp_poly1305 := poly1305_update data (cp_poly1305 st) \<rparr>"

definition noise_chachapoly_pad_auth :: "nat \<Rightarrow> chachapoly \<Rightarrow> chachapoly" where
  "noise_chachapoly_pad_auth len st = (if len mod 16 \<noteq> 0 then poly_feed (replicate (16 - len mod 16) 0) st else st)"

definition noise_chachapoly_auth_lengths :: "nat \<Rightarrow> nat \<Rightarrow> chachapoly \<Rightarrow> chachapoly" where
  "noise_chachapoly_auth_lengths ad_len data_len st =
     (let block = PUT_UINT64 (word_of_nat ad_len) @ PUT_UINT64 (word_of_nat data_len)
      in poly_feed block (st \<lparr> cp_block := block @ drop 16 (cp_block st) \<rparr>))"

definition auth_ad :: "bytes \<Rightarrow> chachapoly \<Rightarrow> chachapoly" where
  "auth_ad ad st = (if ad \<noteq> [] then noise_chachapoly_pad_auth (length ad) (poly_feed ad st) else st)"

definition auth_data :: "bytes \<Rightarrow> bytes \<Rightarrow> chachapoly \<Rightarrow> bytes \<times> chachapoly" where
  "auth_data ad data st =
     (let st = noise_chachapoly_pad_auth (length data) (poly_feed data st);
          st = noise_chachapoly_auth_lengths (length ad) (length data) st;
          (mac, poly) = poly1305_finish (cp_poly1305 st)
      in (mac, st \<lparr> cp_poly1305 := poly \<rparr>))"

definition noise_chachapoly_encrypt :: "u64 \<Rightarrow> bytes \<Rightarrow> bytes \<Rightarrow> chachapoly \<Rightarrow> bytes \<times> chachapoly" where
  "noise_chachapoly_encrypt n ad data st =
     (let st = auth_ad ad (noise_chachapoly_setup n st);
          (data, chacha) = chacha_encrypt_bytes (cp_chacha st) data;
          (mac, st) = auth_data ad data (st \<lparr> cp_chacha := chacha \<rparr>)
      in (data @ mac, st))"

definition noise_is_equal :: "bytes \<Rightarrow> bytes \<Rightarrow> bool" where
  "noise_is_equal s1 s2 = (let temp = fold (\<lambda>(a, b) t. t OR (a XOR b)) (zip s1 s2) 0 in (0x0100 - uint temp) div 256 \<noteq> 0)"

text \<open>\<open>len\<close> is the length of the data without the tag, as in the code.\<close>

definition noise_chachapoly_decrypt :: "u64 \<Rightarrow> bytes \<Rightarrow> bytes \<Rightarrow> nat \<Rightarrow> chachapoly \<Rightarrow> bytes option \<times> chachapoly" where
  "noise_chachapoly_decrypt n ad data len st =
     (let st = auth_ad ad (noise_chachapoly_setup n st);
          (mac, st) = auth_data ad (take len data) st;
          st = st \<lparr> cp_block := mac @ drop 16 (cp_block st) \<rparr>
      in if \<not> noise_is_equal (take 16 (cp_block st)) (bslice len 16 data) then (None, st)
         else let (plain, chacha) = chacha_encrypt_bytes (cp_chacha st) (take len data)
              in (Some plain, st \<lparr> cp_chacha := chacha \<rparr>))"

definition noise_chachapoly_new :: chachapoly where
  "noise_chachapoly_new = \<lparr> cp_chacha = replicate 16 0, cp_poly1305 = \<lparr> po_r = replicate 5 0, po_h = replicate 5 0, po_pad = replicate 4 0,
     po_leftover = 0, po_buffer = replicate 16 0, po_final = False \<rparr>, cp_block = replicate 64 0 \<rparr>"

definition chachapoly_aead :: aead where
  "chachapoly_aead = \<lparr>
     ae_seal = (\<lambda>k n ad p. Some (fst (noise_chachapoly_encrypt n ad p (noise_chachapoly_init_key k noise_chachapoly_new)))),
     ae_open = (\<lambda>k n ad c. fst (noise_chachapoly_decrypt n ad c (length c - 16) (noise_chachapoly_init_key k noise_chachapoly_new))) \<rparr>"

section \<open>Comparing tags\<close>

lemma or_fold_zero: "fold (\<lambda>(a, b) t. t OR (a XOR b)) xs (t :: u8) = 0 \<longleftrightarrow> t = 0 \<and> (\<forall>(a, b) \<in> set xs. a = b)"
proof (induction xs arbitrary: t)
  case (Cons x xs)
  have "t OR (a XOR b) = 0 \<longleftrightarrow> t = 0 \<and> a = b" for a b :: u8
    by (auto simp: or_eq_0_iff bit_eq_iff bit_simps)
  then show ?case using Cons by (auto split: prod.splits)
qed simp

lemma noise_is_equal_iff: "length a = length b \<Longrightarrow> noise_is_equal a b \<longleftrightarrow> a = b"
proof -
  assume l: "length a = length b"
  let ?t = "fold (\<lambda>(a, b) t. t OR (a XOR b)) (zip a b) (0 :: u8)"
  have t: "?t = 0 \<longleftrightarrow> a = b" using l by (simp add: or_fold_zero) (auto simp: set_zip list_eq_iff_nth_eq)
  have "0 \<le> uint ?t" "uint ?t < 256" using unsigned_less [of ?t] by simp_all
  moreover have "(0x0100 - u) div 256 \<noteq> 0 \<longleftrightarrow> u = 0" if "0 \<le> u" "u < 256" for u :: int
    using that by (cases "u = 0") (simp_all add: div_pos_pos_trivial)
  ultimately have "noise_is_equal a b \<longleftrightarrow> uint ?t = 0" by (simp add: noise_is_equal_def Let_def)
  then show ?thesis using t by (simp add: uint_0_iff)
qed

section \<open>The tag\<close>

definition pad16 :: "bytes \<Rightarrow> bytes" where
  "pad16 x = x @ replicate ((16 - length x mod 16) mod 16) 0"

text \<open>What RFC 8439 authenticates, and the one-time key: the first half of the first block of the key stream.\<close>

definition mac_data :: "bytes \<Rightarrow> bytes \<Rightarrow> bytes" where
  "mac_data ad c = pad16 ad @ pad16 c @ PUT_UINT64 (word_of_nat (length ad)) @ PUT_UINT64 (word_of_nat (length c))"

definition nonce_ctx :: "bytes \<Rightarrow> u64 \<Rightarrow> chacha_ctx" where
  "nonce_ctx k n = chacha_ivsetup (PUT_UINT64 n) None (chacha_keysetup k 256)"

definition one_time_key :: "bytes \<Rightarrow> u64 \<Rightarrow> bytes" where
  "one_time_key k n = take 32 (fst (chacha_encrypt_bytes (nonce_ctx k n) (replicate 64 0)))"

definition body_ctx :: "bytes \<Rightarrow> u64 \<Rightarrow> chacha_ctx" where
  "body_ctx k n = snd (chacha_encrypt_bytes (nonce_ctx k n) (replicate 64 0))"

definition keyed :: "bytes \<Rightarrow> chachapoly \<Rightarrow> bool" where
  "keyed k st \<longleftrightarrow> cp_chacha st = chacha_keysetup k 256 \<and> length (po_buffer (cp_poly1305 st)) = 16"

text \<open>A state after some input to the authenticator.\<close>

definition fed :: "bytes \<Rightarrow> u64 \<Rightarrow> chachapoly \<Rightarrow> bytes \<Rightarrow> bool" where
  "fed k n st msg \<longleftrightarrow> (\<exists>buffer. length buffer = 16 \<and> poly1305_rep (po_r (poly1305_init buffer (one_time_key k n)))
     (po_pad (poly1305_init buffer (one_time_key k n))) (cp_poly1305 st) msg)"

lemma po_init_buffer: "po_r (poly1305_init b key) = po_r (poly1305_init b' key)" "po_pad (poly1305_init b key) = po_pad (poly1305_init b' key)"
  by (simp_all add: poly1305_init_def)

lemma fed_feed: "fed k n st msg \<Longrightarrow> fed k n (poly_feed d st) (msg @ d)"
  by (auto simp: fed_def poly_feed_def intro: poly1305_update_rep)

lemma fed_other [simp]: "fed k n (st \<lparr> cp_chacha := x \<rparr>) msg = fed k n st msg" "fed k n (st \<lparr> cp_block := y \<rparr>) msg = fed k n st msg"
  by (simp_all add: fed_def)

lemma fed_pad: "fed k n st (msg @ x) \<Longrightarrow> fed k n (noise_chachapoly_pad_auth (length x) st) (msg @ pad16 x)"
  using fed_feed [of k n st "msg @ x" "replicate (16 - length x mod 16) 0"]
  by (cases "length x mod 16 = 0") (auto simp: noise_chachapoly_pad_auth_def pad16_def)

lemma poly1305_init_take: "length key = 64 \<Longrightarrow> poly1305_init b (take 32 key) = poly1305_init b key"
  by (simp add: poly1305_init_def fromLittle_def nth_drop)

lemma setup_ok:
  assumes "keyed k st"
  shows "fed k n (noise_chachapoly_setup n st) []" "cp_chacha (noise_chachapoly_setup n st) = body_ctx k n"
proof -
  have "noise_chachapoly_setup n st = st \<lparr> cp_chacha := body_ctx k n, cp_poly1305 := poly1305_init (po_buffer (cp_poly1305 st)) (one_time_key k n),
      cp_block := replicate 64 0 \<rparr>"
    using assms by (simp add: noise_chachapoly_setup_def keyed_def body_ctx_def one_time_key_def nonce_ctx_def Let_def case_prod_unfold poly1305_init_take)
  then show "fed k n (noise_chachapoly_setup n st) []" "cp_chacha (noise_chachapoly_setup n st) = body_ctx k n"
    using assms poly1305_rep_init [of "po_buffer (cp_poly1305 st)" "one_time_key k n"] by (auto simp: fed_def keyed_def)
qed

lemma feed_chacha [simp]: "cp_chacha (poly_feed d st) = cp_chacha st"
  by (simp add: poly_feed_def)

lemma pad_chacha [simp]: "cp_chacha (noise_chachapoly_pad_auth l st) = cp_chacha st"
  by (simp add: noise_chachapoly_pad_auth_def)

lemma auth_ad_ok:
  assumes "fed k n st []" shows "fed k n (auth_ad ad st) (pad16 ad)" "cp_chacha (auth_ad ad st) = cp_chacha st"
  using assms fed_pad [of k n "poly_feed ad st" "[]" ad] fed_feed [OF assms, of ad] by (auto simp: auth_ad_def pad16_def)

lemma auth_data_ok:
  assumes "fed k n st (pad16 ad)"
  shows "length (fst (auth_data ad c st)) = 16" "le_val (fst (auth_data ad c st)) = rfc_poly1305 (one_time_key k n) (mac_data ad c)"
    "cp_chacha (snd (auth_data ad c st)) = cp_chacha st"
proof -
  define st1 where "st1 = noise_chachapoly_auth_lengths (length ad) (length c) (noise_chachapoly_pad_auth (length c) (poly_feed c st))"
  have "fed k n (noise_chachapoly_pad_auth (length c) (poly_feed c st)) (pad16 ad @ pad16 c)" by (intro fed_pad fed_feed assms)
  then have "fed k n st1 (mac_data ad c)"
    using fed_feed unfolding st1_def noise_chachapoly_auth_lengths_def Let_def mac_data_def by (metis append_assoc fed_other(2))
  then obtain b where b: "length b = 16" "poly1305_rep (po_r (poly1305_init b (one_time_key k n))) (po_pad (poly1305_init b (one_time_key k n)))
      (cp_poly1305 st1) (mac_data ad c)" by (auto simp: fed_def)
  have k: "length (one_time_key k n) = 32" by (simp add: one_time_key_def)
  have a: "auth_data ad c st = (fst (poly1305_finish (cp_poly1305 st1)), st1 \<lparr> cp_poly1305 := snd (poly1305_finish (cp_poly1305 st1)) \<rparr>)"
    by (simp add: auth_data_def Let_def st1_def case_prod_unfold)
  show "cp_chacha (snd (auth_data ad c st)) = cp_chacha st" by (simp add: a st1_def noise_chachapoly_auth_lengths_def Let_def)
  have l: "limbs (po_r (poly1305_init b (one_time_key k n))) = le_val (rfc_clamp (one_time_key k n))"
    by (simp add: poly1305_init_r k load_limbs_value rfc_clamp_def)
  note t = poly1305_finish_tag [OF b(2) r_ok_init [OF k], unfolded l poly1305_init_pad [OF k]]
  show "length (fst (auth_data ad c st)) = 16" "le_val (fst (auth_data ad c st)) = rfc_poly1305 (one_time_key k n) (mac_data ad c)"
    using t by (simp_all add: a rfc_poly1305_def Let_def)
qed

text \<open>A tag is determined by its value.\<close>

lemma le_val_inj: "length a = length b \<Longrightarrow> le_val a = le_val b \<Longrightarrow> a = b"
proof (induction a b rule: list_induct2)
  case (Cons x xs y ys)
  have "unat x < 256" "unat y < 256" using unat_byte(1) [of x] unat_byte(1) [of y] by simp_all
  then have "le_val (x # xs) mod 256 = unat x" "le_val (y # ys) mod 256 = unat y" by simp_all
  then have "unat x = unat y" using Cons.prems by metis
  moreover from this have "le_val xs = le_val ys" using Cons.prems by simp
  ultimately have "unat x = unat y" "le_val xs = le_val ys" by simp_all
  then show ?case using Cons.IH by (simp add: word_unat_eq_iff)
qed simp

section \<open>Sealing and opening\<close>

definition seal_tag :: "bytes \<Rightarrow> u64 \<Rightarrow> bytes \<Rightarrow> bytes \<Rightarrow> bytes" where
  "seal_tag k n ad c = fst (auth_data ad c (auth_ad ad (noise_chachapoly_setup n (noise_chachapoly_init_key k noise_chachapoly_new))))"

lemma keyed_new: "keyed k (noise_chachapoly_init_key k noise_chachapoly_new)"
  by (simp add: keyed_def noise_chachapoly_init_key_def noise_chachapoly_new_def)

lemma keyed_init: "length (po_buffer (cp_poly1305 st)) = 16 \<Longrightarrow> keyed k (noise_chachapoly_init_key k st)"
  by (simp add: keyed_def noise_chachapoly_init_key_def)

lemma tag_any_state:
  assumes "fed k n st (pad16 ad)" shows "fst (auth_data ad c st) = seal_tag k n ad c"
proof (rule le_val_inj)
  have "fed k n (auth_ad ad (noise_chachapoly_setup n (noise_chachapoly_init_key k noise_chachapoly_new))) (pad16 ad)"
    by (intro auth_ad_ok setup_ok keyed_new)
  note t = auth_data_ok [OF this, of c, folded seal_tag_def]
  show "length (fst (auth_data ad c st)) = length (seal_tag k n ad c)" "le_val (fst (auth_data ad c st)) = le_val (seal_tag k n ad c)"
    using t auth_data_ok [OF assms, of c] by simp_all
qed

lemma encrypt_sealed:
  assumes "keyed k st"
  shows "fst (noise_chachapoly_encrypt n ad p st) = fst (chacha_encrypt_bytes (body_ctx k n) p) @ seal_tag k n ad (fst (chacha_encrypt_bytes (body_ctx k n) p))"
proof -
  note s = setup_ok [OF assms, of n]
  note a = auth_ad_ok [OF s(1), of ad, unfolded s(2)]
  show ?thesis using tag_any_state [of k n _ ad] a by (simp add: noise_chachapoly_encrypt_def Let_def case_prod_unfold)
qed

lemma decrypt_opened:
  assumes "keyed k st" "length tag = 16"
  shows "fst (noise_chachapoly_decrypt n ad (c @ tag) (length c) st) =
    (if tag = seal_tag k n ad c then Some (fst (chacha_encrypt_bytes (body_ctx k n) c)) else None)"
proof -
  note s = setup_ok [OF assms(1), of n]
  note a = auth_ad_ok [OF s(1), of ad, unfolded s(2)]
  have l: "length (seal_tag k n ad c) = 16" using auth_data_ok(1) [OF a(1), of c] by (simp add: tag_any_state [OF a(1)])
  have b: "bslice (length c) 16 (c @ tag) = tag" using assms(2) by (simp add: bslice_def)
  show ?thesis using a auth_data_ok(3) [OF a(1), of c] tag_any_state [OF a(1), of c] noise_is_equal_iff [of "seal_tag k n ad c" tag] l assms(2)
    by (auto simp: noise_chachapoly_decrypt_def Let_def case_prod_unfold b)
qed

lemma seal_tag_rfc: "length (seal_tag k n ad c) = 16" "le_val (seal_tag k n ad c) = rfc_poly1305 (one_time_key k n) (mac_data ad c)"
  using auth_data_ok(1,2) [OF auth_ad_ok(1) [OF setup_ok(1) [OF keyed_new]]] by (simp_all add: seal_tag_def)

lemma sealed_message:
  assumes "keyed k st" "keyed k st'"
  shows "\<exists>c tag. fst (noise_chachapoly_encrypt n ad p st) = c @ tag \<and> length c = length p \<and> length tag = 16 \<and>
     le_val tag = rfc_poly1305 (one_time_key k n) (mac_data ad c) \<and>
     (\<forall>tag'. length tag' = 16 \<longrightarrow> fst (noise_chachapoly_decrypt n ad (c @ tag') (length c) st') = (if tag' = tag then Some p else None))"
proof -
  define c where "c = fst (chacha_encrypt_bytes (body_ctx k n) p)"
  have "fst (noise_chachapoly_encrypt n ad p st) = c @ seal_tag k n ad c"
    unfolding c_def by (rule encrypt_sealed [OF assms(1)])
  moreover have "fst (chacha_encrypt_bytes (body_ctx k n) c) = p" by (simp add: c_def chacha_involution)
  moreover have "length c = length p" by (simp add: c_def)
  ultimately show ?thesis using seal_tag_rfc decrypt_opened [OF assms(2)] by metis
qed

lemma chachapoly_aead_ok: "aead_ok chachapoly_aead"
proof -
  have "\<exists>c. ae_seal chachapoly_aead k n ad p = Some c \<and> length c = length p + 16 \<and> ae_open chachapoly_aead k n ad c = Some p" for k n ad p
    using sealed_message [OF keyed_new keyed_new, of n ad p k] by (auto simp: chachapoly_aead_def)
  then show ?thesis by (simp add: aead_ok_def NOISE_MAC_LEN_def)
qed

text \<open>
  C26: ChaCha20-Poly1305 of the Noise library, between two cipher states with the same key whose buffers hold anything: a sealed message is as long as the
  text plus 16 bytes, its tag is the one of RFC 8439 over the associated data, the ciphertext and both lengths under the one-time key, opening it with the same nonce
  and associated data gives the text back, and with any other tag it is refused.
\<close>

theorem chachapoly_seals:
  assumes "length (po_buffer (cp_poly1305 st)) = 16" "length (po_buffer (cp_poly1305 st')) = 16"
  shows "\<exists>c tag. fst (noise_chachapoly_encrypt n ad p (noise_chachapoly_init_key k st)) = c @ tag \<and> length c = length p \<and> length tag = 16 \<and>
     le_val tag = rfc_poly1305 (one_time_key k n) (mac_data ad c) \<and>
     (\<forall>tag'. length tag' = 16 \<longrightarrow> fst (noise_chachapoly_decrypt n ad (c @ tag') (length c) (noise_chachapoly_init_key k st')) = (if tag' = tag then Some p else None))"
  by (rule sealed_message [OF keyed_init [OF assms(1)] keyed_init [OF assms(2)]])

definition used_state :: chachapoly where
  "used_state = noise_chachapoly_new \<lparr> cp_chacha := replicate 16 5, cp_poly1305 := (cp_poly1305 noise_chachapoly_new) \<lparr> po_buffer := replicate 16 0xAA, po_leftover := 3 \<rparr> \<rparr>"

theorem chachapoly_seals_witness:
  "\<exists>c tag. fst (noise_chachapoly_encrypt 7 [1, 2] [3, 4, 5] (noise_chachapoly_init_key (replicate 32 9) noise_chachapoly_new)) = c @ tag \<and>
     length c = 3 \<and> length tag = 16 \<and> le_val tag = rfc_poly1305 (one_time_key (replicate 32 9) 7) (mac_data [1, 2] c) \<and>
     fst (noise_chachapoly_decrypt 7 [1, 2] (c @ tag) (length c) (noise_chachapoly_init_key (replicate 32 9) used_state)) = Some [3, 4, 5]"
proof -
  have "length (po_buffer (cp_poly1305 noise_chachapoly_new)) = 16" "length (po_buffer (cp_poly1305 used_state)) = 16"
    by (simp_all add: noise_chachapoly_new_def used_state_def)
  from chachapoly_seals [OF this, of 7 "[1, 2]" "[3, 4, 5]" "replicate 32 9"] show ?thesis by fastforce
qed

end
