(* ===== verification/Spec2Isabelle.thy ===== *)
theory Spec2Isabelle
  imports Packet_Codec Link_Registry Clock Gossip_Sync Mesh_Core Mailbox_Store Noise_Packet Courier Ota Lora_Trunk Node_Identity Noise_Session Noise_Link Ble_Transport Noise_Sha256 Noise_Aead
begin

text \<open>
  Verification of the Bitle mesh node firmware (\<open>main/\<close>, \<open>components/bitchat_utils\<close>, \<open>components/noise_ref\<close>).

  \<^bold>\<open>The program.\<close> A Bitle node relays BitChat packets between Bluetooth phones, other nodes and a LoRa radio. Transports
  (\<open>bitchat_ble.c\<close>, \<open>bitle_lora.c\<close>) register their links in \<open>bitle_link.c\<close> and hand received frames to \<open>bitle_mesh_inbound\<close>,
  which decodes them (\<open>packet_codec.c\<close>), drops duplicates, reassembles fragments, dispatches to the local services and
  relays with a lower TTL. The services are the gossip store (\<open>bitle_sync.c\<close>), the Noise sessions
  (\<open>noise_handshake.c\<close> over the vendored Noise library), the courier (\<open>bitle_courier.c\<close>) over the flash mailbox
  (\<open>bitle_store.c\<close>), and the firmware distribution (\<open>bitle_ota.c\<close>). Time comes from peers (\<open>bitchat_time.c\<close>),
  names and keys from \<open>nickname_manager.c\<close> and \<open>load_identity\<close>, hashing from \<open>bitle_hash.c\<close>.

  \<^bold>\<open>The theories.\<close> Each opens with what it holds; definitions carry the names of the C functions they translate.
  \<^item> \<open>Bitle_Prelude\<close>: machine integers, \<open>esp_err\<close>, big-endian fields, slot tables, \<open>find_index\<close> loops, shared lemmas and the
    collections \<open>slot_simps\<close> and others. \<open>Bitle_Interfaces\<close>: the contracts, as locales: \<open>handle_table\<close> (interpreted by the
    link registry), \<open>seen_cache\<close> and \<open>part_buffer\<close>, extended by \<open>part_table\<close> (the duplicate ring and the fragment pool
    of the mesh core; the receive slots of the LoRa trunk), \<open>mailbox\<close> (the flash store, used by the courier). \<open>Block_Hash\<close>:
    absorbing a message block by block, and the locale \<open>streaming\<close> of an update operation that represents the concatenation of its
    pieces (interpreted by SHA-256 and Poly1305).
  \<^item> \<open>Bitle_Hash\<close>: \<open>bitle_hash.c\<close> and its start-up test. \<open>Packet_Codec\<close>: \<open>packet_codec.c\<close>, decoding, encoding and the relay fingerprint: round trips in both
    directions, well-formedness of what is accepted, what the fingerprint ignores and binds.
  \<^item> \<open>Link_Registry\<close>: \<open>bitle_link.c\<close>; the table refines a finite map of bounded size and a broadcast reaches exactly the other links.
  \<^item> \<open>Ble_Transport\<close>: \<open>bitchat_ble.c\<close>; every event of the host keeps the registered links subscribed, outgoing links are bounded.
  \<^item> \<open>Clock\<close>: \<open>bitchat_time.c\<close>; bounds on what untrusted and infrastructure peers can do to the clock.
  \<^item> \<open>Gcs_Filter\<close>, \<open>Gossip_Sync\<close>: \<open>bitle_sync.c\<close>; the filter codec is a round trip, the store keeps its invariant over all reachable states, a
    replay contains nothing the requester has.
  \<^item> \<open>Mesh_Core\<close>: \<open>bitle_mesh.c\<close>; duplicates are silent, relays change the TTL only, floods end, fragments reassemble.
  \<^item> \<open>Mailbox_Store\<close>: \<open>bitle_store.c\<close> over a NOR flash partition; it refines a map with eviction and survives restarts.
    \<open>Courier\<close>: \<open>bitle_courier.c\<close>, proved against the locale \<open>mailbox\<close>.
  \<^item> \<open>Ota\<close>: \<open>bitle_ota.c\<close>; only signed, newer images are selected, a transfer between two nodes completes, and a
    manifest before the restart reopens the selected partition.
  \<^item> \<open>Lora_Trunk\<close>: \<open>bitle_lora.c\<close>, from admission through fragments and the radio task to reassembly.
  \<^item> \<open>Noise_Packet\<close>, \<open>Node_Identity\<close>, \<open>Noise_Session\<close>: \<open>noise_handshake.c\<close> and \<open>nickname_manager.c\<close>: signing and verifying packets, the
    keys and the name, sessions with their worker events. \<open>Noise_Cipher\<close>, \<open>Noise_Protocol\<close>: the parts of \<open>noise_ref\<close>
    the node uses (cipher, hash, key and symmetric states, the XX handshake). \<open>Noise_Link\<close>: the session layer
    instantiated with that library, and two nodes that complete a handshake.
  \<^item> \<open>Noise_Sha256\<close>: \<open>crypto/sha2/sha256.c\<close> and \<open>hash-sha256.c\<close>; the streaming code returns and is the hash of FIPS 180-4.
    \<open>Noise_Chacha\<close>, \<open>Noise_Poly1305\<close>: \<open>chacha.c\<close> and \<open>poly1305-donna\<close>; the cipher is an involution, the arithmetic on 26-bit limbs never
    overflows and is the authenticator of RFC 8439. \<open>Noise_Aead\<close>: \<open>cipher-chachapoly.c\<close>; a sealed message opens to its text and any
    other tag is refused. Below, \<open>library_prims_ok\<close> puts the hash and the cipher into the primitives of the sessions.

  \<^bold>\<open>Modelling.\<close> A static or heap structure is a record; an operation takes and returns it. C integers are words of
  their width, so that wrap-around is that of the code; array indices and buffer lengths that never wrap are natural
  numbers. An error code is \<open>esp_err\<close> or \<open>option\<close>. A call that can block forever (the store mutex taken twice) or a loop that can
  run forever (eviction with failing erases, the update of SHA-256) returns \<open>None\<close>, so that a theorem that the code returns says so explicitly; loops with a
  bound of the code (slots, ring sizes, sectors) are folds or recursion over lists, and nothing uses fuel. Calls into
  modules that are modelled elsewhere are either composed (the courier and the store, the sessions and the library, BLE and the
  registry) or collected in order as outputs (packets to send, events for the worker).

  \<^bold>\<open>Parameters and hypotheses.\<close> Code outside the repository is a parameter: PSA, Ed25519 and Curve25519, NVS, the flash
  driver, the ESP OTA driver, miniz, the NimBLE host and the radio chip. What the theorems assume of them are the named
  predicates \<open>flash_works\<close> (reads return what writes and erases left), \<open>signs_verify\<close>, \<open>api_works\<close>, \<open>aead_ok\<close> and \<open>prims_ok\<close>
  (decryption inverts encryption, key agreement is symmetric, lengths), \<open>ident_io_ok\<close> and \<open>node_ok\<close>; each has a concrete instance in a witness.
  For the cipher and the hash of the library itself \<open>aead_ok\<close> and the hash part of \<open>prims_ok\<close> are proved.
  Time is an argument, monotone only where a statement says so. Interleaving is the sequence of whole operations: each one
  runs under its module's mutex or on one task.

  \<^bold>\<open>Not modelled.\<close> The curves behind the primitives of the Noise library (Curve25519, Ed25519), the algorithms of the cipher
  suites the node does not name, the other handshake patterns, key files and name tables: vendored code the node does not reach or
  uses through the documented behaviour above. The register driver of the radio chip (\<open>sx1262.c\<close>) and the start-up
  sequence of \<open>main.c\<close> are glue around hardware. Logging, task creation and heap statistics have no effect on the state.
  Scripts and the host-side tools are not part of the firmware.
\<close>

section \<open>The primitives of the Noise library\<close>

text \<open>
  The sessions are proved for any primitives that satisfy \<open>prims_ok\<close>. With the hash and the cipher of the library itself only the laws of
  Curve25519 are left as hypotheses: points are 32 bytes, a public key is not zero, key agreement is symmetric.
\<close>

definition library_prims :: "(bytes \<Rightarrow> bytes) \<Rightarrow> (bytes \<Rightarrow> bytes \<Rightarrow> bytes) \<Rightarrow> noise_prims" where
  "library_prims base agree = \<lparr> np_hash = (\<lambda>d. the (noise_sha256 d)), np_base = base, np_mult = agree, np_aead = chachapoly_aead \<rparr>"

lemma library_prims_ok:
  assumes "\<And>k. length (base k) = 32" "\<And>k. \<not> noise_is_zero (base k)" "\<And>a b. agree a (base b) = agree b (base a)"
  shows "prims_ok (library_prims base agree)"
  using assms by (simp add: prims_ok_def library_prims_def noise_sha256_fips chachapoly_aead_ok)

end
